(* ===== verification/Pintos_Prelude.thy ===== *)
theory Pintos_Prelude
  imports Main "HOL-Library.Word" "HOL-Library.Monad_Syntax"
    "HOL-Library.Signed_Division" "HOL-Library.Multiset"
begin

text \<open>
  Shared vocabulary of the development: the result type of kernel code that can panic,
  C's 32- and 64-bit signed arithmetic on \<open>int\<close>, and the generic lemmas on options and
  lists that the component theories use.

  A kernel function that can fail an \<open>ASSERT\<close>, call \<open>PANIC\<close> or dereference a pointer
  that does not point to an object returns an \<open>option\<close>: \<open>None\<close> is the panic (or, for a
  loop defined with \<open>partial_function\<close>, not returning). The do-notation of
  \<open>HOL-Library.Monad_Syntax\<close> sequences such calls, so a panic anywhere ends the run,
  as it does in the kernel.
\<close>

named_theorems c_arith \<open>unfolding rules for C integer arithmetic\<close>

type_synonym byte = "8 word"

section \<open>Panics\<close>

definition ASSERT :: "bool \<Rightarrow> unit option" where
  "ASSERT b = (if b then Some () else None)"

lemma ASSERT_True [simp]: "ASSERT True = Some ()"
  by (simp add: ASSERT_def)

lemma ASSERT_False [simp]: "ASSERT False = None"
  by (simp add: ASSERT_def)

lemma ASSERT_bind [simp]: "(ASSERT b \<bind> f) = (if b then f () else None)"
  by (simp add: ASSERT_def)

lemma ASSERT_eq_Some [simp]: "ASSERT b = Some u \<longleftrightarrow> b"
  by (simp add: ASSERT_def)

section \<open>C integers\<close>

text \<open>
  A C \<open>int\<close> (\<open>int32_t\<close>) is a HOL \<open>int\<close> in the range \<open>[-2^31, 2^31)\<close>; the result of
  an operation is brought back into that range in two's complement by \<open>i32\<close>, which is what
  the compiled code computes. \<open>i64\<close> is the same for \<open>int64_t\<close>. C's division and
  remainder truncate towards zero: \<open>sdiv\<close> and \<open>smod\<close> of \<open>HOL-Library.Signed_Division\<close>.
\<close>

definition i32 :: "int \<Rightarrow> int" where
  "i32 x = signed_take_bit 31 x"

definition i64 :: "int \<Rightarrow> int" where
  "i64 x = signed_take_bit 63 x"

definition in_i32 :: "int \<Rightarrow> bool" where
  "in_i32 x \<longleftrightarrow> - (2 ^ 31) \<le> x \<and> x < 2 ^ 31"

definition in_i64 :: "int \<Rightarrow> bool" where
  "in_i64 x \<longleftrightarrow> - (2 ^ 63) \<le> x \<and> x < 2 ^ 63"

lemma i32_id: "in_i32 x \<Longrightarrow> i32 x = x"
  by (simp add: i32_def in_i32_def signed_take_bit_int_eq_self)

lemma i64_id: "in_i64 x \<Longrightarrow> i64 x = x"
  by (simp add: i64_def in_i64_def signed_take_bit_int_eq_self)

lemma in_i32_i32 [simp, intro]: "in_i32 (i32 x)"
  using signed_take_bit_int_greater_eq_minus_exp [of 31 x] signed_take_bit_int_less_exp [of 31 x]
  by (simp add: i32_def in_i32_def)

lemma in_i64_i64 [simp, intro]: "in_i64 (i64 x)"
  using signed_take_bit_int_greater_eq_minus_exp [of 63 x] signed_take_bit_int_less_exp [of 63 x]
  by (simp add: i64_def in_i64_def)

lemma i32_i32 [simp]: "i32 (i32 x) = i32 x"
  by (simp add: i32_id)

lemma i32_0 [simp]: "i32 0 = 0" and i64_0 [simp]: "i64 0 = 0"
  by (simp_all add: i32_def i64_def)

lemmas i32_eval = i32_def in_i32_def
lemmas i64_eval = i64_def in_i64_def

declare i32_id [c_arith] i64_id [c_arith] in_i32_def [c_arith] in_i64_def [c_arith]

lemma sdiv_int_pos: "0 \<le> (a::int) \<Longrightarrow> 0 < b \<Longrightarrow> a sdiv b = a div b"
  by (cases "a = 0") (simp_all add: signed_divide_int_def)

lemma sdiv_int_neg: "(a::int) < 0 \<Longrightarrow> 0 < b \<Longrightarrow> a sdiv b = - ((- a) div b)"
  by (simp add: signed_divide_int_def)

lemma sdiv_int_cancel: "0 < (b::int) \<Longrightarrow> (a * b) sdiv b = a"
  by (cases "0 \<le> a") (simp_all add: sdiv_int_pos sdiv_int_neg mult_less_0_iff flip: mult_minus_left)

lemma div_int_le_self: "0 \<le> (a::int) \<Longrightarrow> 0 < b \<Longrightarrow> a div b \<le> a"
  using zdiv_mono2 [of a 1 b] by simp

lemma sdiv_int_abs_le: "0 < (b::int) \<Longrightarrow> \<bar>a sdiv b\<bar> \<le> \<bar>a\<bar>"
  by (cases "0 \<le> a")
    (simp_all add: sdiv_int_pos sdiv_int_neg div_int_le_self pos_imp_zdiv_nonneg_iff)

end
