(* ===== verification/Kernel_List.thy ===== *)
theory Kernel_List
  imports Pintos_Prelude
begin

text \<open>
  \<open>lib/kernel/list.c\<close>: the doubly linked lists every kernel component keeps its
  objects on. The model is at the level of the C code: a heap maps the address of a
  \<open>struct list_elem\<close> to its two links, a \<open>struct list\<close> is the pair of addresses of its
  embedded head and tail elements, and every operation is the sequence of pointer loads and
  stores of the source. Loading or storing through a null or dangling pointer is \<open>None\<close>,
  as is a failed \<open>ASSERT\<close> (a \<open>klist\<close> is an object, so the source's
  \<open>ASSERT (list != NULL)\<close> has nothing to check); a traversal that never meets its end is \<open>None\<close> too. What the
  operations do to a well-formed list is in \<open>List_Refine\<close>, sorting is in \<open>List_Sort\<close>.
\<close>

section \<open>Elements, lists and the heap\<close>

type_synonym addr = nat

definition NULL :: addr where
  "NULL = 0"

record list_elem =
  le_prev :: addr
  le_next :: addr

type_synonym heap = "addr \<Rightarrow> list_elem option"

record klist =
  l_head :: addr
  l_tail :: addr

definition load :: "heap \<Rightarrow> addr \<Rightarrow> list_elem option" where
  "load h p = (if p = NULL then None else h p)"

definition get_prev :: "heap \<Rightarrow> addr \<Rightarrow> addr option" where
  "get_prev h p = map_option le_prev (load h p)"

definition get_next :: "heap \<Rightarrow> addr \<Rightarrow> addr option" where
  "get_next h p = map_option le_next (load h p)"

definition set_prev :: "heap \<Rightarrow> addr \<Rightarrow> addr \<Rightarrow> heap option" where
  "set_prev h p v = do { e \<leftarrow> load h p; Some (h(p \<mapsto> e\<lparr>le_prev := v\<rparr>)) }"

definition set_next :: "heap \<Rightarrow> addr \<Rightarrow> addr \<Rightarrow> heap option" where
  "set_next h p v = do { e \<leftarrow> load h p; Some (h(p \<mapsto> e\<lparr>le_next := v\<rparr>)) }"

section \<open>Kinds of elements\<close>

definition is_head :: "heap \<Rightarrow> addr \<Rightarrow> bool option" where
  "is_head h e =
     (if e = NULL then Some False
      else do { x \<leftarrow> load h e; Some (le_prev x = NULL \<and> le_next x \<noteq> NULL) })"

definition is_interior :: "heap \<Rightarrow> addr \<Rightarrow> bool option" where
  "is_interior h e =
     (if e = NULL then Some False
      else do { x \<leftarrow> load h e; Some (le_prev x \<noteq> NULL \<and> le_next x \<noteq> NULL) })"

definition is_tail :: "heap \<Rightarrow> addr \<Rightarrow> bool option" where
  "is_tail h e =
     (if e = NULL then Some False
      else do { x \<leftarrow> load h e; Some (le_prev x \<noteq> NULL \<and> le_next x = NULL) })"

section \<open>Initialisation and traversal\<close>

definition list_init :: "heap \<Rightarrow> klist \<Rightarrow> heap option" where
  "list_init h l = do {
     h \<leftarrow> set_prev h (l_head l) NULL;
     h \<leftarrow> set_next h (l_head l) (l_tail l);
     h \<leftarrow> set_prev h (l_tail l) (l_head l);
     set_next h (l_tail l) NULL }"

definition list_begin :: "heap \<Rightarrow> klist \<Rightarrow> addr option" where
  "list_begin h l = get_next h (l_head l)"

definition list_next :: "heap \<Rightarrow> addr \<Rightarrow> addr option" where
  "list_next h e = do {
     a \<leftarrow> is_head h e; b \<leftarrow> is_interior h e;
     _ \<leftarrow> ASSERT (a \<or> b);
     get_next h e }"

definition list_end :: "klist \<Rightarrow> addr" where
  "list_end l = l_tail l"

definition list_rbegin :: "heap \<Rightarrow> klist \<Rightarrow> addr option" where
  "list_rbegin h l = get_prev h (l_tail l)"

definition list_prev :: "heap \<Rightarrow> addr \<Rightarrow> addr option" where
  "list_prev h e = do {
     a \<leftarrow> is_interior h e; b \<leftarrow> is_tail h e;
     _ \<leftarrow> ASSERT (a \<or> b);
     get_prev h e }"

definition list_rend :: "klist \<Rightarrow> addr" where
  "list_rend l = l_head l"

definition list_head :: "klist \<Rightarrow> addr" where
  "list_head l = l_head l"

definition list_tail :: "klist \<Rightarrow> addr" where
  "list_tail l = l_tail l"

section \<open>Insertion and removal\<close>

definition list_insert :: "heap \<Rightarrow> addr \<Rightarrow> addr \<Rightarrow> heap option" where
  "list_insert h before e = do {
     a \<leftarrow> is_interior h before; b \<leftarrow> is_tail h before;
     _ \<leftarrow> ASSERT (a \<or> b);
     _ \<leftarrow> ASSERT (e \<noteq> NULL);
     p \<leftarrow> get_prev h before;
     h \<leftarrow> set_prev h e p;
     h \<leftarrow> set_next h e before;
     p \<leftarrow> get_prev h before;
     h \<leftarrow> set_next h p e;
     set_prev h before e }"

definition list_splice :: "heap \<Rightarrow> addr \<Rightarrow> addr \<Rightarrow> addr \<Rightarrow> heap option" where
  "list_splice h before first lst = do {
     a \<leftarrow> is_interior h before; b \<leftarrow> is_tail h before;
     _ \<leftarrow> ASSERT (a \<or> b);
     if first = lst then Some h
     else do {
       lst \<leftarrow> list_prev h lst;
       a \<leftarrow> is_interior h first; _ \<leftarrow> ASSERT a;
       b \<leftarrow> is_interior h lst; _ \<leftarrow> ASSERT b;
       p \<leftarrow> get_prev h first; n \<leftarrow> get_next h lst;
       h \<leftarrow> set_next h p n;
       n \<leftarrow> get_next h lst; p \<leftarrow> get_prev h first;
       h \<leftarrow> set_prev h n p;
       p \<leftarrow> get_prev h before;
       h \<leftarrow> set_prev h first p;
       h \<leftarrow> set_next h lst before;
       p \<leftarrow> get_prev h before;
       h \<leftarrow> set_next h p first;
       set_prev h before lst } }"

definition list_push_front :: "heap \<Rightarrow> klist \<Rightarrow> addr \<Rightarrow> heap option" where
  "list_push_front h l e = do { b \<leftarrow> list_begin h l; list_insert h b e }"

definition list_push_back :: "heap \<Rightarrow> klist \<Rightarrow> addr \<Rightarrow> heap option" where
  "list_push_back h l e = list_insert h (list_end l) e"

definition list_remove :: "heap \<Rightarrow> addr \<Rightarrow> (addr \<times> heap) option" where
  "list_remove h e = do {
     a \<leftarrow> is_interior h e; _ \<leftarrow> ASSERT a;
     p \<leftarrow> get_prev h e; n \<leftarrow> get_next h e;
     h \<leftarrow> set_next h p n;
     n \<leftarrow> get_next h e; p \<leftarrow> get_prev h e;
     h \<leftarrow> set_prev h n p;
     n \<leftarrow> get_next h e;
     Some (n, h) }"

definition list_empty :: "heap \<Rightarrow> klist \<Rightarrow> bool option" where
  "list_empty h l = do { b \<leftarrow> list_begin h l; Some (b = list_end l) }"

definition list_front :: "heap \<Rightarrow> klist \<Rightarrow> addr option" where
  "list_front h l = do {
     b \<leftarrow> list_empty h l; _ \<leftarrow> ASSERT (\<not> b);
     get_next h (l_head l) }"

definition list_back :: "heap \<Rightarrow> klist \<Rightarrow> addr option" where
  "list_back h l = do {
     b \<leftarrow> list_empty h l; _ \<leftarrow> ASSERT (\<not> b);
     get_prev h (l_tail l) }"

definition list_pop_front :: "heap \<Rightarrow> klist \<Rightarrow> (addr \<times> heap) option" where
  "list_pop_front h l = do {
     f \<leftarrow> list_front h l;
     (_, h) \<leftarrow> list_remove h f;
     Some (f, h) }"

definition list_pop_back :: "heap \<Rightarrow> klist \<Rightarrow> (addr \<times> heap) option" where
  "list_pop_back h l = do {
     b \<leftarrow> list_back h l;
     (_, h) \<leftarrow> list_remove h b;
     Some (b, h) }"

section \<open>Traversing operations\<close>

partial_function (option) list_size_loop ::
  "heap \<Rightarrow> klist \<Rightarrow> addr \<Rightarrow> nat \<Rightarrow> nat option" where
  "list_size_loop h l e cnt =
     (if e \<noteq> list_end l
      then do { e' \<leftarrow> list_next h e; list_size_loop h l e' (cnt + 1) }
      else Some cnt)"

definition list_size :: "heap \<Rightarrow> klist \<Rightarrow> nat option" where
  "list_size h l = do { e \<leftarrow> list_begin h l; list_size_loop h l e 0 }"

text \<open>
  \<open>swap (&e->prev, &e->next)\<close> exchanges the two links of one element; the two other uses of
  \<open>swap\<close> in \<open>list_reverse\<close> exchange links of two elements.
\<close>

definition swap_links :: "heap \<Rightarrow> addr \<Rightarrow> heap option" where
  "swap_links h e = do {
     p \<leftarrow> get_prev h e; n \<leftarrow> get_next h e;
     h \<leftarrow> set_prev h e n;
     set_next h e p }"

partial_function (option) list_reverse_loop ::
  "heap \<Rightarrow> klist \<Rightarrow> addr \<Rightarrow> heap option" where
  "list_reverse_loop h l e =
     (if e \<noteq> list_end l
      then do { h \<leftarrow> swap_links h e; e' \<leftarrow> get_prev h e; list_reverse_loop h l e' }
      else Some h)"

definition list_reverse :: "heap \<Rightarrow> klist \<Rightarrow> heap option" where
  "list_reverse h l = do {
     b \<leftarrow> list_empty h l;
     if \<not> b then do {
       e \<leftarrow> list_begin h l;
       h \<leftarrow> list_reverse_loop h l e;
       n \<leftarrow> get_next h (l_head l); p \<leftarrow> get_prev h (l_tail l);
       h \<leftarrow> set_next h (l_head l) p;
       h \<leftarrow> set_prev h (l_tail l) n;
       x \<leftarrow> get_next h (l_head l); y \<leftarrow> get_prev h (l_tail l);
       xp \<leftarrow> get_prev h x; yn \<leftarrow> get_next h y;
       h \<leftarrow> set_prev h x yn;
       set_next h y xp }
     else Some h }"

section \<open>Operations on lists with ordered elements\<close>

text \<open>
  A \<open>list_less_func\<close> reads the objects the elements are embedded in; it is a parameter
  \<open>lt\<close> of the operations, with the auxiliary pointer already applied.
\<close>

partial_function (option) is_sorted_loop ::
  "(addr \<Rightarrow> addr \<Rightarrow> bool) \<Rightarrow> heap \<Rightarrow> addr \<Rightarrow> addr \<Rightarrow> bool option" where
  "is_sorted_loop lt h a b = do {
     a \<leftarrow> list_next h a;
     if a \<noteq> b then do {
       p \<leftarrow> list_prev h a;
       if lt a p then Some False else is_sorted_loop lt h a b }
     else Some True }"

definition is_sorted :: "(addr \<Rightarrow> addr \<Rightarrow> bool) \<Rightarrow> heap \<Rightarrow> addr \<Rightarrow> addr \<Rightarrow> bool option" where
  "is_sorted lt h a b = (if a \<noteq> b then is_sorted_loop lt h a b else Some True)"

partial_function (option) find_end_loop ::
  "(addr \<Rightarrow> addr \<Rightarrow> bool) \<Rightarrow> heap \<Rightarrow> addr \<Rightarrow> addr \<Rightarrow> addr option" where
  "find_end_loop lt h a b = do {
     a \<leftarrow> list_next h a;
     if a \<noteq> b then do {
       p \<leftarrow> list_prev h a;
       if \<not> lt a p then find_end_loop lt h a b else Some a }
     else Some a }"

definition find_end_of_run ::
  "(addr \<Rightarrow> addr \<Rightarrow> bool) \<Rightarrow> heap \<Rightarrow> addr \<Rightarrow> addr \<Rightarrow> addr option" where
  "find_end_of_run lt h a b = do {
     _ \<leftarrow> ASSERT (a \<noteq> NULL); _ \<leftarrow> ASSERT (b \<noteq> NULL); _ \<leftarrow> ASSERT (a \<noteq> b);
     find_end_loop lt h a b }"

partial_function (option) inplace_merge_loop ::
  "(addr \<Rightarrow> addr \<Rightarrow> bool) \<Rightarrow> heap \<Rightarrow> addr \<Rightarrow> addr \<Rightarrow> addr \<Rightarrow> heap option" where
  "inplace_merge_loop lt h a0 a1b0 b1 =
     (if a0 \<noteq> a1b0 \<and> a1b0 \<noteq> b1
      then if \<not> lt a1b0 a0
        then do { a0 \<leftarrow> list_next h a0; inplace_merge_loop lt h a0 a1b0 b1 }
        else do {
          a1b0 \<leftarrow> list_next h a1b0;
          p \<leftarrow> list_prev h a1b0;
          h \<leftarrow> list_splice h a0 p a1b0;
          inplace_merge_loop lt h a0 a1b0 b1 }
      else Some h)"

definition inplace_merge ::
  "(addr \<Rightarrow> addr \<Rightarrow> bool) \<Rightarrow> heap \<Rightarrow> addr \<Rightarrow> addr \<Rightarrow> addr \<Rightarrow> heap option" where
  "inplace_merge lt h a0 a1b0 b1 = do {
     _ \<leftarrow> ASSERT (a0 \<noteq> NULL); _ \<leftarrow> ASSERT (a1b0 \<noteq> NULL); _ \<leftarrow> ASSERT (b1 \<noteq> NULL);
     s \<leftarrow> is_sorted lt h a0 a1b0; _ \<leftarrow> ASSERT s;
     s \<leftarrow> is_sorted lt h a1b0 b1; _ \<leftarrow> ASSERT s;
     inplace_merge_loop lt h a0 a1b0 b1 }"

partial_function (option) list_sort_pass ::
  "(addr \<Rightarrow> addr \<Rightarrow> bool) \<Rightarrow> heap \<Rightarrow> klist \<Rightarrow> addr \<Rightarrow> nat \<Rightarrow> (heap \<times> nat) option" where
  "list_sort_pass lt h l a0 cnt =
     (if a0 \<noteq> list_end l then do {
        a1b0 \<leftarrow> find_end_of_run lt h a0 (list_end l);
        if a1b0 = list_end l then Some (h, cnt + 1)
        else do {
          b1 \<leftarrow> find_end_of_run lt h a1b0 (list_end l);
          h \<leftarrow> inplace_merge lt h a0 a1b0 b1;
          list_sort_pass lt h l b1 (cnt + 1) } }
      else Some (h, cnt))"

partial_function (option) list_sort ::
  "(addr \<Rightarrow> addr \<Rightarrow> bool) \<Rightarrow> heap \<Rightarrow> klist \<Rightarrow> heap option" where
  "list_sort lt h l = do {
     b \<leftarrow> list_begin h l;
     (h, cnt) \<leftarrow> list_sort_pass lt h l b 0;
     if cnt > 1 then list_sort lt h l
     else do {
       b \<leftarrow> list_begin h l;
       s \<leftarrow> is_sorted lt h b (list_end l); _ \<leftarrow> ASSERT s;
       Some h } }"

partial_function (option) insert_ordered_loop ::
  "(addr \<Rightarrow> addr \<Rightarrow> bool) \<Rightarrow> heap \<Rightarrow> klist \<Rightarrow> addr \<Rightarrow> addr \<Rightarrow> addr option" where
  "insert_ordered_loop lt h l x e =
     (if e \<noteq> list_end l
      then if lt x e then Some e
        else do { e \<leftarrow> list_next h e; insert_ordered_loop lt h l x e }
      else Some e)"

definition list_insert_ordered ::
  "(addr \<Rightarrow> addr \<Rightarrow> bool) \<Rightarrow> heap \<Rightarrow> klist \<Rightarrow> addr \<Rightarrow> heap option" where
  "list_insert_ordered lt h l x = do {
     _ \<leftarrow> ASSERT (x \<noteq> NULL);
     e \<leftarrow> list_begin h l;
     e \<leftarrow> insert_ordered_loop lt h l x e;
     list_insert h e x }"

partial_function (option) list_unique_loop ::
  "(addr \<Rightarrow> addr \<Rightarrow> bool) \<Rightarrow> heap \<Rightarrow> klist \<Rightarrow> klist option \<Rightarrow> addr \<Rightarrow> heap option" where
  "list_unique_loop lt h l dups e = do {
     n \<leftarrow> list_next h e;
     if n \<noteq> list_end l then
       if \<not> lt e n \<and> \<not> lt n e then do {
         (_, h) \<leftarrow> list_remove h n;
         h \<leftarrow> (case dups of None \<Rightarrow> Some h | Some d \<Rightarrow> list_push_back h d n);
         list_unique_loop lt h l dups e }
       else list_unique_loop lt h l dups n
     else Some h }"

definition list_unique ::
  "(addr \<Rightarrow> addr \<Rightarrow> bool) \<Rightarrow> heap \<Rightarrow> klist \<Rightarrow> klist option \<Rightarrow> heap option" where
  "list_unique lt h l dups = do {
     b \<leftarrow> list_empty h l;
     if b then Some h
     else do { e \<leftarrow> list_begin h l; list_unique_loop lt h l dups e } }"

partial_function (option) list_max_loop ::
  "(addr \<Rightarrow> addr \<Rightarrow> bool) \<Rightarrow> heap \<Rightarrow> klist \<Rightarrow> addr \<Rightarrow> addr \<Rightarrow> addr option" where
  "list_max_loop lt h l m e =
     (if e \<noteq> list_end l
      then do { e' \<leftarrow> list_next h e; list_max_loop lt h l (if lt m e then e else m) e' }
      else Some m)"

definition list_max :: "(addr \<Rightarrow> addr \<Rightarrow> bool) \<Rightarrow> heap \<Rightarrow> klist \<Rightarrow> addr option" where
  "list_max lt h l = do {
     m \<leftarrow> list_begin h l;
     if m \<noteq> list_end l then do { e \<leftarrow> list_next h m; list_max_loop lt h l m e }
     else Some m }"

partial_function (option) list_min_loop ::
  "(addr \<Rightarrow> addr \<Rightarrow> bool) \<Rightarrow> heap \<Rightarrow> klist \<Rightarrow> addr \<Rightarrow> addr \<Rightarrow> addr option" where
  "list_min_loop lt h l m e =
     (if e \<noteq> list_end l
      then do { e' \<leftarrow> list_next h e; list_min_loop lt h l (if lt e m then e else m) e' }
      else Some m)"

definition list_min :: "(addr \<Rightarrow> addr \<Rightarrow> bool) \<Rightarrow> heap \<Rightarrow> klist \<Rightarrow> addr option" where
  "list_min lt h l = do {
     m \<leftarrow> list_begin h l;
     if m \<noteq> list_end l then do { e \<leftarrow> list_next h m; list_min_loop lt h l m e }
     else Some m }"

declare list_size_loop.simps [code]
  list_reverse_loop.simps [code]
  is_sorted_loop.simps [code]
  find_end_loop.simps [code]
  inplace_merge_loop.simps [code]
  list_sort_pass.simps [code]
  list_sort.simps [code]
  insert_ordered_loop.simps [code]
  list_unique_loop.simps [code]
  list_max_loop.simps [code]
  list_min_loop.simps [code]

end
