(* ===== verification/List_Refine.thy ===== *)
theory List_Refine
  imports Kernel_List
begin

text \<open>
  What the pointer operations of \<open>list.c\<close> do to a well-formed list. \<open>dlist h l xs\<close> says that
  in heap \<open>h\<close> the list \<open>l\<close> holds the interior elements \<open>xs\<close>, front to back: the links
  of head, elements and tail agree in both directions, nothing occurs twice and nothing is
  null. Every operation, run on such a heap, does not panic and leaves a well-formed list with
  the contents the interface promises; cells outside the list are untouched.
\<close>

section \<open>Heap updates\<close>

definition valid :: "heap \<Rightarrow> addr \<Rightarrow> bool" where
  "valid h p \<longleftrightarrow> p \<noteq> NULL \<and> h p \<noteq> None"

definition upd_prev :: "heap \<Rightarrow> addr \<Rightarrow> addr \<Rightarrow> heap" where
  "upd_prev h p v = h(p := map_option (\<lambda>e. e\<lparr>le_prev := v\<rparr>) (h p))"

definition upd_next :: "heap \<Rightarrow> addr \<Rightarrow> addr \<Rightarrow> heap" where
  "upd_next h p v = h(p := map_option (\<lambda>e. e\<lparr>le_next := v\<rparr>) (h p))"

lemma set_prev_upd [simp]: "valid h p \<Longrightarrow> set_prev h p v = Some (upd_prev h p v)"
  by (auto simp: set_prev_def load_def valid_def upd_prev_def)

lemma set_next_upd [simp]: "valid h p \<Longrightarrow> set_next h p v = Some (upd_next h p v)"
  by (auto simp: set_next_def load_def valid_def upd_next_def)

lemma valid_upd [simp]:
  "valid (upd_prev h p v) q = valid h q" "valid (upd_next h p v) q = valid h q"
  by (auto simp: valid_def upd_prev_def upd_next_def)

lemma get_upd [simp]:
  "get_prev (upd_prev h p v) q = (if q = p \<and> valid h p then Some v else get_prev h q)"
  "get_next (upd_next h p v) q = (if q = p \<and> valid h p then Some v else get_next h q)"
  "get_next (upd_prev h p v) q = get_next h q"
  "get_prev (upd_next h p v) q = get_prev h q"
  by (auto simp: get_prev_def get_next_def load_def valid_def upd_prev_def upd_next_def
      option.map_comp comp_def split: option.splits)

lemma upd_other [simp]:
  "q \<noteq> p \<Longrightarrow> upd_prev h p v q = h q" "q \<noteq> p \<Longrightarrow> upd_next h p v q = h q"
  by (simp_all add: upd_prev_def upd_next_def)

lemma get_prev_valid: "get_prev h p = Some v \<Longrightarrow> valid h p"
  by (auto simp: get_prev_def load_def valid_def split: if_splits)

lemma get_next_valid: "get_next h p = Some v \<Longrightarrow> valid h p"
  by (auto simp: get_next_def load_def valid_def split: if_splits)

lemma kind_eqs:
  assumes "get_prev h a = Some p" and "get_next h a = Some n"
  shows "is_head h a = Some (p = NULL \<and> n \<noteq> NULL)"
    "is_interior h a = Some (p \<noteq> NULL \<and> n \<noteq> NULL)"
    "is_tail h a = Some (p \<noteq> NULL \<and> n = NULL)"
  using assms
  by (auto simp: is_head_def is_interior_def is_tail_def get_prev_def get_next_def load_def
      split: if_splits)

section \<open>Linked chains\<close>

fun linked :: "heap \<Rightarrow> addr list \<Rightarrow> bool" where
  "linked h (a # b # cs) =
     (get_next h a = Some b \<and> get_prev h b = Some a \<and> linked h (b # cs))"
| "linked h _ = True"

lemma linked_Cons:
  "linked h (a # cs) \<longleftrightarrow>
     (cs = [] \<or> get_next h a = Some (hd cs) \<and> get_prev h (hd cs) = Some a \<and> linked h cs)"
  by (cases cs) auto

lemma linked_append:
  "linked h (xs @ a # ys) \<longleftrightarrow> linked h (xs @ [a]) \<and> linked h (a # ys)"
  by (induction xs) (auto simp: linked_Cons hd_append)

lemma linked_split:
  "linked h (us @ a # b # vs) \<longleftrightarrow>
     linked h (us @ [a]) \<and> get_next h a = Some b \<and> get_prev h b = Some a \<and> linked h (b # vs)"
  by (induction us) (auto simp: linked_Cons hd_append)

lemma linked_app:
  "linked h (xs @ ys) \<longleftrightarrow> linked h xs \<and> linked h ys \<and>
     (xs = [] \<or> ys = [] \<or> get_next h (last xs) = Some (hd ys) \<and> get_prev h (hd ys) = Some (last xs))"
  by (induction xs) (auto simp: linked_Cons hd_append)

lemma linked_appendE:
  "linked h (xs @ ys) \<Longrightarrow> linked h xs \<and> linked h ys"
  by (induction xs) (auto simp: linked_Cons)

lemma linked_cong:
  assumes "\<And>a. a \<in> set (butlast zs) \<Longrightarrow> get_next h' a = get_next h a"
    and "\<And>a. a \<in> set (tl zs) \<Longrightarrow> get_prev h' a = get_prev h a"
  shows "linked h' zs = linked h zs"
  using assms
proof (induction zs)
  case (Cons a zs)
  show ?case
  proof (cases zs)
    case (Cons b cs)
    have "linked h' zs = linked h zs"
      using Cons by (intro Cons.IH) (auto simp: Cons.prems split: list.splits)
    moreover have "get_next h' a = get_next h a" "get_prev h' b = get_prev h b"
      using Cons by (auto simp: Cons.prems)
    ultimately show ?thesis by (simp add: Cons)
  qed simp
qed simp

lemma linked_update:
  assumes "linked h zs" and "distinct zs"
    and "\<And>a. a \<in> set zs \<Longrightarrow> a \<noteq> last zs \<Longrightarrow> get_next h' a = get_next h a"
    and "\<And>a. a \<in> set zs \<Longrightarrow> a \<noteq> hd zs \<Longrightarrow> get_prev h' a = get_prev h a"
  shows "linked h' zs"
  using assms
proof (induction zs)
  case (Cons a zs)
  show ?case
  proof (cases zs)
    case nz: (Cons b cs)
    have "linked h' zs"
      using Cons.prems nz by (intro Cons.IH) auto
    moreover have "get_next h' a = Some b" "get_prev h' b = Some a"
      using Cons.prems(1,2) Cons.prems(3) [of a] Cons.prems(4) [of b] last_in_set [of zs] nz by auto
    ultimately show ?thesis using nz by simp
  qed simp
qed simp

definition ring :: "heap \<Rightarrow> addr list \<Rightarrow> bool" where
  "ring h zs \<longleftrightarrow> linked h zs \<and> distinct zs \<and> NULL \<notin> set zs \<and> 2 \<le> length zs \<and>
     get_prev h (hd zs) = Some NULL \<and> get_next h (last zs) = Some NULL"

definition dlist :: "heap \<Rightarrow> klist \<Rightarrow> addr list \<Rightarrow> bool" where
  "dlist h l xs \<longleftrightarrow> ring h (l_head l # xs @ [l_tail l])"

definition cells :: "klist \<Rightarrow> addr list \<Rightarrow> addr set" where
  "cells l xs = insert (l_head l) (insert (l_tail l) (set xs))"

definition agree_off :: "addr set \<Rightarrow> heap \<Rightarrow> heap \<Rightarrow> bool" where
  "agree_off A h h' \<longleftrightarrow>
     (\<forall>q. q \<notin> A \<longrightarrow> h' q = h q) \<and> (\<forall>q. valid h' q = valid h q)"

lemma agree_off_refl [simp]: "agree_off A h h"
  by (simp add: agree_off_def)

lemma agree_off_trans: "agree_off A h h' \<Longrightarrow> agree_off A h' h'' \<Longrightarrow> agree_off A h h''"
  by (simp add: agree_off_def)

lemma agree_off_mono: "agree_off A h h' \<Longrightarrow> A \<subseteq> B \<Longrightarrow> agree_off B h h'"
  by (auto simp: agree_off_def)

lemma agree_off_upd [simp]:
  "agree_off A h (upd_prev h' p v) \<longleftrightarrow> agree_off A h h'" if "p \<in> A"
  using that unfolding agree_off_def valid_upd by (metis upd_other(1))

lemma agree_off_upd_next [simp]:
  "agree_off A h (upd_next h' p v) \<longleftrightarrow> agree_off A h h'" if "p \<in> A"
  using that unfolding agree_off_def valid_upd by (metis upd_other(2))

lemma ring_link:
  assumes "ring h (us @ a # b # vs)"
  shows "get_next h a = Some b" "get_prev h b = Some a"
  using assms by (auto simp: ring_def linked_split)

lemma ring_first: "ring h (a # vs) \<Longrightarrow> get_prev h a = Some NULL"
  and ring_last: "ring h (us @ [a]) \<Longrightarrow> get_next h a = Some NULL"
  by (auto simp: ring_def)

lemma ring_nonnull: "ring h zs \<Longrightarrow> a \<in> set zs \<Longrightarrow> a \<noteq> NULL"
  by (auto simp: ring_def)

lemma ring_valid:
  assumes "ring h zs" and "a \<in> set zs"
  shows "valid h a"
proof -
  obtain us vs where zs: "zs = us @ a # vs"
    using assms(2) by (auto simp: in_set_conv_decomp)
  show ?thesis
  proof (cases vs)
    case Nil
    then show ?thesis using assms(1) zs ring_last get_next_valid by blast
  next
    case (Cons b vs')
    then show ?thesis using assms(1) zs ring_link(1) get_next_valid by blast
  qed
qed

lemma ring_get_next_Ex:
  assumes "ring h (us @ a # vs)"
  shows "get_next h a = Some (case vs of [] \<Rightarrow> NULL | b # _ \<Rightarrow> b)"
  using assms by (auto split: list.split dest: ring_link ring_last)

lemma ring_get_prev_Ex:
  assumes "ring h (us @ a # vs)"
  shows "get_prev h a = Some (if us = [] then NULL else last us)"
proof (cases us rule: rev_cases)
  case Nil
  with assms show ?thesis by (simp add: ring_first)
next
  case (snoc us' p)
  with assms show ?thesis using ring_link(2) [of h us' p a vs] by simp
qed

section \<open>Traversal\<close>

lemma list_next_ring:
  assumes "ring h (us @ a # b # vs)"
  shows "list_next h a = Some b"
  using ring_get_prev_Ex [OF assms] ring_link(1) [OF assms] ring_nonnull [OF assms, of b]
    ring_nonnull [OF assms, of "last us"]
  by (auto simp: list_next_def kind_eqs)

lemma list_prev_ring:
  assumes "ring h (us @ a # b # vs)"
  shows "list_prev h b = Some a"
proof -
  have "ring h ((us @ [a]) @ b # vs)" using assms by simp
  from ring_get_next_Ex [OF this] ring_link(2) [OF assms] ring_nonnull [OF assms, of a]
  show ?thesis
    by (auto simp: list_prev_def kind_eqs)
qed

lemma interior_or_tail:
  assumes "ring h (us @ p # b # vs)"
  obtains x y where "is_interior h b = Some x" "is_tail h b = Some y" "x \<or> y"
proof -
  have "ring h ((us @ [p]) @ b # vs)" using assms by simp
  from ring_get_next_Ex [OF this] ring_link(2) [OF assms] ring_nonnull [OF assms, of p]
  show ?thesis
    by (intro that) (auto simp: kind_eqs)
qed

lemma interior_ring:
  assumes "ring h (us @ a # vs)" and "us \<noteq> []" and "vs \<noteq> []"
  shows "is_interior h a = Some True"
proof -
  have "last us \<noteq> NULL" "hd vs \<noteq> NULL"
    using ring_nonnull [OF assms(1)] assms(2,3) by auto
  then show ?thesis
    using ring_get_next_Ex [OF assms(1)] ring_get_prev_Ex [OF assms(1)] assms(2,3)
    by (cases vs) (simp_all add: kind_eqs)
qed

lemma list_begin_dlist: "dlist h l xs \<Longrightarrow> list_begin h l = Some (hd (xs @ [l_tail l]))"
  using ring_link(1) [of h "[]"] by (cases xs) (fastforce simp: dlist_def list_begin_def)+

lemma list_empty_dlist: "dlist h l xs \<Longrightarrow> list_empty h l = Some (xs = [])"
  using list_begin_dlist [of h l xs]
  by (cases xs) (auto simp: list_empty_def list_end_def dlist_def ring_def)

lemma list_front_dlist: "dlist h l (x # xs) \<Longrightarrow> list_front h l = Some x"
  using list_begin_dlist [of h l "x # xs"]
  by (simp add: list_front_def list_empty_dlist list_begin_def)

lemma list_back_dlist: "dlist h l (xs @ [x]) \<Longrightarrow> list_back h l = Some x"
  using ring_link(2) [of h "l_head l # xs" x "l_tail l" "[]"]
  by (simp add: list_back_def list_empty_dlist) (simp add: dlist_def)

section \<open>Insertion and removal\<close>

definition insert_heap :: "heap \<Rightarrow> addr \<Rightarrow> addr \<Rightarrow> addr \<Rightarrow> heap" where
  "insert_heap h p b e = upd_prev (upd_next (upd_next (upd_prev h e p) e b) p e) b e"

lemma linked_insert:
  assumes "linked h (us @ p # b # vs)" and "distinct (e # us @ p # b # vs)"
    and "valid h p" "valid h b" "valid h e"
  shows "linked (insert_heap h p b e) (us @ p # e # b # vs)"
proof -
  let ?h = "insert_heap h p b e"
  have "linked h (us @ [p])" "linked h (b # vs)"
    using assms(1) by (simp_all add: linked_split)
  moreover have "linked ?h (us @ [p]) = linked h (us @ [p])"
    using assms(2) by (intro linked_cong) (cases us; auto simp: insert_heap_def)+
  moreover have "linked ?h (b # vs) = linked h (b # vs)"
    using assms(2) by (intro linked_cong) (auto simp: insert_heap_def split: if_splits dest: in_set_butlastD)
  ultimately show ?thesis
    using assms(2-) by (auto simp: linked_split insert_heap_def)
qed

lemma list_insert_ring:
  assumes r: "ring h (us @ p # b # vs)" and e: "valid h e" "e \<notin> set (us @ p # b # vs)"
  shows "list_insert h b e = Some (insert_heap h p b e)"
    and "ring (insert_heap h p b e) (us @ p # e # b # vs)"
    and "agree_off {p, b, e} h (insert_heap h p b e)"
proof -
  have v: "valid h p" "valid h b" using r ring_valid by auto
  obtain x y where xy: "is_interior h b = Some x" "is_tail h b = Some y" "x \<or> y"
    using r by (rule interior_or_tail)
  have "e \<noteq> NULL" using e by (simp add: valid_def)
  then show "list_insert h b e = Some (insert_heap h p b e)"
    using xy e v ring_link [OF r] by (auto simp: list_insert_def insert_heap_def)
  have d: "distinct (e # us @ p # b # vs)" "linked h (us @ p # b # vs)"
    using r e by (auto simp: ring_def)
  show "ring (insert_heap h p b e) (us @ p # e # b # vs)"
    unfolding ring_def
  proof (intro conjI)
    show "linked (insert_heap h p b e) (us @ p # e # b # vs)"
      using linked_insert [OF d(2,1) v e(1)] .
    show "get_prev (insert_heap h p b e) (hd (us @ p # e # b # vs)) = Some NULL"
      using r d(1) by (cases us) (auto simp: ring_def insert_heap_def)
    have "last (us @ p # e # b # vs) = last (us @ p # b # vs)" by simp
    moreover have "last (b # vs) \<noteq> p" "last (b # vs) \<noteq> e"
      using d(1) by (metis UnCI distinct.simps(2) distinct_append last_in_set list.discI
          list.set_intros(2) set_append)+
    ultimately show "get_next (insert_heap h p b e) (last (us @ p # e # b # vs)) = Some NULL"
      using r by (simp add: ring_def insert_heap_def)
  qed (use r e d in \<open>auto simp: ring_def valid_def\<close>)
  show "agree_off {p, b, e} h (insert_heap h p b e)"
    by (simp add: insert_heap_def)
qed

definition remove_heap :: "heap \<Rightarrow> addr \<Rightarrow> addr \<Rightarrow> heap" where
  "remove_heap h p n = upd_prev (upd_next h p n) n p"

lemma linked_remove:
  assumes "linked h (us @ p # e # n # vs)" and "distinct (us @ p # e # n # vs)"
    and "valid h p" "valid h n"
  shows "linked (remove_heap h p n) (us @ p # n # vs)"
proof -
  let ?h = "remove_heap h p n"
  have "linked h (us @ [p])" "linked h (n # vs)"
    using assms(1) by (simp_all add: linked_split)
  moreover have "linked ?h (us @ [p]) = linked h (us @ [p])"
    using assms(2) by (intro linked_cong) (cases us; auto simp: remove_heap_def)+
  moreover have "linked ?h (n # vs) = linked h (n # vs)"
    using assms(2) by (intro linked_cong) (auto simp: remove_heap_def split: if_splits dest: in_set_butlastD)
  ultimately show ?thesis
    using assms(2-) by (auto simp: linked_split remove_heap_def)
qed

lemma list_remove_ring:
  assumes r: "ring h (us @ p # e # n # vs)"
  shows "list_remove h e = Some (n, remove_heap h p n)"
    and "ring (remove_heap h p n) (us @ p # n # vs)"
    and "agree_off {p, n} h (remove_heap h p n)"
proof -
  have v: "valid h p" "valid h e" "valid h n" using r ring_valid by auto
  have r2: "ring h ((us @ [p]) @ e # n # vs)" using r by simp
  have d: "distinct (us @ p # e # n # vs)" "linked h (us @ p # e # n # vs)"
    using r by (auto simp: ring_def)
  show "list_remove h e = Some (n, remove_heap h p n)"
    using interior_ring [OF r2] ring_link [OF r] ring_link [OF r2] v d(1)
    by (auto simp: list_remove_def remove_heap_def)
  show "ring (remove_heap h p n) (us @ p # n # vs)"
    unfolding ring_def
  proof (intro conjI)
    show "linked (remove_heap h p n) (us @ p # n # vs)"
      using linked_remove [OF d(2,1) v(1,3)] .
    show "get_prev (remove_heap h p n) (hd (us @ p # n # vs)) = Some NULL"
      using r d(1) by (cases us) (auto simp: ring_def remove_heap_def)
    have "last (n # vs) \<noteq> p"
      using d(1) by (metis UnCI distinct.simps(2) distinct_append last_in_set list.discI
          list.set_intros(2) set_append)
    then show "get_next (remove_heap h p n) (last (us @ p # n # vs)) = Some NULL"
      using r by (simp add: ring_def remove_heap_def)
  qed (use r d in \<open>auto simp: ring_def\<close>)
  show "agree_off {p, n} h (remove_heap h p n)"
    by (simp add: remove_heap_def)
qed

text \<open>The same facts for a list with its contents.\<close>

lemma dlist_split:
  assumes "dlist h l (xs @ ys)"
  obtains us p b vs where "l_head l # xs = us @ [p]" "ys @ [l_tail l] = b # vs"
    "ring h (us @ p # b # vs)"
proof -
  obtain us p where 1: "l_head l # xs = us @ [p]"
    by (metis append_butlast_last_id list.discI)
  obtain b vs where 2: "ys @ [l_tail l] = b # vs"
    by (cases "ys @ [l_tail l]") auto
  have "l_head l # (xs @ ys) @ [l_tail l] = (l_head l # xs) @ (ys @ [l_tail l])" by simp
  also have "\<dots> = us @ p # b # vs"
    unfolding 1 2 by simp
  finally have "ring h (us @ p # b # vs)"
    using assms by (simp add: dlist_def)
  with 1 2 show ?thesis by (rule that)
qed

lemma dlist_valid: "dlist h l xs \<Longrightarrow> q \<in> cells l xs \<Longrightarrow> valid h q"
  by (rule ring_valid [of h "l_head l # xs @ [l_tail l]"]) (auto simp: dlist_def cells_def)

lemma dlist_distinct: "dlist h l xs \<Longrightarrow> distinct xs"
  by (simp add: dlist_def ring_def)

lemma dlist_not_ends: "dlist h l xs \<Longrightarrow> l_head l \<notin> set xs \<and> l_tail l \<notin> set xs \<and> l_head l \<noteq> l_tail l"
  by (auto simp: dlist_def ring_def)

lemma list_insert_dlist:
  assumes "dlist h l (xs @ ys)" and "valid h e" and "e \<notin> cells l (xs @ ys)"
  shows "\<exists>h'. list_insert h (hd (ys @ [l_tail l])) e = Some h' \<and> dlist h' l (xs @ e # ys) \<and>
    agree_off (insert e (cells l (xs @ ys))) h h'"
proof -
  obtain us p b vs where *: "l_head l # xs = us @ [p]" "ys @ [l_tail l] = b # vs"
    "ring h (us @ p # b # vs)"
    using assms(1) by (rule dlist_split)
  have eq: "us @ p # b # vs = l_head l # xs @ ys @ [l_tail l]"
    using *(1,2) by (metis append.assoc append_Cons append_Nil)
  then have "e \<notin> set (us @ p # b # vs)"
    using assms(3) by (auto simp: cells_def)
  note ins = list_insert_ring [OF *(3) assms(2) this]
  have "us @ p # e # b # vs = l_head l # (xs @ e # ys) @ [l_tail l]"
    using *(1,2) by (metis append.assoc append_Cons append_Nil)
  then have "dlist (insert_heap h p b e) l (xs @ e # ys)"
    using ins(2) by (simp add: dlist_def)
  moreover have "p \<in> set (us @ p # b # vs)" "b \<in> set (us @ p # b # vs)" by simp_all
  then have "{p, b, e} \<subseteq> insert e (cells l (xs @ ys))"
    unfolding eq by (auto simp: cells_def)
  ultimately show ?thesis
    using ins(1,3) *(2) by (auto intro: agree_off_mono)
qed

lemma list_remove_dlist:
  assumes "dlist h l (xs @ e # ys)"
  shows "\<exists>h'. list_remove h e = Some (hd (ys @ [l_tail l]), h') \<and> dlist h' l (xs @ ys) \<and>
    agree_off (cells l (xs @ ys)) h h'"
proof -
  obtain us p b vs where *: "l_head l # xs = us @ [p]" "(e # ys) @ [l_tail l] = b # vs"
    "ring h (us @ p # b # vs)"
    using assms by (rule dlist_split)
  from *(2) have b: "b = e" "vs = hd (ys @ [l_tail l]) # tl (ys @ [l_tail l])"
    by (auto simp: neq_Nil_conv intro: list.collapse [symmetric])
  define n ws where nws: "n = hd (ys @ [l_tail l])" "ws = tl (ys @ [l_tail l])"
  have r: "ring h (us @ p # e # n # ws)"
    using *(3) b nws by simp
  note rem = list_remove_ring [OF r]
  have yn: "ys @ [l_tail l] = n # ws"
    using b(2) *(2) nws by simp
  have eq: "us @ p # n # ws = l_head l # (xs @ ys) @ [l_tail l]"
    using *(1) yn by (metis append.assoc append_Cons append_Nil)
  then have "dlist (remove_heap h p n) l (xs @ ys)"
    using rem(2) by (simp add: dlist_def)
  moreover have "p \<in> set (us @ p # n # ws)" "n \<in> set (us @ p # n # ws)" by simp_all
  then have "{p, n} \<subseteq> cells l (xs @ ys)"
    unfolding eq by (auto simp: cells_def)
  ultimately show ?thesis
    using rem(1,3) nws(1) by (auto intro: agree_off_mono)
qed

lemma list_init_dlist:
  assumes "valid h (l_head l)" "valid h (l_tail l)" "l_head l \<noteq> l_tail l"
  shows "\<exists>h'. list_init h l = Some h' \<and> dlist h' l [] \<and> agree_off (cells l []) h h'"
  using assms by (auto simp: list_init_def dlist_def ring_def cells_def valid_def [of h])

section \<open>Moving a segment\<close>

definition splice_heap :: "heap \<Rightarrow> addr \<Rightarrow> addr \<Rightarrow> addr \<Rightarrow> addr \<Rightarrow> addr \<Rightarrow> addr \<Rightarrow> heap" where
  "splice_heap h p b q f g n =
     upd_prev (upd_next (upd_next (upd_prev (upd_prev (upd_next h q n) n q) f p) g b) p f) b g"

text \<open>
  Within one list: the elements from \<open>first\<close> up to \<open>last\<close> (exclusive) move in front of
  \<open>before\<close>, an element that stands earlier in the list.
\<close>

lemma list_splice_ring:
  assumes r: "ring h (us @ p # xs @ ys @ n # vs)" and xs: "xs \<noteq> []" and ys: "ys \<noteq> []"
  shows "\<exists>h'. list_splice h (hd xs) (hd ys) n = Some h' \<and> ring h' (us @ p # ys @ xs @ n # vs) \<and>
    agree_off (insert p (insert n (set xs \<union> set ys))) h h'"
proof -
  define b q f g where bqfg: "b = hd xs" "q = last xs" "f = hd ys" "g = last ys"
  let ?h = "splice_heap h p b q f g n"
  have mem: "b \<in> set xs" "q \<in> set xs" "f \<in> set ys" "g \<in> set ys"
    using xs ys by (simp_all add: bqfg)
  have d: "distinct (us @ p # xs @ ys @ n # vs)" and l: "linked h (us @ p # xs @ ys @ n # vs)"
    using r by (simp_all add: ring_def)
  have v: "valid h p" "valid h b" "valid h q" "valid h f" "valid h g" "valid h n"
    using ring_valid [OF r] mem by auto
  have xb: "xs = b # tl xs" and xq: "xs = butlast xs @ [q]"
    and yf: "ys = f # tl ys" and yg: "ys = butlast ys @ [g]"
    using xs ys by (simp_all add: bqfg)
  have rb: "ring h (us @ p # b # tl xs @ ys @ n # vs)"
    using r by (subst (asm) xb) simp
  have rf: "ring h ((us @ p # butlast xs) @ q # f # tl ys @ n # vs)"
    using r by (subst (asm) xq, subst (asm) yf) simp
  have rn: "ring h ((us @ p # xs @ butlast ys) @ g # n # vs)"
    using r by (subst (asm) yg) simp
  have links: "get_prev h b = Some p" "get_next h q = Some f" "get_prev h f = Some q"
    "get_next h g = Some n" "get_prev h n = Some g" "get_next h p = Some b"
    using ring_link [OF rb] ring_link [OF rf] ring_link [OF rn] by simp_all
  have nn: "p \<noteq> NULL" "n \<noteq> NULL" "q \<noteq> NULL"
    using ring_nonnull [OF r] mem by auto
  obtain x y where xy: "is_interior h b = Some x" "is_tail h b = Some y" "x \<or> y"
    using rb by (rule interior_or_tail)
  have "ring h ((us @ p # xs) @ f # tl ys @ n # vs)"
    using r by (subst (asm) yf) simp
  then have f_int: "is_interior h f = Some True"
    by (rule interior_ring) simp_all
  have g_int: "is_interior h g = Some True"
    using rn by (rule interior_ring) simp_all
  have ne: "f \<noteq> n" "b \<noteq> f" "p \<noteq> q" "p \<noteq> n" "q \<noteq> g" "q \<noteq> n" "b \<noteq> n" "b \<noteq> g" "q \<noteq> f" "p \<noteq> f"
      "p \<noteq> g" "p \<noteq> b" "g \<noteq> n"
    using d mem by auto
  have run: "list_splice h (hd xs) (hd ys) n = Some ?h"
    using xy f_int g_int links v ne list_prev_ring [OF rn]
    by (auto simp: list_splice_def splice_heap_def simp flip: bqfg)
  have nx: "get_next ?h a = (if a = p then Some f else if a = g then Some b else if a = q then Some n
      else get_next h a)"
    and pv: "get_prev ?h a = (if a = b then Some g else if a = f then Some p else if a = n then Some q
      else get_prev h a)" for a
    using v ne by (auto simp: splice_heap_def)
  have lk: "linked h (us @ [p])" "linked h xs" "linked h ys" "linked h (n # vs)"
    using l xs ys by (auto simp: linked_app [of h us "p # _"] linked_app linked_Cons [of h p])
  have parts: "linked ?h (us @ [p])" "linked ?h xs" "linked ?h ys" "linked ?h (n # vs)"
    subgoal by (rule linked_update [OF lk(1)]) (use d mem in \<open>auto simp: nx pv\<close>)
    subgoal by (rule linked_update [OF lk(2)]) (use d mem in \<open>auto simp: nx pv simp flip: bqfg\<close>)
    subgoal by (rule linked_update [OF lk(3)]) (use d mem in \<open>auto simp: nx pv simp flip: bqfg\<close>)
    subgoal by (rule linked_update [OF lk(4)]) (use d mem in \<open>auto simp: nx pv\<close>)
    done
  let ?zs = "(us @ [p]) @ ys @ xs @ n # vs"
  have "linked ?h ?zs"
    unfolding linked_app [of ?h "us @ [p]"] linked_app [of ?h ys] linked_app [of ?h xs]
    using parts ne xs ys by (auto simp: nx pv hd_append simp flip: bqfg)
  moreover have "get_prev ?h (hd ?zs) = Some NULL"
    using r d mem by (cases us) (auto simp: ring_def pv)
  moreover have "get_next ?h (last ?zs) = Some NULL"
    using r d mem ne last_in_set [of "n # vs"] by (auto simp: ring_def nx split: if_splits)
  ultimately have "ring ?h (us @ p # ys @ xs @ n # vs)"
    using r d by (auto simp: ring_def)
  moreover have "agree_off (insert p (insert n (set xs \<union> set ys))) h ?h"
    using mem by (simp add: splice_heap_def)
  ultimately show ?thesis
    using run by blast
qed

section \<open>Counting and finding\<close>

lemma hd_snoc_neq:
  "distinct (a # ys @ [t]) \<Longrightarrow> a \<noteq> hd (ys @ [t])"
  by (cases ys) auto

lemma list_next_dlist:
  assumes "dlist h l (xs @ e # ys)"
  shows "list_next h e = Some (hd (ys @ [l_tail l]))"
proof -
  have "ring h ((l_head l # xs) @ e # hd (ys @ [l_tail l]) # tl (ys @ [l_tail l]))"
    using assms by (cases ys) (simp_all add: dlist_def)
  then show ?thesis by (rule list_next_ring)
qed

lemma list_prev_dlist:
  assumes "dlist h l (xs @ e # ys)"
  shows "list_prev h (hd (ys @ [l_tail l])) = Some e"
proof -
  have "ring h ((l_head l # xs) @ e # hd (ys @ [l_tail l]) # tl (ys @ [l_tail l]))"
    using assms by (cases ys) (simp_all add: dlist_def)
  then show ?thesis by (rule list_prev_ring)
qed

lemma dlist_hd_neq_tail:
  "dlist h l (xs @ ys) \<Longrightarrow> hd (ys @ [l_tail l]) \<noteq> l_tail l \<longleftrightarrow> ys \<noteq> []"
  by (cases ys) (auto simp: dlist_def ring_def)

lemma list_size_loop_dlist:
  "dlist h l (xs @ ys) \<Longrightarrow> list_size_loop h l (hd (ys @ [l_tail l])) c = Some (c + length ys)"
proof (induction ys arbitrary: xs c)
  case Nil
  then show ?case by (simp add: list_size_loop.simps list_end_def)
next
  case (Cons y ys)
  from Cons.prems have "dlist h l ((xs @ [y]) @ ys)" by simp
  from Cons.IH [OF this] Cons.prems show ?case
    using dlist_hd_neq_tail [OF Cons.prems]
    by (subst list_size_loop.simps) (simp add: list_end_def list_next_dlist)
qed

lemma list_size_dlist: "dlist h l xs \<Longrightarrow> list_size h l = Some (length xs)"
  using list_size_loop_dlist [of h l "[]" xs 0] by (simp add: list_size_def list_begin_dlist)

lemma list_push_front_dlist:
  assumes "dlist h l xs" and "valid h e" and "e \<notin> cells l xs"
  shows "\<exists>h'. list_push_front h l e = Some h' \<and> dlist h' l (e # xs) \<and>
    agree_off (insert e (cells l xs)) h h'"
  using list_insert_dlist [of h l "[]" xs e] assms
  by (auto simp: list_push_front_def list_begin_dlist)

lemma list_push_back_dlist:
  assumes "dlist h l xs" and "valid h e" and "e \<notin> cells l xs"
  shows "\<exists>h'. list_push_back h l e = Some h' \<and> dlist h' l (xs @ [e]) \<and>
    agree_off (insert e (cells l xs)) h h'"
  using list_insert_dlist [of h l xs "[]" e] assms
  by (auto simp: list_push_back_def list_end_def)

lemma list_pop_front_dlist:
  assumes "dlist h l (x # xs)"
  shows "\<exists>h'. list_pop_front h l = Some (x, h') \<and> dlist h' l xs \<and> agree_off (cells l xs) h h'"
  using list_remove_dlist [of h l "[]" x xs] assms
  by (auto simp: list_pop_front_def list_front_dlist)

lemma list_pop_back_dlist:
  assumes "dlist h l (xs @ [x])"
  shows "\<exists>h'. list_pop_back h l = Some (x, h') \<and> dlist h' l xs \<and> agree_off (cells l xs) h h'"
  using list_remove_dlist [of h l xs x "[]"] assms
  by (auto simp: list_pop_back_def list_back_dlist)

lemma list_pop_empty:
  assumes "dlist h l []"
  shows "list_pop_front h l = None" "list_pop_back h l = None"
  using list_empty_dlist [OF assms]
  by (simp_all add: list_pop_front_def list_pop_back_def list_front_def list_back_def)

section \<open>Ordered insertion, maximum and minimum\<close>

text \<open>
  The abstract operation behind \<open>list_insert_ordered\<close>: the element goes in front of the first
  one it is less than, so after everything it is equal to.
\<close>

fun insert_ord :: "('a \<Rightarrow> 'a \<Rightarrow> bool) \<Rightarrow> 'a \<Rightarrow> 'a list \<Rightarrow> 'a list" where
  "insert_ord lt x [] = [x]"
| "insert_ord lt x (y # ys) = (if lt x y then x # y # ys else y # insert_ord lt x ys)"

lemma insert_ordered_loop_dlist:
  "dlist h l (xs @ ys) \<Longrightarrow>
   \<exists>us vs. ys = us @ vs \<and> insert_ordered_loop lt h l x (hd (ys @ [l_tail l])) = Some (hd (vs @ [l_tail l]))
     \<and> insert_ord lt x ys = us @ x # vs"
proof (induction ys arbitrary: xs)
  case Nil
  then show ?case by (simp add: insert_ordered_loop.simps list_end_def)
next
  case (Cons y ys)
  have ne: "y \<noteq> l_tail l" using dlist_hd_neq_tail [OF Cons.prems] by simp
  show ?case
  proof (cases "lt x y")
    case True
    with ne show ?thesis
      by (intro exI [of _ "[]"] exI [of _ "y # ys"])
        (simp add: insert_ordered_loop.simps list_end_def)
  next
    case False
    from Cons.prems have "dlist h l ((xs @ [y]) @ ys)" by simp
    from Cons.IH [OF this] obtain us vs where "ys = us @ vs"
      "insert_ordered_loop lt h l x (hd (ys @ [l_tail l])) = Some (hd (vs @ [l_tail l]))"
      "insert_ord lt x ys = us @ x # vs" by blast
    with False ne Cons.prems show ?thesis
      by (intro exI [of _ "y # us"] exI [of _ vs])
        (simp add: insert_ordered_loop.simps [of _ _ _ _ y] list_end_def list_next_dlist)
  qed
qed

lemma list_insert_ordered_dlist:
  assumes "dlist h l xs" and "valid h x" and "x \<notin> cells l xs"
  shows "\<exists>h'. list_insert_ordered lt h l x = Some h' \<and> dlist h' l (insert_ord lt x xs) \<and>
    agree_off (insert x (cells l xs)) h h'"
proof -
  obtain us vs where *: "xs = us @ vs"
    "insert_ordered_loop lt h l x (hd (xs @ [l_tail l])) = Some (hd (vs @ [l_tail l]))"
    "insert_ord lt x xs = us @ x # vs"
    using insert_ordered_loop_dlist [of h l "[]" xs lt x] assms(1) by auto
  have "x \<noteq> NULL" using assms(2) by (simp add: valid_def)
  with * list_insert_dlist [of h l us vs x] assms show ?thesis
    by (auto simp: list_insert_ordered_def list_begin_dlist)
qed

fun max_from :: "('a \<Rightarrow> 'a \<Rightarrow> bool) \<Rightarrow> 'a \<Rightarrow> 'a list \<Rightarrow> 'a" where
  "max_from lt m [] = m"
| "max_from lt m (y # ys) = max_from lt (if lt m y then y else m) ys"

lemma list_max_loop_dlist:
  "dlist h l (xs @ ys) \<Longrightarrow>
   list_max_loop lt h l m (hd (ys @ [l_tail l])) = Some (max_from lt m ys)"
proof (induction ys arbitrary: xs m)
  case Nil
  then show ?case by (simp add: list_max_loop.simps list_end_def)
next
  case (Cons y ys)
  from Cons.prems have "dlist h l ((xs @ [y]) @ ys)" by simp
  from Cons.IH [OF this] Cons.prems show ?case
    using dlist_hd_neq_tail [OF Cons.prems]
    by (subst list_max_loop.simps) (simp add: list_end_def list_next_dlist)
qed

lemma list_min_loop_dlist:
  "dlist h l (xs @ ys) \<Longrightarrow>
   list_min_loop lt h l m (hd (ys @ [l_tail l])) = Some (max_from (\<lambda>a b. lt b a) m ys)"
proof (induction ys arbitrary: xs m)
  case Nil
  then show ?case by (simp add: list_min_loop.simps list_end_def)
next
  case (Cons y ys)
  from Cons.prems have "dlist h l ((xs @ [y]) @ ys)" by simp
  from Cons.IH [OF this] Cons.prems show ?case
    using dlist_hd_neq_tail [OF Cons.prems]
    by (subst list_min_loop.simps) (simp add: list_end_def list_next_dlist)
qed

lemma list_max_dlist:
  assumes "dlist h l xs"
  shows "list_max lt h l = Some (case xs of [] \<Rightarrow> l_tail l | x # ys \<Rightarrow> max_from lt x ys)"
proof (cases xs)
  case Nil
  with assms show ?thesis by (simp add: list_max_def list_begin_dlist list_end_def)
next
  case (Cons x ys)
  then have "dlist h l ([] @ x # ys)" using assms by simp
  with list_max_loop_dlist [of h l "[x]" ys lt x] dlist_hd_neq_tail [OF this] Cons assms
  show ?thesis
    by (simp add: list_max_def list_begin_dlist list_end_def list_next_dlist [of h l "[]"])
qed

lemma list_min_dlist:
  assumes "dlist h l xs"
  shows "list_min lt h l = Some (case xs of [] \<Rightarrow> l_tail l | x # ys \<Rightarrow> max_from (\<lambda>a b. lt b a) x ys)"
proof (cases xs)
  case Nil
  with assms show ?thesis by (simp add: list_min_def list_begin_dlist list_end_def)
next
  case (Cons x ys)
  then have "dlist h l ([] @ x # ys)" using assms by simp
  with list_min_loop_dlist [of h l "[x]" ys lt x] dlist_hd_neq_tail [OF this] Cons assms
  show ?thesis
    by (simp add: list_min_def list_begin_dlist list_end_def list_next_dlist [of h l "[]"])
qed

end
