(* ===== verification/List_Sort.thy ===== *)
theory List_Sort
  imports List_Refine
begin

text \<open>
  Ordered lists in \<open>list.c\<close>: the contract of a \<open>list_less_func\<close> (locale \<open>weak_order\<close>), what
  \<open>list_insert_ordered\<close> keeps of it, and \<open>list_sort\<close>, a natural merge sort that splices runs
  in place. \<open>sort_spec\<close> is the abstract operation: insertion of the elements one by one; the
  pointer-level sort terminates and computes exactly that list, so it is a stable sort.
\<close>

section \<open>The contract of a comparison function\<close>

definition equivalent :: "('a \<Rightarrow> 'a \<Rightarrow> bool) \<Rightarrow> 'a \<Rightarrow> 'a \<Rightarrow> bool" where
  "equivalent lt a b \<longleftrightarrow> \<not> lt a b \<and> \<not> lt b a"

definition ordered :: "('a \<Rightarrow> 'a \<Rightarrow> bool) \<Rightarrow> 'a list \<Rightarrow> bool" where
  "ordered lt xs \<longleftrightarrow> sorted_wrt (\<lambda>a b. \<not> lt b a) xs"

definition sort_spec :: "('a \<Rightarrow> 'a \<Rightarrow> bool) \<Rightarrow> 'a list \<Rightarrow> 'a list" where
  "sort_spec lt xs = fold (insert_ord lt) xs []"

fun smerge :: "('a \<Rightarrow> 'a \<Rightarrow> bool) \<Rightarrow> 'a list \<Rightarrow> 'a list \<Rightarrow> 'a list" where
  "smerge lt [] ys = ys"
| "smerge lt xs [] = xs"
| "smerge lt (x # xs) (y # ys) =
     (if \<not> lt y x then x # smerge lt xs (y # ys) else y # smerge lt (x # xs) ys)"

fun adj_sorted :: "('a \<Rightarrow> 'a \<Rightarrow> bool) \<Rightarrow> 'a list \<Rightarrow> bool" where
  "adj_sorted lt (x # y # ys) \<longleftrightarrow> \<not> lt y x \<and> adj_sorted lt (y # ys)"
| "adj_sorted lt _ \<longleftrightarrow> True"

lemma set_insert_ord [simp]: "set (insert_ord lt x xs) = insert x (set xs)"
  by (induction xs) auto

lemma mset_insert_ord [simp]: "mset (insert_ord lt x xs) = add_mset x (mset xs)"
  by (induction xs) auto

lemma length_insert_ord [simp]: "length (insert_ord lt x xs) = Suc (length xs)"
  by (induction xs) auto

lemma insert_ord_not_Nil [simp]: "insert_ord lt x xs \<noteq> []"
  by (cases xs) auto

lemma distinct_insert_ord [simp]: "distinct (insert_ord lt x xs) \<longleftrightarrow> x \<notin> set xs \<and> distinct xs"
  by (induction xs) auto

lemma mset_fold_insert_ord: "mset (fold (insert_ord lt) xs acc) = mset xs + mset acc"
  by (induction xs arbitrary: acc) auto

lemma mset_sort_spec [simp]: "mset (sort_spec lt xs) = mset xs"
  by (simp add: sort_spec_def mset_fold_insert_ord)

lemma set_sort_spec [simp]: "set (sort_spec lt xs) = set xs"
  by (metis mset_sort_spec set_mset_mset)

lemma distinct_sort_spec [simp]: "distinct (sort_spec lt xs) = distinct xs"
  by (metis mset_sort_spec mset_eq_imp_distinct_iff)

lemma length_sort_spec [simp]: "length (sort_spec lt xs) = length xs"
  by (metis mset_sort_spec size_mset)

lemma mset_smerge [simp]: "mset (smerge lt xs ys) = mset xs + mset ys"
  by (induction lt xs ys rule: smerge.induct) auto

lemma set_smerge [simp]: "set (smerge lt xs ys) = set xs \<union> set ys"
  by (metis mset_smerge set_mset_mset set_mset_union)

lemma ordered_Nil [simp]: "ordered lt []"
  and ordered_Cons: "ordered lt (x # xs) \<longleftrightarrow> (\<forall>y\<in>set xs. \<not> lt y x) \<and> ordered lt xs"
  by (auto simp: ordered_def)

lemma smerge_induct [case_names 1 2 3]:
  "(\<And>ys. P [] ys) \<Longrightarrow> (\<And>x xs. P (x # xs) []) \<Longrightarrow>
   (\<And>x xs y ys. P xs (y # ys) \<Longrightarrow> P (x # xs) ys \<Longrightarrow> P (x # xs) (y # ys)) \<Longrightarrow> P xs ys"
  by induction_schema (pat_completeness, lexicographic_order)

locale weak_order =
  fixes lt :: "'a \<Rightarrow> 'a \<Rightarrow> bool"
  assumes lt_asym: "lt a b \<Longrightarrow> \<not> lt b a"
    and lt_cotrans: "lt a c \<Longrightarrow> lt a b \<or> lt b c"
begin

lemma lt_irrefl [simp]: "\<not> lt a a"
  using lt_asym by blast

lemma le_trans: "\<not> lt b a \<Longrightarrow> \<not> lt c b \<Longrightarrow> \<not> lt c a"
  using lt_cotrans by blast

lemma lt_trans: "lt a b \<Longrightarrow> lt b c \<Longrightarrow> lt a c"
  using lt_cotrans lt_asym by blast

lemma equivalent_refl [simp]: "equivalent lt a a"
  by (simp add: equivalent_def)

lemma equivalent_le: "equivalent lt a x \<Longrightarrow> \<not> lt y x \<Longrightarrow> equivalent lt a y \<or> lt x y"
  unfolding equivalent_def using le_trans lt_cotrans by blast

lemma ordered_insert_ord: "ordered lt xs \<Longrightarrow> ordered lt (insert_ord lt x xs)"
proof (induction xs)
  case (Cons y xs)
  then have y: "\<forall>z\<in>set xs. \<not> lt z y" by (simp add: ordered_Cons)
  show ?case
  proof (cases "lt x y")
    case True
    then have "\<not> lt y x" by (rule lt_asym)
    then have "\<forall>z\<in>set xs. \<not> lt z x" using y le_trans by blast
    with True Cons \<open>\<not> lt y x\<close> show ?thesis by (simp add: ordered_Cons)
  next
    case False
    with Cons y show ?thesis by (simp add: ordered_Cons)
  qed
qed (simp add: ordered_Cons)

lemma insert_ord_position:
  "ordered lt xs \<Longrightarrow> \<exists>us vs. xs = us @ vs \<and> insert_ord lt x xs = us @ x # vs \<and>
     (\<forall>e\<in>set us. \<not> lt x e) \<and> (\<forall>e\<in>set vs. lt x e)"
proof (induction xs)
  case (Cons y xs)
  show ?case
  proof (cases "lt x y")
    case True
    then have "\<forall>e\<in>set xs. lt x e"
      using Cons.prems lt_cotrans [OF True] by (auto simp: ordered_Cons)
    with True show ?thesis by (intro exI [of _ "[]"] exI [of _ "y # xs"]) simp
  next
    case False
    from Cons obtain us vs where "xs = us @ vs" "insert_ord lt x xs = us @ x # vs"
      "\<forall>e\<in>set us. \<not> lt x e" "\<forall>e\<in>set vs. lt x e" by (auto simp: ordered_Cons)
    with False show ?thesis by (intro exI [of _ "y # us"] exI [of _ vs]) simp
  qed
qed simp

lemma filter_insert_ord:
  "ordered lt xs \<Longrightarrow>
   filter (equivalent lt a) (insert_ord lt x xs) =
   filter (equivalent lt a) xs @ (if equivalent lt a x then [x] else [])"
proof (induction xs)
  case (Cons y xs)
  have "filter (equivalent lt a) (y # xs) = []" if "lt x y" "equivalent lt a x"
  proof -
    have "\<not> equivalent lt a z" if z: "z \<in> set (y # xs)" for z
    proof
      assume az: "equivalent lt a z"
      have "\<not> lt z y" using z Cons.prems by (auto simp: ordered_Cons)
      then have "lt x z" using lt_cotrans [OF \<open>lt x y\<close>, of z] by blast
      then show False
        using az \<open>equivalent lt a x\<close> lt_cotrans [of x z a] by (auto simp: equivalent_def)
    qed
    then show ?thesis by (simp add: filter_empty_conv)
  qed
  with Cons show ?case by (auto simp: ordered_Cons)
qed simp

lemma fold_insert_ord:
  "ordered lt acc \<Longrightarrow> ordered lt (fold (insert_ord lt) xs acc) \<and>
   filter (equivalent lt a) (fold (insert_ord lt) xs acc) =
   filter (equivalent lt a) acc @ filter (equivalent lt a) xs"
  by (induction xs arbitrary: acc) (auto simp: ordered_insert_ord filter_insert_ord)

lemma ordered_sort_spec: "ordered lt (sort_spec lt xs)"
  by (simp add: sort_spec_def fold_insert_ord)

lemma stable_sort_spec: "filter (equivalent lt a) (sort_spec lt xs) = filter (equivalent lt a) xs"
  using fold_insert_ord [of "[]" xs a] by (simp add: sort_spec_def)

text \<open>An ordered list is determined by the order of equivalent elements.\<close>

lemma ordered_unique:
  "ordered lt xs \<Longrightarrow> ordered lt ys \<Longrightarrow>
   (\<And>a. filter (equivalent lt a) xs = filter (equivalent lt a) ys) \<Longrightarrow> xs = ys"
proof (induction xs arbitrary: ys)
  case Nil
  then show ?case
    by (cases ys) (auto dest!: meta_spec [of _ "hd ys"] split: if_splits)
next
  case (Cons x xs)
  have "x \<in> set ys"
    using Cons.prems(3) [of x] by (metis (mono_tags, lifting) equivalent_refl filter.simps(2) filter_is_subset list.set_intros(1) subsetD)
  then obtain y zs where ys: "ys = y # zs" by (cases ys) auto
  have "y \<in> set (x # xs)"
    using Cons.prems(3) [of y] ys by (metis (mono_tags, lifting) equivalent_refl filter.simps(2) filter_is_subset list.set_intros(1) subsetD)
  then have "\<not> lt y x" using Cons.prems(1) by (auto simp: ordered_Cons)
  moreover have "\<not> lt x y" using Cons.prems(2) \<open>x \<in> set ys\<close> ys by (auto simp: ordered_Cons)
  ultimately have "equivalent lt x y" by (simp add: equivalent_def)
  then have xy: "x = y" using Cons.prems(3) [of x] ys by simp
  have "xs = zs"
  proof (rule Cons.IH)
    fix a show "filter (equivalent lt a) xs = filter (equivalent lt a) zs"
      using Cons.prems(3) [of a] ys xy by (auto split: if_splits)
  qed (use Cons.prems ys in \<open>auto simp: ordered_Cons\<close>)
  with xy ys show ?case by simp
qed

lemma sort_spec_ordered: "ordered lt xs \<Longrightarrow> sort_spec lt xs = xs"
  by (rule ordered_unique) (auto simp: ordered_sort_spec stable_sort_spec)

lemma sort_spec_eqI:
  "ordered lt ys \<Longrightarrow> (\<And>a. filter (equivalent lt a) ys = filter (equivalent lt a) xs) \<Longrightarrow>
   ys = sort_spec lt xs"
  by (rule ordered_unique) (auto simp: ordered_sort_spec stable_sort_spec)

lemma adj_sorted_ordered: "adj_sorted lt xs \<longleftrightarrow> ordered lt xs"
proof (induction xs)
  case (Cons x xs)
  then show ?case
    by (cases xs) (auto simp: ordered_Cons dest: le_trans)
qed simp

lemma ordered_smerge: "ordered lt xs \<Longrightarrow> ordered lt ys \<Longrightarrow> ordered lt (smerge lt xs ys)"
proof (induction xs ys rule: smerge_induct)
  case (3 x xs y ys)
  then show ?case
    using lt_asym [of y x] le_trans by (auto simp: ordered_Cons)
qed simp_all

lemma filter_smerge:
  "ordered lt xs \<Longrightarrow> ordered lt ys \<Longrightarrow>
   filter (equivalent lt a) (smerge lt xs ys) = filter (equivalent lt a) xs @ filter (equivalent lt a) ys"
proof (induction xs ys rule: smerge_induct)
  case (3 x xs y ys)
  have "filter (equivalent lt a) (x # xs) = []" if "lt y x" "equivalent lt a y"
  proof -
    have "\<not> equivalent lt a z" if z: "z \<in> set (x # xs)" for z
    proof -
      have "\<not> lt z x" using z 3(3) by (auto simp: ordered_Cons)
      then have "lt y z" using lt_cotrans [OF \<open>lt y x\<close>, of z] by blast
      then show ?thesis
        using \<open>equivalent lt a y\<close> lt_cotrans [of y z a] by (auto simp: equivalent_def)
    qed
    then show ?thesis by (simp add: filter_empty_conv)
  qed
  with 3 show ?case by (auto simp: ordered_Cons)
qed simp_all

end

section \<open>Runs\<close>

text \<open>
  \<open>run_split lt x ys\<close> splits \<open>x # ys\<close> after its first run, \<open>merge_pass\<close> is one pass of the
  sort over a whole list with the number of runs it puts out, \<open>nruns\<close> counts the runs of a
  list. A pass halves the number of runs (rounding up), so the passes end.
\<close>

fun run_split :: "('a \<Rightarrow> 'a \<Rightarrow> bool) \<Rightarrow> 'a \<Rightarrow> 'a list \<Rightarrow> 'a list \<times> 'a list" where
  "run_split lt x [] = ([x], [])"
| "run_split lt x (y # ys) =
     (if lt y x then ([x], y # ys)
      else case run_split lt y ys of (r, rest) \<Rightarrow> (x # r, rest))"

lemma run_split_append: "run_split lt x ys = (r, rest) \<Longrightarrow> r @ rest = x # ys \<and> r \<noteq> []"
  by (induction lt x ys arbitrary: r rest rule: run_split.induct) (auto split: if_splits prod.splits)

lemma run_split_length: "run_split lt x ys = (r, rest) \<Longrightarrow> length rest \<le> length ys"
  by (induction lt x ys arbitrary: r rest rule: run_split.induct) (fastforce split: if_splits prod.splits)+

lemma run_split_hd: "run_split lt x ys = (r, rest) \<Longrightarrow> hd r = x"
  using run_split_append by (metis append_eq_Cons_conv list.sel(1))

lemma run_split_adj: "run_split lt x ys = (r, rest) \<Longrightarrow> adj_sorted lt r"
proof (induction lt x ys arbitrary: r rest rule: run_split.induct)
  case (2 lt x y ys)
  show ?case
  proof (cases "lt y x")
    case False
    obtain r' rest' where r': "run_split lt y ys = (r', rest')" by (cases "run_split lt y ys")
    with 2 False have "adj_sorted lt r'" by simp
    moreover have "hd r' = y" "r' \<noteq> []" using r' run_split_hd run_split_append by metis+
    ultimately have "adj_sorted lt (x # r')" using False by (cases r') auto
    then show ?thesis using 2(2) False r' by simp
  qed (use 2 in auto)
qed simp

function merge_pass :: "('a \<Rightarrow> 'a \<Rightarrow> bool) \<Rightarrow> 'a list \<Rightarrow> 'a list \<times> nat" where
  "merge_pass lt [] = ([], 0)"
| "merge_pass lt (x # xs) =
     (case run_split lt x xs of (r1, rest) \<Rightarrow>
        case rest of [] \<Rightarrow> (r1, 1)
        | y # ys \<Rightarrow> (case run_split lt y ys of (r2, rest2) \<Rightarrow>
            case merge_pass lt rest2 of (zs, n) \<Rightarrow> (smerge lt r1 r2 @ zs, Suc n)))"
  by pat_completeness auto
termination
  by (relation "measure (\<lambda>(lt, xs). length xs)") (auto dest!: run_split_length [OF sym])

declare merge_pass.simps(2) [simp del]

text \<open>
  The sort at list level, for any comparison: passes until one run is left, then the check
  that the result is sorted, whose failure is a panic.
\<close>

partial_function (option) list_sort_run :: "('a \<Rightarrow> 'a \<Rightarrow> bool) \<Rightarrow> 'a list \<Rightarrow> 'a list option" where
  "list_sort_run lt xs = (case merge_pass lt xs of (ys, n) \<Rightarrow>
     if n > 1 then list_sort_run lt ys else if adj_sorted lt ys then Some ys else None)"

declare list_sort_run.simps [code]

lemma mset_merge_pass: "merge_pass lt xs = (zs, n) \<Longrightarrow> mset zs = mset xs"
proof (induction lt xs arbitrary: zs n rule: merge_pass.induct)
  case (2 lt x xs)
  obtain r1 rest where r1: "run_split lt x xs = (r1, rest)" by fastforce
  note a1 = conjunct1 [OF run_split_append [OF r1]]
  show ?case
  proof (cases rest)
    case Nil
    with 2 r1 a1 show ?thesis by (auto simp: merge_pass.simps(2))
  next
    case (Cons y ys)
    obtain r2 rest2 where r2: "run_split lt y ys = (r2, rest2)" by fastforce
    obtain zs' m where m: "merge_pass lt rest2 = (zs', m)" by fastforce
    have "mset zs' = mset rest2"
      using 2(1) [OF r1 [symmetric] Cons r2 [symmetric] m] .
    moreover have "x # xs = r1 @ r2 @ rest2"
      using a1 Cons run_split_append [OF r2] by simp
    then have "mset (x # xs) = mset r1 + mset r2 + mset rest2" by (simp add: union_assoc)
    ultimately show ?thesis
      using 2(2) r1 Cons r2 m by (auto simp: merge_pass.simps(2))
  qed
qed simp

lemma mset_list_sort_run: "list_sort_run lt xs = Some ys \<Longrightarrow> mset ys = mset xs"
proof (induction lt xs ys rule: list_sort_run.raw_induct [rotated 1, consumes 1, case_names 1])
  case (1 rec lt xs ys)
  obtain zs n where zs: "merge_pass lt xs = (zs, n)" by fastforce
  with 1 mset_merge_pass [OF zs] show ?case by (auto split: if_splits)
qed

fun nruns :: "('a \<Rightarrow> 'a \<Rightarrow> bool) \<Rightarrow> 'a list \<Rightarrow> nat" where
  "nruns lt [] = 0"
| "nruns lt [x] = 1"
| "nruns lt (x # y # ys) = (if lt y x then Suc (nruns lt (y # ys)) else nruns lt (y # ys))"

lemma nruns_append: "nruns lt (xs @ ys) \<le> nruns lt xs + nruns lt ys"
proof (induction lt xs rule: nruns.induct)
  case (2 lt x)
  then show ?case by (cases ys) auto
qed auto

lemma nruns_adj_sorted: "adj_sorted lt xs \<Longrightarrow> nruns lt xs \<le> 1"
  by (induction lt xs rule: nruns.induct) auto

lemma nruns_pos: "nruns lt (x # xs) \<ge> 1"
  by (induction xs arbitrary: x) auto

lemma adj_sorted_nruns: "nruns lt xs \<le> 1 \<Longrightarrow> adj_sorted lt xs"
proof (induction lt xs rule: nruns.induct)
  case (3 lt x y ys)
  then show ?case using nruns_pos [of lt y ys] by (auto split: if_splits)
qed auto

lemma nruns_run_split: "run_split lt x ys = (r, rest) \<Longrightarrow> nruns lt (x # ys) = Suc (nruns lt rest)"
  by (induction lt x ys arbitrary: r rest rule: run_split.induct) (auto split: if_splits prod.splits)

lemma merge_pass_count: "snd (merge_pass lt xs) = (nruns lt xs + 1) div 2"
proof (induction lt xs rule: merge_pass.induct)
  case (2 lt x xs)
  obtain r1 rest where r1: "run_split lt x xs = (r1, rest)" by fastforce
  note n1 = nruns_run_split [OF r1]
  show ?case
  proof (cases rest)
    case Nil
    with r1 n1 show ?thesis by (simp add: merge_pass.simps(2))
  next
    case (Cons y ys)
    obtain r2 rest2 where r2: "run_split lt y ys = (r2, rest2)" by fastforce
    obtain zs n where zs: "merge_pass lt rest2 = (zs, n)" by fastforce
    have "n = (nruns lt rest2 + 1) div 2"
      using "2.IH" [OF r1 [symmetric] Cons r2 [symmetric]] zs by simp
    with r1 r2 n1 nruns_run_split [OF r2] zs Cons show ?thesis
      by (simp add: merge_pass.simps(2))
  qed
qed simp

context weak_order
begin

lemma merge_pass_props:
  "merge_pass lt xs = (zs, n) \<Longrightarrow> nruns lt zs \<le> n \<and> mset zs = mset xs \<and>
     filter (equivalent lt a) zs = filter (equivalent lt a) xs"
proof (induction "length xs" arbitrary: xs zs n rule: less_induct)
  case less
  show ?case
  proof (cases xs)
    case Nil
    with less.prems show ?thesis by simp
  next
    case (Cons x xs')
    obtain r1 rest where r1: "run_split lt x xs' = (r1, rest)" by fastforce
    have a1: "r1 @ rest = x # xs'" "adj_sorted lt r1"
      using run_split_append [OF r1] run_split_adj [OF r1] by auto
    show ?thesis
    proof (cases rest)
      case Nil
      with r1 a1 less.prems Cons nruns_adj_sorted [of lt r1] show ?thesis
        by (auto simp: merge_pass.simps(2))
    next
      case (Cons y ys)
      obtain r2 rest2 where r2: "run_split lt y ys = (r2, rest2)" by fastforce
      have a2: "r2 @ rest2 = y # ys" "adj_sorted lt r2"
        using run_split_append [OF r2] run_split_adj [OF r2] by auto
      obtain zs' m where m: "merge_pass lt rest2 = (zs', m)" by fastforce
      have "length rest2 < length xs"
        using a1 a2 \<open>xs = x # xs'\<close> Cons run_split_append [OF r1]
        by (metis add_lessD1 append_Cons length_append length_Cons less_add_same_cancel2
            length_greater_0_conv less_trans run_split_length [OF r2] run_split_length [OF r1]
            le_imp_less_Suc)
      from less.hyps [OF this m]
      have IH: "nruns lt zs' \<le> m" "mset zs' = mset rest2"
        "filter (equivalent lt a) zs' = filter (equivalent lt a) rest2" by simp_all
      have res: "zs = smerge lt r1 r2 @ zs'" "n = Suc m"
        using less.prems \<open>xs = x # xs'\<close> r1 r2 m Cons by (simp_all add: merge_pass.simps(2))
      have o: "ordered lt r1" "ordered lt r2" using a1 a2 by (simp_all add: adj_sorted_ordered)
      then have "nruns lt (smerge lt r1 r2) \<le> 1"
        by (intro nruns_adj_sorted) (simp add: adj_sorted_ordered ordered_smerge)
      then have "nruns lt zs \<le> n"
        using nruns_append [of lt "smerge lt r1 r2" zs'] IH(1) res by simp
      moreover have xs: "xs = r1 @ r2 @ rest2"
        using a1 a2 Cons \<open>xs = x # xs'\<close> by simp
      ultimately show ?thesis
        using IH(2,3) res o by (simp add: filter_smerge)
    qed
  qed
qed

text \<open>With a strict weak order the passes end with the stable sort, and the check succeeds.\<close>

lemma list_sort_run_spec: "list_sort_run lt xs = Some (sort_spec lt xs)"
proof (induction "nruns lt xs" arbitrary: xs rule: less_induct)
  case less
  obtain zs n where zs: "merge_pass lt xs = (zs, n)" by fastforce
  note props = merge_pass_props [OF zs]
  have n: "n = (nruns lt xs + 1) div 2" using merge_pass_count [of lt xs] zs by simp
  have le: "nruns lt zs \<le> n" using props by simp
  have spec: "sort_spec lt zs = sort_spec lt xs"
    by (rule sort_spec_eqI) (use props in \<open>simp_all add: ordered_sort_spec stable_sort_spec\<close>)
  show ?case
  proof (cases "1 < n")
    case True
    with le n have "nruns lt zs < nruns lt xs" by linarith
    from less.hyps [OF this] True zs spec show ?thesis
      by (subst list_sort_run.simps) simp
  next
    case False
    with le have adj: "adj_sorted lt zs" by (intro adj_sorted_nruns) simp
    then have "zs = sort_spec lt xs"
      using spec by (simp add: adj_sorted_ordered sort_spec_ordered)
    with False adj zs show ?thesis
      by (subst list_sort_run.simps) simp
  qed
qed

end

end
