(* ===== verification/List_Sort_Refine.thy ===== *)
theory List_Sort_Refine
  imports List_Sort
begin

text \<open>
  The pointer-level sort, reversal and duplicate removal of \<open>list.c\<close> against their abstract
  counterparts. Each loop of the source is matched with one recursion over the contents of the
  list; the segment of the list a loop works on is named by the elements before it, in it and
  after it.
\<close>

section \<open>Checking and finding runs\<close>

lemma is_sorted_loop_dlist:
  "dlist h l (pre @ x # xs @ post) \<Longrightarrow>
   is_sorted_loop lt h x (hd (post @ [l_tail l])) = Some (adj_sorted lt (x # xs))"
proof (induction xs arbitrary: pre x)
  case Nil
  then show ?case
    by (simp add: is_sorted_loop.simps list_next_dlist)
next
  case (Cons y xs)
  have "y \<noteq> hd (post @ [l_tail l])"
    using dlist_not_ends [OF Cons.prems] dlist_distinct [OF Cons.prems] by (cases post) auto
  moreover have "dlist h l ((pre @ [x]) @ y # xs @ post)" using Cons.prems by simp
  ultimately show ?case
    using Cons.IH [of "pre @ [x]" y] list_next_dlist [of h l pre x "y # xs @ post"]
      list_prev_dlist [of h l pre x "y # xs @ post"] Cons.prems
    by (subst is_sorted_loop.simps) simp
qed

lemma is_sorted_dlist:
  assumes "dlist h l (pre @ xs @ post)"
  shows "is_sorted lt h (hd (xs @ post @ [l_tail l])) (hd (post @ [l_tail l])) = Some (adj_sorted lt xs)"
proof (cases xs)
  case Nil
  then show ?thesis by (simp add: is_sorted_def)
next
  case (Cons x ys)
  have "x \<noteq> hd (post @ [l_tail l])"
    using dlist_not_ends [OF assms] dlist_distinct [OF assms] Cons by (cases post) auto
  then show ?thesis
    using is_sorted_loop_dlist [of h l pre x ys post] assms Cons by (simp add: is_sorted_def)
qed

lemma find_end_loop_dlist:
  "dlist h l (pre @ x # xs) \<Longrightarrow> run_split lt x xs = (r, rest) \<Longrightarrow>
   find_end_loop lt h x (l_tail l) = Some (hd (rest @ [l_tail l]))"
proof (induction xs arbitrary: pre x r rest)
  case Nil
  then show ?case
    using list_next_dlist [of h l pre x "[]"] by (auto simp: find_end_loop.simps)
next
  case (Cons y xs)
  have "y \<noteq> l_tail l" using dlist_not_ends [OF Cons.prems(1)] by auto
  moreover have "dlist h l ((pre @ [x]) @ y # xs)" using Cons.prems(1) by simp
  ultimately show ?case
    using Cons.IH [of "pre @ [x]" y] list_next_dlist [of h l pre x "y # xs"]
      list_prev_dlist [of h l pre x "y # xs"] Cons.prems
    by (subst find_end_loop.simps) (auto split: if_splits prod.splits)
qed

lemma find_end_of_run_dlist:
  assumes "dlist h l (pre @ x # xs)" and "run_split lt x xs = (r, rest)"
  shows "find_end_of_run lt h x (l_tail l) = Some (hd (rest @ [l_tail l]))"
  using find_end_loop_dlist [OF assms] dlist_not_ends [OF assms(1)] assms(1)
    dlist_valid [OF assms(1), of x] dlist_valid [OF assms(1), of "l_tail l"]
  by (auto simp: find_end_of_run_def valid_def cells_def)

section \<open>Merging and sorting\<close>

lemma list_splice_dlist:
  assumes "dlist h l (pre @ xs @ ys @ post)" and "xs \<noteq> []" and "ys \<noteq> []"
  shows "\<exists>h'. list_splice h (hd xs) (hd ys) (hd (post @ [l_tail l])) = Some h' \<and>
    dlist h' l (pre @ ys @ xs @ post) \<and> agree_off (cells l (pre @ xs @ ys @ post)) h h'"
proof -
  obtain us p where up: "l_head l # pre = us @ [p]"
    by (metis append_butlast_last_id list.discI)
  obtain n vs where nv: "post @ [l_tail l] = n # vs"
    by (cases "post @ [l_tail l]") auto
  have eq: "l_head l # (pre @ as @ post) @ [l_tail l] = us @ p # as @ n # vs" for as
  proof -
    have "l_head l # (pre @ as @ post) @ [l_tail l] = (l_head l # pre) @ as @ (post @ [l_tail l])" by simp
    then show ?thesis unfolding up nv by simp
  qed
  have r: "ring h (us @ p # xs @ ys @ n # vs)"
    using assms(1) eq [of "xs @ ys"] by (simp add: dlist_def)
  from list_splice_ring [OF r assms(2,3)] obtain h' where
    h': "list_splice h (hd xs) (hd ys) n = Some h'" "ring h' (us @ p # ys @ xs @ n # vs)"
    "agree_off (insert p (insert n (set xs \<union> set ys))) h h'" by blast
  have "dlist h' l (pre @ ys @ xs @ post)"
    using h'(2) eq [of "ys @ xs"] by (simp add: dlist_def)
  moreover have "p \<in> set (l_head l # pre)" "n \<in> set (post @ [l_tail l])"
    unfolding up nv by simp_all
  then have "insert p (insert n (set xs \<union> set ys)) \<subseteq> cells l (pre @ xs @ ys @ post)"
    by (auto simp: cells_def)
  ultimately show ?thesis
    using h'(1,3) nv by (auto intro: agree_off_mono)
qed

lemma cells_mset: "mset xs = mset ys \<Longrightarrow> cells l xs = cells l ys"
  unfolding cells_def by (metis set_mset_mset)

lemma inplace_merge_loop_dlist:
  "dlist h l (pre @ xs @ ys @ post) \<Longrightarrow>
   \<exists>h'. inplace_merge_loop lt h (hd (xs @ ys @ post @ [l_tail l])) (hd (ys @ post @ [l_tail l]))
          (hd (post @ [l_tail l])) = Some h' \<and>
     dlist h' l (pre @ smerge lt xs ys @ post) \<and> agree_off (cells l (pre @ xs @ ys @ post)) h h'"
proof (induction xs ys arbitrary: h pre rule: smerge_induct)
  case (1 ys)
  then show ?case by (simp add: inplace_merge_loop.simps)
next
  case (2 x xs)
  then show ?case by (simp add: inplace_merge_loop.simps)
next
  case (3 x xs y ys)
  have ne: "x \<noteq> y" "y \<noteq> hd (post @ [l_tail l])" "x \<noteq> hd (post @ [l_tail l])"
    using dlist_not_ends [OF "3.prems"] dlist_distinct [OF "3.prems"] by (cases post; auto)+
  show ?case
  proof (cases "lt y x")
    case False
    have "list_next h x = Some (hd (xs @ y # ys @ post @ [l_tail l]))"
      using list_next_dlist [of h l pre x "xs @ (y # ys) @ post"] "3.prems" by simp
    with "3.IH"(1) [of h "pre @ [x]"] "3.prems" ne False show ?thesis
      by (subst inplace_merge_loop.simps) simp
  next
    case True
    let ?n = "hd (ys @ post @ [l_tail l])"
    have d: "dlist h l ((pre @ x # xs) @ y # ys @ post)" using "3.prems" by simp
    have nx: "list_next h y = Some ?n" "list_prev h ?n = Some y"
      using list_next_dlist [OF d] list_prev_dlist [OF d] by simp_all
    from list_splice_dlist [of h l pre "x # xs" "[y]" "ys @ post"] "3.prems"
    obtain h1 where h1: "list_splice h x y ?n = Some h1"
      "dlist h1 l ((pre @ [y]) @ (x # xs) @ ys @ post)"
      "agree_off (cells l (pre @ (x # xs) @ (y # ys) @ post)) h h1" by auto
    from "3.IH"(2) [OF h1(2)] obtain h2 where
      h2: "inplace_merge_loop lt h1 x ?n (hd (post @ [l_tail l])) = Some h2"
      "dlist h2 l (pre @ (y # smerge lt (x # xs) ys) @ post)"
      "agree_off (cells l ((pre @ [y]) @ (x # xs) @ ys @ post)) h1 h2" by auto
    have "cells l ((pre @ [y]) @ (x # xs) @ ys @ post) = cells l (pre @ (x # xs) @ (y # ys) @ post)"
      by (rule cells_mset) simp
    with h1(3) h2(3) have "agree_off (cells l (pre @ (x # xs) @ (y # ys) @ post)) h h2"
      by (metis agree_off_trans)
    with True ne nx h1(1) h2 show ?thesis
      by (subst inplace_merge_loop.simps) simp
  qed
qed

lemma inplace_merge_dlist:
  assumes d: "dlist h l (pre @ xs @ ys @ post)" and s: "adj_sorted lt xs" "adj_sorted lt ys"
  shows "\<exists>h'. inplace_merge lt h (hd (xs @ ys @ post @ [l_tail l])) (hd (ys @ post @ [l_tail l]))
          (hd (post @ [l_tail l])) = Some h' \<and>
     dlist h' l (pre @ smerge lt xs ys @ post) \<and> agree_off (cells l (pre @ xs @ ys @ post)) h h'"
proof -
  have nn: "hd (zs @ [l_tail l]) \<noteq> NULL" if "set zs \<subseteq> set (pre @ xs @ ys @ post)" for zs
  proof -
    have "hd (zs @ [l_tail l]) \<in> cells l (pre @ xs @ ys @ post)"
      using that by (cases zs) (auto simp: cells_def)
    then show ?thesis using dlist_valid [OF d] by (auto simp: valid_def)
  qed
  have "hd (xs @ ys @ post @ [l_tail l]) \<noteq> NULL" "hd (ys @ post @ [l_tail l]) \<noteq> NULL"
    "hd (post @ [l_tail l]) \<noteq> NULL"
    using nn [of "xs @ ys @ post"] nn [of "ys @ post"] nn [of post] by auto
  moreover have "is_sorted lt h (hd (xs @ ys @ post @ [l_tail l])) (hd (ys @ post @ [l_tail l])) = Some True"
    using is_sorted_dlist [of h l pre xs "ys @ post" lt] d s by simp
  moreover have "is_sorted lt h (hd (ys @ post @ [l_tail l])) (hd (post @ [l_tail l])) = Some True"
    using is_sorted_dlist [of h l "pre @ xs" ys post lt] d s by simp
  ultimately show ?thesis
    using inplace_merge_loop_dlist [OF d, of lt] by (simp add: inplace_merge_def)
qed

lemma list_sort_pass_dlist:
  "dlist h l (pre @ xs) \<Longrightarrow> merge_pass lt xs = (zs, n) \<Longrightarrow>
   \<exists>h'. list_sort_pass lt h l (hd (xs @ [l_tail l])) c = Some (h', c + n) \<and>
     dlist h' l (pre @ zs) \<and> agree_off (cells l (pre @ xs)) h h'"
proof (induction "length xs" arbitrary: h pre xs zs n c rule: less_induct)
  case less
  show ?case
  proof (cases xs)
    case Nil
    with less.prems show ?thesis by (simp add: list_sort_pass.simps list_end_def)
  next
    case xs: (Cons x xs')
    have xt: "x \<noteq> l_tail l" using dlist_not_ends [OF less.prems(1)] xs by auto
    obtain r1 rest where r1: "run_split lt x xs' = (r1, rest)" by fastforce
    note a1 = run_split_append [OF r1] run_split_adj [OF r1]
    have f1: "find_end_of_run lt h x (l_tail l) = Some (hd (rest @ [l_tail l]))"
      using find_end_of_run_dlist [of h l pre x xs'] less.prems(1) xs r1 by simp
    show ?thesis
    proof (cases rest)
      case Nil
      with less.prems xs r1 f1 xt a1 show ?thesis
        by (subst list_sort_pass.simps) (auto simp: list_end_def merge_pass.simps(2))
    next
      case rest: (Cons y ys)
      obtain r2 rest2 where r2: "run_split lt y ys = (r2, rest2)" by fastforce
      note a2 = run_split_append [OF r2] run_split_adj [OF r2]
      obtain zs' m where m: "merge_pass lt rest2 = (zs', m)" by fastforce
      have eq: "pre @ xs = pre @ r1 @ r2 @ rest2" using a1 a2 xs rest by simp
      have res: "zs = smerge lt r1 r2 @ zs'" "n = Suc m"
        using less.prems(2) xs r1 r2 m rest by (simp_all add: merge_pass.simps(2))
      have hds: "hd (r1 @ r2 @ rest2 @ [l_tail l]) = x" "hd (r2 @ rest2 @ [l_tail l]) = y"
        using a1 a2 run_split_hd [OF r1] run_split_hd [OF r2] by simp_all
      have yt: "y \<noteq> l_tail l" using dlist_not_ends [OF less.prems(1)] a1 rest xs by (metis UnCI
          append_is_Nil_conv in_set_conv_decomp set_append)
      have "dlist h l ((pre @ r1) @ y # ys)" using less.prems(1) a1 rest xs by simp
      then have f2: "find_end_of_run lt h y (l_tail l) = Some (hd (rest2 @ [l_tail l]))"
        using r2 by (rule find_end_of_run_dlist)
      from inplace_merge_dlist [of h l pre r1 r2 rest2] less.prems(1) eq a1 a2 hds
      obtain h1 where h1: "inplace_merge lt h x y (hd (rest2 @ [l_tail l])) = Some h1"
        "dlist h1 l ((pre @ smerge lt r1 r2) @ rest2)" "agree_off (cells l (pre @ xs)) h h1" by auto
      have "length rest2 < length xs"
        using xs rest run_split_length [OF r1] run_split_length [OF r2] by simp
      from less.hyps [OF this h1(2) m, of "Suc c"] obtain h2 where
        h2: "list_sort_pass lt h1 l (hd (rest2 @ [l_tail l])) (Suc c) = Some (h2, Suc c + m)"
        "dlist h2 l ((pre @ smerge lt r1 r2) @ zs')"
        "agree_off (cells l ((pre @ smerge lt r1 r2) @ rest2)) h1 h2" by blast
      have "cells l ((pre @ smerge lt r1 r2) @ rest2) = cells l (pre @ xs)"
        unfolding eq by (rule cells_mset) simp
      then have "agree_off (cells l (pre @ xs)) h h2"
        using h1(3) h2(3) by (metis agree_off_trans)
      with h2 h1(1) f1 f2 xt yt rest res xs show ?thesis
        by (subst list_sort_pass.simps) (simp add: list_end_def)
    qed
  qed
qed

text \<open>
  For any comparison the pointer-level sort returns exactly when the list-level one does, with
  its result in the list.
\<close>

lemma list_sort_run_dlist:
  "list_sort_run lt xs = Some ys \<Longrightarrow> dlist h l xs \<Longrightarrow>
   \<exists>h'. list_sort lt h l = Some h' \<and> dlist h' l ys \<and> mset ys = mset xs \<and> agree_off (cells l xs) h h'"
proof (induction lt xs ys arbitrary: h rule: list_sort_run.raw_induct [rotated 1, consumes 1, case_names 2])
  case (2 rec lt xs ys)
  obtain zs n where zs: "merge_pass lt xs = (zs, n)" by fastforce
  note ms = mset_merge_pass [OF zs]
  from list_sort_pass_dlist [of h l "[]" xs lt zs n 0] 2(3) zs obtain h1 where
    h1: "list_sort_pass lt h l (hd (xs @ [l_tail l])) 0 = Some (h1, n)" "dlist h1 l zs"
    "agree_off (cells l xs) h h1" by auto
  have cells: "cells l zs = cells l xs" using ms by (rule cells_mset)
  show ?case
  proof (cases "1 < n")
    case True
    with 2(2) zs have "rec lt zs = Some ys" by simp
    from 2(1) [OF this h1(2)] obtain h2 where
      h2: "list_sort lt h1 l = Some h2" "dlist h2 l ys" "mset ys = mset zs" "agree_off (cells l zs) h1 h2"
      by blast
    have "agree_off (cells l xs) h h2"
      using h1(3) h2(4) cells by (metis agree_off_trans)
    with True h1 h2 2(3) ms show ?thesis
      by (subst list_sort.simps) (simp add: list_begin_dlist)
  next
    case False
    with 2(2) zs have ys: "ys = zs" "adj_sorted lt zs" by (simp_all split: if_splits)
    then have "is_sorted lt h1 (hd (zs @ [l_tail l])) (l_tail l) = Some True"
      using is_sorted_dlist [of h1 l "[]" zs "[]" lt] h1(2) by simp
    with False h1 ys ms 2(3) show ?thesis
      by (subst list_sort.simps) (simp add: list_begin_dlist list_end_def)
  qed
qed

lemma list_sort_run_complete:
  "list_sort lt h l = Some h' \<Longrightarrow> dlist h l xs \<Longrightarrow> list_sort_run lt xs \<noteq> None"
proof (induction lt h l h' arbitrary: xs rule: list_sort.raw_induct [rotated 1, consumes 1, case_names 2])
  case (2 rec lt h l h')
  obtain zs n where zs: "merge_pass lt xs = (zs, n)" by fastforce
  from list_sort_pass_dlist [of h l "[]" xs lt zs n 0] 2(3) zs obtain h1 where
    h1: "list_sort_pass lt h l (hd (xs @ [l_tail l])) 0 = Some (h1, n)" "dlist h1 l zs" by auto
  show ?case
  proof (cases "1 < n")
    case True
    with 2(2,3) h1 have "rec lt h1 l = Some h'" by (simp add: list_begin_dlist)
    from 2(1) [OF this h1(2)] True zs show ?thesis
      by (subst list_sort_run.simps) simp
  next
    case False
    have "is_sorted lt h1 (hd (zs @ [l_tail l])) (l_tail l) = Some (adj_sorted lt zs)"
      using is_sorted_dlist [of h1 l "[]" zs "[]" lt] h1(2) by simp
    with False 2(2,3) h1 zs show ?thesis
      by (subst list_sort_run.simps) (simp add: list_begin_dlist list_end_def split: if_splits)
  qed
qed

text \<open>A comparison of list elements given by their addresses.\<close>

locale elem_order = weak_order lt for lt :: "addr \<Rightarrow> addr \<Rightarrow> bool"
begin

lemma list_sort_dlist:
  "dlist h l xs \<Longrightarrow>
   \<exists>h'. list_sort lt h l = Some h' \<and> dlist h' l (sort_spec lt xs) \<and> agree_off (cells l xs) h h'"
  using list_sort_run_dlist [OF list_sort_run_spec] by blast

end

section \<open>Reversal\<close>

definition swapped :: "addr set \<Rightarrow> heap \<Rightarrow> heap" where
  "swapped A h = (\<lambda>q. if q \<in> A then
     map_option (\<lambda>e. e\<lparr>le_prev := le_next e, le_next := le_prev e\<rparr>) (h q) else h q)"

lemma valid_swapped [simp]: "valid (swapped A h) q = valid h q"
  by (simp add: valid_def swapped_def)

lemma get_swapped [simp]:
  "get_prev (swapped A h) q = (if q \<in> A then get_next h q else get_prev h q)"
  "get_next (swapped A h) q = (if q \<in> A then get_prev h q else get_next h q)"
  by (auto simp: get_prev_def get_next_def load_def swapped_def option.map_comp comp_def)

lemma swap_links_swapped:
  assumes "get_prev h e = Some p" and "get_next h e = Some n"
  shows "swap_links h e = Some (swapped {e} h)"
proof -
  have "upd_next (upd_prev h e n) e p = swapped {e} h"
    using assms by (auto simp: upd_next_def upd_prev_def swapped_def fun_eq_iff get_prev_def
        get_next_def load_def split: if_splits)
  then show ?thesis
    using assms get_prev_valid [OF assms(1)] by (simp add: swap_links_def)
qed

lemma swapped_swapped: "A \<inter> B = {} \<Longrightarrow> swapped A (swapped B h) = swapped (A \<union> B) h"
  by (auto simp: swapped_def fun_eq_iff)

lemma list_reverse_loop_swapped:
  "linked h (ys @ [l_tail l]) \<Longrightarrow> get_prev h (hd (ys @ [l_tail l])) = Some p \<Longrightarrow>
   distinct (ys @ [l_tail l]) \<Longrightarrow> set ys \<inter> A = {} \<Longrightarrow> l_tail l \<notin> A \<Longrightarrow>
   list_reverse_loop (swapped A h) l (hd (ys @ [l_tail l])) = Some (swapped (A \<union> set ys) h)"
proof (induction ys arbitrary: A p)
  case Nil
  then show ?case by (simp add: list_reverse_loop.simps list_end_def)
next
  case (Cons y ys)
  have links: "get_prev h y = Some p" "get_next h y = Some (hd (ys @ [l_tail l]))"
    "get_prev h (hd (ys @ [l_tail l])) = Some y" "linked h (ys @ [l_tail l])"
    using Cons.prems(1,2) by (auto simp: linked_Cons)
  have y: "y \<notin> A" "y \<noteq> l_tail l" using Cons.prems by auto
  have sw: "swap_links (swapped A h) y = Some (swapped (insert y A) h)"
    using swap_links_swapped [of "swapped A h" y] links y swapped_swapped [of "{y}" A h] by simp
  have "list_reverse_loop (swapped (insert y A) h) l (hd (ys @ [l_tail l])) =
      Some (swapped (insert y A \<union> set ys) h)"
    using Cons.prems links by (intro Cons.IH [of y]) auto
  with sw links y show ?case
    by (subst list_reverse_loop.simps) (simp add: list_end_def)
qed

lemma linked_rev:
  "linked h xs \<Longrightarrow> (\<And>a. a \<in> set xs \<Longrightarrow> a \<noteq> hd xs \<Longrightarrow> get_next h' a = get_prev h a) \<Longrightarrow>
   (\<And>a. a \<in> set xs \<Longrightarrow> a \<noteq> last xs \<Longrightarrow> get_prev h' a = get_next h a) \<Longrightarrow> distinct xs \<Longrightarrow>
   linked h' (rev xs)"
proof (induction xs)
  case (Cons x xs)
  show ?case
  proof (cases xs)
    case xs: (Cons y ys)
    have "linked h' (rev xs)"
      using Cons.prems xs by (intro Cons.IH) auto
    moreover have "get_next h' y = Some x" "get_prev h' x = Some y"
      using Cons.prems(1,4) Cons.prems(2) [of y] Cons.prems(3) [of x] last_in_set [of xs] xs by auto
    ultimately show ?thesis
      using xs by (simp add: linked_app last_rev)
  qed simp
qed simp

lemma list_reverse_dlist:
  assumes d: "dlist h l xs"
  shows "\<exists>h'. list_reverse h l = Some h' \<and> dlist h' l (rev xs) \<and> agree_off (cells l xs) h h'"
proof (cases "xs = []")
  case True
  with d show ?thesis by (simp add: list_reverse_def list_empty_dlist)
next
  case False
  let ?hd = "l_head l" and ?tl = "l_tail l"
  define x y where xy: "x = hd xs" "y = last xs"
  have m: "x \<in> set xs" "y \<in> set xs" using False by (simp_all add: xy)
  have r: "ring h (?hd # xs @ [?tl])" using d by (simp add: dlist_def)
  then have dist: "distinct (?hd # xs @ [?tl])" and l: "linked h (?hd # xs @ [?tl])"
    by (simp_all add: ring_def)
  have lx: "linked h xs" and lxt: "linked h (xs @ [?tl])"
    using l by (auto simp: linked_Cons linked_app)
  have ends: "get_next h ?hd = Some x" "get_prev h x = Some ?hd" "get_prev h ?tl = Some y"
    "get_next h y = Some ?tl" "get_prev h ?hd = Some NULL" "get_next h ?tl = Some NULL"
    using l r False by (auto simp: linked_Cons linked_app ring_def xy)
  have v: "valid h ?hd" "valid h ?tl" "valid h x" "valid h y"
    using dlist_valid [OF d] m by (auto simp: cells_def)
  let ?h = "swapped (set xs) h"
  have "list_reverse_loop (swapped {} h) l (hd (xs @ [?tl])) = Some (swapped ({} \<union> set xs) h)"
    using lxt ends False dist by (intro list_reverse_loop_swapped [where p = ?hd]) (auto simp: xy)
  then have loop: "list_reverse_loop h l x = Some ?h"
    using False by (simp add: swapped_def xy)
  define h' where "h' = upd_next (upd_prev (upd_prev (upd_next ?h ?hd y) ?tl x) y ?hd) x ?tl"
  have ne: "?hd \<noteq> x" "?hd \<noteq> y" "?tl \<noteq> x" "?tl \<noteq> y" "?hd \<noteq> ?tl" "?hd \<notin> set xs" "?tl \<notin> set xs"
    using dist m by auto
  have beg: "list_begin h l = Some x" using d False by (simp add: list_begin_dlist xy)
  have run: "list_reverse h l = Some h'"
    using d False beg loop ends v ne m
    by (simp add: list_reverse_def list_empty_dlist h'_def)
  have nx: "get_next h' a = (if a = x then Some ?tl else if a = ?hd then Some y
      else if a \<in> set xs then get_prev h a else get_next h a)"
    and pv: "get_prev h' a = (if a = y then Some ?hd else if a = ?tl then Some x
      else if a \<in> set xs then get_next h a else get_prev h a)" for a
    using v by (auto simp: h'_def)
  have "linked h' (rev xs)"
    by (rule linked_rev [OF lx]) (use ne dist in \<open>auto simp: nx pv simp flip: xy\<close>)
  then have "linked h' (?hd # rev xs @ [?tl])"
    using False ne by (auto simp: linked_Cons linked_app nx pv hd_append hd_rev last_rev simp flip: xy)
  moreover have "get_prev h' ?hd = Some NULL" "get_next h' ?tl = Some NULL"
    using ne ends by (auto simp: nx pv)
  ultimately have "dlist h' l (rev xs)"
    using r dist by (auto simp: dlist_def ring_def)
  moreover have "agree_off (cells l xs) h ?h"
    by (simp add: agree_off_def cells_def) (simp add: swapped_def)
  then have "agree_off (cells l xs) h h'"
    using m by (simp add: cells_def h'_def)
  ultimately show ?thesis using run by blast
qed

section \<open>Duplicate removal\<close>

text \<open>
  The abstract operation: of each group of adjacent equivalent elements the first stays, the
  others go to the second list in their order.
\<close>

fun unique_split :: "('a \<Rightarrow> 'a \<Rightarrow> bool) \<Rightarrow> 'a \<Rightarrow> 'a list \<Rightarrow> 'a list \<times> 'a list" where
  "unique_split lt e [] = ([e], [])"
| "unique_split lt e (n # ns) =
     (if \<not> lt e n \<and> \<not> lt n e
      then (case unique_split lt e ns of (us, ds) \<Rightarrow> (us, n # ds))
      else (case unique_split lt n ns of (us, ds) \<Rightarrow> (e # us, ds)))"

lemma list_unique_loop_dlist:
  "dlist h l (pre @ e # ns) \<Longrightarrow> unique_split lt e ns = (us, ds) \<Longrightarrow>
   \<exists>h'. list_unique_loop lt h l None e = Some h' \<and> dlist h' l (pre @ us) \<and>
     agree_off (cells l (pre @ e # ns)) h h'"
proof (induction ns arbitrary: h pre e us ds)
  case Nil
  then show ?case
    using list_next_dlist [of h l pre e "[]"]
    by (auto simp: list_unique_loop.simps list_end_def)
next
  case (Cons n ns)
  have nx: "list_next h e = Some n" using list_next_dlist [OF Cons.prems(1)] by simp
  have nt: "n \<noteq> l_tail l" using dlist_not_ends [OF Cons.prems(1)] by auto
  have d: "dlist h l ((pre @ [e]) @ n # ns)" using Cons.prems(1) by simp
  show ?case
  proof (cases "\<not> lt e n \<and> \<not> lt n e")
    case True
    obtain us' ds' where u: "unique_split lt e ns = (us', ds')" by fastforce
    from list_remove_dlist [OF d] obtain h1 where
      h1: "list_remove h n = Some (hd (ns @ [l_tail l]), h1)" "dlist h1 l (pre @ e # ns)"
      "agree_off (cells l (pre @ e # ns)) h h1" by auto
    from Cons.IH [OF h1(2) u] obtain h2 where
      h2: "list_unique_loop lt h1 l None e = Some h2" "dlist h2 l (pre @ us')"
      "agree_off (cells l (pre @ e # ns)) h1 h2" by blast
    have "agree_off (cells l (pre @ e # n # ns)) h h2"
      by (rule agree_off_mono [OF agree_off_trans [OF h1(3) h2(3)]]) (auto simp: cells_def)
    with True u h1(1) h2 nx nt Cons.prems(2) show ?thesis
      by (subst list_unique_loop.simps) (auto simp: list_end_def)
  next
    case False
    obtain us' ds' where u: "unique_split lt n ns = (us', ds')" by fastforce
    from Cons.IH [OF d u] obtain h2 where
      h2: "list_unique_loop lt h l None n = Some h2" "dlist h2 l ((pre @ [e]) @ us')"
      "agree_off (cells l ((pre @ [e]) @ n # ns)) h h2" by blast
    with False u nx nt Cons.prems(2) show ?thesis
      by (subst list_unique_loop.simps) (auto simp: list_end_def)
  qed
qed

lemma list_unique_dlist:
  assumes "dlist h l xs"
  shows "\<exists>h'. list_unique lt h l None = Some h' \<and> agree_off (cells l xs) h h' \<and>
    dlist h' l (case xs of [] \<Rightarrow> [] | e # ns \<Rightarrow> fst (unique_split lt e ns))"
proof (cases xs)
  case Nil
  with assms show ?thesis by (simp add: list_unique_def list_empty_dlist)
next
  case (Cons e ns)
  obtain us ds where u: "unique_split lt e ns = (us, ds)" by fastforce
  from list_unique_loop_dlist [of h l "[]" e ns lt us ds] assms Cons u show ?thesis
    by (auto simp: list_unique_def list_empty_dlist list_begin_dlist)
qed

end
