(* ===== verification/Fixed_Point.thy ===== *)
theory Fixed_Point
  imports Pintos_Prelude
begin

text \<open>
  \<open>threads/fixed-point.h\<close>: the 17.14 fixed-point arithmetic of the advanced scheduler.
  A fixed-point number is a C \<open>int\<close> \<open>x\<close> that stands for \<open>x / F\<close>. Every operation
  keeps the C code's widths: \<open>int\<close> results wrap to 32 bits, the products and quotients
  that the code widens to \<open>int64_t\<close> wrap to 64 bits before they are narrowed. A division
  traps (\<open>None\<close>) where the processor raises a divide error.
\<close>

section \<open>The operations\<close>

definition F :: int where
  "F = 16384"

definition integer_to_float :: "int \<Rightarrow> int" where
  "integer_to_float n = i32 (n * F)"

definition float_to_int_r :: "int \<Rightarrow> int" where
  "float_to_int_r x =
     (if x \<ge> 0 then i32 (x + F sdiv 2) sdiv F else i32 (x - F sdiv 2) sdiv F)"

definition float_to_int :: "int \<Rightarrow> int" where
  "float_to_int x = x sdiv F"

definition addi :: "int \<Rightarrow> int \<Rightarrow> int" where
  "addi x y = i32 (x + y)"

definition subi :: "int \<Rightarrow> int \<Rightarrow> int" where
  "subi x y = i32 (x - y)"

definition add_mixed :: "int \<Rightarrow> int \<Rightarrow> int" where
  "add_mixed x n = i32 (x + integer_to_float n)"

definition sub_mixed :: "int \<Rightarrow> int \<Rightarrow> int" where
  "sub_mixed x n = i32 (x - integer_to_float n)"

definition multiply_float :: "int \<Rightarrow> int \<Rightarrow> int" where
  "multiply_float x y = i32 (i64 (x * y) sdiv F)"

definition multiply_mixed :: "int \<Rightarrow> int \<Rightarrow> int" where
  "multiply_mixed x n = i32 (x * n)"

definition division_float :: "int \<Rightarrow> int \<Rightarrow> int option" where
  "division_float x y = (if y = 0 then None else Some (i32 (i64 (x * F) sdiv y)))"

definition division_mixed :: "int \<Rightarrow> int \<Rightarrow> int option" where
  "division_mixed x n =
     (if n = 0 \<or> (x = - (2 ^ 31) \<and> n = -1) then None else Some (x sdiv n))"

lemmas fixed_point_defs = F_def integer_to_float_def float_to_int_r_def float_to_int_def
  addi_def subi_def add_mixed_def sub_mixed_def multiply_float_def multiply_mixed_def
  division_float_def division_mixed_def

section \<open>Ranges and conversions\<close>

lemma F_pos [simp]: "0 < F"
  by (simp add: F_def)

lemma F_half: "F sdiv 2 = 8192"
  by (simp add: F_def signed_divide_int_def)

definition fp_int_range :: "int \<Rightarrow> bool" where
  "fp_int_range n \<longleftrightarrow> -131072 \<le> n \<and> n < 131072"

lemma integer_to_float_exact: "fp_int_range n \<Longrightarrow> integer_to_float n = n * F"
  unfolding integer_to_float_def fp_int_range_def
  by (rule i32_id) (simp add: in_i32_def F_def)

text \<open>The operands for which the rounding addition of \<open>float_to_int_r\<close> stays in range.\<close>

definition fp_round_range :: "int \<Rightarrow> bool" where
  "fp_round_range x \<longleftrightarrow> \<bar>x\<bar> \<le> 2 ^ 31 - 1 - 8192"

lemma float_to_int_r_pos:
  "fp_round_range x \<Longrightarrow> 0 \<le> x \<Longrightarrow> float_to_int_r x = (x + 8192) div 16384"
  by (simp add: float_to_int_r_def F_half F_def fp_round_range_def i32_id in_i32_def sdiv_int_pos)

lemma float_to_int_r_neg:
  "fp_round_range x \<Longrightarrow> x < 0 \<Longrightarrow> float_to_int_r x = - ((8192 - x) div 16384)"
  by (simp add: float_to_int_r_def F_half F_def fp_round_range_def i32_id in_i32_def sdiv_int_neg)

lemma div_16384_bounds:
  "(z::int) div 16384 * 16384 \<le> z \<and> z < z div 16384 * 16384 + 16384"
  by presburger

section \<open>Properties\<close>

text \<open>
  Converting an integer to 17.14 and back with either rounding returns the integer, for
  every integer of the format's range.
\<close>

theorem fp_int_roundtrip:
  assumes "-131071 \<le> n" and "n < 131072"
  shows "float_to_int (integer_to_float n) = n \<and> float_to_int_r (integer_to_float n) = n"
proof
  have n: "integer_to_float n = n * F"
    using assms by (intro integer_to_float_exact) (simp add: fp_int_range_def)
  show "float_to_int (integer_to_float n) = n"
    by (simp add: n float_to_int_def sdiv_int_cancel)
  have r: "fp_round_range (n * F)"
    using assms by (simp add: fp_round_range_def F_def abs_le_iff)
  show "float_to_int_r (integer_to_float n) = n"
  proof (cases "0 \<le> n")
    case True
    with r have "float_to_int_r (n * F) = (n * F + 8192) div 16384"
      by (intro float_to_int_r_pos) (auto simp: F_def)
    then show ?thesis by (simp add: n F_def)
  next
    case False
    with r have "float_to_int_r (n * F) = - ((8192 - n * F) div 16384)"
      by (intro float_to_int_r_neg) (auto simp: F_def)
    moreover have "(8192 - n * F) div 16384 = - n"
      by (simp add: F_def)
    ultimately show ?thesis by (simp add: n)
  qed
qed

theorem fp_int_roundtrip_witness:
  "float_to_int (integer_to_float (-131071)) = -131071
   \<and> float_to_int_r (integer_to_float (-131071)) = -131071"
  by (rule fp_int_roundtrip) simp_all

text \<open>
  C12. Rounding to the nearest: where the rounding addition does not overflow, the result of
  \<open>float_to_int_r\<close> is at most half a unit away from the fixed-point value.
\<close>

theorem float_to_int_r_nearest:
  assumes "fp_round_range x"
  shows "2 * \<bar>float_to_int_r x * F - x\<bar> \<le> F"
proof (cases "0 \<le> x")
  case True
  with float_to_int_r_pos [OF assms True] div_16384_bounds [of "x + 8192"] show ?thesis
    by (simp add: F_def abs_le_iff)
next
  case False
  with float_to_int_r_neg [OF assms] div_16384_bounds [of "8192 - x"] show ?thesis
    by (simp add: F_def abs_le_iff)
qed

theorem float_to_int_r_nearest_witness:
  "2 * \<bar>float_to_int_r (-24577) * F - (-24577)\<bar> \<le> F"
  by (rule float_to_int_r_nearest) (simp add: fp_round_range_def)

lemma product_in_i64:
  assumes "in_i32 x" and "in_i32 y"
  shows "in_i64 (x * y)"
proof -
  have "\<bar>x\<bar> \<le> 2 ^ 31" "\<bar>y\<bar> \<le> 2 ^ 31"
    using assms by (auto simp: in_i32_def)
  then have "\<bar>x * y\<bar> \<le> 2 ^ 31 * 2 ^ 31"
    unfolding abs_mult by (rule mult_mono) simp_all
  then show ?thesis
    by (simp add: in_i64_def abs_le_iff)
qed

lemma sdiv_F_error:
  "\<bar>z sdiv F * F - z\<bar> < F \<and> \<bar>z sdiv F * F\<bar> \<le> \<bar>z\<bar>"
proof (cases "0 \<le> z")
  case True
  with div_16384_bounds [of z] show ?thesis
    by (simp add: F_def sdiv_int_pos pos_imp_zdiv_nonneg_iff abs_less_iff abs_le_iff)
next
  case False
  with div_16384_bounds [of "- z"] show ?thesis
    by (simp add: F_def sdiv_int_neg pos_imp_zdiv_nonneg_iff abs_less_iff abs_le_iff)
qed

text \<open>
  C13. The widening product: for any two in-range operands whose quotient fits an \<open>int\<close>, the
  64-bit intermediate does not overflow and the result is the exact product rounded towards
  zero, less than one unit of the last place away.
\<close>

theorem multiply_float_error:
  assumes "in_i32 x" and "in_i32 y" and fits: "in_i32 (x * y sdiv F)"
  shows "\<bar>multiply_float x y * F - x * y\<bar> < F \<and> \<bar>multiply_float x y * F\<bar> \<le> \<bar>x * y\<bar>"
  using sdiv_F_error [of "x * y"] product_in_i64 [OF assms(1,2)] fits
  by (simp add: multiply_float_def i64_id i32_id)

theorem multiply_float_error_witness:
  "\<bar>multiply_float (-40000) 24576 * F - (-40000) * 24576\<bar> < F
   \<and> \<bar>multiply_float (-40000) 24576 * F\<bar> \<le> \<bar>(-40000) * 24576\<bar>"
  by (rule multiply_float_error) (simp_all add: in_i32_def F_def signed_divide_int_def)

end
