(* ===== verification/Kernel_State.thy ===== *)
theory Kernel_State
  imports List_Sort_Refine Fixed_Point
begin

text \<open>
  The state of the scheduler and of the synchronization primitives: \<open>struct thread\<close>
  (\<open>threads/thread.h\<close>), semaphores and locks (\<open>threads/synch.h\<close>), the child-process
  records of \<open>userprog/syscall.h\<close>, and the static variables of \<open>threads/thread.c\<close>,
  \<open>threads/interrupt.c\<close> and \<open>devices/timer.c\<close>, in one record \<open>kernel\<close>.

  A \<open>struct thread\<close> is found by the address of its page; a page whose \<open>magic\<close> is intact
  is one that \<open>thr\<close> maps. The kernel's lists are HOL lists here: that \<open>list.c\<close>
  implements them is the refinement of \<open>List_Refine\<close> and \<open>List_Sort_Refine\<close>, whose
  comparison functions are interpreted below.

  \<open>p_status\<close> is \<open>None\<close> as long as the field of the freshly allocated record is uninitialized.

  A kernel stack is represented by what is left to do on it: the \<open>frame\<close>s of a thread are
  the pieces of kernel code that run when the functions above them return, innermost first.
  A running thread with no frame is executing its own code outside the modelled functions.
\<close>

section \<open>Data\<close>

datatype thread_status = THREAD_RUNNING | THREAD_READY | THREAD_BLOCKED | THREAD_DYING

definition PRI_MIN :: int where "PRI_MIN = 0"
definition PRI_DEFAULT :: int where "PRI_DEFAULT = 31"
definition PRI_MAX :: int where "PRI_MAX = 63"

record thread =
  tid :: int
  status :: thread_status
  priority :: int
  wake_ticks :: int
  initial_priority :: int
  waitlock :: addr
  list_of_donation :: "addr list"
  nice :: int
  recent_cpu :: int
  file_list :: "(int \<times> addr) list"
  next_fd :: int
  child_list :: "addr list"
  parent :: int
  cp :: addr
  pagedir :: addr

text \<open>
  A semaphore stands alone, is embedded in the lock at an address, or is the stack-allocated
  \<open>waiter\<close> of the thread that is inside \<open>cond_wait\<close>.
\<close>

datatype sema_id = Sema addr | LockSema addr | WaiterSema addr

record semaphore =
  sm_value :: nat
  waiters :: "addr list"

record process =
  lock_for_wait :: "addr \<times> semaphore"
  pid :: int
  load_state :: int
  p_wait :: bool
  p_exit :: bool
  p_status :: "int option"

datatype frame =
    SetLevel bool
  | SleepReturn bool
  | SemaDownLoop sema_id bool
  | LockAcquired addr bool
  | CallSemaDown sema_id
  | CallLockAcquire addr
  | BroadcastLoop addr addr
  | CreateGotTidLock addr addr
  | CreateTail addr addr int
  | KernelThread
  | IdleStart sema_id
  | IdleLoop
  | IdleHlt

record kernel =
  thr :: "addr \<Rightarrow> thread option"
  frames :: "addr \<Rightarrow> frame list"
  cur :: addr
  ready_list :: "addr list"
  all_list :: "addr list"
  idle_thread :: addr
  initial_thread :: addr
  next_tid :: int
  tid_lock :: addr
  idle_ticks :: int
  kernel_ticks :: int
  user_ticks :: int
  thread_ticks :: int
  thread_mlfqs :: bool
  load_avg :: int
  intr_on :: bool
  in_external_intr :: bool
  yield_on_return :: bool
  semas :: "sema_id \<Rightarrow> semaphore option"
  lock_holder :: "addr \<Rightarrow> addr option"
  conds :: "addr \<Rightarrow> addr list option"
  sleep_list :: "addr list"
  ticks :: int
  procs :: "addr \<Rightarrow> process option"

section \<open>Access\<close>

text \<open>
  \<open>upd_thread\<close> writes through a thread pointer; it fails when the pointer is not a thread.
\<close>

definition upd_thread :: "addr \<Rightarrow> (thread \<Rightarrow> thread) \<Rightarrow> kernel \<Rightarrow> kernel option" where
  "upd_thread t f s = (case thr s t of None \<Rightarrow> None | Some x \<Rightarrow> Some (s\<lparr>thr := (thr s)(t \<mapsto> f x)\<rparr>))"

definition is_thread :: "kernel \<Rightarrow> addr \<Rightarrow> bool" where
  "is_thread s t \<longleftrightarrow> t \<noteq> NULL \<and> thr s t \<noteq> None"

definition prio :: "kernel \<Rightarrow> addr \<Rightarrow> int" where
  "prio s t = (case thr s t of None \<Rightarrow> 0 | Some x \<Rightarrow> priority x)"

definition compare_priority :: "kernel \<Rightarrow> addr \<Rightarrow> addr \<Rightarrow> bool" where
  "compare_priority s a b = (prio s a > prio s b)"

definition wake_time :: "kernel \<Rightarrow> addr \<Rightarrow> int" where
  "wake_time s t = (case thr s t of None \<Rightarrow> 0 | Some x \<Rightarrow> wake_ticks x)"

definition compare_timeto_wakeup_ticks :: "kernel \<Rightarrow> addr \<Rightarrow> addr \<Rightarrow> bool" where
  "compare_timeto_wakeup_ticks s a b = (wake_time s a < wake_time s b)"

definition push_frame :: "frame \<Rightarrow> kernel \<Rightarrow> kernel" where
  "push_frame k s = s\<lparr>frames := (frames s)(cur s := k # frames s (cur s))\<rparr>"

definition pop_frame :: "kernel \<Rightarrow> kernel" where
  "pop_frame s = s\<lparr>frames := (frames s)(cur s := tl (frames s (cur s)))\<rparr>"

section \<open>The comparison functions as orders\<close>

text \<open>
  Both thread comparisons are strict weak orders for every state of the thread pages, so the
  facts on ordered insertion and on the in-place sort hold for the kernel's lists, at pointer
  level as well as for HOL lists.
\<close>

interpretation by_priority: elem_order "compare_priority s" for s
  by unfold_locales (auto simp: compare_priority_def)

interpretation by_wake_time: elem_order "compare_timeto_wakeup_ticks s" for s
  by unfold_locales (auto simp: compare_timeto_wakeup_ticks_def)

section \<open>Interrupt level\<close>

text \<open>\<open>threads/interrupt.c\<close>: the interrupt flag and the external-interrupt context.\<close>

definition intr_enable :: "kernel \<Rightarrow> kernel option" where
  "intr_enable s = do { _ \<leftarrow> ASSERT (\<not> in_external_intr s); Some (s\<lparr>intr_on := True\<rparr>) }"

definition intr_disable :: "kernel \<Rightarrow> kernel" where
  "intr_disable s = s\<lparr>intr_on := False\<rparr>"

definition intr_set_level :: "bool \<Rightarrow> kernel \<Rightarrow> kernel option" where
  "intr_set_level level s = (if level then intr_enable s else Some (intr_disable s))"

definition intr_yield_on_return :: "kernel \<Rightarrow> kernel option" where
  "intr_yield_on_return s = do {
     _ \<leftarrow> ASSERT (in_external_intr s); Some (s\<lparr>yield_on_return := True\<rparr>) }"

section \<open>The scheduler\<close>

definition thread_current :: "kernel \<Rightarrow> thread option" where
  "thread_current s = do {
     _ \<leftarrow> ASSERT (cur s \<noteq> NULL);
     t \<leftarrow> thr s (cur s);
     _ \<leftarrow> ASSERT (status t = THREAD_RUNNING);
     Some t }"

definition next_thread_to_run :: "kernel \<Rightarrow> addr \<times> kernel" where
  "next_thread_to_run s = (case ready_list s of [] \<Rightarrow> (idle_thread s, s)
     | t # ts \<Rightarrow> (t, s\<lparr>ready_list := ts\<rparr>))"

text \<open>
  The second half of a switch: mark the new thread running, start its time slice, and free the
  page of a dying predecessor. \<open>process_activate\<close> loads the page directory and the task
  state segment and changes nothing here.
\<close>

definition thread_schedule_tail :: "addr \<Rightarrow> kernel \<Rightarrow> kernel option" where
  "thread_schedule_tail prev s = do {
     _ \<leftarrow> ASSERT (\<not> intr_on s);
     s \<leftarrow> upd_thread (cur s) (\<lambda>t. t\<lparr>status := THREAD_RUNNING\<rparr>) s;
     let s = s\<lparr>thread_ticks := 0\<rparr>;
     if prev = NULL then Some s
     else do {
       p \<leftarrow> thr s prev;
       if status p = THREAD_DYING \<and> prev \<noteq> initial_thread s then do {
         _ \<leftarrow> ASSERT (prev \<noteq> cur s);
         Some (s\<lparr>thr := (thr s)(prev := None), frames := (frames s)(prev := [])\<rparr>) }
       else Some s } }"

definition schedule :: "kernel \<Rightarrow> kernel option" where
  "schedule s = (let (nxt, s1) = next_thread_to_run s in do {
     _ \<leftarrow> ASSERT (\<not> intr_on s);
     c \<leftarrow> thr s (cur s);
     _ \<leftarrow> ASSERT (status c \<noteq> THREAD_RUNNING);
     _ \<leftarrow> ASSERT (is_thread s nxt);
     if cur s \<noteq> nxt then thread_schedule_tail (cur s) (s1\<lparr>cur := nxt\<rparr>)
     else thread_schedule_tail NULL s1 })"

definition thread_block :: "kernel \<Rightarrow> kernel option" where
  "thread_block s = do {
     _ \<leftarrow> ASSERT (\<not> in_external_intr s);
     _ \<leftarrow> ASSERT (\<not> intr_on s);
     _ \<leftarrow> thread_current s;
     s \<leftarrow> upd_thread (cur s) (\<lambda>t. t\<lparr>status := THREAD_BLOCKED\<rparr>) s;
     schedule s }"

definition thread_unblock :: "addr \<Rightarrow> kernel \<Rightarrow> kernel option" where
  "thread_unblock t s = do {
     _ \<leftarrow> ASSERT (is_thread s t);
     let old_level = intr_on s;
     let s = intr_disable s;
     x \<leftarrow> thr s t;
     _ \<leftarrow> ASSERT (status x = THREAD_BLOCKED);
     let s = s\<lparr>ready_list := insert_ord (compare_priority s) t (ready_list s)\<rparr>;
     s \<leftarrow> upd_thread t (\<lambda>x. x\<lparr>status := THREAD_READY\<rparr>) s;
     intr_set_level old_level s }"

definition thread_yield :: "kernel \<Rightarrow> kernel option" where
  "thread_yield s = do {
     _ \<leftarrow> thread_current s;
     _ \<leftarrow> ASSERT (\<not> in_external_intr s);
     let s = push_frame (SetLevel (intr_on s)) s;
     let s = intr_disable s;
     let s = (if cur s \<noteq> idle_thread s
              then s\<lparr>ready_list := insert_ord (compare_priority s) (cur s) (ready_list s)\<rparr> else s);
     s \<leftarrow> upd_thread (cur s) (\<lambda>t. t\<lparr>status := THREAD_READY\<rparr>) s;
     schedule s }"

definition TIME_SLICE :: int where "TIME_SLICE = 4"

definition iscurrent_thread_has_max_priority :: "kernel \<Rightarrow> kernel option" where
  "iscurrent_thread_has_max_priority s = (case ready_list s of [] \<Rightarrow> Some s
     | f # _ \<Rightarrow>
       do {
         t \<leftarrow> thr s f;
         if in_external_intr s then do {
           let s = s\<lparr>thread_ticks := (thread_ticks s + 1) mod 2 ^ 32\<rparr>;
           c \<leftarrow> thread_current s;
           if priority c < priority t
              \<or> (thread_ticks s \<ge> TIME_SLICE \<and> priority c = priority t)
           then intr_yield_on_return s else Some s }
         else do {
           c \<leftarrow> thread_current s;
           if priority c < priority t then thread_yield s else Some s } })"

definition thread_tick :: "kernel \<Rightarrow> kernel option" where
  "thread_tick s = do {
     t \<leftarrow> thread_current s;
     Some (if cur s = idle_thread s then s\<lparr>idle_ticks := i64 (idle_ticks s + 1)\<rparr>
           else if pagedir t \<noteq> NULL then s\<lparr>user_ticks := i64 (user_ticks s + 1)\<rparr>
           else s\<lparr>kernel_ticks := i64 (kernel_ticks s + 1)\<rparr>) }"

section \<open>Priority donation\<close>

definition LOCK_SIZE :: nat where "LOCK_SIZE = 8"

fun donation_loop :: "nat \<Rightarrow> addr \<Rightarrow> addr \<Rightarrow> kernel \<Rightarrow> kernel option" where
  "donation_loop 0 t l s = Some s"
| "donation_loop (Suc n) t l s =
    (if l = NULL then Some s
     else do {
       h \<leftarrow> lock_holder s l;
       if h = NULL then Some s
       else do {
         hx \<leftarrow> thr s h;
         tx \<leftarrow> thr s t;
         if priority hx \<ge> priority tx then Some s
         else do {
           s \<leftarrow> upd_thread h (\<lambda>x. x\<lparr>priority := priority tx\<rparr>) s;
           donation_loop n h (waitlock hx) s } } })"

definition priority_donation_solve :: "kernel \<Rightarrow> kernel option" where
  "priority_donation_solve s = do {
     t \<leftarrow> thread_current s;
     donation_loop LOCK_SIZE (cur s) (waitlock t) s }"

definition waits_for :: "kernel \<Rightarrow> addr \<Rightarrow> addr" where
  "waits_for s t = (case thr s t of None \<Rightarrow> NULL | Some x \<Rightarrow> waitlock x)"

definition remove_donation_list_waiting_lock :: "addr \<Rightarrow> kernel \<Rightarrow> kernel option" where
  "remove_donation_list_waiting_lock l s = do {
     _ \<leftarrow> thread_current s;
     upd_thread (cur s) (\<lambda>x. x\<lparr>list_of_donation :=
       filter (\<lambda>t. waits_for s t \<noteq> l) (list_of_donation x)\<rparr>) s }"

definition priority_check_from_donation_list :: "kernel \<Rightarrow> kernel option" where
  "priority_check_from_donation_list s = do {
     t \<leftarrow> thread_current s;
     s \<leftarrow> upd_thread (cur s) (\<lambda>x. x\<lparr>priority := initial_priority t\<rparr>) s;
     case list_of_donation t of [] \<Rightarrow> Some s
     | f # _ \<Rightarrow> do {
         d \<leftarrow> thr s f;
         if priority d > initial_priority t
         then upd_thread (cur s) (\<lambda>x. x\<lparr>priority := priority d\<rparr>) s else Some s } }"

definition thread_set_priority :: "int \<Rightarrow> kernel \<Rightarrow> kernel option" where
  "thread_set_priority new_priority s =
     (if thread_mlfqs s then Some s
      else do {
        let stored_level = intr_on s;
        let s = intr_disable s;
        c \<leftarrow> thread_current s;
        let stored_priority = priority c;
        s \<leftarrow> upd_thread (cur s) (\<lambda>x. x\<lparr>initial_priority := new_priority\<rparr>) s;
        s \<leftarrow> priority_check_from_donation_list s;
        c \<leftarrow> thread_current s;
        s \<leftarrow> (if stored_priority < priority c then priority_donation_solve s else Some s);
        let s = push_frame (SetLevel stored_level) s;
        c \<leftarrow> thread_current s;
        if stored_priority > priority c then iscurrent_thread_has_max_priority s else Some s })"

definition thread_get_priority :: "kernel \<Rightarrow> int option" where
  "thread_get_priority s = do { t \<leftarrow> thread_current s; Some (priority t) }"

end
