(* ===== verification/Synch_Ops.thy ===== *)
theory Synch_Ops
  imports Kernel_State
begin

text \<open>
  \<open>threads/synch.c\<close>: semaphores, locks with priority donation and condition variables; then
  the operations of \<open>threads/thread.c\<close> that use locks (\<open>thread_create\<close>, \<open>thread_exit\<close>,
  \<open>idle\<close>, \<open>kernel_thread\<close>). An operation that may sleep pushes what it still has to do as
  a \<open>frame\<close> of the running thread before it calls \<open>thread_block\<close>.
\<close>

section \<open>Semaphores\<close>

definition sema_init :: "sema_id \<Rightarrow> nat \<Rightarrow> kernel \<Rightarrow> kernel" where
  "sema_init x v s = s\<lparr>semas := (semas s)(x \<mapsto> \<lparr>sm_value = v, waiters = []\<rparr>)\<rparr>"

definition upd_sema :: "sema_id \<Rightarrow> (semaphore \<Rightarrow> semaphore) \<Rightarrow> kernel \<Rightarrow> kernel option" where
  "upd_sema x f s = (case semas s x of None \<Rightarrow> None | Some m \<Rightarrow> Some (s\<lparr>semas := (semas s)(x \<mapsto> f m)\<rparr>))"

text \<open>
  The loop of \<open>sema_down\<close>, interrupts off, from its head: either the value is positive and
  the call completes, or the thread is queued and blocks, to come back to the loop head.
\<close>

definition sema_down_loop :: "sema_id \<Rightarrow> bool \<Rightarrow> kernel \<Rightarrow> kernel option" where
  "sema_down_loop x old_level s = do {
     m \<leftarrow> semas s x;
     if sm_value m = 0 then do {
       s \<leftarrow> (if \<not> thread_mlfqs s then priority_donation_solve s else Some s);
       _ \<leftarrow> thread_current s;
       s \<leftarrow> upd_sema x (\<lambda>m. m\<lparr>waiters := insert_ord (compare_priority s) (cur s) (waiters m)\<rparr>) s;
       thread_block (push_frame (SemaDownLoop x old_level) s) }
     else do {
       s \<leftarrow> upd_sema x (\<lambda>m. m\<lparr>sm_value := sm_value m - 1\<rparr>) s;
       intr_set_level old_level s } }"

definition sema_down :: "sema_id \<Rightarrow> kernel \<Rightarrow> kernel option" where
  "sema_down x s = do {
     _ \<leftarrow> ASSERT (\<not> in_external_intr s);
     sema_down_loop x (intr_on s) (intr_disable s) }"

definition sema_try_down :: "sema_id \<Rightarrow> kernel \<Rightarrow> (bool \<times> kernel) option" where
  "sema_try_down x s = do {
     let old_level = intr_on s;
     let s = intr_disable s;
     m \<leftarrow> semas s x;
     (success, s) \<leftarrow> (if sm_value m > 0
        then do { s \<leftarrow> upd_sema x (\<lambda>m. m\<lparr>sm_value := sm_value m - 1\<rparr>) s; Some (True, s) }
        else Some (False, s));
     s \<leftarrow> intr_set_level old_level s;
     Some (success, s) }"

definition sema_up :: "sema_id \<Rightarrow> kernel \<Rightarrow> kernel option" where
  "sema_up x s = do {
     let old_level = intr_on s;
     let s = intr_disable s;
     m \<leftarrow> semas s x;
     s \<leftarrow> (case waiters m of [] \<Rightarrow> Some s
        | _ \<Rightarrow>
          (case sort_spec (compare_priority s) (waiters m) of [] \<Rightarrow> None
           | t # ws \<Rightarrow> do {
               s \<leftarrow> upd_sema x (\<lambda>m. m\<lparr>waiters := ws\<rparr>) s;
               thread_unblock t s }));
     s \<leftarrow> upd_sema x (\<lambda>m. m\<lparr>sm_value := sm_value m + 1\<rparr>) s;
     if \<not> in_external_intr s
     then iscurrent_thread_has_max_priority (push_frame (SetLevel old_level) s)
     else intr_set_level old_level s }"

section \<open>Locks\<close>

definition lock_init :: "addr \<Rightarrow> kernel \<Rightarrow> kernel option" where
  "lock_init l s = do {
     _ \<leftarrow> ASSERT (l \<noteq> NULL);
     Some (sema_init (LockSema l) 1 (s\<lparr>lock_holder := (lock_holder s)(l \<mapsto> NULL)\<rparr>)) }"

definition lock_held_by_current_thread :: "addr \<Rightarrow> kernel \<Rightarrow> bool option" where
  "lock_held_by_current_thread l s = do {
     _ \<leftarrow> ASSERT (l \<noteq> NULL);
     h \<leftarrow> lock_holder s l;
     _ \<leftarrow> thread_current s;
     Some (h = cur s) }"

definition lock_acquire :: "addr \<Rightarrow> kernel \<Rightarrow> kernel option" where
  "lock_acquire l s = do {
     _ \<leftarrow> ASSERT (l \<noteq> NULL);
     _ \<leftarrow> ASSERT (\<not> in_external_intr s);
     b \<leftarrow> lock_held_by_current_thread l s;
     _ \<leftarrow> ASSERT (\<not> b);
     let old_level = intr_on s;
     let s = intr_disable s;
     h \<leftarrow> lock_holder s l;
     s \<leftarrow> (if \<not> thread_mlfqs s \<and> h \<noteq> NULL then do {
         _ \<leftarrow> thread_current s;
         s \<leftarrow> upd_thread (cur s) (\<lambda>x. x\<lparr>waitlock := l\<rparr>) s;
         upd_thread h (\<lambda>x. x\<lparr>list_of_donation :=
           insert_ord (compare_priority s) (cur s) (list_of_donation x)\<rparr>) s }
       else Some s);
     sema_down (LockSema l) (push_frame (LockAcquired l old_level) s) }"

text \<open>The rest of \<open>lock_acquire\<close>, once \<open>sema_down\<close> has returned.\<close>

definition lock_acquired :: "addr \<Rightarrow> bool \<Rightarrow> kernel \<Rightarrow> kernel option" where
  "lock_acquired l old_level s = do {
     _ \<leftarrow> thread_current s;
     s \<leftarrow> upd_thread (cur s) (\<lambda>x. x\<lparr>waitlock := NULL\<rparr>) s;
     _ \<leftarrow> lock_holder s l;
     intr_set_level old_level (s\<lparr>lock_holder := (lock_holder s)(l \<mapsto> cur s)\<rparr>) }"

definition lock_try_acquire :: "addr \<Rightarrow> kernel \<Rightarrow> (bool \<times> kernel) option" where
  "lock_try_acquire l s = do {
     _ \<leftarrow> ASSERT (l \<noteq> NULL);
     b \<leftarrow> lock_held_by_current_thread l s;
     _ \<leftarrow> ASSERT (\<not> b);
     let old_level = intr_on s;
     let s = intr_disable s;
     (success, s) \<leftarrow> sema_try_down (LockSema l) s;
     s \<leftarrow> (if success then do {
         _ \<leftarrow> thread_current s;
         s \<leftarrow> upd_thread (cur s) (\<lambda>x. x\<lparr>waitlock := NULL\<rparr>) s;
         Some (s\<lparr>lock_holder := (lock_holder s)(l \<mapsto> cur s)\<rparr>) }
       else Some s);
     s \<leftarrow> intr_set_level old_level s;
     Some (success, s) }"

definition lock_release :: "addr \<Rightarrow> kernel \<Rightarrow> kernel option" where
  "lock_release l s = do {
     _ \<leftarrow> ASSERT (l \<noteq> NULL);
     b \<leftarrow> lock_held_by_current_thread l s;
     _ \<leftarrow> ASSERT b;
     let old_level = intr_on s;
     let s = intr_disable s;
     let s = s\<lparr>lock_holder := (lock_holder s)(l \<mapsto> NULL)\<rparr>;
     s \<leftarrow> (if \<not> thread_mlfqs s then do {
         s \<leftarrow> remove_donation_list_waiting_lock l s;
         priority_check_from_donation_list s }
       else Some s);
     sema_up (LockSema l) (push_frame (SetLevel old_level) s) }"

section \<open>Condition variables\<close>

text \<open>
  An element of a condition's list is the \<open>waiter\<close> on the stack of a thread and is named by
  that thread. The comparison sorts the two waiter semaphores' lists, which hold at most their
  owner, before it reads their first elements.
\<close>

definition compare_semaphore_priority :: "kernel \<Rightarrow> addr \<Rightarrow> addr \<Rightarrow> bool" where
  "compare_semaphore_priority s a b =
     (let ws = (\<lambda>t. case semas s (WaiterSema t) of None \<Rightarrow> [] | Some m \<Rightarrow> waiters m) in
      if ws b = [] then True
      else if ws a = [] then False
      else prio s (hd (sort_spec (compare_priority s) (ws a)))
           > prio s (hd (sort_spec (compare_priority s) (ws b))))"

definition cond_init :: "addr \<Rightarrow> kernel \<Rightarrow> kernel option" where
  "cond_init c s = do { _ \<leftarrow> ASSERT (c \<noteq> NULL); Some (s\<lparr>conds := (conds s)(c \<mapsto> [])\<rparr>) }"

definition cond_wait :: "addr \<Rightarrow> addr \<Rightarrow> kernel \<Rightarrow> kernel option" where
  "cond_wait c l s = do {
     _ \<leftarrow> ASSERT (c \<noteq> NULL);
     _ \<leftarrow> ASSERT (l \<noteq> NULL);
     _ \<leftarrow> ASSERT (\<not> in_external_intr s);
     b \<leftarrow> lock_held_by_current_thread l s;
     _ \<leftarrow> ASSERT b;
     let s = sema_init (WaiterSema (cur s)) 0 s;
     ws \<leftarrow> conds s c;
     let s = s\<lparr>conds := (conds s)(c \<mapsto> insert_ord (compare_semaphore_priority s) (cur s) ws)\<rparr>;
     lock_release l (push_frame (CallSemaDown (WaiterSema (cur s))) (push_frame (CallLockAcquire l) s)) }"

definition cond_signal :: "addr \<Rightarrow> addr \<Rightarrow> kernel \<Rightarrow> kernel option" where
  "cond_signal c l s = do {
     _ \<leftarrow> ASSERT (c \<noteq> NULL);
     _ \<leftarrow> ASSERT (l \<noteq> NULL);
     _ \<leftarrow> ASSERT (\<not> in_external_intr s);
     b \<leftarrow> lock_held_by_current_thread l s;
     _ \<leftarrow> ASSERT b;
     ws \<leftarrow> conds s c;
     case ws of [] \<Rightarrow> Some s
     | _ \<Rightarrow> do {
         ws \<leftarrow> list_sort_run (compare_semaphore_priority s) ws;
         case ws of [] \<Rightarrow> None
         | w # rest \<Rightarrow> sema_up (WaiterSema w) (s\<lparr>conds := (conds s)(c \<mapsto> rest)\<rparr>) } }"

definition cond_broadcast :: "addr \<Rightarrow> addr \<Rightarrow> kernel \<Rightarrow> kernel option" where
  "cond_broadcast c l s = do {
     _ \<leftarrow> ASSERT (c \<noteq> NULL);
     _ \<leftarrow> ASSERT (l \<noteq> NULL);
     ws \<leftarrow> conds s c;
     if ws \<noteq> [] then cond_signal c l (push_frame (BroadcastLoop c l) s) else Some s }"

section \<open>Thread creation and exit\<close>

text \<open>
  \<open>init_thread\<close> on the page at \<open>t\<close>, and the allocation of a thread identifier under
  \<open>tid_lock\<close>. The page comes from \<open>palloc_get_page\<close> and the child-process record at \<open>p\<close>
  from \<open>malloc\<close>; both are arguments, \<open>NULL\<close> when there is no memory left.
\<close>

definition init_thread :: "addr \<Rightarrow> int \<Rightarrow> kernel \<Rightarrow> kernel option" where
  "init_thread t pri s = do {
     _ \<leftarrow> ASSERT (t \<noteq> NULL);
     _ \<leftarrow> ASSERT (PRI_MIN \<le> pri \<and> pri \<le> PRI_MAX);
     Some (s\<lparr>thr := (thr s)(t \<mapsto>
         \<lparr>tid = 0, status = THREAD_BLOCKED, priority = pri, wake_ticks = 0, initial_priority = pri,
          waitlock = NULL, list_of_donation = [], nice = 0, recent_cpu = 0, file_list = [],
          next_fd = 2, child_list = [], parent = -1, cp = NULL, pagedir = NULL\<rparr>),
       frames := (frames s)(t := []),
       all_list := all_list s @ [t]\<rparr>) }"

definition add_process_current_thread :: "int \<Rightarrow> addr \<Rightarrow> kernel \<Rightarrow> kernel option" where
  "add_process_current_thread child p s = do {
     _ \<leftarrow> ASSERT (p \<noteq> NULL);
     let s = s\<lparr>procs := (procs s)(p \<mapsto>
       \<lparr>lock_for_wait = (NULL, \<lparr>sm_value = 1, waiters = []\<rparr>), pid = child, load_state = 0,
        p_wait = False, p_exit = False, p_status = None\<rparr>)\<rparr>;
     _ \<leftarrow> thread_current s;
     upd_thread (cur s) (\<lambda>x. x\<lparr>child_list := child_list x @ [p]\<rparr>) s }"

definition thread_create :: "addr \<Rightarrow> int \<Rightarrow> addr \<Rightarrow> frame list \<Rightarrow> kernel \<Rightarrow> kernel option" where
  "thread_create t pri p body s =
     (if t = NULL then Some s
      else do {
        s \<leftarrow> init_thread t pri s;
        let s = s\<lparr>frames := (frames s)(t := KernelThread # body)\<rparr>;
        lock_acquire (tid_lock s) (push_frame (CreateGotTidLock t p) s) })"

text \<open>\<open>allocate_tid\<close> once it has the lock, then the rest of \<open>thread_create\<close>.\<close>

definition create_got_tid_lock :: "addr \<Rightarrow> addr \<Rightarrow> kernel \<Rightarrow> kernel option" where
  "create_got_tid_lock t p s = do {
     let n = next_tid s;
     let s = s\<lparr>next_tid := i32 (n + 1)\<rparr>;
     lock_release (tid_lock s) (push_frame (CreateTail t p n) s) }"

definition create_tail :: "addr \<Rightarrow> addr \<Rightarrow> int \<Rightarrow> kernel \<Rightarrow> kernel option" where
  "create_tail t p n s = do {
     s \<leftarrow> upd_thread t (\<lambda>x. x\<lparr>tid := n\<rparr>) s;
     c \<leftarrow> thread_current s;
     s \<leftarrow> upd_thread t (\<lambda>x. x\<lparr>parent := tid c\<rparr>) s;
     s \<leftarrow> add_process_current_thread n p s;
     s \<leftarrow> upd_thread t (\<lambda>x. x\<lparr>cp := p\<rparr>) s;
     s \<leftarrow> thread_unblock t s;
     let s = intr_disable (push_frame (SetLevel (intr_on s)) s);
     iscurrent_thread_has_max_priority s }"

text \<open>
  \<open>thread_exit\<close> after \<open>process_exit\<close>: off the list of all threads, dying, and never
  scheduled again; the next thread frees the page. \<open>process_exit\<close> is in \<open>Process_Calls\<close>.
\<close>

definition thread_exit :: "kernel \<Rightarrow> kernel option" where
  "thread_exit s = do {
     _ \<leftarrow> ASSERT (\<not> in_external_intr s);
     let s = intr_disable s;
     _ \<leftarrow> thread_current s;
     let s = s\<lparr>all_list := remove1 (cur s) (all_list s)\<rparr>;
     s \<leftarrow> upd_thread (cur s) (\<lambda>t. t\<lparr>status := THREAD_DYING\<rparr>) s;
     schedule s }"

definition is_alive :: "int \<Rightarrow> kernel \<Rightarrow> bool" where
  "is_alive p s = list_ex (\<lambda>t. case thr s t of None \<Rightarrow> False | Some x \<Rightarrow> tid x = p) (all_list s)"

section \<open>The idle thread\<close>

definition idle_start :: "sema_id \<Rightarrow> kernel \<Rightarrow> kernel option" where
  "idle_start x s = do {
     _ \<leftarrow> thread_current s;
     sema_up x (push_frame IdleLoop (s\<lparr>idle_thread := cur s\<rparr>)) }"

definition idle_loop :: "kernel \<Rightarrow> kernel option" where
  "idle_loop s = thread_block (push_frame IdleHlt (intr_disable s))"

definition idle_hlt :: "kernel \<Rightarrow> kernel option" where
  "idle_hlt s = intr_enable (push_frame IdleLoop s)"

end
