(* ===== verification/Timer_Ops.thy ===== *)
theory Timer_Ops
  imports Synch_Ops
begin

text \<open>
  \<open>devices/timer.c\<close> and the advanced scheduler of \<open>threads/thread.c\<close>: the sleep list,
  the timer interrupt with the entry and exit of \<open>intr_handler\<close> (\<open>threads/interrupt.c\<close>),
  and the \<open>mlfqs\<close> recalculations. \<open>ticks\<close> is an \<open>int64_t\<close>.
\<close>

definition TIMER_FREQ :: int where "TIMER_FREQ = 100"
definition RECALCU_FREQ :: int where "RECALCU_FREQ = 4"

section \<open>The advanced scheduler\<close>

definition mlfqs_increment_recentcpu :: "kernel \<Rightarrow> kernel option" where
  "mlfqs_increment_recentcpu s = do {
     _ \<leftarrow> thread_current s;
     if cur s = idle_thread s then Some s
     else upd_thread (cur s) (\<lambda>x. x\<lparr>recent_cpu := add_mixed (recent_cpu x) 1\<rparr>) s }"

text \<open>The new priority as a function of the thread's \<open>recent_cpu\<close> and \<open>nice\<close>.\<close>

definition mlfqs_priority :: "int \<Rightarrow> int \<Rightarrow> int option" where
  "mlfqs_priority recent ni = do {
     let term1 = integer_to_float PRI_MAX;
     term2 \<leftarrow> division_mixed recent 4;
     let term3 = i32 (2 * ni);
     let term1 = subi term1 term2;
     let term1 = sub_mixed term1 term3;
     let p = float_to_int term1;
     let p = (if p < PRI_MIN then PRI_MIN else p);
     Some (if p > PRI_MAX then PRI_MAX else p) }"

definition mlfqs_calculate_priority :: "addr \<Rightarrow> kernel \<Rightarrow> kernel option" where
  "mlfqs_calculate_priority t s =
     (if t = idle_thread s then Some s
      else do {
        x \<leftarrow> thr s t;
        p \<leftarrow> mlfqs_priority (recent_cpu x) (nice x);
        upd_thread t (\<lambda>x. x\<lparr>priority := p\<rparr>) s })"

definition mlfqs_recent_cpu :: "int \<Rightarrow> int \<Rightarrow> int \<Rightarrow> int option" where
  "mlfqs_recent_cpu la recent ni = do {
     let term1 = multiply_mixed la 2;
     term1 \<leftarrow> division_float term1 (add_mixed term1 1);
     let term1 = multiply_float term1 recent;
     Some (add_mixed term1 ni) }"

definition mlfqs_calculation_recent_cpu :: "addr \<Rightarrow> kernel \<Rightarrow> kernel option" where
  "mlfqs_calculation_recent_cpu t s =
     (if t = idle_thread s then Some s
      else do {
        x \<leftarrow> thr s t;
        r \<leftarrow> mlfqs_recent_cpu (load_avg s) (recent_cpu x) (nice x);
        upd_thread t (\<lambda>x. x\<lparr>recent_cpu := r\<rparr>) s })"

text \<open>The new load average for a number of ready threads and the old load average.\<close>

definition mlfqs_load_avg :: "int \<Rightarrow> int \<Rightarrow> int option" where
  "mlfqs_load_avg ready la = do {
     term1 \<leftarrow> division_mixed (integer_to_float 59) 60;
     let term1 = multiply_float term1 la;
     term2 \<leftarrow> division_mixed (integer_to_float ready) 60;
     let la = addi term1 term2;
     _ \<leftarrow> ASSERT (la \<ge> 0);
     Some la }"

definition mlfqs_calculate_load_avg :: "kernel \<Rightarrow> kernel option" where
  "mlfqs_calculate_load_avg s = do {
     let term2 = int (length (ready_list s));
     _ \<leftarrow> thread_current s;
     let term2 = (if cur s \<noteq> idle_thread s then term2 + 1 else term2);
     la \<leftarrow> mlfqs_load_avg term2 (load_avg s);
     Some (s\<lparr>load_avg := la\<rparr>) }"

fun mlfqs_recalculate :: "addr list \<Rightarrow> kernel \<Rightarrow> kernel option" where
  "mlfqs_recalculate [] s = Some s"
| "mlfqs_recalculate (t # ts) s = do {
     s \<leftarrow> mlfqs_calculation_recent_cpu t s;
     s \<leftarrow> mlfqs_calculate_priority t s;
     mlfqs_recalculate ts s }"

definition mlfqs_calculation_recentcpu_priority :: "kernel \<Rightarrow> kernel option" where
  "mlfqs_calculation_recentcpu_priority s = mlfqs_recalculate (all_list s) s"

definition thread_set_nice :: "int \<Rightarrow> kernel \<Rightarrow> kernel option" where
  "thread_set_nice n s = do {
     let stored_level = intr_on s;
     let s = intr_disable s;
     _ \<leftarrow> thread_current s;
     s \<leftarrow> upd_thread (cur s) (\<lambda>x. x\<lparr>nice := n\<rparr>) s;
     s \<leftarrow> mlfqs_calculate_priority (cur s) s;
     iscurrent_thread_has_max_priority (push_frame (SetLevel stored_level) s) }"

definition thread_get_nice :: "kernel \<Rightarrow> int option" where
  "thread_get_nice s = do { t \<leftarrow> thread_current s; Some (nice t) }"

definition thread_get_load_avg :: "kernel \<Rightarrow> int" where
  "thread_get_load_avg s = float_to_int_r (multiply_mixed (load_avg s) 100)"

definition thread_get_recent_cpu :: "kernel \<Rightarrow> int option" where
  "thread_get_recent_cpu s = do {
     t \<leftarrow> thread_current s; Some (float_to_int_r (multiply_mixed (recent_cpu t) 100)) }"

section \<open>Sleeping\<close>

definition timer_elapsed :: "int \<Rightarrow> kernel \<Rightarrow> int" where
  "timer_elapsed since s = i64 (ticks s - since)"

definition timer_sleep :: "int \<Rightarrow> kernel \<Rightarrow> kernel option" where
  "timer_sleep n s = do {
     _ \<leftarrow> ASSERT (intr_on s);
     if n \<le> 0 then Some s
     else do {
       let previous_intr_level = intr_on s;
       let s = intr_disable s;
       _ \<leftarrow> thread_current s;
       s \<leftarrow> upd_thread (cur s) (\<lambda>x. x\<lparr>wake_ticks := i64 (ticks s + n)\<rparr>) s;
       let s = s\<lparr>sleep_list := insert_ord (compare_timeto_wakeup_ticks s) (cur s) (sleep_list s)\<rparr>;
       thread_block (push_frame (SleepReturn previous_intr_level) s) } }"

text \<open>
  The iteration bound of a busy-wait, with the type of the product: \<open>loops_per_tick\<close> is
  \<open>unsigned\<close>, the rest \<open>int64_t\<close>.
\<close>

definition real_time_delay :: "int \<Rightarrow> int \<Rightarrow> int \<Rightarrow> int option" where
  "real_time_delay loops_per_tick num denom = do {
     _ \<leftarrow> ASSERT (denom smod 1000 = 0);
     if denom sdiv 1000 = 0 then None
     else Some (i64 (i64 (i64 (loops_per_tick * num) sdiv 1000 * TIMER_FREQ) sdiv (denom sdiv 1000))) }"

text \<open>The result is the kernel state, and the number of loops when the wait is a busy-wait.\<close>

definition real_time_sleep :: "int \<Rightarrow> int \<Rightarrow> int \<Rightarrow> kernel \<Rightarrow> (int \<times> kernel) option" where
  "real_time_sleep loops_per_tick num denom s =
     (if denom = 0 then None
      else do {
        let n = i64 (num * TIMER_FREQ) sdiv denom;
        _ \<leftarrow> ASSERT (intr_on s);
        if n > 0 then do { s \<leftarrow> timer_sleep n s; Some (0, s) }
        else do { k \<leftarrow> real_time_delay loops_per_tick num denom; Some (k, s) } })"

definition timer_msleep :: "int \<Rightarrow> int \<Rightarrow> kernel \<Rightarrow> (int \<times> kernel) option" where
  "timer_msleep lpt ms = real_time_sleep lpt ms 1000"

definition timer_usleep :: "int \<Rightarrow> int \<Rightarrow> kernel \<Rightarrow> (int \<times> kernel) option" where
  "timer_usleep lpt us = real_time_sleep lpt us (1000 * 1000)"

definition timer_nsleep :: "int \<Rightarrow> int \<Rightarrow> kernel \<Rightarrow> (int \<times> kernel) option" where
  "timer_nsleep lpt ns = real_time_sleep lpt ns (1000 * 1000 * 1000)"

definition timer_mdelay :: "int \<Rightarrow> int \<Rightarrow> int option" where
  "timer_mdelay lpt ms = real_time_delay lpt ms 1000"

definition timer_udelay :: "int \<Rightarrow> int \<Rightarrow> int option" where
  "timer_udelay lpt us = real_time_delay lpt us (1000 * 1000)"

definition timer_ndelay :: "int \<Rightarrow> int \<Rightarrow> int option" where
  "timer_ndelay lpt ns = real_time_delay lpt ns (1000 * 1000 * 1000)"

section \<open>The timer interrupt\<close>

text \<open>
  The loop that wakes the sleepers whose time has come. It always looks at the front of the
  list, so it is a recursion on the list; the remaining list is written back by each round.
\<close>

fun wake_loop :: "addr list \<Rightarrow> kernel \<Rightarrow> kernel option" where
  "wake_loop [] s = Some s"
| "wake_loop (t # ts) s = do {
     x \<leftarrow> thr s t;
     if ticks s < wake_ticks x then Some s
     else do {
       s \<leftarrow> thread_unblock t (s\<lparr>sleep_list := ts\<rparr>);
       wake_loop ts s } }"

definition timer_interrupt :: "kernel \<Rightarrow> kernel option" where
  "timer_interrupt s = do {
     let s = s\<lparr>ticks := i64 (ticks s + 1)\<rparr>;
     s \<leftarrow> thread_tick s;
     s \<leftarrow> (if thread_mlfqs s then do {
         s \<leftarrow> mlfqs_increment_recentcpu s;
         s \<leftarrow> (if ticks s smod TIMER_FREQ = 0 then do {
             s \<leftarrow> mlfqs_calculate_load_avg s;
             mlfqs_calculation_recentcpu_priority s }
           else Some s);
         if ticks s smod RECALCU_FREQ = 0 then do {
           _ \<leftarrow> thread_current s; mlfqs_calculate_priority (cur s) s }
         else Some s }
       else Some s);
     s \<leftarrow> wake_loop (sleep_list s) s;
     iscurrent_thread_has_max_priority s }"

text \<open>
  An external interrupt with a given handler, from \<open>intr_handler\<close>. The processor takes it
  only with interrupts enabled, and disables them for the handler; the \<open>iret\<close> that ends it
  restores the flag, after the yield the handler may have asked for.
\<close>

definition external_interrupt :: "(kernel \<Rightarrow> kernel option) \<Rightarrow> kernel \<Rightarrow> kernel option" where
  "external_interrupt handler s = do {
     let s = push_frame (SetLevel (intr_on s)) (s\<lparr>intr_on := False\<rparr>);
     _ \<leftarrow> ASSERT (\<not> in_external_intr s);
     s \<leftarrow> handler (s\<lparr>in_external_intr := True, yield_on_return := False\<rparr>);
     _ \<leftarrow> ASSERT (\<not> intr_on s);
     _ \<leftarrow> ASSERT (in_external_intr s);
     let s = s\<lparr>in_external_intr := False\<rparr>;
     if yield_on_return s then thread_yield s else Some s }"

end
