(* ===== verification/Kernel_Machine.thy ===== *)
theory Kernel_Machine
  imports Timer_Ops
begin

text \<open>
  The kernel as a transition system. The running thread either has kernel code left to run on
  its stack, and takes the innermost frame, or is in its own code and may make any call of the
  thread, synchronization and timer interfaces; while interrupts are enabled the timer
  interrupt may come at any point. Every context switch, preemption and wake-up of the modelled
  code is a step, in any interleaving.

  \<open>legal\<close> states what the interfaces document as the caller's obligations: semaphores, locks
  and conditions are initialized first, a lock is released by its holder and not acquired by
  it, a thread does not exit while it holds a lock, \<open>timer_sleep\<close> is called with interrupts
  on, and the pages that the allocator hands to \<open>thread_create\<close> are not in use.
\<close>

section \<open>Steps\<close>

fun run_frame :: "frame \<Rightarrow> kernel \<Rightarrow> kernel option" where
  "run_frame (SetLevel b) s = intr_set_level b s"
| "run_frame (SleepReturn b) s = intr_set_level b s"
| "run_frame (SemaDownLoop x b) s = sema_down_loop x b s"
| "run_frame (LockAcquired l b) s = lock_acquired l b s"
| "run_frame (CallSemaDown x) s = sema_down x s"
| "run_frame (CallLockAcquire l) s = lock_acquire l s"
| "run_frame (BroadcastLoop c l) s = cond_broadcast c l s"
| "run_frame (CreateGotTidLock t p) s = create_got_tid_lock t p s"
| "run_frame (CreateTail t p n) s = create_tail t p n s"
| "run_frame KernelThread s = intr_enable s"
| "run_frame (IdleStart x) s = idle_start x s"
| "run_frame IdleLoop s = idle_loop s"
| "run_frame IdleHlt s = idle_hlt s"

datatype call =
    SemaInit addr nat | SemaDown addr | SemaTryDown addr | SemaUp addr
  | LockInit addr | LockAcquire addr | LockTryAcquire addr | LockRelease addr
  | CondInit addr | CondWait addr addr | CondSignal addr addr | CondBroadcast addr addr
  | Yield | SetPriority int | SetNice int | Sleep int | IntrSetLevel bool
  | Create addr int addr | Exit

definition run_call :: "call \<Rightarrow> kernel \<Rightarrow> kernel option" where
  "run_call c s = (case c of
     SemaInit a v \<Rightarrow> Some (sema_init (Sema a) v s)
   | SemaDown a \<Rightarrow> sema_down (Sema a) s
   | SemaTryDown a \<Rightarrow> map_option snd (sema_try_down (Sema a) s)
   | SemaUp a \<Rightarrow> sema_up (Sema a) s
   | LockInit l \<Rightarrow> lock_init l s
   | LockAcquire l \<Rightarrow> lock_acquire l s
   | LockTryAcquire l \<Rightarrow> map_option snd (lock_try_acquire l s)
   | LockRelease l \<Rightarrow> lock_release l s
   | CondInit c \<Rightarrow> cond_init c s
   | CondWait c l \<Rightarrow> cond_wait c l s
   | CondSignal c l \<Rightarrow> cond_signal c l s
   | CondBroadcast c l \<Rightarrow> cond_broadcast c l s
   | Yield \<Rightarrow> thread_yield s
   | SetPriority p \<Rightarrow> thread_set_priority p s
   | SetNice n \<Rightarrow> thread_set_nice n s
   | Sleep n \<Rightarrow> timer_sleep n s
   | IntrSetLevel b \<Rightarrow> intr_set_level b s
   | Create t pri p \<Rightarrow> thread_create t pri p [] s
   | Exit \<Rightarrow> thread_exit s)"

text \<open>
  \<open>MAX_THREADS\<close>: a thread needs a page of its own, and the loader gives the kernel at most
  64 MB.
\<close>

definition MAX_THREADS :: int where "MAX_THREADS = 16384"

definition legal :: "kernel \<Rightarrow> call \<Rightarrow> bool" where
  "legal s c = (case c of
     SemaInit a v \<Rightarrow> semas s (Sema a) = None
   | SemaDown a \<Rightarrow> semas s (Sema a) \<noteq> None
   | SemaTryDown a \<Rightarrow> semas s (Sema a) \<noteq> None
   | SemaUp a \<Rightarrow> semas s (Sema a) \<noteq> None
   | LockInit l \<Rightarrow> l \<noteq> NULL \<and> lock_holder s l = None
   | LockAcquire l \<Rightarrow> l \<noteq> NULL \<and> lock_holder s l \<noteq> None \<and> lock_holder s l \<noteq> Some (cur s)
   | LockTryAcquire l \<Rightarrow> l \<noteq> NULL \<and> lock_holder s l \<noteq> None \<and> lock_holder s l \<noteq> Some (cur s)
   | LockRelease l \<Rightarrow> l \<noteq> NULL \<and> lock_holder s l = Some (cur s)
   | CondInit c \<Rightarrow> c \<noteq> NULL \<and> conds s c = None
   | CondWait c l \<Rightarrow> c \<noteq> NULL \<and> l \<noteq> NULL \<and> conds s c \<noteq> None \<and> lock_holder s l = Some (cur s)
   | CondSignal c l \<Rightarrow> c \<noteq> NULL \<and> l \<noteq> NULL \<and> conds s c \<noteq> None \<and> lock_holder s l = Some (cur s)
   | CondBroadcast c l \<Rightarrow> c \<noteq> NULL \<and> l \<noteq> NULL \<and> conds s c \<noteq> None \<and> lock_holder s l = Some (cur s)
   | Sleep n \<Rightarrow> intr_on s
   | Create t pri p \<Rightarrow> thr s t = None \<and> frames s t = [] \<and> p \<noteq> NULL \<and> PRI_MIN \<le> pri \<and> pri \<le> PRI_MAX
       \<and> lock_holder s (tid_lock s) \<noteq> Some (cur s) \<and> int (length (all_list s)) < MAX_THREADS
   | Exit \<Rightarrow> (\<forall>l. lock_holder s l \<noteq> Some (cur s))
   | _ \<Rightarrow> True)"

text \<open>What the running processor can do next: the continuation to run, or \<open>None\<close> entries for panics.\<close>

inductive offers :: "kernel \<Rightarrow> kernel option \<Rightarrow> bool" where
  frame: "frames s (cur s) = k # ks \<Longrightarrow> offers s (run_frame k (pop_frame s))"
| call: "frames s (cur s) = [] \<Longrightarrow> legal s c \<Longrightarrow> offers s (run_call c s)"
| timer: "intr_on s \<Longrightarrow> offers s (external_interrupt timer_interrupt s)"

definition step :: "kernel \<Rightarrow> kernel \<Rightarrow> bool" where
  "step s s' \<longleftrightarrow> offers s (Some s')"

definition panics :: "kernel \<Rightarrow> bool" where
  "panics s \<longleftrightarrow> offers s None"

inductive steps :: "kernel \<Rightarrow> kernel \<Rightarrow> bool" where
  refl: "steps s s"
| trans: "steps s s' \<Longrightarrow> step s' s'' \<Longrightarrow> steps s s''"

inductive_cases offersE: "offers s r"

section \<open>Boot\<close>

text \<open>
  \<open>thread_init\<close> and \<open>thread_start\<close>: the running code becomes the thread \<open>m\<close> ("main"),
  the idle thread is created on the page \<open>i\<close> and started. \<open>boot_steps\<close> runs frames of the
  running thread until \<open>main\<close> is back from \<open>thread_start\<close>; no interrupt comes in between
  here, the first one can come at any later point.
\<close>

definition blank :: "addr \<Rightarrow> addr \<Rightarrow> bool \<Rightarrow> kernel" where
  "blank m tdl mlfqs = \<lparr>thr = (\<lambda>_. None), frames = (\<lambda>_. []), cur = m, ready_list = [],
     all_list = [], idle_thread = NULL, initial_thread = NULL, next_tid = 1, tid_lock = tdl,
     idle_ticks = 0, kernel_ticks = 0, user_ticks = 0, thread_ticks = 0, thread_mlfqs = mlfqs,
     load_avg = 0, intr_on = False, in_external_intr = False, yield_on_return = False,
     semas = (\<lambda>_. None), lock_holder = (\<lambda>_. None), conds = (\<lambda>_. None), sleep_list = [],
     ticks = 0, procs = (\<lambda>_. None)\<rparr>"

definition thread_init :: "kernel \<Rightarrow> kernel option" where
  "thread_init s = do {
     _ \<leftarrow> ASSERT (\<not> intr_on s);
     s \<leftarrow> lock_init (tid_lock s) s;
     let s = s\<lparr>ready_list := [], all_list := [], initial_thread := cur s\<rparr>;
     s \<leftarrow> init_thread (cur s) PRI_DEFAULT s;
     s \<leftarrow> upd_thread (cur s) (\<lambda>t. t\<lparr>status := THREAD_RUNNING\<rparr>) s;
     lock_acquire (tid_lock s) s }"

definition thread_start :: "addr \<Rightarrow> addr \<Rightarrow> sema_id \<Rightarrow> kernel \<Rightarrow> kernel option" where
  "thread_start i p x s = thread_create i PRI_MIN p [IdleStart x] (sema_init x 0 s)"

fun run_frames :: "nat \<Rightarrow> kernel \<Rightarrow> kernel option" where
  "run_frames 0 s = Some s"
| "run_frames (Suc n) s = (case frames s (cur s) of [] \<Rightarrow> Some s
     | k # _ \<Rightarrow> do { s \<leftarrow> run_frame k (pop_frame s); run_frames n s })"

definition boot :: "bool \<Rightarrow> kernel option" where
  "boot mlfqs = do {
     s \<leftarrow> thread_init (blank 100 50 mlfqs);
     s \<leftarrow> run_frames 10 s;
     let n = next_tid s;
     s \<leftarrow> lock_release (tid_lock s) (s\<lparr>next_tid := i32 (n + 1)\<rparr>);
     s \<leftarrow> run_frames 10 s;
     s \<leftarrow> upd_thread (cur s) (\<lambda>t. t\<lparr>tid := n\<rparr>) s;
     s \<leftarrow> thread_start 200 300 (Sema 101) s;
     s \<leftarrow> run_frames 20 s;
     s \<leftarrow> intr_enable (s\<lparr>load_avg := 0\<rparr>);
     s \<leftarrow> sema_down (Sema 101) s;
     run_frames 20 s }"

end
