(* ===== verification/Kernel_Inv.thy ===== *)
theory Kernel_Inv
  imports Kernel_Machine
begin

text \<open>
  The invariant of the kernel machine. It is a conjunction of predicates over the parts of the
  state they read (thread statuses, lock pointers, donation lists, semaphore values and
  waiters, frames), so that an operation that leaves a part alone keeps its predicate by
  rewriting.
\<close>

section \<open>The parts of the state\<close>

abbreviation st_of :: "kernel \<Rightarrow> addr \<Rightarrow> thread_status option" where
  "st_of s \<equiv> \<lambda>t. map_option status (thr s t)"
abbreviation wl_of :: "kernel \<Rightarrow> addr \<Rightarrow> addr option" where
  "wl_of s \<equiv> \<lambda>t. map_option waitlock (thr s t)"
abbreviation dn_of :: "kernel \<Rightarrow> addr \<Rightarrow> addr list option" where
  "dn_of s \<equiv> \<lambda>t. map_option list_of_donation (thr s t)"
abbreviation wt_of :: "kernel \<Rightarrow> sema_id \<Rightarrow> addr list option" where
  "wt_of s \<equiv> \<lambda>y. map_option waiters (semas s y)"
abbreviation vl_of :: "kernel \<Rightarrow> sema_id \<Rightarrow> nat option" where
  "vl_of s \<equiv> \<lambda>y. map_option sm_value (semas s y)"

lemma map_option_upd [simp]:
  "(\<lambda>a. map_option f ((m(t \<mapsto> x)) a)) = (\<lambda>a. map_option f (m a))(t \<mapsto> f x)"
  "(\<lambda>a. map_option f ((m(t := None)) a)) = (\<lambda>a. map_option f (m a))(t := None)"
  "(\<lambda>a. map_option f (if a = t then Some x else m a)) = (\<lambda>a. map_option f (m a))(t \<mapsto> f x)"
  "(\<lambda>a. map_option f (if a = t then None else m a)) = (\<lambda>a. map_option f (m a))(t := None)"
  by (simp_all add: fun_eq_iff)

lemma upd_same: "m t = Some y \<Longrightarrow> m(t \<mapsto> y) = m"
  by (simp add: fun_upd_idem)

section \<open>The scheduler's lists\<close>

fun top_sema :: "frame list \<Rightarrow> sema_id option" where
  "top_sema (SemaDownLoop y b # ks) = Some y"
| "top_sema _ = None"

fun top_sleep :: "frame list \<Rightarrow> bool" where
  "top_sleep (SleepReturn b # ks) = True"
| "top_sleep _ = False"

fun top_locked :: "frame list \<Rightarrow> addr option" where
  "top_locked (LockAcquired l b # ks) = Some l"
| "top_locked _ = None"

definition ready_set where "ready_set st idl = {t. st t = Some THREAD_READY \<and> t \<noteq> idl}"
definition sleepers where "sleepers st fr = {t. st t = Some THREAD_BLOCKED \<and> top_sleep (fr t)}"
definition waiting where "waiting st fr y = {t. st t = Some THREAD_BLOCKED \<and> top_sema (fr t) = Some y}"
definition alive where "alive st = {t. st t \<noteq> None \<and> st t \<noteq> Some THREAD_DYING}"

lemmas list_sets = ready_set_def sleepers_def waiting_def alive_def

text \<open>
  Each list holds exactly the threads whose status and innermost frame say so: a thread is
  never lost, and it is never on two lists through its one \<open>elem\<close>.
\<close>

definition sched_ok where
  "sched_ok st fr rdy slp al wt idl \<longleftrightarrow>
     st NULL = None \<and>
     distinct rdy \<and> set rdy = ready_set st idl \<and>
     distinct slp \<and> set slp = sleepers st fr \<and>
     (\<forall>y ws. wt y = Some ws \<longrightarrow> distinct ws \<and> set ws = waiting st fr y) \<and>
     distinct al \<and> set al = alive st \<and>
     idl \<in> alive st \<and> (st idl = Some THREAD_BLOCKED \<longrightarrow> (\<exists>ks. fr idl = IdleHlt # ks))"

section \<open>Frames\<close>

fun creates :: "frame \<Rightarrow> addr option" where
  "creates (CreateGotTidLock t p) = Some t"
| "creates (CreateTail t p n) = Some t"
| "creates _ = None"

definition creating :: "frame list \<Rightarrow> addr set" where
  "creating ks = {u. \<exists>k\<in>set ks. creates k = Some u}"

fun lockish :: "frame \<Rightarrow> bool" where
  "lockish (LockAcquired l b) = True"
| "lockish (CallLockAcquire l) = True"
| "lockish _ = False"

fun is_set_level :: "frame \<Rightarrow> bool" where
  "is_set_level (SetLevel b) = True"
| "is_set_level _ = False"

text \<open>
  On one stack at most one lock is being acquired and at most one thread created, by the
  outermost call, and a wait for a lock's semaphore is the one that \<open>lock_acquire\<close> started
  with interrupts off.
\<close>

fun lock_frames :: "frame list \<Rightarrow> bool" where
  "lock_frames [] = True"
| "lock_frames (SemaDownLoop y b # ks) = ((case y of
      LockSema l \<Rightarrow> \<not> b \<and> top_locked ks = Some l | _ \<Rightarrow> top_locked ks = None) \<and> lock_frames ks)"
| "lock_frames (k # ks) = (top_locked ks = None \<and> lock_frames ks \<and> (creates k \<noteq> None \<longrightarrow> ks = []))"

definition shape :: "frame list \<Rightarrow> bool" where
  "shape ks \<longleftrightarrow> lock_frames ks \<and> length (filter lockish ks) \<le> 1 \<and>
     length (filter (\<lambda>k. creates k \<noteq> None) ks) \<le> 1"

definition locking :: "frame list \<Rightarrow> addr set" where
  "locking ks = {l. \<exists>b. LockAcquired l b \<in> set ks}"

text \<open>A waiter's semaphore is only waited for by the thread whose stack it is on.\<close>

fun owns :: "addr \<Rightarrow> sema_id \<Rightarrow> bool" where
  "owns t (WaiterSema w) = (w = t)"
| "owns t _ = True"

fun frame_ok where
  "frame_ok wt hl cd idl tdl t ks (SemaDownLoop y b) = (wt y \<noteq> (None :: addr list option) \<and> owns t y)"
| "frame_ok wt hl cd idl tdl t ks (CallSemaDown y) = (wt y \<noteq> None \<and> (\<forall>l. y \<noteq> LockSema l) \<and> owns t y)"
| "frame_ok wt hl cd idl tdl t ks (LockAcquired l b) = (l \<noteq> NULL \<and> hl l \<noteq> None \<and> hl l \<noteq> Some (t::addr))"
| "frame_ok wt hl cd idl tdl t ks (CallLockAcquire l) = (l \<noteq> NULL \<and> hl l \<noteq> None \<and> hl l \<noteq> Some t)"
| "frame_ok wt hl cd idl tdl t ks (BroadcastLoop c l) =
     (c \<noteq> NULL \<and> l \<noteq> NULL \<and> cd c \<noteq> (None :: addr list option) \<and> hl l = Some t)"
| "frame_ok wt hl cd idl tdl t ks (CreateGotTidLock u p) =
     (p \<noteq> NULL \<and> (hl tdl = Some t \<or> tdl \<in> locking ks))"
| "frame_ok wt hl cd idl tdl t ks (CreateTail u p n) = (p \<noteq> NULL)"
| "frame_ok wt hl cd idl tdl t ks (IdleStart y) = False"
| "frame_ok wt hl cd idl tdl t ks IdleLoop = (t = idl)"
| "frame_ok wt hl cd idl tdl t ks IdleHlt = (t = idl)"
| "frame_ok wt hl cd idl tdl t ks _ = True"

definition stack_ok where
  "stack_ok wt hl cd idl tdl t ks \<longleftrightarrow> shape ks \<and> (\<forall>k\<in>set ks. frame_ok wt hl cd idl tdl t ks k)"

definition idle_stack :: "frame list \<Rightarrow> bool" where
  "idle_stack ks \<longleftrightarrow> ks \<noteq> [] \<and> list_all is_set_level (butlast ks) \<and> last ks \<in> {IdleLoop, IdleHlt}"

definition creators_ok where
  "creators_ok st fr \<longleftrightarrow>
     (\<forall>t u. u \<in> creating (fr t) \<longrightarrow> st u = Some THREAD_BLOCKED \<and> fr u = [KernelThread]) \<and>
     (\<forall>t t' u. u \<in> creating (fr t) \<longrightarrow> u \<in> creating (fr t') \<longrightarrow> t = t')"

definition frames_ok where
  "frames_ok st fr wt hl cd idl tdl \<longleftrightarrow>
     (\<forall>t. stack_ok wt hl cd idl tdl t (fr t)) \<and> (\<forall>t. fr t \<noteq> [] \<longrightarrow> st t \<noteq> (None :: thread_status option)) \<and>
     creators_ok st fr \<and> idle_stack (fr idl)"

section \<open>Locks and donations\<close>

definition locks_ok where
  "locks_ok st hl vl tdl \<longleftrightarrow>
     dom hl = {l. LockSema l \<in> dom vl} \<and>
     (\<forall>l v. vl (LockSema l) = Some v \<longrightarrow> v \<le> (1::nat)) \<and>
     (\<forall>l h. hl l = Some h \<longrightarrow> h \<noteq> NULL \<longrightarrow>
        vl (LockSema l) = Some 0 \<and> h \<in> alive st) \<and>
     tdl \<noteq> NULL \<and> hl tdl \<noteq> None"

definition don_ok where
  "don_ok mq wl dn hl fr \<longleftrightarrow>
     (mq \<longrightarrow> (\<forall>t l. wl t = Some l \<longrightarrow> l = NULL)) \<and>
     (\<forall>t l. wl t = Some l \<longrightarrow> l \<noteq> NULL \<longrightarrow> hl l \<noteq> None \<and> l \<in> locking (fr t)) \<and>
     (\<forall>h ds. dn h = Some ds \<longrightarrow> distinct ds \<and>
        (\<forall>t\<in>set ds. \<exists>l. wl t = Some l \<and> l \<noteq> NULL \<and> hl l = Some h))"

definition cond_ok where
  "cond_ok cd wt \<longleftrightarrow>
     (\<forall>c ws w. cd c = Some ws \<longrightarrow> w \<in> set ws \<longrightarrow> wt (WaiterSema w) \<noteq> (None :: addr list option))"

section \<open>The running thread\<close>

definition run_pre where
  "run_pre c st fr \<longleftrightarrow>
     st c = Some THREAD_RUNNING \<and> (\<forall>t. st t = Some THREAD_RUNNING \<longrightarrow> t = c) \<and>
     (\<forall>t. t \<noteq> c \<longrightarrow> top_locked (fr t) = None)"

definition lock_top where
  "lock_top ks hl vl intr \<longleftrightarrow> (\<forall>l. top_locked ks = Some l \<longrightarrow>
     \<not> intr \<and> hl l = Some NULL \<and> vl (LockSema l) = Some (0::nat))"

definition core :: "kernel \<Rightarrow> bool" where
  "core s \<longleftrightarrow>
     sched_ok (st_of s) (frames s) (ready_list s) (sleep_list s) (all_list s) (wt_of s) (idle_thread s) \<and>
     frames_ok (st_of s) (frames s) (wt_of s) (lock_holder s) (conds s) (idle_thread s) (tid_lock s) \<and>
     locks_ok (st_of s) (lock_holder s) (vl_of s) (tid_lock s) \<and>
     don_ok (thread_mlfqs s) (wl_of s) (dn_of s) (lock_holder s) (frames s) \<and>
     cond_ok (conds s) (wt_of s)"

definition dying_ok :: "(addr \<Rightarrow> thread_status option) \<Rightarrow> addr \<Rightarrow> bool" where
  "dying_ok st ini \<longleftrightarrow> (\<forall>t. st t = Some THREAD_DYING \<longrightarrow> t = ini)"

text \<open>
  \<open>kpre\<close> is what an operation of the running thread can rely on, \<open>kinv\<close> the invariant
  between steps: in addition, a thread about to take over a lock whose semaphore it has just
  decremented runs with interrupts off and the lock has no holder.
\<close>

definition kpre :: "kernel \<Rightarrow> bool" where
  "kpre s \<longleftrightarrow> core s \<and> run_pre (cur s) (st_of s) (frames s) \<and>
     dying_ok (st_of s) (initial_thread s)"

definition kinv :: "kernel \<Rightarrow> bool" where
  "kinv s \<longleftrightarrow> kpre s \<and> lock_top (frames s (cur s)) (lock_holder s) (vl_of s) (intr_on s) \<and>
     \<not> in_external_intr s"

lemmas inv_defs = sched_ok_def frames_ok_def locks_ok_def don_ok_def cond_ok_def run_pre_def lock_top_def


section \<open>Updates of the parts\<close>

lemma ready_set_upd:
  "ready_set (st(t := v)) idl = (if v = Some THREAD_READY \<and> t \<noteq> idl then insert t (ready_set st idl)
     else ready_set st idl - {t})"
  by (auto simp: ready_set_def)

lemma sleepers_upd:
  "sleepers (st(t := v)) fr = (if v = Some THREAD_BLOCKED \<and> top_sleep (fr t) then insert t (sleepers st fr)
     else sleepers st fr - {t})"
  "sleepers st (fr(t := ks)) = (if st t = Some THREAD_BLOCKED \<and> top_sleep ks then insert t (sleepers st fr)
     else sleepers st fr - {t})"
  by (auto simp: sleepers_def)

lemma waiting_upd:
  "waiting (st(t := v)) fr y = (if v = Some THREAD_BLOCKED \<and> top_sema (fr t) = Some y
     then insert t (waiting st fr y) else waiting st fr y - {t})"
  "waiting st (fr(t := ks)) y = (if st t = Some THREAD_BLOCKED \<and> top_sema ks = Some y
     then insert t (waiting st fr y) else waiting st fr y - {t})"
  by (auto simp: waiting_def)

lemma alive_upd:
  "alive (st(t := v)) = (if v \<noteq> None \<and> v \<noteq> Some THREAD_DYING then insert t (alive st) else alive st - {t})"
  by (auto simp: alive_def)

lemmas set_upds = ready_set_upd sleepers_upd waiting_upd alive_upd

text \<open>A thread with another status is on none of the lists.\<close>

lemma not_on_list:
  "st t \<noteq> Some THREAD_BLOCKED \<Longrightarrow> t \<notin> sleepers st fr"
  "st t \<noteq> Some THREAD_BLOCKED \<Longrightarrow> t \<notin> waiting st fr y"
  "st t \<noteq> Some THREAD_READY \<Longrightarrow> t \<notin> ready_set st idl"
  "top_sema (fr t) \<noteq> Some y \<Longrightarrow> t \<notin> waiting st fr y"
  "\<not> top_sleep (fr t) \<Longrightarrow> t \<notin> sleepers st fr"
  by (simp_all add: list_sets)

section \<open>Switching threads\<close>

text \<open>The switch to a thread off the ready list, or to the idle thread.\<close>

lemma sched_ok_switch:
  assumes s: "sched_ok st fr (n # rdy) slp al wt idl"
  shows "sched_ok (st(n \<mapsto> THREAD_RUNNING)) fr rdy slp al wt idl"
proof -
  have eq: "insert n (set rdy) = ready_set st idl" "n \<notin> set rdy" "st NULL = None"
    using s by (auto simp: sched_ok_def)
  then have "n \<in> ready_set st idl" and rdy: "set rdy = ready_set st idl - {n}" by blast+
  then have "st n = Some THREAD_READY" "n \<noteq> idl" by (simp_all add: ready_set_def)
  moreover from this eq(3) have "n \<noteq> NULL" by auto
  moreover have "insert n (alive st) = alive st"
    using \<open>st n = Some THREAD_READY\<close> by (simp add: alive_def insert_absorb)
  moreover note rdy
  ultimately have n: "st n = Some THREAD_READY" "n \<noteq> idl" "n \<noteq> NULL" "insert n (alive st) = alive st"
    "set rdy = ready_set st idl - {n}" by blast+
  then show ?thesis
    using s by (simp add: sched_ok_def set_upds not_on_list)
qed

lemma sched_ok_switch_idle:
  assumes "sched_ok st fr [] slp al wt idl" and "idle_stack (fr idl)"
  shows "sched_ok (st(idl \<mapsto> THREAD_RUNNING)) fr [] slp al wt idl"
proof -
  have "st idl = Some THREAD_BLOCKED \<longrightarrow> (\<exists>ks. fr idl = IdleHlt # ks)" "idl \<noteq> NULL"
    using assms by (auto simp: sched_ok_def alive_def)
  then have "idl \<notin> sleepers st fr" "\<And>y. idl \<notin> waiting st fr y"
    by (auto simp: list_sets)
  then show ?thesis
    using assms \<open>idl \<noteq> NULL\<close> by (simp add: sched_ok_def set_upds insert_absorb)
qed

lemma creators_ok_status:
  "creators_ok st fr \<Longrightarrow> (st n = Some THREAD_BLOCKED \<Longrightarrow> fr n \<noteq> [KernelThread]) \<Longrightarrow>
   creators_ok (st(n \<mapsto> v)) fr"
  unfolding creators_ok_def by (metis fun_upd_other)

lemma frames_ok_status:
  assumes "frames_ok st fr wt hl cd idl tdl"
    and "st n = Some THREAD_BLOCKED \<Longrightarrow> fr n \<noteq> [KernelThread]"
  shows "frames_ok (st(n \<mapsto> v)) fr wt hl cd idl tdl"
  using assms creators_ok_status [of st fr n v] by (auto simp: frames_ok_def)

lemma locks_ok_status:
  assumes "locks_ok st hl vl tdl" and "v \<noteq> THREAD_DYING \<or> (\<forall>l. hl l \<noteq> Some n)"
  shows "locks_ok (st(n \<mapsto> v)) hl vl tdl"
  using assms by (simp add: locks_ok_def alive_upd) blast?

lemma creating_Nil [simp]: "creating [] = {}"
  by (simp add: creating_def)

lemma locking_Nil [simp]: "locking [] = {}"
  by (simp add: locking_def)

lemma sched_okD:
  assumes "sched_ok st fr rdy slp al wt idl"
  shows "st NULL = None" "distinct rdy" "set rdy = ready_set st idl" "distinct slp" "set slp = sleepers st fr"
    "wt y = Some ws \<Longrightarrow> distinct ws" "wt y = Some ws \<Longrightarrow> set ws = waiting st fr y"
    "distinct al" "set al = alive st" "idl \<in> alive st"
  using assms unfolding sched_ok_def by blast+

lemma locks_okD:
  assumes "locks_ok st hl vl tdl"
  shows "hl l = Some h \<Longrightarrow> h \<noteq> NULL \<Longrightarrow> vl (LockSema l) = Some 0 \<and> h \<in> alive st"
    and "vl (LockSema l) = Some v \<Longrightarrow> v \<le> 1" and "hl l \<noteq> None \<longleftrightarrow> vl (LockSema l) \<noteq> None"
    and "tdl \<noteq> NULL" and "hl tdl \<noteq> None"
  using assms unfolding locks_ok_def by blast+

lemma don_okI:
  assumes "mq \<Longrightarrow> (\<And>t l. wl t = Some l \<Longrightarrow> l = NULL)"
    and "\<And>t l. wl t = Some l \<Longrightarrow> l \<noteq> NULL \<Longrightarrow> hl l \<noteq> None \<and> l \<in> locking (fr t)"
    and "\<And>h ds. dn h = Some ds \<Longrightarrow> distinct ds"
    and "\<And>h ds t. dn h = Some ds \<Longrightarrow> t \<in> set ds \<Longrightarrow> \<exists>l. wl t = Some l \<and> l \<noteq> NULL \<and> hl l = Some h"
  shows "don_ok mq wl dn hl fr"
  using assms unfolding don_ok_def by blast

lemma don_okD:
  assumes "don_ok mq wl dn hl fr"
  shows "mq \<Longrightarrow> wl t = Some l \<Longrightarrow> l = NULL"
    and "wl t = Some l \<Longrightarrow> l \<noteq> NULL \<Longrightarrow> hl l \<noteq> None \<and> l \<in> locking (fr t)"
    and "dn h = Some ds \<Longrightarrow> distinct ds"
    and "dn h = Some ds \<Longrightarrow> t \<in> set ds \<Longrightarrow> \<exists>l. wl t = Some l \<and> l \<noteq> NULL \<and> hl l = Some h"
  using assms unfolding don_ok_def by blast+

lemma don_ok_remove:
  assumes d: "don_ok mq wl dn hl fr" and p: "\<And>l. wl p = Some l \<Longrightarrow> l = NULL"
  shows "don_ok mq (wl(p := None)) (dn(p := None)) hl fr"
proof (rule don_okI)
  fix h ds t
  assume a: "(dn(p := None)) h = Some ds" "t \<in> set ds"
  then have "dn h = Some ds" by (simp split: if_splits)
  from don_okD(4) [OF d this a(2)] obtain l where l: "wl t = Some l" "l \<noteq> NULL" "hl l = Some h" by blast
  moreover from p l have "t \<noteq> p" by blast
  ultimately show "\<exists>l. (wl(p := None)) t = Some l \<and> l \<noteq> NULL \<and> hl l = Some h" by simp
qed (use don_okD(1,2,3) [OF d] in \<open>simp_all split: if_splits\<close>)

text \<open>Freeing the page of a dying thread.\<close>

lemma core_free:
  assumes c: "core s" and d: "st_of s p = Some THREAD_DYING" and f: "frames s p = []"
    and l: "\<forall>l. lock_holder s l \<noteq> Some p"
  shows "core (s\<lparr>thr := (thr s)(p := None)\<rparr>)"
proof -
  have "p \<notin> alive (st_of s)" using d by (simp add: alive_def)
  have "sched_ok ((st_of s)(p := None)) (frames s) (ready_list s) (sleep_list s) (all_list s) (wt_of s) (idle_thread s)"
    using c d \<open>p \<notin> alive (st_of s)\<close> by (auto simp: core_def sched_ok_def set_upds not_on_list)
  moreover have "frames_ok ((st_of s)(p := None)) (frames s) (wt_of s) (lock_holder s) (conds s) (idle_thread s) (tid_lock s)"
    using c d f by (auto simp: core_def frames_ok_def creators_ok_def)
  moreover have "locks_ok ((st_of s)(p := None)) (lock_holder s) (vl_of s) (tid_lock s)"
    using c l by (simp add: core_def locks_ok_def alive_upd) blast
  moreover have "don_ok (thread_mlfqs s) ((wl_of s)(p := None)) ((dn_of s)(p := None)) (lock_holder s) (frames s)"
  proof (rule don_ok_remove)
    show dk: "don_ok (thread_mlfqs s) (wl_of s) (dn_of s) (lock_holder s) (frames s)" using c by (simp add: core_def)
    show "l = NULL" if "wl_of s p = Some l" for l
      using don_okD(2) [OF dk that] f by auto
  qed
  ultimately show ?thesis using c by (simp add: core_def)
qed

lemma core_switch:
  assumes c: "core s" and n: "next_thread_to_run s = (n, s1)" and that: "thr s n = Some x"
  shows "core (s1\<lparr>cur := n, thr := (thr s)(n \<mapsto> x\<lparr>status := THREAD_RUNNING\<rparr>), thread_ticks := v\<rparr>)"
proof -
  have i: "idle_stack (frames s (idle_thread s))" using c by (simp add: core_def frames_ok_def)
  have "n \<in> set (ready_list s) \<or> n = idle_thread s"
    using n by (auto simp: next_thread_to_run_def split: list.splits)
  moreover have "set (ready_list s) = ready_set (st_of s) (idle_thread s)"
    using c by (simp add: core_def sched_ok_def)
  ultimately have kt: "st_of s n = Some THREAD_BLOCKED \<Longrightarrow> frames s n \<noteq> [KernelThread]"
    using i by (auto simp: ready_set_def idle_stack_def)
  have f: "frames_ok ((st_of s)(n \<mapsto> THREAD_RUNNING)) (frames s) (wt_of s) (lock_holder s) (conds s)
      (idle_thread s) (tid_lock s)"
    using c kt by (intro frames_ok_status) (auto simp: core_def)
  have l: "locks_ok ((st_of s)(n \<mapsto> THREAD_RUNNING)) (lock_holder s) (vl_of s) (tid_lock s)"
    using c by (intro locks_ok_status) (auto simp: core_def)
  have same: "(wl_of s)(n \<mapsto> waitlock x) = wl_of s" "(dn_of s)(n \<mapsto> list_of_donation x) = dn_of s"
    using that by (auto simp: fun_eq_iff)
  show ?thesis
  proof (cases "ready_list s")
    case Nil
    with n have eq: "n = idle_thread s" "s1 = s" by (auto simp: next_thread_to_run_def)
    have "sched_ok ((st_of s)(n \<mapsto> THREAD_RUNNING)) (frames s) [] (sleep_list s) (all_list s) (wt_of s) (idle_thread s)"
      unfolding eq using c Nil i by (intro sched_ok_switch_idle) (auto simp: core_def)
    with c f l same Nil eq show ?thesis by (simp add: core_def)
  next
    case (Cons t ts)
    with n have eq: "n = t" "s1 = s\<lparr>ready_list := ts\<rparr>" by (auto simp: next_thread_to_run_def)
    have "sched_ok ((st_of s)(n \<mapsto> THREAD_RUNNING)) (frames s) ts (sleep_list s) (all_list s) (wt_of s) (idle_thread s)"
      unfolding eq using c Cons by (intro sched_ok_switch) (auto simp: core_def)
    with c f l same Cons eq show ?thesis by (simp add: core_def)
  qed
qed

lemma next_thread:
  assumes "core s" and "next_thread_to_run s = (n, s1)"
  shows "\<exists>x. thr s n = Some x \<and> status x \<noteq> THREAD_DYING" and "n \<noteq> NULL"
    and "\<exists>r. s1 = s\<lparr>ready_list := r\<rparr>"
proof -
  have "n \<in> set (ready_list s) \<or> n = idle_thread s"
    using assms by (auto simp: next_thread_to_run_def split: list.splits)
  moreover have "set (ready_list s) = ready_set (st_of s) (idle_thread s)" "idle_thread s \<in> alive (st_of s)"
    "st_of s NULL = None"
    using assms by (simp_all add: core_def sched_ok_def)
  ultimately show "\<exists>x. thr s n = Some x \<and> status x \<noteq> THREAD_DYING" and "n \<noteq> NULL"
    by (auto simp: ready_set_def alive_def)
  show "\<exists>r. s1 = s\<lparr>ready_list := r\<rparr>"
  proof (cases "ready_list s")
    case Nil
    with assms have "s1 = s\<lparr>ready_list := []\<rparr>" by (auto simp: next_thread_to_run_def)
    then show ?thesis by blast
  qed (use assms in \<open>auto simp: next_thread_to_run_def\<close>)
qed

lemma schedule_ok:
  assumes c: "core s" and nr: "\<forall>t. st_of s t \<noteq> Some THREAD_RUNNING" and cu: "st_of s (cur s) \<noteq> None"
    and off: "\<not> intr_on s" "\<not> in_external_intr s" and nl: "\<forall>t. top_locked (frames s t) = None"
    and dy: "\<forall>t. st_of s t = Some THREAD_DYING \<longrightarrow> t = initial_thread s \<or> t = cur s"
    and ex: "st_of s (cur s) = Some THREAD_DYING \<Longrightarrow>
      frames s (cur s) = [] \<and> (\<forall>l. lock_holder s l \<noteq> Some (cur s))"
  shows "\<exists>s'. schedule s = Some s' \<and> kinv s'"
proof -
  obtain n s1 where n: "next_thread_to_run s = (n, s1)" by fastforce
  from next_thread [OF c n] obtain x r where
    x: "thr s n = Some x" "status x \<noteq> THREAD_DYING" "n \<noteq> NULL" "s1 = s\<lparr>ready_list := r\<rparr>" by auto
  obtain y where y: "thr s (cur s) = Some y" using cu by auto
  have "cur s \<noteq> NULL" using c cu by (auto simp: core_def sched_ok_def)
  let ?s2 = "s1\<lparr>cur := n, thr := (thr s)(n \<mapsto> x\<lparr>status := THREAD_RUNNING\<rparr>), thread_ticks := 0\<rparr>"
  have c2: "core ?s2" using c n x(1) by (rule core_switch)
  have run: "run_pre n (st_of ?s2) (frames ?s2)"
    using x nr nl by (simp add: run_pre_def)
  show ?thesis
  proof (cases "cur s = n")
    case True
    have "kinv ?s2" using c2 run nl off dy True x
      by (auto simp: kinv_def kpre_def lock_top_def dying_ok_def split: if_splits)
    moreover have "schedule s = Some ?s2"
      using n x y True off nr by (auto simp: schedule_def thread_schedule_tail_def is_thread_def upd_thread_def)
    ultimately show ?thesis by blast
  next
    case False
    have yst: "status y \<noteq> THREAD_RUNNING" using nr y by auto
    show ?thesis
    proof (cases "status y = THREAD_DYING \<and> cur s \<noteq> initial_thread s")
      case True
      let ?s3 = "?s2\<lparr>thr := (thr ?s2)(cur s := None), frames := (frames s)(cur s := [])\<rparr>"
      have fr: "(frames s)(cur s := []) = frames s" using ex y True by (auto simp: fun_eq_iff)
      have "core (?s2\<lparr>thr := (thr ?s2)(cur s := None)\<rparr>)"
        using c2 by (rule core_free) (use ex y True False x in auto)
      then have "core ?s3" using x(4) fr by (simp add: core_def)
      moreover have "run_pre n (st_of ?s3) (frames ?s3)"
        using x nr nl False by (auto simp: run_pre_def)
      moreover have "\<forall>t. st_of ?s3 t = Some THREAD_DYING \<longrightarrow> t = initial_thread s"
        using dy False by auto
      ultimately have "kinv ?s3" using off x(4) nl by (simp add: kinv_def kpre_def lock_top_def dying_ok_def)
      moreover have "schedule s = Some ?s3"
        using n x y True False off yst \<open>cur s \<noteq> NULL\<close>
        by (auto simp: schedule_def thread_schedule_tail_def is_thread_def upd_thread_def)
      ultimately show ?thesis by blast
    next
      case F: False
      have "\<forall>t. st_of ?s2 t = Some THREAD_DYING \<longrightarrow> t = initial_thread s"
        using dy F y by auto
      then have "kinv ?s2" using c2 run off x(4) nl by (simp add: kinv_def kpre_def lock_top_def dying_ok_def)
      moreover have "schedule s = Some ?s2"
        using n x y F False off yst \<open>cur s \<noteq> NULL\<close>
        by (auto simp: schedule_def thread_schedule_tail_def is_thread_def upd_thread_def)
      ultimately show ?thesis by blast
    qed
  qed
qed

end
