(* ===== verification/Kernel_Preserve.thy ===== *)
theory Kernel_Preserve
  imports Kernel_Inv
begin

text \<open>
  Every operation of the scheduler, the semaphores and the locks succeeds in a state that
  satisfies the invariant, when its caller meets the documented obligations, and restores the
  invariant, whatever thread runs when it is over.
\<close>

lemmas kstate = kpre_def core_def

section \<open>Frames and status of the running thread\<close>

lemma thread_current_pre: "kpre s \<Longrightarrow> \<exists>x. thr s (cur s) = Some x \<and> status x = THREAD_RUNNING
    \<and> cur s \<noteq> NULL \<and> thread_current s = Some x"
  unfolding kpre_def run_pre_def core_def sched_ok_def thread_current_def by force

lemma creating_Cons [simp]:
  "creating (k # ks) = (case creates k of None \<Rightarrow> creating ks | Some u \<Rightarrow> insert u (creating ks))"
  by (auto simp: creating_def split: option.splits)

lemma locking_Cons: "locking ks \<subseteq> locking (k # ks)"
  by (auto simp: locking_def)

lemma locking_simps [simp]:
  "locking (LockAcquired l b # ks) = insert l (locking ks)"
  "\<not> lockish k \<Longrightarrow> locking (k # ks) = locking ks"
  by (auto simp: locking_def)

lemma frame_ok_mono:
  "frame_ok wt hl cd idl tdl t ks k \<Longrightarrow> locking ks \<subseteq> locking ks' \<Longrightarrow> frame_ok wt hl cd idl tdl t ks' k"
  by (cases k) auto

lemma frames_ok_set:
  assumes f: "frames_ok st fr wt hl cd idl tdl" and s: "stack_ok wt hl cd idl tdl t ks"
    and c: "creating ks \<subseteq> creating (fr t)" and n: "st t \<noteq> None"
    and i: "t = idl \<Longrightarrow> idle_stack ks" and k: "st t = Some THREAD_BLOCKED \<Longrightarrow> fr t \<noteq> [KernelThread]"
  shows "frames_ok st (fr(t := ks)) wt hl cd idl tdl"
proof -
  have cr: "creators_ok st fr" using f by (simp add: frames_ok_def)
  have "creators_ok st (fr(t := ks))"
    unfolding creators_ok_def
  proof (intro conjI allI impI)
    fix u v w
    have sub: "creating ((fr(t := ks)) z) \<subseteq> creating (fr z)" for z using c by simp
    { assume "v \<in> creating ((fr(t := ks)) u)"
      with sub have "v \<in> creating (fr u)" by blast
      with cr have v: "st v = Some THREAD_BLOCKED" "fr v = [KernelThread]" by (auto simp: creators_ok_def)
      with k have "v \<noteq> t" by metis
      with v show "st v = Some THREAD_BLOCKED" "(fr(t := ks)) v = [KernelThread]" by simp_all }
    { assume "w \<in> creating ((fr(t := ks)) u)" "w \<in> creating ((fr(t := ks)) v)"
      with sub have "w \<in> creating (fr u)" "w \<in> creating (fr v)" by blast+
      with cr show "u = v" by (auto simp: creators_ok_def) }
  qed
  with f s n i show ?thesis by (auto simp: frames_ok_def)
qed

text \<open>Pushing and popping a frame of the running thread.\<close>

lemma sched_ok_frames:
  assumes "sched_ok st fr rdy slp al wt idl" and "st t \<noteq> Some THREAD_BLOCKED"
  shows "sched_ok st (fr(t := ks)) rdy slp al wt idl"
  using assms by (auto simp: sched_ok_def set_upds not_on_list)

lemma kpre_frames:
  assumes s: "kpre s" and k: "stack_ok (wt_of s) (lock_holder s) (conds s) (idle_thread s) (tid_lock s) (cur s) ks"
    and c: "creating ks \<subseteq> creating (frames s (cur s))" and i: "cur s = idle_thread s \<Longrightarrow> idle_stack ks"
    and l: "\<And>l. wl_of s (cur s) = Some l \<Longrightarrow> l \<noteq> NULL \<Longrightarrow> l \<in> locking ks"
  shows "kpre (s\<lparr>frames := (frames s)(cur s := ks)\<rparr>)"
proof -
  have r: "st_of s (cur s) = Some THREAD_RUNNING" using s by (simp add: kpre_def run_pre_def)
  have "sched_ok (st_of s) ((frames s)(cur s := ks)) (ready_list s) (sleep_list s) (all_list s) (wt_of s) (idle_thread s)"
    using s r by (intro sched_ok_frames) (auto simp: kstate)
  moreover have "frames_ok (st_of s) ((frames s)(cur s := ks)) (wt_of s) (lock_holder s) (conds s) (idle_thread s) (tid_lock s)"
    using s k c i r by (intro frames_ok_set) (auto simp: kstate)
  moreover have "don_ok (thread_mlfqs s) (wl_of s) (dn_of s) (lock_holder s) ((frames s)(cur s := ks))"
  proof -
    have d: "don_ok (thread_mlfqs s) (wl_of s) (dn_of s) (lock_holder s) (frames s)" using s by (simp add: kstate)
    show ?thesis by (rule don_okI) (use don_okD [OF d] l in \<open>auto split: if_splits\<close>)
  qed
  ultimately show ?thesis using s by (simp add: kstate run_pre_def)
qed

lemma stack_ok_ConsI:
  assumes "stack_ok wt hl cd idl tdl t ks" and "frame_ok wt hl cd idl tdl t (k # ks) k" and "shape (k # ks)"
  shows "stack_ok wt hl cd idl tdl t (k # ks)"
  using assms frame_ok_mono [OF _ locking_Cons] by (auto simp: stack_ok_def)

lemma kpre_push:
  assumes s: "kpre s" and k: "frame_ok (wt_of s) (lock_holder s) (conds s) (idle_thread s) (tid_lock s) (cur s)
      (k # frames s (cur s)) k" and sh: "shape (k # frames s (cur s))" and c: "creates k = None"
    and i: "cur s = idle_thread s \<Longrightarrow> is_set_level k"
  shows "kpre (push_frame k s)"
  unfolding push_frame_def
proof (rule kpre_frames [OF s])
  have st: "stack_ok (wt_of s) (lock_holder s) (conds s) (idle_thread s) (tid_lock s) (cur s) (frames s (cur s))"
    and id: "idle_stack (frames s (idle_thread s))"
    using s by (simp_all add: kstate frames_ok_def)
  show "stack_ok (wt_of s) (lock_holder s) (conds s) (idle_thread s) (tid_lock s) (cur s) (k # frames s (cur s))"
    by (rule stack_ok_ConsI) (rule st k sh)+
  show "creating (k # frames s (cur s)) \<subseteq> creating (frames s (cur s))" using c by simp
  show "idle_stack (k # frames s (cur s))" if "cur s = idle_thread s"
    using id i [OF that] that by (simp add: idle_stack_def)
  show "l \<in> locking (k # frames s (cur s))" if "wl_of s (cur s) = Some l" "l \<noteq> NULL" for l
    using s that don_okD(2) [of "thread_mlfqs s" "wl_of s" "dn_of s" "lock_holder s" "frames s" "cur s" l]
      locking_Cons by (auto simp: kstate)
qed

lemma shape_SetLevel: "shape ks \<Longrightarrow> top_locked ks = None \<Longrightarrow> shape (SetLevel b # ks)"
  by (simp add: shape_def)

lemma kpre_push_SetLevel:
  "kpre s \<Longrightarrow> top_locked (frames s (cur s)) = None \<Longrightarrow> kpre (push_frame (SetLevel b) s)"
  by (rule kpre_push) (auto simp: shape_SetLevel kstate frames_ok_def stack_ok_def)

lemma frames_push [simp]: "frames (push_frame k s) = (frames s)(cur s := k # frames s (cur s))"
  by (simp add: push_frame_def)

lemma push_frame_simps [simp]:
  "cur (push_frame k s) = cur s" "thr (push_frame k s) = thr s" "ready_list (push_frame k s) = ready_list s"
  "intr_on (push_frame k s) = intr_on s" "in_external_intr (push_frame k s) = in_external_intr s"
  "semas (push_frame k s) = semas s" "lock_holder (push_frame k s) = lock_holder s"
  "idle_thread (push_frame k s) = idle_thread s" "tid_lock (push_frame k s) = tid_lock s"
  "thread_mlfqs (push_frame k s) = thread_mlfqs s" "conds (push_frame k s) = conds s"
  "sleep_list (push_frame k s) = sleep_list s" "initial_thread (push_frame k s) = initial_thread s"
  by (simp_all add: push_frame_def)

lemma push_frame_thr: "push_frame k (s\<lparr>thr := f\<rparr>) = (push_frame k s)\<lparr>thr := f\<rparr>"
  by (simp add: push_frame_def)

text \<open>Changes of the interrupt state and of the statistics do not matter to \<open>kpre\<close>.\<close>

lemma kpre_cong:
  assumes "kpre s" and "thr s' = thr s" "frames s' = frames s" "cur s' = cur s" "ready_list s' = ready_list s"
    "all_list s' = all_list s" "idle_thread s' = idle_thread s" "initial_thread s' = initial_thread s"
    "tid_lock s' = tid_lock s" "thread_mlfqs s' = thread_mlfqs s" "semas s' = semas s"
    "lock_holder s' = lock_holder s" "conds s' = conds s" "sleep_list s' = sleep_list s"
  shows "kpre s'"
  using assms by (simp add: kstate)

lemma kpre_simps [simp]:
  "kpre (s\<lparr>intr_on := b\<rparr>) = kpre s" "kpre (intr_disable s) = kpre s" "kpre (s\<lparr>ticks := n\<rparr>) = kpre s"
  "kpre (s\<lparr>idle_ticks := n\<rparr>) = kpre s" "kpre (s\<lparr>user_ticks := n\<rparr>) = kpre s"
  "kpre (s\<lparr>kernel_ticks := n\<rparr>) = kpre s" "kpre (s\<lparr>thread_ticks := n\<rparr>) = kpre s"
  "kpre (s\<lparr>load_avg := n\<rparr>) = kpre s" "kpre (s\<lparr>in_external_intr := b\<rparr>) = kpre s"
  "kpre (s\<lparr>yield_on_return := b\<rparr>) = kpre s" "kpre (s\<lparr>next_tid := n\<rparr>) = kpre s"
  "kpre (s\<lparr>procs := p\<rparr>) = kpre s"
  by (simp_all add: kstate intr_disable_def)

lemma views_thr:
  assumes "thr s t = Some x" and "status y = status x" "waitlock y = waitlock x"
    "list_of_donation y = list_of_donation x"
  shows "st_of (s\<lparr>thr := (thr s)(t \<mapsto> y)\<rparr>) = st_of s" "wl_of (s\<lparr>thr := (thr s)(t \<mapsto> y)\<rparr>) = wl_of s"
    "dn_of (s\<lparr>thr := (thr s)(t \<mapsto> y)\<rparr>) = dn_of s"
  using assms by (auto simp: fun_eq_iff)

lemma kpre_thr:
  assumes "thr s t = Some x" and "status y = status x" "waitlock y = waitlock x"
    "list_of_donation y = list_of_donation x"
  shows "kpre (s\<lparr>thr := (thr s)(t \<mapsto> y)\<rparr>) = kpre s"
  using views_thr [OF assms] by (simp add: kstate)

section \<open>Yielding and the preemption test\<close>

lemma sched_ok_yield:
  assumes "sched_ok st fr rdy slp al wt idl" and "st c = Some THREAD_RUNNING"
  shows "sched_ok (st(c \<mapsto> THREAD_READY)) fr (if c \<noteq> idl then insert_ord lt c rdy else rdy) slp al wt idl"
  using assms by (auto simp: sched_ok_def set_upds not_on_list alive_def)

lemma core_not_current_lock:
  "kpre s \<Longrightarrow> top_locked (frames s (cur s)) = None \<Longrightarrow> \<forall>t. top_locked (frames s t) = None"
  unfolding kpre_def run_pre_def by metis

lemma thread_yield_ok:
  assumes s: "kpre s" and e: "\<not> in_external_intr s" and l: "top_locked (frames s (cur s)) = None"
  shows "\<exists>s'. thread_yield s = Some s' \<and> kinv s'"
proof -
  let ?s1 = "intr_disable (push_frame (SetLevel (intr_on s)) s)"
  let ?r = "if cur s \<noteq> idle_thread s then insert_ord (compare_priority ?s1) (cur s) (ready_list s) else ready_list s"
  obtain x where x: "thr s (cur s) = Some x" "status x = THREAD_RUNNING" "thread_current s = Some x"
    using thread_current_pre [OF s] by auto
  let ?s2 = "?s1\<lparr>ready_list := ?r, thr := (thr s)(cur s \<mapsto> x\<lparr>status := THREAD_READY\<rparr>)\<rparr>"
  have k1: "kpre ?s1" using kpre_push_SetLevel [OF s l] by simp
  then have sc: "sched_ok (st_of s) (frames ?s1) (ready_list s) (sleep_list s) (all_list ?s1) (wt_of s) (idle_thread s)"
    by (simp add: kstate intr_disable_def)
  have v: "wl_of ?s2 = wl_of s" "dn_of ?s2 = dn_of s" "st_of ?s2 = (st_of s)(cur s \<mapsto> THREAD_READY)"
    using x by (auto simp: fun_eq_iff)
  have "frames_ok (st_of ?s2) (frames ?s1) (wt_of s) (lock_holder s) (conds s) (idle_thread s) (tid_lock s)"
    unfolding v using k1 x by (intro frames_ok_status) (auto simp: kstate intr_disable_def)
  moreover have "locks_ok (st_of ?s2) (lock_holder s) (vl_of s) (tid_lock s)"
    unfolding v using k1 by (intro locks_ok_status) (auto simp: kstate intr_disable_def)
  moreover have "sched_ok (st_of ?s2) (frames ?s1) ?r (sleep_list s) (all_list ?s1) (wt_of s) (idle_thread s)"
    unfolding v using sc x by (intro sched_ok_yield) auto
  ultimately have c2: "core ?s2" using k1 v
    by (simp add: kstate intr_disable_def)
  have "\<exists>s'. schedule ?s2 = Some s' \<and> kinv s'"
  proof (rule schedule_ok [OF c2])
    show "\<forall>t. st_of ?s2 t \<noteq> Some THREAD_RUNNING" using s x by (auto simp: kpre_def run_pre_def)
    show "\<forall>t. top_locked (frames ?s2 t) = None"
      using core_not_current_lock [OF s l] by (simp add: push_frame_def intr_disable_def)
    show "\<forall>t. st_of ?s2 t = Some THREAD_DYING \<longrightarrow> t = initial_thread ?s2 \<or> t = cur ?s2"
      using s by (auto simp: kpre_def dying_ok_def intr_disable_def)
  qed (use e in \<open>auto simp: intr_disable_def\<close>)
  moreover have "thread_yield s = schedule ?s2"
    using x e by (auto simp: thread_yield_def upd_thread_def intr_disable_def Let_def
        intro!: arg_cong [of _ _ schedule] kernel.equality)
  ultimately show ?thesis by simp
qed

lemma ready_thread: "kpre s \<Longrightarrow> t \<in> set (ready_list s) \<Longrightarrow> \<exists>x. thr s t = Some x \<and> status x = THREAD_READY"
  by (auto simp: kstate sched_ok_def ready_set_def)

lemma max_priority_ok:
  assumes s: "kpre s" and e: "\<not> in_external_intr s" and l: "top_locked (frames s (cur s)) = None"
  shows "\<exists>s'. iscurrent_thread_has_max_priority s = Some s' \<and> kinv s'"
proof (cases "ready_list s")
  case Nil
  then show ?thesis using s e l by (simp add: iscurrent_thread_has_max_priority_def kinv_def lock_top_def)
next
  case (Cons f fs)
  then obtain y where y: "thr s f = Some y" using ready_thread [OF s, of f] by auto
  obtain x where "thread_current s = Some x" using thread_current_pre [OF s] by auto
  with y e Cons thread_yield_ok [OF assms] s l show ?thesis
    by (auto simp: iscurrent_thread_has_max_priority_def kinv_def lock_top_def)
qed

lemma max_priority_intr:
  assumes s: "kpre s" and e: "in_external_intr s"
  shows "\<exists>n b. iscurrent_thread_has_max_priority s = Some (s\<lparr>thread_ticks := n, yield_on_return := b\<rparr>)"
proof (cases "ready_list s")
  case Nil
  then show ?thesis
    by (intro exI [of _ "thread_ticks s"] exI [of _ "yield_on_return s"])
      (simp add: iscurrent_thread_has_max_priority_def)
next
  case (Cons f fs)
  then obtain y where y: "thr s f = Some y" using ready_thread [OF s, of f] by auto
  obtain x where x: "thread_current s = Some x" using thread_current_pre [OF s] by auto
  let ?n = "(thread_ticks s + 1) mod 2 ^ 32"
  have x': "thread_current (s\<lparr>thread_ticks := ?n\<rparr>) = Some x" using x by (simp add: thread_current_def)
  have eq: "s\<lparr>thread_ticks := ?n\<rparr> = s\<lparr>thread_ticks := ?n, yield_on_return := yield_on_return s\<rparr>" by simp
  show ?thesis
  proof (cases "priority x < priority y \<or> ?n \<ge> TIME_SLICE \<and> priority x = priority y")
    case True
    then have "iscurrent_thread_has_max_priority s = Some (s\<lparr>thread_ticks := ?n, yield_on_return := True\<rparr>)"
      using Cons y e x' by (simp add: iscurrent_thread_has_max_priority_def intr_yield_on_return_def)
    then show ?thesis by blast
  next
    case False
    then have "iscurrent_thread_has_max_priority s = Some (s\<lparr>thread_ticks := ?n\<rparr>)"
      using Cons y e x' by (auto simp: iscurrent_thread_has_max_priority_def intr_yield_on_return_def)
    then show ?thesis using eq by metis
  qed
qed

section \<open>Waking a thread\<close>

lemma thread_unblock_eq:
  assumes "thr s t = Some x" and "status x = THREAD_BLOCKED" and "t \<noteq> NULL"
    and "\<not> (in_external_intr s \<and> intr_on s)"
  shows "thread_unblock t s = Some (s\<lparr>ready_list := insert_ord (compare_priority s) t (ready_list s),
    thr := (thr s)(t \<mapsto> x\<lparr>status := THREAD_READY\<rparr>)\<rparr>)"
proof -
  have "compare_priority (s\<lparr>intr_on := False\<rparr>) = compare_priority s"
    by (simp add: compare_priority_def prio_def fun_eq_iff)
  then show ?thesis using assms
    by (auto simp: thread_unblock_def is_thread_def intr_disable_def upd_thread_def intr_set_level_def
        intr_enable_def Let_def intro!: kernel.equality)
qed

lemma sched_ok_unblock:
  assumes s: "sched_ok st fr rdy slp al wt idl" and t: "st t = Some THREAD_BLOCKED" "t \<noteq> idl"
    and slp: "distinct slp'" "set slp' = set slp - {t}"
    and wt: "\<And>y ws'. wt' y = Some ws' \<Longrightarrow> \<exists>ws. wt y = Some ws \<and> distinct ws' \<and> set ws' = set ws - {t}"
  shows "sched_ok (st(t \<mapsto> THREAD_READY)) fr (insert_ord lt t rdy) slp' al wt' idl"
proof -
  have n: "t \<noteq> NULL" "t \<in> alive st" "t \<notin> ready_set st idl"
    using s t by (auto simp: sched_ok_def alive_def ready_set_def)
  moreover have "distinct ws \<and> set ws = waiting st fr y - {t}" if "wt' y = Some ws" for y ws
    using wt [OF that] s by (auto simp: sched_ok_def)
  ultimately show ?thesis
    using s t slp by (auto simp: sched_ok_def set_upds)
qed

lemma creators_ok_ready:
  assumes c: "creators_ok st fr" and t: "\<And>u. t \<notin> creating (fr u)"
  shows "creators_ok (st(t \<mapsto> v)) fr"
proof -
  have "w \<noteq> t" if "w \<in> creating (fr u)" for u w using that t by blast
  then show ?thesis using c unfolding creators_ok_def by (metis fun_upd_other)
qed

section \<open>Priority changes\<close>

text \<open>States that differ in fields of threads that the invariant does not read.\<close>

definition same_views :: "kernel \<Rightarrow> kernel \<Rightarrow> bool" where
  "same_views s s' \<longleftrightarrow> (\<exists>f. s' = s\<lparr>thr := f\<rparr>) \<and> st_of s' = st_of s \<and> wl_of s' = wl_of s \<and> dn_of s' = dn_of s"

lemma same_views_refl [simp]: "same_views s s"
  unfolding same_views_def by (auto intro: exI [of _ "thr s"])

lemma same_views_trans: "same_views s s' \<Longrightarrow> same_views s' s'' \<Longrightarrow> same_views s s''"
  unfolding same_views_def by force

lemma same_views_fields:
  assumes "same_views s s'"
  shows "frames s' = frames s" "cur s' = cur s" "ready_list s' = ready_list s" "intr_on s' = intr_on s"
    "in_external_intr s' = in_external_intr s" "semas s' = semas s" "lock_holder s' = lock_holder s"
    "conds s' = conds s" "idle_thread s' = idle_thread s" "tid_lock s' = tid_lock s"
    "thread_mlfqs s' = thread_mlfqs s" "sleep_list s' = sleep_list s" "ticks s' = ticks s"
    "initial_thread s' = initial_thread s" "all_list s' = all_list s"
  using assms unfolding same_views_def by auto

lemma same_views_kpre: "same_views s s' \<Longrightarrow> kpre s' = kpre s"
  using same_views_fields [of s s'] by (simp only: kstate same_views_def)

lemma same_views_thr:
  assumes "thr s t = Some x" and "status y = status x" "waitlock y = waitlock x"
    "list_of_donation y = list_of_donation x"
  shows "same_views s (s\<lparr>thr := (thr s)(t \<mapsto> y)\<rparr>)"
  unfolding same_views_def using views_thr [OF assms] by blast

lemma lock_holder_alive:
  "kpre s \<Longrightarrow> lock_holder s l = Some h \<Longrightarrow> h \<noteq> NULL \<Longrightarrow> \<exists>x. thr s h = Some x \<and> status x \<noteq> THREAD_DYING"
  using locks_okD(1) [of "st_of s" "lock_holder s" "vl_of s" "tid_lock s" l h] by (auto simp: kstate alive_def)

lemma waitlock_exists:
  "kpre s \<Longrightarrow> thr s t = Some x \<Longrightarrow> waitlock x \<noteq> NULL \<Longrightarrow> lock_holder s (waitlock x) \<noteq> None"
  unfolding kstate using don_okD(2) [of "thread_mlfqs s" "wl_of s" "dn_of s" "lock_holder s" "frames s" t "waitlock x"]
  by auto

lemma donation_loop_ok:
  "kpre s \<Longrightarrow> (l \<noteq> NULL \<Longrightarrow> lock_holder s l \<noteq> None) \<Longrightarrow> thr s t \<noteq> None \<Longrightarrow>
   \<exists>s'. donation_loop n t l s = Some s' \<and> same_views s s'"
proof (induction n arbitrary: t l s)
  case (Suc n)
  show ?case
  proof (cases "l = NULL")
    case False
    then obtain h where h: "lock_holder s l = Some h" using Suc.prems by auto
    obtain tx where tx: "thr s t = Some tx" using Suc.prems by auto
    show ?thesis
    proof (cases "h = NULL")
      case hn: False
      obtain hx where hx: "thr s h = Some hx" using lock_holder_alive [OF Suc.prems(1) h hn] by auto
      let ?s = "s\<lparr>thr := (thr s)(h \<mapsto> hx\<lparr>priority := priority tx\<rparr>)\<rparr>"
      have v: "same_views s ?s" using hx by (rule same_views_thr) simp_all
      have "\<exists>s'. donation_loop n h (waitlock hx) ?s = Some s' \<and> same_views ?s s'"
        by (rule Suc.IH) (use waitlock_exists [OF Suc.prems(1) hx] same_views_kpre [OF v] Suc.prems(1) in auto)
      with v have "\<exists>s'. donation_loop n h (waitlock hx) ?s = Some s' \<and> same_views s s'"
        by (meson same_views_trans)
      with False h hn hx tx show ?thesis by (auto simp: upd_thread_def)
    qed (use h False in simp)
  qed simp
qed simp

lemma donation_solve_ok:
  assumes "kpre s"
  shows "\<exists>s'. priority_donation_solve s = Some s' \<and> same_views s s'"
proof -
  obtain x where x: "thr s (cur s) = Some x" "thread_current s = Some x"
    using thread_current_pre [OF assms] by auto
  then show ?thesis
    using donation_loop_ok [OF assms, of "waitlock x" "cur s" LOCK_SIZE] waitlock_exists [OF assms, of "cur s" x]
    by (auto simp: priority_donation_solve_def)
qed

lemma same_views_current:
  assumes "same_views s s'" and "kpre s"
  shows "\<exists>x. thr s' (cur s) = Some x \<and> status x = THREAD_RUNNING \<and> thread_current s' = Some x"
  using assms thread_current_pre [of s'] same_views_kpre [OF assms(1)] same_views_fields [OF assms(1)] by auto

lemma donor_thread: "kpre s \<Longrightarrow> thr s h = Some x \<Longrightarrow> t \<in> set (list_of_donation x) \<Longrightarrow> thr s t \<noteq> None"
  unfolding kstate
  using don_okD(4) [of "thread_mlfqs s" "wl_of s" "dn_of s" "lock_holder s" "frames s" h "list_of_donation x" t] by auto

lemma priority_check_ok:
  assumes s: "kpre s"
  shows "\<exists>s'. priority_check_from_donation_list s = Some s' \<and> same_views s s'"
proof -
  obtain x where x: "thr s (cur s) = Some x" "status x = THREAD_RUNNING" "thread_current s = Some x"
    using thread_current_pre [OF s] by auto
  let ?s = "s\<lparr>thr := (thr s)(cur s \<mapsto> x\<lparr>priority := initial_priority x\<rparr>)\<rparr>"
  have v: "same_views s ?s" using x(1) by (rule same_views_thr) simp_all
  show ?thesis
  proof (cases "list_of_donation x")
    case Nil
    with v x show ?thesis by (simp add: priority_check_from_donation_list_def upd_thread_def)
  next
    case (Cons f fs)
    then obtain d where "thr s f = Some d" using donor_thread [OF s x(1), of f] by auto
    then obtain d' where d': "thr ?s f = Some d'" by (cases "f = cur s") auto
    have "same_views s (s\<lparr>thr := (thr s)(cur s \<mapsto> x\<lparr>priority := priority d'\<rparr>)\<rparr>)"
      using x(1) by (rule same_views_thr) simp_all
    with v x d' Cons show ?thesis
      by (cases "f = cur s") (auto simp: priority_check_from_donation_list_def upd_thread_def)
  qed
qed

lemma kinvI:
  "kpre s \<Longrightarrow> top_locked (frames s (cur s)) = None \<Longrightarrow> \<not> in_external_intr s \<Longrightarrow> kinv s"
  by (simp add: kinv_def lock_top_def)

lemma thread_set_priority_ok:
  assumes s: "kpre s" and e: "\<not> in_external_intr s" and l: "top_locked (frames s (cur s)) = None"
  shows "\<exists>s'. thread_set_priority p s = Some s' \<and> kinv s'"
proof (cases "thread_mlfqs s")
  case True
  then show ?thesis using s e l by (simp add: thread_set_priority_def kinvI)
next
  case False
  let ?s1 = "intr_disable s"
  have k1: "kpre ?s1" using s by simp
  obtain x where x: "thr s (cur s) = Some x" "thread_current ?s1 = Some x"
    using thread_current_pre [OF k1] by (auto simp: intr_disable_def)
  let ?s2 = "?s1\<lparr>thr := (thr ?s1)(cur s \<mapsto> x\<lparr>initial_priority := p\<rparr>)\<rparr>"
  have v2: "same_views ?s1 ?s2" by (rule same_views_thr) (use x in \<open>simp_all add: intr_disable_def\<close>)
  have k2: "kpre ?s2" using same_views_kpre [OF v2] k1 by simp
  obtain s3 where s3: "priority_check_from_donation_list ?s2 = Some s3" "same_views ?s2 s3"
    using priority_check_ok [OF k2] by auto
  have k3: "kpre s3" using same_views_kpre [OF s3(2)] k2 by simp
  obtain y where y: "thread_current s3 = Some y" using thread_current_pre [OF k3] by auto
  have "\<exists>s4. (if priority x < priority y then priority_donation_solve s3 else Some s3) = Some s4 \<and> same_views s3 s4"
    using donation_solve_ok [OF k3] by simp
  then obtain s4 where s4: "(if priority x < priority y then priority_donation_solve s3 else Some s3) = Some s4"
    "same_views s3 s4" by blast
  have v4: "same_views ?s1 s4" using v2 s3(2) s4(2) by (meson same_views_trans)
  have k4: "kpre s4" using same_views_kpre [OF v4] k1 by simp
  have f4: "frames s4 = frames s" "cur s4 = cur s" "in_external_intr s4 = in_external_intr s"
    using same_views_fields [OF v4] by (simp_all add: intr_disable_def)
  let ?s5 = "push_frame (SetLevel (intr_on s)) s4"
  have k5: "kpre ?s5" using k4 l f4 by (intro kpre_push_SetLevel) simp_all
  obtain z where z: "thread_current ?s5 = Some z" using thread_current_pre [OF k5] by auto
  have t5: "top_locked (frames ?s5 (cur ?s5)) = None" "\<not> in_external_intr ?s5" using e f4 by simp_all
  have "\<exists>s'. (if priority x > priority z then iscurrent_thread_has_max_priority ?s5 else Some ?s5) = Some s' \<and> kinv s'"
    using max_priority_ok [OF k5 t5(2,1)] kinvI [OF k5 t5] by simp
  moreover have "thread_set_priority p s =
      (if priority x > priority z then iscurrent_thread_has_max_priority ?s5 else Some ?s5)"
    using False x s3 y s4 z by (simp add: thread_set_priority_def upd_thread_def Let_def intr_disable_def)
  ultimately show ?thesis by simp
qed

section \<open>Blocking\<close>

lemma thread_block_ok:
  assumes x: "thr s (cur s) = Some x" "status x = THREAD_RUNNING" and n: "cur s \<noteq> NULL"
    and c: "core (s\<lparr>thr := (thr s)(cur s \<mapsto> x\<lparr>status := THREAD_BLOCKED\<rparr>)\<rparr>)"
    and r: "\<forall>t. st_of s t = Some THREAD_RUNNING \<longrightarrow> t = cur s"
    and l: "\<forall>t. top_locked (frames s t) = None" and d: "dying_ok (st_of s) (initial_thread s)"
    and o: "\<not> intr_on s" "\<not> in_external_intr s"
  shows "\<exists>s'. thread_block s = Some s' \<and> kinv s'"
proof -
  let ?s = "s\<lparr>thr := (thr s)(cur s \<mapsto> x\<lparr>status := THREAD_BLOCKED\<rparr>)\<rparr>"
  have "\<exists>s'. schedule ?s = Some s' \<and> kinv s'"
    by (rule schedule_ok [OF c]) (use r l d o in \<open>auto simp: dying_ok_def\<close>)
  moreover have "thread_block s = schedule ?s"
    using x n o by (simp add: thread_block_def thread_current_def upd_thread_def)
  ultimately show ?thesis by simp
qed

lemma sched_ok_wait:
  assumes s: "sched_ok st fr rdy slp al wt idl" and c: "st c = Some THREAD_RUNNING" "c \<noteq> idl"
    and w: "wt y = Some ws"
  shows "sched_ok (st(c \<mapsto> THREAD_BLOCKED)) (fr(c := SemaDownLoop y b # ks)) rdy slp al
    (wt(y \<mapsto> insert_ord lt c ws)) idl"
proof -
  have n: "c \<noteq> NULL" "c \<in> alive st" "c \<notin> ready_set st idl" "c \<notin> sleepers st fr" "\<And>y. c \<notin> waiting st fr y"
    using s c by (auto simp: sched_ok_def list_sets)
  have "distinct ws" "set ws = waiting st fr y" using s w by (auto simp: sched_ok_def)
  then show ?thesis using s n c
    by (auto simp: sched_ok_def set_upds)
qed

lemma wt_upd: "semas s y = Some m \<Longrightarrow> wt_of (s\<lparr>semas := (semas s)(y \<mapsto> m\<lparr>sm_value := v\<rparr>)\<rparr>) = wt_of s"
  by (auto simp: fun_eq_iff)

lemma frames_ok_wt:
  assumes "frames_ok st fr wt hl cd idl tdl" and "\<And>y. wt y \<noteq> None \<Longrightarrow> wt' y \<noteq> None"
  shows "frames_ok st fr wt' hl cd idl tdl"
proof -
  have "frame_ok wt hl cd idl tdl t ks k \<Longrightarrow> frame_ok wt' hl cd idl tdl t ks k" for t ks k
    using assms(2) by (cases k) auto
  then show ?thesis using assms(1) by (fastforce simp: frames_ok_def stack_ok_def)
qed

lemma cond_ok_wt:
  "cond_ok cd wt \<Longrightarrow> (\<And>y. wt y \<noteq> None \<Longrightarrow> wt' y \<noteq> None) \<Longrightarrow> cond_ok cd wt'"
  unfolding cond_ok_def by blast

section \<open>Semaphores\<close>

text \<open>
  The loop of \<open>sema_down\<close>. For a lock's semaphore it runs on top of the frame of
  \<open>lock_acquire\<close> that takes the lock over.
\<close>

definition lock_wait :: "sema_id \<Rightarrow> bool \<Rightarrow> frame list \<Rightarrow> bool" where
  "lock_wait y b ks \<longleftrightarrow> (case y of LockSema l \<Rightarrow> \<not> b \<and> top_locked ks = Some l | _ \<Rightarrow> top_locked ks = None)"

lemma sema_down_block:
  assumes s: "kpre s" and m: "semas s y = Some m" and w: "lock_wait y b (frames s (cur s))"
    and o: "\<not> intr_on s" "\<not> in_external_intr s" and i: "cur s \<noteq> idle_thread s" and ow: "owns (cur s) y"
  shows "\<exists>s'. thread_block (push_frame (SemaDownLoop y b)
      (s\<lparr>semas := (semas s)(y \<mapsto> m\<lparr>waiters := insert_ord lt (cur s) (waiters m)\<rparr>)\<rparr>)) = Some s' \<and> kinv s'"
proof -
  let ?m = "m\<lparr>waiters := insert_ord lt (cur s) (waiters m)\<rparr>"
  let ?s1 = "push_frame (SemaDownLoop y b) (s\<lparr>semas := (semas s)(y \<mapsto> ?m)\<rparr>)"
  let ?fr = "(frames s)(cur s := SemaDownLoop y b # frames s (cur s))"
  obtain x where x: "thr s (cur s) = Some x" "status x = THREAD_RUNNING" "cur s \<noteq> NULL"
    using thread_current_pre [OF s] by auto
  let ?s2 = "?s1\<lparr>thr := (thr s)(cur s \<mapsto> x\<lparr>status := THREAD_BLOCKED\<rparr>)\<rparr>"
  have "stack_ok (wt_of s) (lock_holder s) (conds s) (idle_thread s) (tid_lock s) (cur s) (frames s (cur s))"
    using s by (simp add: kstate frames_ok_def)
  then have sh: "shape (SemaDownLoop y b # frames s (cur s))"
    using w by (auto simp: shape_def lock_wait_def stack_ok_def split: sema_id.splits)
  have kp: "kpre (push_frame (SemaDownLoop y b) s)"
    by (rule kpre_push [OF s]) (use m sh i ow in auto)
  have f0: "frames_ok (st_of s) ?fr (wt_of s) (lock_holder s) (conds s) (idle_thread s) (tid_lock s)"
    using kp by (simp add: kstate)
  have f1: "frames_ok ((st_of s)(cur s \<mapsto> THREAD_BLOCKED)) ?fr (wt_of s) (lock_holder s) (conds s) (idle_thread s) (tid_lock s)"
    by (rule frames_ok_status [OF f0]) (use x in auto)
  have f: "frames_ok ((st_of s)(cur s \<mapsto> THREAD_BLOCKED)) ?fr ((wt_of s)(y \<mapsto> waiters ?m)) (lock_holder s) (conds s)
      (idle_thread s) (tid_lock s)"
    by (rule frames_ok_wt [OF f1]) auto
  have sc: "sched_ok ((st_of s)(cur s \<mapsto> THREAD_BLOCKED)) ?fr (ready_list s) (sleep_list s) (all_list s)
      ((wt_of s)(y \<mapsto> insert_ord lt (cur s) (waiters m))) (idle_thread s)"
    by (rule sched_ok_wait) (use s x m i in \<open>auto simp: kstate\<close>)
  have lk: "locks_ok ((st_of s)(cur s \<mapsto> THREAD_BLOCKED)) (lock_holder s) (vl_of s) (tid_lock s)"
    by (rule locks_ok_status) (use s in \<open>auto simp: kstate\<close>)
  have vl: "(vl_of s)(y \<mapsto> sm_value m) = vl_of s" using m by (auto simp: fun_eq_iff)
  have dnw: "(wl_of s)(cur s \<mapsto> waitlock x) = wl_of s" "(dn_of s)(cur s \<mapsto> list_of_donation x) = dn_of s"
    using x by (auto simp: fun_eq_iff)
  have dk: "don_ok (thread_mlfqs s) (wl_of s) (dn_of s) (lock_holder s) ?fr" using kp by (simp add: kstate)
  have ck: "cond_ok (conds s) ((wt_of s)(y \<mapsto> waiters ?m))"
    by (rule cond_ok_wt [of _ "wt_of s"]) (use s in \<open>auto simp: kstate\<close>)
  have c: "core ?s2"
    using f sc lk dk ck by (simp add: core_def push_frame_def vl dnw)
  have tl: "top_locked (?fr t) = None" for t
    using s by (auto simp: kpre_def run_pre_def)
  show ?thesis
    by (rule thread_block_ok [where x = x]) (use x c s tl o in \<open>auto simp: kpre_def run_pre_def dying_ok_def\<close>)
qed

lemma locks_ok_value:
  assumes k: "locks_ok st hl vl tdl" and v: "v \<le> 1" and h: "hl l \<noteq> None" "v = 0 \<or> hl l = Some NULL"
  shows "locks_ok st hl (vl(LockSema l \<mapsto> v)) tdl"
proof -
  have "vl (LockSema l) \<noteq> None" using locks_okD(3) [OF k] h(1) by blast
  then have "dom (vl(LockSema l \<mapsto> v)) = dom vl" by (auto simp: insert_absorb domIff)
  then show ?thesis using k v h by (auto simp: locks_ok_def)
qed

lemma locks_ok_value_other:
  assumes k: "locks_ok st hl vl tdl" and y: "\<And>l. y \<noteq> LockSema l"
  shows "locks_ok st hl (vl(y \<mapsto> v)) tdl"
  using k y by (auto simp: locks_ok_def)

lemma kpre_semas:
  assumes s: "kpre s" and m: "semas s y = Some m" and w: "waiters m' = waiters m"
    and l: "locks_ok (st_of s) (lock_holder s) ((vl_of s)(y \<mapsto> sm_value m')) (tid_lock s)"
  shows "kpre (s\<lparr>semas := (semas s)(y \<mapsto> m')\<rparr>)"
proof -
  have "(wt_of s)(y \<mapsto> waiters m') = wt_of s" using m w by (auto simp: fun_eq_iff)
  then show ?thesis using s l by (simp add: kstate)
qed

lemma intr_set_level_ok:
  assumes "kpre s" and "\<not> in_external_intr s" and "top_locked (frames s (cur s)) = None"
  shows "\<exists>s'. intr_set_level b s = Some s' \<and> kinv s'"
  using assms by (auto simp: intr_set_level_def intr_enable_def intr_disable_def kinv_def lock_top_def)

lemma kpre_lock_frames: "kpre s \<Longrightarrow> lock_frames (frames s t) \<and> shape (frames s t)"
  by (auto simp: kstate frames_ok_def stack_ok_def shape_def)

lemma lock_frame_holder:
  assumes "kpre s" and "LockAcquired l b \<in> set (frames s t)"
  shows "l \<noteq> NULL" and "lock_holder s l \<noteq> None" and "lock_holder s l \<noteq> Some t"
proof -
  have "frame_ok (wt_of s) (lock_holder s) (conds s) (idle_thread s) (tid_lock s) t (frames s t) (LockAcquired l b)"
    using assms unfolding kstate frames_ok_def stack_ok_def by blast
  then show "l \<noteq> NULL" and "lock_holder s l \<noteq> None" and "lock_holder s l \<noteq> Some t" by simp_all
qed

lemma top_locked_mem: "top_locked ks = Some l \<Longrightarrow> \<exists>b. LockAcquired l b \<in> set ks"
  by (cases ks rule: top_locked.cases) auto

lemma sema_down_loop_ok:
  assumes s: "kpre s" and m: "semas s y \<noteq> None" and w: "lock_wait y b (frames s (cur s))"
    and o: "\<not> intr_on s" "\<not> in_external_intr s" and i: "cur s \<noteq> idle_thread s" and ow: "owns (cur s) y"
  shows "\<exists>s'. sema_down_loop y b s = Some s' \<and> kinv s'"
proof -
  from m obtain mm where mm: "semas s y = Some mm" by auto
  show ?thesis
  proof (cases "sm_value mm = 0")
    case True
    have "\<exists>s1. (if \<not> thread_mlfqs s then priority_donation_solve s else Some s) = Some s1 \<and> same_views s s1"
      using donation_solve_ok [OF s] by simp
    then obtain s1 where s1: "(if \<not> thread_mlfqs s then priority_donation_solve s else Some s) = Some s1"
      "same_views s s1" by blast
    note f1 = same_views_fields [OF s1(2)]
    have k1: "kpre s1" using same_views_kpre [OF s1(2)] s by simp
    obtain z where z: "thread_current s1 = Some z" using thread_current_pre [OF k1] by auto
    have "\<exists>s'. thread_block (push_frame (SemaDownLoop y b) (s1\<lparr>semas := (semas s1)(y \<mapsto>
        mm\<lparr>waiters := insert_ord (compare_priority s1) (cur s1) (waiters mm)\<rparr>)\<rparr>)) = Some s' \<and> kinv s'"
      by (rule sema_down_block [OF k1]) (use mm w o i f1 ow in simp_all)
    then show ?thesis using mm True s1 z f1 by (simp add: sema_down_loop_def upd_sema_def)
  next
    case False
    let ?s = "s\<lparr>semas := (semas s)(y \<mapsto> mm\<lparr>sm_value := sm_value mm - 1\<rparr>)\<rparr>"
    have lk: "locks_ok (st_of s) (lock_holder s) (vl_of s) (tid_lock s)" using s by (simp add: kstate)
    show ?thesis
    proof (cases "\<exists>l. y = LockSema l")
      case True
      then obtain l where l: "y = LockSema l" by blast
      with w have bl: "\<not> b" "top_locked (frames s (cur s)) = Some l" by (simp_all add: lock_wait_def)
      then obtain b' where "LockAcquired l b' \<in> set (frames s (cur s))" using top_locked_mem by blast
      note hl = lock_frame_holder [OF s this]
      have v: "sm_value mm \<le> 1" using locks_okD(2) [OF lk, of l "sm_value mm"] mm l by simp
      have "lock_holder s l = Some NULL"
        using locks_okD(1) [OF lk, of l] hl mm l False by fastforce
      moreover have "kpre ?s"
        by (rule kpre_semas [OF s mm]) (use v l hl lk in \<open>simp_all add: locks_ok_value\<close>)
      ultimately have "kinv (intr_disable ?s)"
        using o bl v l False by (auto simp: kinv_def lock_top_def intr_disable_def)
      then show ?thesis using mm False bl by (simp add: sema_down_loop_def upd_sema_def intr_set_level_def)
    next
      case nl: False
      have k: "kpre ?s"
        by (rule kpre_semas [OF s mm]) (use nl lk in \<open>simp_all add: locks_ok_value_other\<close>)
      have "top_locked (frames s (cur s)) = None" using w nl by (auto simp: lock_wait_def split: sema_id.splits)
      then have "\<exists>s'. intr_set_level b ?s = Some s' \<and> kinv s'"
        using k o by (intro intr_set_level_ok) simp_all
      then show ?thesis using mm False by (simp add: sema_down_loop_def upd_sema_def)
    qed
  qed
qed

lemma sema_down_ok:
  assumes s: "kpre s" and m: "semas s y \<noteq> None" and o: "\<not> in_external_intr s" and i: "cur s \<noteq> idle_thread s"
    and w: "lock_wait y (intr_on s) (frames s (cur s))" and ow: "owns (cur s) y"
  shows "\<exists>s'. sema_down y s = Some s' \<and> kinv s'"
proof -
  have "\<exists>s'. sema_down_loop y (intr_on s) (intr_disable s) = Some s' \<and> kinv s'"
    by (rule sema_down_loop_ok) (use assms in \<open>simp_all add: intr_disable_def\<close>)
  then show ?thesis using o by (simp add: sema_down_def)
qed

text \<open>
  Waking the waiter of highest priority. Nothing else in the state changes, and the woken
  thread keeps its place in the loop of \<open>sema_down\<close>.
\<close>

lemma waiter_thread:
  assumes s: "kpre s" and m: "semas s y = Some m" and t: "t \<in> set (waiters m)"
  shows "\<exists>x. thr s t = Some x \<and> status x = THREAD_BLOCKED" and "top_sema (frames s t) = Some y"
    and "t \<noteq> NULL" and "t \<noteq> idle_thread s" and "t \<notin> creating (frames s u)" and "t \<noteq> cur s"
proof -
  have sc: "sched_ok (st_of s) (frames s) (ready_list s) (sleep_list s) (all_list s) (wt_of s) (idle_thread s)"
    using s by (simp add: kstate)
  then have "set (waiters m) = waiting (st_of s) (frames s) y" using m by (auto simp: sched_ok_def)
  with t have tw: "st_of s t = Some THREAD_BLOCKED" "top_sema (frames s t) = Some y" by (auto simp: waiting_def)
  then show "\<exists>x. thr s t = Some x \<and> status x = THREAD_BLOCKED" "top_sema (frames s t) = Some y" by auto
  show "t \<noteq> NULL" using sc tw by (auto simp: sched_ok_def)
  show "t \<noteq> idle_thread s" using sc tw by (auto simp: sched_ok_def)
  show "t \<notin> creating (frames s u)" using s tw by (fastforce simp: kstate frames_ok_def creators_ok_def)
  show "t \<noteq> cur s" using s tw by (auto simp: kpre_def run_pre_def)
qed

lemma frames_ok_wake:
  assumes f: "frames_ok st fr wt hl cd idl tdl" and c: "\<And>u. t \<notin> creating (fr u)"
  shows "frames_ok (st(t \<mapsto> v)) fr wt hl cd idl tdl"
  using f c creators_ok_ready [of st fr t v] by (auto simp: frames_ok_def)

lemma kpre_wake:
  assumes s: "kpre s" and t: "thr s t = Some x" "status x = THREAD_BLOCKED" "t \<noteq> idle_thread s" "t \<noteq> cur s"
    and c: "\<And>u. t \<notin> creating (frames s u)"
    and sl: "distinct sl" "set sl = set (sleep_list s) - {t}"
    and w: "\<And>y m'. sm y = Some m' \<Longrightarrow> \<exists>m. semas s y = Some m \<and> distinct (waiters m') \<and>
        set (waiters m') = set (waiters m) - {t}"
    and d: "dom sm = dom (semas s)"
    and l: "locks_ok (st_of s) (lock_holder s) (\<lambda>y. map_option sm_value (sm y)) (tid_lock s)"
  shows "kpre (s\<lparr>ready_list := insert_ord lt t (ready_list s), thr := (thr s)(t \<mapsto> x\<lparr>status := THREAD_READY\<rparr>),
     sleep_list := sl, semas := sm\<rparr>)"
proof -
  let ?st = "(st_of s)(t \<mapsto> THREAD_READY)"
  let ?wt = "\<lambda>y. map_option waiters (sm y)"
  have "sched_ok ?st (frames s) (insert_ord lt t (ready_list s)) sl (all_list s) ?wt (idle_thread s)"
    by (rule sched_ok_unblock) (use s t sl in \<open>auto simp: kstate dest!: w\<close>)
  moreover have "frames_ok ?st (frames s) (wt_of s) (lock_holder s) (conds s) (idle_thread s) (tid_lock s)"
    by (rule frames_ok_wake) (use s c in \<open>auto simp: kstate\<close>)
  then have "frames_ok ?st (frames s) ?wt (lock_holder s) (conds s) (idle_thread s) (tid_lock s)"
    by (rule frames_ok_wt) (use d in auto)
  moreover have "locks_ok ?st (lock_holder s) (\<lambda>y. map_option sm_value (sm y)) (tid_lock s)"
    by (rule locks_ok_status [OF l]) simp
  moreover have "cond_ok (conds s) ?wt"
    by (rule cond_ok_wt [of _ "wt_of s"]) (use s d in \<open>auto simp: kstate\<close>)
  moreover have "(wl_of s)(t \<mapsto> waitlock x) = wl_of s" "(dn_of s)(t \<mapsto> list_of_donation x) = dn_of s"
    using t by (auto simp: fun_eq_iff)
  ultimately show ?thesis using s t(4) by (simp add: kstate run_pre_def dying_ok_def)
qed

lemma waiters_distinct: "kpre s \<Longrightarrow> semas s y = Some m \<Longrightarrow> distinct (waiters m)"
  using sched_okD(6) [of "st_of s" "frames s" "ready_list s" "sleep_list s" "all_list s" "wt_of s"
      "idle_thread s" y "waiters m"] by (simp add: kstate)

lemma sema_up_wake:
  assumes s: "kpre s" and m: "semas s y = Some m" and v: "locks_ok (st_of s) (lock_holder s)
      ((vl_of s)(y \<mapsto> sm_value m + 1)) (tid_lock s)"
    and e: "\<not> in_external_intr s" and ws: "waiters m = w # ws"
  shows "\<exists>t x rest sm. sema_up y s = iscurrent_thread_has_max_priority (push_frame (SetLevel (intr_on s))
      (s\<lparr>intr_on := False, ready_list := insert_ord (compare_priority s) t (ready_list s),
         thr := (thr s)(t \<mapsto> x\<lparr>status := THREAD_READY\<rparr>), semas := sm\<rparr>)) \<and>
    sort_spec (compare_priority s) (waiters m) = t # rest \<and> thr s t = Some x \<and>
    sm = (semas s)(y \<mapsto> m\<lparr>waiters := rest, sm_value := sm_value m + 1\<rparr>) \<and>
    kpre (s\<lparr>intr_on := False, ready_list := insert_ord (compare_priority s) t (ready_list s),
         thr := (thr s)(t \<mapsto> x\<lparr>status := THREAD_READY\<rparr>), semas := sm\<rparr>)"
proof -
  let ?ss = "sort_spec (compare_priority s) (waiters m)"
  have "?ss \<noteq> []" using ws by (metis length_0_conv length_sort_spec list.distinct(1))
  then obtain t rest where ss: "?ss = t # rest" by (cases ?ss) auto
  have t: "t \<in> set (waiters m)" by (metis ss list.set_intros(1) set_sort_spec)
  have dw: "distinct (waiters m)" using waiters_distinct [OF s m] .
  have rest: "distinct rest" "set rest = set (waiters m) - {t}"
  proof -
    have "distinct (t # rest)" "set (t # rest) = set (waiters m)"
      using dw by (metis ss distinct_sort_spec) (metis ss set_sort_spec)
    then show "distinct rest" "set rest = set (waiters m) - {t}" by auto
  qed
  obtain x where x: "thr s t = Some x" "status x = THREAD_BLOCKED"
    using waiter_thread(1) [OF s m t] by auto
  let ?sm = "(semas s)(y \<mapsto> m\<lparr>waiters := rest, sm_value := sm_value m + 1\<rparr>)"
  let ?s = "s\<lparr>intr_on := False, ready_list := insert_ord (compare_priority s) t (ready_list s),
         thr := (thr s)(t \<mapsto> x\<lparr>status := THREAD_READY\<rparr>), semas := ?sm\<rparr>"
  have other: "t \<notin> set (waiters m')" if "semas s z = Some m'" "z \<noteq> y" for z m'
    using waiter_thread(2) [OF s that(1), of t] waiter_thread(2) [OF s m t] that(2) by auto
  have dwm: "distinct (waiters m')" if "semas s z = Some m'" for z m'
    using waiters_distinct [OF s that] .
  have sl: "t \<notin> set (sleep_list s)" "distinct (sleep_list s)"
    using waiter_thread(2) [OF s m t] s
    by (cases "frames s t" rule: top_sema.cases; auto simp: kstate sched_ok_def sleepers_def)+
  have "kpre (s\<lparr>ready_list := insert_ord (compare_priority s) t (ready_list s),
     thr := (thr s)(t \<mapsto> x\<lparr>status := THREAD_READY\<rparr>), sleep_list := sleep_list s, semas := ?sm\<rparr>)"
  proof (rule kpre_wake [OF s x waiter_thread(4,6,5) [OF s m t]])
    show "\<exists>m. semas s z = Some m \<and> distinct (waiters m') \<and> set (waiters m') = set (waiters m) - {t}"
      if "?sm z = Some m'" for z m'
    proof (cases "z = y")
      case True
      with that have "waiters m' = rest" by auto
      with m rest True show ?thesis by simp
    next
      case False
      with that have "semas s z = Some m'" by simp
      with other [OF this False] dwm [OF this] show ?thesis by auto
    qed
    show "locks_ok (st_of s) (lock_holder s) (\<lambda>y. map_option sm_value (?sm y)) (tid_lock s)"
      using v by simp
  qed (use sl m in auto)
  then have k: "kpre ?s" by (simp add: kstate)
  have cp: "compare_priority (s\<lparr>intr_on := False\<rparr>) = compare_priority s"
    "compare_priority (s\<lparr>intr_on := False, semas := f\<rparr>) = compare_priority s" for f
    by (simp_all add: compare_priority_def prio_def fun_eq_iff)
  have u: "thread_unblock t (s\<lparr>intr_on := False, semas := (semas s)(y \<mapsto> m\<lparr>waiters := rest\<rparr>)\<rparr>) =
      Some (s\<lparr>intr_on := False, semas := (semas s)(y \<mapsto> m\<lparr>waiters := rest\<rparr>),
         ready_list := insert_ord (compare_priority s) t (ready_list s),
         thr := (thr s)(t \<mapsto> x\<lparr>status := THREAD_READY\<rparr>)\<rparr>)"
    by (subst thread_unblock_eq [of _ _ x]) (use x waiter_thread(3) [OF s m t] in \<open>simp_all add: cp\<close>)
  have "sema_up y s = iscurrent_thread_has_max_priority (push_frame (SetLevel (intr_on s)) ?s)"
    using m ss u e
    by (simp add: sema_up_def intr_disable_def upd_sema_def cp Let_def push_frame_def ws)
  with ss x k show ?thesis by blast
qed

lemma sema_up_ok:
  assumes s: "kpre s" and m: "semas s y = Some m" and e: "\<not> in_external_intr s"
    and l: "top_locked (frames s (cur s)) = None"
    and v: "\<And>l. y = LockSema l \<Longrightarrow> lock_holder s l = Some NULL \<and> sm_value m = 0"
  shows "\<exists>s'. sema_up y s = Some s' \<and> kinv s'"
proof -
  have lk: "locks_ok (st_of s) (lock_holder s) (vl_of s) (tid_lock s)" using s by (simp add: kstate)
  have lv: "locks_ok (st_of s) (lock_holder s) ((vl_of s)(y \<mapsto> sm_value m + 1)) (tid_lock s)"
  proof (cases "\<exists>l. y = LockSema l")
    case True
    then obtain l where "y = LockSema l" by blast
    with v lk show ?thesis by (simp add: locks_ok_value)
  next
    case False
    with lk show ?thesis by (intro locks_ok_value_other) auto
  qed
  show ?thesis
  proof (cases "waiters m")
    case Nil
    let ?s = "s\<lparr>intr_on := False, semas := (semas s)(y \<mapsto> m\<lparr>sm_value := sm_value m + 1\<rparr>)\<rparr>"
    have "kpre (s\<lparr>semas := (semas s)(y \<mapsto> m\<lparr>sm_value := sm_value m + 1\<rparr>)\<rparr>)"
      by (rule kpre_semas [OF s m]) (use lv in simp_all)
    then have k: "kpre ?s" by (simp add: kstate)
    have k': "kpre (push_frame (SetLevel (intr_on s)) ?s)"
      using k l by (intro kpre_push_SetLevel) simp_all
    have "sema_up y s = iscurrent_thread_has_max_priority (push_frame (SetLevel (intr_on s)) ?s)"
      using m Nil e by (simp add: sema_up_def intr_disable_def upd_sema_def Let_def)
    then show ?thesis using max_priority_ok [OF k'] e by simp
  next
    case (Cons w ws)
    from sema_up_wake [OF s m lv e Cons] obtain t x sm where
      u: "sema_up y s = iscurrent_thread_has_max_priority (push_frame (SetLevel (intr_on s))
        (s\<lparr>intr_on := False, ready_list := insert_ord (compare_priority s) t (ready_list s),
           thr := (thr s)(t \<mapsto> x\<lparr>status := THREAD_READY\<rparr>), semas := sm\<rparr>))"
      and k: "kpre (s\<lparr>intr_on := False, ready_list := insert_ord (compare_priority s) t (ready_list s),
           thr := (thr s)(t \<mapsto> x\<lparr>status := THREAD_READY\<rparr>), semas := sm\<rparr>)" by blast
    have "kpre (push_frame (SetLevel (intr_on s)) (s\<lparr>intr_on := False, ready_list := insert_ord (compare_priority s) t (ready_list s),
           thr := (thr s)(t \<mapsto> x\<lparr>status := THREAD_READY\<rparr>), semas := sm\<rparr>))"
      using k l by (intro kpre_push_SetLevel) simp_all
    then show ?thesis unfolding u using e by (intro max_priority_ok) simp_all
  qed
qed

lemma sema_try_down_ok:
  assumes s: "kpre s" and m: "semas s y = Some m" and e: "\<not> in_external_intr s"
    and l: "top_locked (frames s (cur s)) = None" and y: "\<And>l. y \<noteq> LockSema l"
  shows "\<exists>b s'. sema_try_down y s = Some (b, s') \<and> kinv s'"
proof -
  let ?s = "s\<lparr>intr_on := False, semas := (semas s)(y \<mapsto> m\<lparr>sm_value := sm_value m - 1\<rparr>)\<rparr>"
  have lk: "locks_ok (st_of s) (lock_holder s) (vl_of s) (tid_lock s)" using s by (simp add: kstate)
  have "kpre (s\<lparr>semas := (semas s)(y \<mapsto> m\<lparr>sm_value := sm_value m - 1\<rparr>)\<rparr>)"
    by (rule kpre_semas [OF s m]) (use lk y in \<open>simp_all add: locks_ok_value_other\<close>)
  then have "kpre ?s" by (simp add: kstate)
  then have "\<exists>s'. intr_set_level (intr_on s) ?s = Some s' \<and> kinv s'"
    using e l by (intro intr_set_level_ok) simp_all
  moreover have "\<exists>s'. intr_set_level (intr_on s) (s\<lparr>intr_on := False\<rparr>) = Some s' \<and> kinv s'"
    using s e l by (intro intr_set_level_ok) simp_all
  ultimately show ?thesis using m
    by (auto simp: sema_try_down_def upd_sema_def intr_disable_def Let_def)
qed

section \<open>Locks\<close>

lemma kpre_don:
  assumes "kpre s" and "\<And>t. map_option status (f t) = st_of s t"
    and "don_ok (thread_mlfqs s) (\<lambda>t. map_option waitlock (f t)) (\<lambda>t. map_option list_of_donation (f t))
        (lock_holder s) (frames s)"
  shows "kpre (s\<lparr>thr := f\<rparr>)"
proof -
  have "(\<lambda>t. map_option status (f t)) = st_of s" using assms(2) by (simp add: fun_eq_iff)
  then show ?thesis using assms(1,3) by (simp add: kstate)
qed

lemma no_lockish_locking: "filter lockish ks = [] \<Longrightarrow> locking ks = {} \<and> top_locked ks = None"
  by (cases ks rule: top_locked.cases) (auto simp: locking_def filter_empty_conv)

lemma not_waiting:
  assumes s: "kpre s" and f: "locking (frames s t) = {}" and x: "thr s t = Some x"
  shows "waitlock x = NULL"
  using s x f don_okD(2) [of "thread_mlfqs s" "wl_of s" "dn_of s" "lock_holder s" "frames s" t "waitlock x"]
  by (auto simp: kstate)

lemma don_ok_add:
  assumes d: "don_ok False wl dn hl fr" and h: "hl l = Some h" and l: "l \<noteq> NULL" "l \<in> locking (fr c)"
    and c: "wl c = Some NULL" and ds: "dn h = Some ds"
  shows "don_ok False (wl(c \<mapsto> l)) (dn(h \<mapsto> insert_ord lt c ds)) hl fr"
proof (rule don_okI)
  have nc: "c \<notin> set ds'" if "dn h' = Some ds'" for h' ds'
    using don_okD(4) [OF d that, of c] c by auto
  show "hl l' \<noteq> None \<and> l' \<in> locking (fr t)" if "(wl(c \<mapsto> l)) t = Some l'" "l' \<noteq> NULL" for t l'
    using that don_okD(2) [OF d, of t l'] h l by (auto split: if_splits)
  show "distinct ds'" if "(dn(h \<mapsto> insert_ord lt c ds)) h' = Some ds'" for h' ds'
    using that nc [OF ds] don_okD(3) [OF d] ds by (auto split: if_splits)
  show "\<exists>l'. (wl(c \<mapsto> l)) t = Some l' \<and> l' \<noteq> NULL \<and> hl l' = Some h'"
    if "(dn(h \<mapsto> insert_ord lt c ds)) h' = Some ds'" "t \<in> set ds'" for h' ds' t
  proof (cases "t = c")
    case True
    with that nc have "h' = h" by (auto split: if_splits)
    with True h l show ?thesis by simp
  next
    case False
    with that ds have "\<exists>ds''. dn h' = Some ds'' \<and> t \<in> set ds''" by (auto split: if_splits)
    with don_okD(4) [OF d] False show ?thesis by (auto simp: fun_upd_def)
  qed
qed auto

text \<open>
  \<open>lock_acquire\<close> with a stack \<open>ks\<close> that is only well formed once the frame of the lock is on it.
\<close>

lemma lock_acquire_gen:
  assumes s: "kpre s" and l: "l \<noteq> NULL" "lock_holder s l = Some h" "h \<noteq> cur s"
    and e: "\<not> in_external_intr s" and f: "filter lockish (frames s (cur s)) = []" "top_locked ks = None"
    and i: "cur s \<noteq> idle_thread s"
    and fo: "frames_ok (st_of s) ((frames s)(cur s := LockAcquired l (intr_on s) # ks)) (wt_of s)
      (lock_holder s) (conds s) (idle_thread s) (tid_lock s)"
  shows "\<exists>s'. lock_acquire l (s\<lparr>frames := (frames s)(cur s := ks)\<rparr>) = Some s' \<and> kinv s'"
proof -
  let ?s0 = "s\<lparr>frames := (frames s)(cur s := ks)\<rparr>"
  let ?fr = "(frames s)(cur s := LockAcquired l (intr_on s) # ks)"
  let ?s1 = "s\<lparr>intr_on := False, frames := ?fr\<rparr>"
  note nl = no_lockish_locking [OF f(1)]
  obtain x where x: "thr s (cur s) = Some x" "status x = THREAD_RUNNING" "cur s \<noteq> NULL"
    "\<And>r. thr r = thr s \<Longrightarrow> cur r = cur s \<Longrightarrow> thread_current r = Some x"
    using thread_current_pre [OF s] by (auto simp: thread_current_def)
  have wx: "waitlock x = NULL" using not_waiting [OF s _ x(1)] nl by simp
  have d: "don_ok (thread_mlfqs s) (wl_of s) (dn_of s) (lock_holder s) (frames s)" using s by (simp add: kstate)
  have d1: "don_ok (thread_mlfqs s) (wl_of s) (dn_of s) (lock_holder s) ?fr"
  proof (rule don_okI)
    show "lock_holder s l' \<noteq> None \<and> l' \<in> locking (?fr t)" if "wl_of s t = Some l'" "l' \<noteq> NULL" for t l'
    proof -
      have "t \<noteq> cur s" using that x wx by auto
      then show ?thesis using don_okD(2) [OF d that] by simp
    qed
  qed (use don_okD(1,3,4) [OF d] in blast)+
  have sc: "sched_ok (st_of s) ?fr (ready_list s) (sleep_list s) (all_list s) (wt_of s) (idle_thread s)"
    by (rule sched_ok_frames) (use s x in \<open>auto simp: kstate\<close>)
  have k1: "kpre ?s1" using s sc fo d1 by (simp add: kstate run_pre_def)
  have semas: "semas s (LockSema l) \<noteq> None"
    using s l locks_okD(3) [of "st_of s" "lock_holder s" "vl_of s" "tid_lock s" l] by (auto simp: kstate)
  have down: "\<exists>s'. sema_down (LockSema l) s2 = Some s' \<and> kinv s'"
    if "kpre s2" "frames s2 = ?fr" "cur s2 = cur s" "semas s2 = semas s" "idle_thread s2 = idle_thread s"
       "\<not> in_external_intr s2" "\<not> intr_on s2" for s2
    by (rule sema_down_ok [OF that(1)]) (use that semas i in \<open>simp_all add: lock_wait_def\<close>)
  show ?thesis
  proof (cases "\<not> thread_mlfqs s \<and> h \<noteq> NULL")
    case False
    have "\<exists>s'. sema_down (LockSema l) ?s1 = Some s' \<and> kinv s'"
      by (rule down) (use k1 e in simp_all)
    moreover have "lock_acquire l ?s0 = sema_down (LockSema l) ?s1"
      using l e x False
      by (auto simp: lock_acquire_def lock_held_by_current_thread_def Let_def intr_disable_def push_frame_def)
    ultimately show ?thesis by simp
  next
    case True
    obtain y where y: "thr s h = Some y" using lock_holder_alive [OF s l(2)] True by auto
    let ?ins = "insert_ord (compare_priority (?s0\<lparr>intr_on := False, thr := (thr s)(cur s \<mapsto> x\<lparr>waitlock := l\<rparr>)\<rparr>)) (cur s)"
    let ?f = "(thr s)(cur s \<mapsto> x\<lparr>waitlock := l\<rparr>, h \<mapsto> y\<lparr>list_of_donation := ?ins (list_of_donation y)\<rparr>)"
    have "don_ok False ((wl_of s)(cur s \<mapsto> l)) ((dn_of s)(h \<mapsto> ?ins (list_of_donation y))) (lock_holder s) ?fr"
      by (rule don_ok_add) (use d1 True x wx y l in simp_all)
    moreover have "(\<lambda>t. map_option waitlock (?f t)) = (wl_of s)(cur s \<mapsto> l)"
      using y l(3) by (auto simp: fun_eq_iff)
    moreover have "(\<lambda>t. map_option list_of_donation (?f t)) = (dn_of s)(h \<mapsto> ?ins (list_of_donation y))"
      using x l(3) by (auto simp: fun_eq_iff)
    ultimately have "kpre (?s1\<lparr>thr := ?f\<rparr>)"
      using True by (intro kpre_don [OF k1]) (use x y l(3) in auto)
    then have "\<exists>s'. sema_down (LockSema l) (?s1\<lparr>thr := ?f\<rparr>) = Some s' \<and> kinv s'"
      by (intro down) (use e in simp_all)
    moreover have "push_frame (LockAcquired l (intr_on s)) (?s0\<lparr>intr_on := False, thr := ?f\<rparr>) = ?s1\<lparr>thr := ?f\<rparr>"
      by (rule kernel.equality) (simp_all add: push_frame_def)
    then have "lock_acquire l ?s0 = sema_down (LockSema l) (?s1\<lparr>thr := ?f\<rparr>)"
      using l e x y True
      by (simp add: lock_acquire_def lock_held_by_current_thread_def Let_def intr_disable_def upd_thread_def)
    ultimately show ?thesis by simp
  qed
qed

lemma lock_acquire_ok:
  assumes s: "kpre s" and l: "l \<noteq> NULL" "lock_holder s l = Some h" "h \<noteq> cur s"
    and e: "\<not> in_external_intr s" and f: "filter lockish (frames s (cur s)) = []" and i: "cur s \<noteq> idle_thread s"
  shows "\<exists>s'. lock_acquire l s = Some s' \<and> kinv s'"
proof -
  note nl = no_lockish_locking [OF f]
  have "stack_ok (wt_of s) (lock_holder s) (conds s) (idle_thread s) (tid_lock s) (cur s) (frames s (cur s))"
    using s by (simp add: kstate frames_ok_def)
  then have sh: "shape (LockAcquired l (intr_on s) # frames s (cur s))"
    using f nl by (auto simp: shape_def stack_ok_def)
  have "kpre (push_frame (LockAcquired l (intr_on s)) s)"
    by (rule kpre_push) (use s l sh i in auto)
  then have "frames_ok (st_of s) ((frames s)(cur s := LockAcquired l (intr_on s) # frames s (cur s))) (wt_of s)
      (lock_holder s) (conds s) (idle_thread s) (tid_lock s)" by (simp add: kstate)
  from lock_acquire_gen [OF s l e f _ i this] nl show ?thesis by simp
qed

text \<open>Taking a lock over.\<close>

lemma frames_ok_take:
  assumes f: "frames_ok st fr wt hl cd idl tdl" and c: "fr c = LockAcquired l b # ks"
    and h: "hl l = Some NULL" and n: "st NULL = None"
  shows "frames_ok st (fr(c := ks)) wt (hl(l \<mapsto> c)) cd idl tdl" and "c \<noteq> idl"
proof -
  have sk: "stack_ok wt hl cd idl tdl t (fr t)" and dom: "fr t \<noteq> [] \<Longrightarrow> st t \<noteq> None" for t
    using f by (auto simp: frames_ok_def)
  have cr: "creators_ok st fr" and id: "idle_stack (fr idl)" using f by (simp_all add: frames_ok_def)
  show ci: "c \<noteq> idl" using id c by (auto simp: idle_stack_def split: if_splits)
  have sh: "shape (LockAcquired l b # ks)" using sk [of c] c by (simp add: stack_ok_def)
  then have nl: "filter lockish ks = []" and shk: "shape ks" by (auto simp: shape_def)
  have ok: "frame_ok wt (hl(l \<mapsto> c)) cd idl tdl t ((fr(c := ks)) t) k" if k: "k \<in> set ((fr(c := ks)) t)" for t k
  proof (cases "t = c")
    case True
    with k have kk: "k \<in> set ks" by simp
    have old: "frame_ok wt hl cd idl tdl c (LockAcquired l b # ks) k"
      using sk [of c] c kk by (simp add: stack_ok_def)
    have "\<not> lockish k" using nl kk by (auto simp: filter_empty_conv)
    moreover have "locking ks = {}" using no_lockish_locking [OF nl] by simp
    moreover have "c \<noteq> NULL" using dom [of c] c n by auto
    ultimately show ?thesis using old True h by (cases k) auto
  next
    case False
    with k have kk: "k \<in> set (fr t)" by simp
    then have old: "frame_ok wt hl cd idl tdl t (fr t) k" using sk [of t] by (auto simp: stack_ok_def)
    have "fr t \<noteq> []" using kk by auto
    then have "t \<noteq> NULL" using dom [of t] n by metis
    with old False h show ?thesis by (cases k) auto
  qed
  have sk': "stack_ok wt (hl(l \<mapsto> c)) cd idl tdl t ((fr(c := ks)) t)" for t
    using ok [of _ t] sk [of t] shk by (auto simp: stack_ok_def)
  have sub: "creating ((fr(c := ks)) u) \<subseteq> creating (fr u)" for u using c by (simp add: subset_iff)
  have "creators_ok st (fr(c := ks))"
    unfolding creators_ok_def
  proof (intro conjI allI impI)
    fix u v w
    { assume "v \<in> creating ((fr(c := ks)) u)"
      with sub have "v \<in> creating (fr u)" by blast
      with cr have v: "st v = Some THREAD_BLOCKED" "fr v = [KernelThread]" by (auto simp: creators_ok_def)
      with c have "v \<noteq> c" by auto
      with v show "st v = Some THREAD_BLOCKED" "(fr(c := ks)) v = [KernelThread]" by simp_all }
    { assume "w \<in> creating ((fr(c := ks)) u)" "w \<in> creating ((fr(c := ks)) v)"
      with sub have "w \<in> creating (fr u)" "w \<in> creating (fr v)" by blast+
      with cr show "u = v" by (auto simp: creators_ok_def) }
  qed
  then show "frames_ok st (fr(c := ks)) wt (hl(l \<mapsto> c)) cd idl tdl"
    using sk' dom c id ci by (auto simp: frames_ok_def)
qed

lemma lock_acquired_ok:
  assumes s: "kinv s" and f: "frames s (cur s) = LockAcquired l b # ks"
  shows "\<exists>s'. lock_acquired l b (pop_frame s) = Some s' \<and> kinv s'"
proof -
  have k: "kpre s" and h: "lock_holder s l = Some NULL" "vl_of s (LockSema l) = Some 0" "\<not> in_external_intr s"
    using s f by (auto simp: kinv_def lock_top_def)
  obtain x where x: "thr s (cur s) = Some x" "status x = THREAD_RUNNING" "cur s \<noteq> NULL" "thread_current s = Some x"
    using thread_current_pre [OF k] by auto
  have n: "st_of s NULL = None" using k by (auto simp: kstate sched_ok_def)
  let ?fr = "(frames s)(cur s := ks)"
  have fo: "frames_ok (st_of s) (frames s) (wt_of s) (lock_holder s) (conds s) (idle_thread s) (tid_lock s)"
    using k by (simp add: kstate)
  note fr = frames_ok_take [OF fo f h(1) n]
  have sh: "shape (LockAcquired l b # ks)" using kpre_lock_frames [OF k, of "cur s"] f by simp
  then have nl: "locking ks = {}" "top_locked ks = None" using no_lockish_locking [of ks] by (simp_all add: shape_def)
  have sc: "sched_ok (st_of s) ?fr (ready_list s) (sleep_list s) (all_list s) (wt_of s) (idle_thread s)"
    by (rule sched_ok_frames) (use k x in \<open>auto simp: kstate\<close>)
  have lk: "locks_ok (st_of s) ((lock_holder s)(l \<mapsto> cur s)) (vl_of s) (tid_lock s)"
  proof -
    have lo: "locks_ok (st_of s) (lock_holder s) (vl_of s) (tid_lock s)" using k by (simp add: kstate)
    have "dom ((lock_holder s)(l \<mapsto> cur s)) = dom (lock_holder s)" using h by auto
    then show ?thesis using lo h x by (auto simp: locks_ok_def alive_def)
  qed
  have dk: "don_ok (thread_mlfqs s) ((wl_of s)(cur s \<mapsto> NULL)) (dn_of s) ((lock_holder s)(l \<mapsto> cur s)) ?fr"
  proof (rule don_okI)
    have d: "don_ok (thread_mlfqs s) (wl_of s) (dn_of s) (lock_holder s) (frames s)" using k by (simp add: kstate)
    show "l' = NULL" if "thread_mlfqs s" "((wl_of s)(cur s \<mapsto> NULL)) t = Some l'" for t l'
      using that don_okD(1) [OF d, of t l'] by (auto split: if_splits)
    show "((lock_holder s)(l \<mapsto> cur s)) l' \<noteq> None \<and> l' \<in> locking (?fr t)"
      if "((wl_of s)(cur s \<mapsto> NULL)) t = Some l'" "l' \<noteq> NULL" for t l'
    proof -
      from that have "t \<noteq> cur s" "wl_of s t = Some l'" by (auto split: if_splits)
      with don_okD(2) [OF d this(2) that(2)] show ?thesis by simp
    qed
    show "distinct ds" if "dn_of s h' = Some ds" for h' ds using don_okD(3) [OF d that] .
    show "\<exists>l'. ((wl_of s)(cur s \<mapsto> NULL)) t = Some l' \<and> l' \<noteq> NULL \<and> ((lock_holder s)(l \<mapsto> cur s)) l' = Some h'"
      if t: "dn_of s h' = Some ds" "t \<in> set ds" for h' ds t
    proof -
      from don_okD(4) [OF d t] obtain l' where l': "wl_of s t = Some l'" "l' \<noteq> NULL" "lock_holder s l' = Some h'" by blast
      have "h' \<noteq> NULL" using t n by auto
      with l' h have "l' \<noteq> l" by auto
      moreover have "t \<noteq> cur s"
      proof
        assume "t = cur s"
        with don_okD(2) [OF d l'(1,2)] f nl have "l' = l" by simp
        with \<open>l' \<noteq> l\<close> show False by simp
      qed
      ultimately show ?thesis using l' by auto
    qed
  qed
  let ?s1 = "s\<lparr>frames := ?fr, thr := (thr s)(cur s \<mapsto> x\<lparr>waitlock := NULL\<rparr>),
     lock_holder := (lock_holder s)(l \<mapsto> cur s)\<rparr>"
  have same: "(st_of s)(cur s \<mapsto> status x) = st_of s" "(dn_of s)(cur s \<mapsto> list_of_donation x) = dn_of s"
    using x by (auto simp: fun_eq_iff)
  have k1: "kpre ?s1"
    using k fr sc lk dk by (simp add: kstate same run_pre_def)
  have "\<exists>s'. intr_set_level b ?s1 = Some s' \<and> kinv s'"
    by (rule intr_set_level_ok [OF k1]) (use h nl in simp_all)
  moreover have "lock_acquired l b (pop_frame s) = intr_set_level b ?s1"
    using x h f by (simp add: lock_acquired_def pop_frame_def thread_current_def upd_thread_def)
  ultimately show ?thesis by simp
qed

end
