(* ===== verification/Kernel_Calls.thy ===== *)
theory Kernel_Calls
  imports Kernel_Preserve
begin

text \<open>
  Preservation of the invariant, continued: releasing a lock, condition variables, creating and
  ending threads, the idle thread, sleeping and the timer interrupt.
\<close>

section \<open>Releasing a lock\<close>

lemma frames_ok_release:
  assumes f: "frames_ok st fr wt hl cd idl tdl" and h: "hl l = Some c" and n: "st NULL = None"
    and k: "stack_ok wt (hl(l \<mapsto> NULL)) cd idl tdl c ks" and sub: "creating ks \<subseteq> creating (fr c)"
    and c: "st c = Some THREAD_RUNNING" and i: "c = idl \<Longrightarrow> idle_stack ks"
  shows "frames_ok st (fr(c := ks)) wt (hl(l \<mapsto> NULL)) cd idl tdl"
proof -
  have sk: "stack_ok wt hl cd idl tdl t (fr t)" and dom: "fr t \<noteq> [] \<Longrightarrow> st t \<noteq> None" for t
    using f by (auto simp: frames_ok_def)
  have ok: "stack_ok wt (hl(l \<mapsto> NULL)) cd idl tdl t (fr t)" if t: "t \<noteq> c" for t
    unfolding stack_ok_def
  proof (intro conjI ballI)
    show "shape (fr t)" using sk [of t] by (simp add: stack_ok_def)
    fix k assume kk: "k \<in> set (fr t)"
    then have old: "frame_ok wt hl cd idl tdl t (fr t) k" using sk [of t] by (auto simp: stack_ok_def)
    have "fr t \<noteq> []" using kk by auto
    then have "t \<noteq> NULL" using dom [of t] n by metis
    with old h t show "frame_ok wt (hl(l \<mapsto> NULL)) cd idl tdl t (fr t) k" by (cases k) auto
  qed
  have "frames_ok st (fr(c := ks)) wt hl' cd idl tdl"
    if "\<And>t. stack_ok wt hl' cd idl tdl t ((fr(c := ks)) t)" for hl'
  proof -
    have "creators_ok st fr" using f by (simp add: frames_ok_def)
    then have "creators_ok st (fr(c := ks))"
      unfolding creators_ok_def
    proof (intro conjI allI impI, goal_cases)
      case (1 t u)
      have "u \<in> creating (fr t)" using 1(2) sub by (auto split: if_splits)
      with 1(1) show ?case by blast
    next
      case (2 t u)
      have "u \<in> creating (fr t)" using 2(2) sub by (auto split: if_splits)
      with 2(1) have "st u = Some THREAD_BLOCKED" "fr u = [KernelThread]" by blast+
      with c show ?case by auto
    next
      case (3 t t' u)
      have "u \<in> creating (fr t)" "u \<in> creating (fr t')" using 3(2,3) sub by (auto split: if_splits)
      with 3(1) show ?case by blast
    qed
    then show ?thesis using that dom c i f by (auto simp: frames_ok_def)
  qed
  from this [of "hl(l \<mapsto> NULL)"] ok k show ?thesis by simp
qed

text \<open>
  \<open>lock_release\<close> in a state whose stack already holds what comes after it, which the caller
  only has to guarantee for the released lock.
\<close>

lemma lock_release_ok:
  assumes s: "kpre s" and l: "l \<noteq> NULL" "lock_holder s l = Some (cur s)" and e: "\<not> in_external_intr s"
    and i: "cur s \<noteq> idle_thread s" and nw: "locking (frames s (cur s)) = {}"
    and k: "stack_ok (wt_of s) ((lock_holder s)(l \<mapsto> NULL)) (conds s) (idle_thread s) (tid_lock s) (cur s) ks"
    and sub: "creating ks \<subseteq> creating (frames s (cur s))" and tl: "top_locked ks = None"
  shows "\<exists>s'. lock_release l (s\<lparr>frames := (frames s)(cur s := ks)\<rparr>) = Some s' \<and> kinv s'"
proof -
  let ?s0 = "s\<lparr>frames := (frames s)(cur s := ks)\<rparr>"
  let ?s1 = "?s0\<lparr>intr_on := False, lock_holder := (lock_holder s)(l \<mapsto> NULL)\<rparr>"
  obtain x where x: "thr s (cur s) = Some x" "status x = THREAD_RUNNING" "cur s \<noteq> NULL" "thread_current s = Some x"
    using thread_current_pre [OF s] by auto
  have n: "st_of s NULL = None" using s by (auto simp: kstate sched_ok_def)
  have wx: "waitlock x = NULL" using not_waiting [OF s nw x(1)] .
  have lo: "locks_ok (st_of s) (lock_holder s) (vl_of s) (tid_lock s)"
    and d: "don_ok (thread_mlfqs s) (wl_of s) (dn_of s) (lock_holder s) (frames s)"
    and fo: "frames_ok (st_of s) (frames s) (wt_of s) (lock_holder s) (conds s) (idle_thread s) (tid_lock s)"
    using s by (simp_all add: kstate)
  have fr: "frames_ok (st_of s) ((frames s)(cur s := ks)) (wt_of s) ((lock_holder s)(l \<mapsto> NULL)) (conds s)
      (idle_thread s) (tid_lock s)"
    by (rule frames_ok_release [OF fo l(2) n k sub]) (use x i in auto)
  have sc: "sched_ok (st_of s) ((frames s)(cur s := ks)) (ready_list s) (sleep_list s) (all_list s) (wt_of s) (idle_thread s)"
    by (rule sched_ok_frames) (use s x in \<open>auto simp: kstate\<close>)
  have lk: "locks_ok (st_of s) ((lock_holder s)(l \<mapsto> NULL)) (vl_of s) (tid_lock s)"
  proof -
    have "dom ((lock_holder s)(l \<mapsto> NULL)) = dom (lock_holder s)" using l by auto
    then show ?thesis using lo by (auto simp: locks_ok_def)
  qed
  obtain m where m: "semas s (LockSema l) = Some m" "sm_value m = 0"
    using locks_okD(1) [OF lo l(2) x(3)] by auto
  let ?ds = "filter (\<lambda>t. waits_for ?s1 t \<noteq> l) (list_of_donation x)"
  have wf: "waits_for ?s1 t = waits_for s t" for t by (simp add: waits_for_def)
  have wls: "l' \<in> locking (((frames s)(cur s := ks)) t)" if "wl_of s t = Some l'" "l' \<noteq> NULL" for t l'
  proof -
    have "t \<noteq> cur s" using that x wx by auto
    then show ?thesis using don_okD(2) [OF d that] by simp
  qed
  have up: "\<exists>s'. sema_up (LockSema l) (push_frame (SetLevel (intr_on s)) s2) = Some s' \<and> kinv s'"
    if "kpre s2" "frames s2 = (frames s)(cur s := ks)" "cur s2 = cur s" "semas s2 = semas s"
      "lock_holder s2 = (lock_holder s)(l \<mapsto> NULL)" "\<not> in_external_intr s2" for s2
    by (rule sema_up_ok [of _ _ m]) (use that m tl in \<open>auto intro: kpre_push_SetLevel\<close>)
  have lhb: "lock_held_by_current_thread l ?s0 = Some True"
    using l x by (simp add: lock_held_by_current_thread_def thread_current_def)
  show ?thesis
  proof (cases "thread_mlfqs s")
    case True
    have dk: "don_ok True (wl_of s) (dn_of s) ((lock_holder s)(l \<mapsto> NULL)) ((frames s)(cur s := ks))"
      by (rule don_okI) (use True don_okD [OF d] in \<open>auto, blast+\<close>)
    have k1: "kpre ?s1" using s fr sc lk dk True tl by (simp add: kstate run_pre_def)
    show ?thesis using up [OF k1] True l lhb e by (simp add: lock_release_def Let_def intr_disable_def)
  next
    case False
    have dk: "don_ok False (wl_of s) ((dn_of s)(cur s \<mapsto> ?ds)) ((lock_holder s)(l \<mapsto> NULL)) ((frames s)(cur s := ks))"
    proof (rule don_okI)
      show "((lock_holder s)(l \<mapsto> NULL)) l' \<noteq> None \<and> l' \<in> locking (((frames s)(cur s := ks)) t)"
        if "wl_of s t = Some l'" "l' \<noteq> NULL" for t l'
        using don_okD(2) [OF d that] wls [OF that] by auto
      show "distinct ds" if "((dn_of s)(cur s \<mapsto> ?ds)) h = Some ds" for h ds
        using that don_okD(3) [OF d, of h] don_okD(3) [OF d, of "cur s" "list_of_donation x"] x
        by (auto split: if_splits)
      show "\<exists>l'. wl_of s t = Some l' \<and> l' \<noteq> NULL \<and> ((lock_holder s)(l \<mapsto> NULL)) l' = Some h"
        if hd: "((dn_of s)(cur s \<mapsto> ?ds)) h = Some ds" and t: "t \<in> set ds" for h ds t
      proof -
        have "\<exists>ds'. dn_of s h = Some ds' \<and> t \<in> set ds'" using hd t x by (auto split: if_splits)
        then obtain l' where l': "wl_of s t = Some l'" "l' \<noteq> NULL" "lock_holder s l' = Some h"
          using don_okD(4) [OF d] by blast
        have "l' \<noteq> l"
        proof
          assume "l' = l"
          with l' l have "h = cur s" by simp
          with hd t l' \<open>l' = l\<close> show False by (auto simp: wf waits_for_def)
        qed
        with l' show ?thesis by auto
      qed
    qed auto
    let ?s2 = "?s1\<lparr>thr := (thr s)(cur s \<mapsto> x\<lparr>list_of_donation := ?ds\<rparr>)\<rparr>"
    have same: "(st_of s)(cur s \<mapsto> status x) = st_of s" "(wl_of s)(cur s \<mapsto> waitlock x) = wl_of s"
      using x by (auto simp: fun_eq_iff)
    have k2: "kpre ?s2" using s fr sc lk dk False tl by (simp add: kstate run_pre_def same)
    obtain s3 where s3: "priority_check_from_donation_list ?s2 = Some s3" "same_views ?s2 s3"
      using priority_check_ok [OF k2] by auto
    have k3: "kpre s3" using same_views_kpre [OF s3(2)] k2 by simp
    have "\<exists>s'. sema_up (LockSema l) (push_frame (SetLevel (intr_on s)) s3) = Some s' \<and> kinv s'"
      by (rule up [OF k3]) (use same_views_fields [OF s3(2)] e in simp_all)
    moreover have "remove_donation_list_waiting_lock l ?s1 = Some ?s2"
      using x by (simp add: remove_donation_list_waiting_lock_def thread_current_def upd_thread_def)
    ultimately show ?thesis using False l lhb s3 by (simp add: lock_release_def Let_def intr_disable_def)
  qed
qed

text \<open>\<open>lock_try_acquire\<close> takes a free lock over at once.\<close>

lemma frames_ok_hold:
  assumes f: "frames_ok st fr wt hl cd idl tdl" and c: "filter lockish (fr c) = []"
    and h: "hl l = Some NULL" and n: "st NULL = None" "c \<noteq> NULL"
  shows "frames_ok st fr wt (hl(l \<mapsto> c)) cd idl tdl"
proof -
  have sk: "stack_ok wt hl cd idl tdl t (fr t)" and dom: "fr t \<noteq> [] \<Longrightarrow> st t \<noteq> None" for t
    using f by (auto simp: frames_ok_def)
  have "stack_ok wt (hl(l \<mapsto> c)) cd idl tdl t (fr t)" for t
    unfolding stack_ok_def
  proof (intro conjI ballI)
    show "shape (fr t)" using sk [of t] by (simp add: stack_ok_def)
    fix k assume kk: "k \<in> set (fr t)"
    then have old: "frame_ok wt hl cd idl tdl t (fr t) k" using sk [of t] by (auto simp: stack_ok_def)
    have "fr t \<noteq> []" using kk by auto
    then have "t \<noteq> NULL" using dom [of t] n by metis
    moreover have "t = c \<Longrightarrow> \<not> lockish k" using c kk by (auto simp: filter_empty_conv)
    ultimately show "frame_ok wt (hl(l \<mapsto> c)) cd idl tdl t (fr t) k" using old h by (cases k) auto
  qed
  then show ?thesis using f by (simp add: frames_ok_def)
qed

lemma lock_try_acquire_ok:
  assumes s: "kpre s" and l: "l \<noteq> NULL" "lock_holder s l = Some h" "h \<noteq> cur s"
    and e: "\<not> in_external_intr s" and f: "filter lockish (frames s (cur s)) = []"
  shows "\<exists>b s'. lock_try_acquire l s = Some (b, s') \<and> kinv s'"
proof -
  obtain x where x: "thr s (cur s) = Some x" "status x = THREAD_RUNNING" "cur s \<noteq> NULL"
    "\<And>r. thr r = thr s \<Longrightarrow> cur r = cur s \<Longrightarrow> thread_current r = Some x"
    using thread_current_pre [OF s] by (auto simp: thread_current_def)
  note nl = no_lockish_locking [OF f]
  have lo: "locks_ok (st_of s) (lock_holder s) (vl_of s) (tid_lock s)"
    and d: "don_ok (thread_mlfqs s) (wl_of s) (dn_of s) (lock_holder s) (frames s)"
    and fo: "frames_ok (st_of s) (frames s) (wt_of s) (lock_holder s) (conds s) (idle_thread s) (tid_lock s)"
    and n: "st_of s NULL = None"
    using s by (simp_all add: kstate sched_ok_def)
  have wx: "waitlock x = NULL" using not_waiting [OF s _ x(1)] nl by simp
  obtain m where m: "semas s (LockSema l) = Some m" using locks_okD(3) [OF lo, of l] l by auto
  have set_ok: "\<exists>s'. intr_set_level (intr_on s) s2 = Some s' \<and> kinv s'"
    if "kpre s2" "frames s2 = frames s" "cur s2 = cur s" "\<not> in_external_intr s2" for s2
    by (rule intr_set_level_ok [OF that(1)]) (use that nl in simp_all)
  have lhb: "lock_held_by_current_thread l s = Some False"
    using l x by (simp add: lock_held_by_current_thread_def)
  show ?thesis
  proof (cases "sm_value m = 0")
    case True
    have "sema_try_down (LockSema l) (s\<lparr>intr_on := False\<rparr>) = Some (False, s\<lparr>intr_on := False\<rparr>)"
      using m True by (simp add: sema_try_down_def intr_disable_def intr_set_level_def Let_def)
    moreover have "\<exists>s'. intr_set_level (intr_on s) (s\<lparr>intr_on := False\<rparr>) = Some s' \<and> kinv s'"
      by (rule set_ok) (use s e in simp_all)
    ultimately show ?thesis using l lhb
      by (auto simp: lock_try_acquire_def intr_disable_def Let_def)
  next
    case False
    then have v: "sm_value m = 1" using locks_okD(2) [OF lo, of l "sm_value m"] m by simp
    have hn: "lock_holder s l = Some NULL" using locks_okD(1) [OF lo l(2)] m l v by auto
    let ?sm = "(semas s)(LockSema l \<mapsto> m\<lparr>sm_value := 0\<rparr>)"
    let ?s1 = "s\<lparr>intr_on := False, semas := ?sm\<rparr>"
    let ?s2 = "?s1\<lparr>thr := (thr s)(cur s \<mapsto> x\<lparr>waitlock := NULL\<rparr>), lock_holder := (lock_holder s)(l \<mapsto> cur s)\<rparr>"
    have st: "(st_of s)(cur s \<mapsto> status x) = st_of s" "(dn_of s)(cur s \<mapsto> list_of_donation x) = dn_of s"
      "(wl_of s)(cur s \<mapsto> NULL) = wl_of s" using x wx by (auto simp: fun_eq_iff)
    have wts: "(wt_of s)(LockSema l \<mapsto> waiters m) = wt_of s" using m by (auto simp: fun_eq_iff)
    have fr: "frames_ok (st_of s) (frames s) (wt_of s) ((lock_holder s)(l \<mapsto> cur s)) (conds s) (idle_thread s) (tid_lock s)"
      using frames_ok_hold [OF fo f hn n x(3)] .
    have lk: "locks_ok (st_of s) ((lock_holder s)(l \<mapsto> cur s)) ((vl_of s)(LockSema l \<mapsto> 0)) (tid_lock s)"
    proof -
      have "dom ((lock_holder s)(l \<mapsto> cur s)) = dom (lock_holder s)"
        "dom ((vl_of s)(LockSema l \<mapsto> 0)) = dom (vl_of s)" using l m by auto
      then show ?thesis using lo x by (auto simp: locks_ok_def alive_def)
    qed
    have dk: "don_ok (thread_mlfqs s) (wl_of s) (dn_of s) ((lock_holder s)(l \<mapsto> cur s)) (frames s)"
    proof (rule don_okI)
      show "((lock_holder s)(l \<mapsto> cur s)) l' \<noteq> None \<and> l' \<in> locking (frames s t)"
        if "wl_of s t = Some l'" "l' \<noteq> NULL" for t l' using don_okD(2) [OF d that] by simp
      show "\<exists>l'. wl_of s t = Some l' \<and> l' \<noteq> NULL \<and> ((lock_holder s)(l \<mapsto> cur s)) l' = Some h'"
        if t: "dn_of s h' = Some ds" "t \<in> set ds" for h' ds t
      proof -
        from don_okD(4) [OF d t] obtain l' where l': "wl_of s t = Some l'" "l' \<noteq> NULL" "lock_holder s l' = Some h'" by blast
        have "h' \<noteq> NULL" using t n by auto
        with l' hn have "l' \<noteq> l" by auto
        with l' show ?thesis by auto
      qed
    qed (use don_okD(1,3) [OF d] in blast)+
    have k2: "kpre ?s2" using s fr lk dk by (simp add: kstate st wts)
    have "\<exists>s'. intr_set_level (intr_on s) ?s2 = Some s' \<and> kinv s'"
      by (rule set_ok [OF k2]) (use e in simp_all)
    moreover have "sema_try_down (LockSema l) (s\<lparr>intr_on := False\<rparr>) = Some (True, ?s1)"
      using m v by (simp add: sema_try_down_def intr_disable_def intr_set_level_def upd_sema_def Let_def)
    ultimately show ?thesis using l lhb x
      by (auto simp: lock_try_acquire_def intr_disable_def upd_thread_def Let_def)
  qed
qed

section \<open>Initialization\<close>

lemma kpre_new_sema:
  assumes s: "kpre s" and w: "waiting (st_of s) (frames s) y = {}" and y: "\<And>l. y \<noteq> LockSema l"
  shows "kpre (sema_init y v s)"
proof -
  have "frames_ok (st_of s) (frames s) ((wt_of s)(y \<mapsto> [])) (lock_holder s) (conds s) (idle_thread s) (tid_lock s)"
    by (rule frames_ok_wt [of _ _ "wt_of s"]) (use s in \<open>auto simp: kstate\<close>)
  moreover have "cond_ok (conds s) ((wt_of s)(y \<mapsto> []))"
    by (rule cond_ok_wt [of _ "wt_of s"]) (use s in \<open>auto simp: kstate\<close>)
  moreover have "sched_ok (st_of s) (frames s) (ready_list s) (sleep_list s) (all_list s) ((wt_of s)(y \<mapsto> [])) (idle_thread s)"
    using s w unfolding kstate sched_ok_def by (simp add: fun_upd_apply)
  moreover have "locks_ok (st_of s) (lock_holder s) ((vl_of s)(y \<mapsto> v)) (tid_lock s)"
    using s y by (intro locks_ok_value_other) (auto simp: kstate)
  ultimately show ?thesis using s by (simp add: kstate sema_init_def)
qed

lemma stack_frame_ok:
  assumes "kpre s" and "k \<in> set (frames s t)"
  shows "frame_ok (wt_of s) (lock_holder s) (conds s) (idle_thread s) (tid_lock s) t (frames s t) k"
  using assms unfolding kstate frames_ok_def stack_ok_def by blast

lemma top_sema_mem: "top_sema ks = Some y \<Longrightarrow> \<exists>b. SemaDownLoop y b \<in> set ks"
  by (cases ks rule: top_sema.cases) auto

lemma no_waiting_new: "kpre s \<Longrightarrow> semas s y = None \<Longrightarrow> waiting (st_of s) (frames s) y = {}"
  using top_sema_mem stack_frame_ok by (fastforce simp: waiting_def)

lemma no_waiting_own:
  assumes s: "kpre s"
  shows "waiting (st_of s) (frames s) (WaiterSema (cur s)) = {}"
proof -
  have "t = cur s" if t: "top_sema (frames s t) = Some (WaiterSema (cur s))" for t
    using stack_frame_ok [OF s] top_sema_mem [OF t] by fastforce
  moreover have "st_of s (cur s) \<noteq> Some THREAD_BLOCKED" using thread_current_pre [OF s] by auto
  ultimately show ?thesis unfolding waiting_def by blast
qed

lemma lock_init_ok:
  assumes s: "kpre s" and l: "l \<noteq> NULL" "lock_holder s l = None"
  shows "\<exists>s'. lock_init l s = Some s' \<and> kpre s' \<and> frames s' = frames s \<and> cur s' = cur s \<and>
    in_external_intr s' = in_external_intr s"
proof -
  let ?s = "s\<lparr>lock_holder := (lock_holder s)(l \<mapsto> NULL), semas := (semas s)(LockSema l \<mapsto> \<lparr>sm_value = 1, waiters = []\<rparr>)\<rparr>"
  have lo: "locks_ok (st_of s) (lock_holder s) (vl_of s) (tid_lock s)"
    and fo: "frames_ok (st_of s) (frames s) (wt_of s) (lock_holder s) (conds s) (idle_thread s) (tid_lock s)"
    and d: "don_ok (thread_mlfqs s) (wl_of s) (dn_of s) (lock_holder s) (frames s)"
    and n: "st_of s NULL = None"
    using s by (simp_all add: kstate sched_ok_def)
  have m: "semas s (LockSema l) = None" using locks_okD(3) [OF lo, of l] l by auto
  have sk: "stack_ok (wt_of s) ((lock_holder s)(l \<mapsto> NULL)) (conds s) (idle_thread s) (tid_lock s) t (frames s t)" for t
    unfolding stack_ok_def
  proof (intro conjI ballI)
    show "shape (frames s t)" using kpre_lock_frames [OF s, of t] by simp
    fix k assume kk: "k \<in> set (frames s t)"
    note old = stack_frame_ok [OF s kk]
    have "frames s t \<noteq> []" using kk by auto
    then have "t \<noteq> NULL" using fo n by (auto simp: frames_ok_def)
    with old l show "frame_ok (wt_of s) ((lock_holder s)(l \<mapsto> NULL)) (conds s) (idle_thread s) (tid_lock s) t (frames s t) k"
      by (cases k) auto
  qed
  have "frames_ok (st_of s) (frames s) (wt_of s) ((lock_holder s)(l \<mapsto> NULL)) (conds s) (idle_thread s) (tid_lock s)"
    using fo sk by (simp add: frames_ok_def)
  then have fr: "frames_ok (st_of s) (frames s) ((wt_of s)(LockSema l \<mapsto> [])) ((lock_holder s)(l \<mapsto> NULL)) (conds s)
      (idle_thread s) (tid_lock s)" by (rule frames_ok_wt) auto
  have ck: "cond_ok (conds s) ((wt_of s)(LockSema l \<mapsto> []))"
    by (rule cond_ok_wt [of _ "wt_of s"]) (use s in \<open>auto simp: kstate\<close>)
  have sc: "sched_ok (st_of s) (frames s) (ready_list s) (sleep_list s) (all_list s) ((wt_of s)(LockSema l \<mapsto> [])) (idle_thread s)"
    using s no_waiting_new [OF s m] unfolding kstate sched_ok_def by (simp add: fun_upd_apply)
  have lk: "locks_ok (st_of s) ((lock_holder s)(l \<mapsto> NULL)) ((vl_of s)(LockSema l \<mapsto> 1)) (tid_lock s)"
    using lo unfolding locks_ok_def by (auto simp: dom_def)
  have dk: "don_ok (thread_mlfqs s) (wl_of s) (dn_of s) ((lock_holder s)(l \<mapsto> NULL)) (frames s)"
  proof (rule don_okI)
    show "((lock_holder s)(l \<mapsto> NULL)) l' \<noteq> None \<and> l' \<in> locking (frames s t)"
      if "wl_of s t = Some l'" "l' \<noteq> NULL" for t l' using don_okD(2) [OF d that] by simp
    show "\<exists>l'. wl_of s t = Some l' \<and> l' \<noteq> NULL \<and> ((lock_holder s)(l \<mapsto> NULL)) l' = Some h'"
      if "dn_of s h' = Some ds" "t \<in> set ds" for h' ds t
      using don_okD(4) [OF d that] l(2) by (metis fun_upd_other option.distinct(1))
  qed (use don_okD(1,3) [OF d] in blast)+
  have "kpre ?s" using s fr ck sc lk dk by (simp add: kstate)
  then show ?thesis using l by (simp add: lock_init_def sema_init_def)
qed

section \<open>Condition variables\<close>

lemma frames_ok_cd:
  assumes "frames_ok st fr wt hl cd idl tdl" and "\<And>c. cd c \<noteq> None \<Longrightarrow> cd' c \<noteq> None"
  shows "frames_ok st fr wt hl cd' idl tdl"
proof -
  have "frame_ok wt hl cd idl tdl t ks k \<Longrightarrow> frame_ok wt hl cd' idl tdl t ks k" for t ks k
    using assms(2) by (cases k) auto
  then show ?thesis using assms(1) by (fastforce simp: frames_ok_def stack_ok_def)
qed

lemma kpre_conds:
  assumes s: "kpre s" and w: "\<And>w. w \<in> set ws \<Longrightarrow> semas s (WaiterSema w) \<noteq> None"
  shows "kpre (s\<lparr>conds := (conds s)(c \<mapsto> ws)\<rparr>)"
proof -
  have "frames_ok (st_of s) (frames s) (wt_of s) (lock_holder s) ((conds s)(c \<mapsto> ws)) (idle_thread s) (tid_lock s)"
    by (rule frames_ok_cd [of _ _ _ _ "conds s"]) (use s in \<open>auto simp: kstate\<close>)
  moreover have "cond_ok ((conds s)(c \<mapsto> ws)) (wt_of s)"
    using s w by (fastforce simp: kstate cond_ok_def)
  ultimately show ?thesis using s by (simp add: kstate)
qed

lemma cond_waiter_sema:
  "kpre s \<Longrightarrow> conds s c = Some ws \<Longrightarrow> w \<in> set ws \<Longrightarrow> semas s (WaiterSema w) \<noteq> None"
  by (fastforce simp: kstate cond_ok_def)

lemma cond_wait_ok:
  assumes s: "kpre s" and f: "frames s (cur s) = []" and c: "c \<noteq> NULL" "conds s c = Some ws"
    and l: "l \<noteq> NULL" "lock_holder s l = Some (cur s)" and e: "\<not> in_external_intr s"
  shows "\<exists>s'. cond_wait c l s = Some s' \<and> kinv s'"
proof -
  let ?y = "WaiterSema (cur s)"
  let ?s1 = "sema_init ?y 0 s"
  let ?ws = "insert_ord (compare_semaphore_priority ?s1) (cur s) ws"
  let ?s2 = "?s1\<lparr>conds := (conds s)(c \<mapsto> ?ws)\<rparr>"
  let ?ks = "[CallSemaDown ?y, CallLockAcquire l]"
  have k1: "kpre ?s1" by (rule kpre_new_sema [OF s no_waiting_own [OF s]]) simp
  have f1: "cur ?s1 = cur s" "frames ?s1 = frames s" "conds ?s1 = conds s" "lock_holder ?s1 = lock_holder s"
    "in_external_intr ?s1 = in_external_intr s" "idle_thread ?s1 = idle_thread s" "intr_on ?s1 = intr_on s"
    by (simp_all add: sema_init_def)
  have k2: "kpre ?s2"
  proof -
    have "semas ?s1 (WaiterSema w) \<noteq> None" if "w \<in> set ?ws" for w
      using that cond_waiter_sema [OF s c(2), of w] by (auto simp: sema_init_def)
    then have "kpre (?s1\<lparr>conds := (conds ?s1)(c \<mapsto> ?ws)\<rparr>)" by (rule kpre_conds [OF k1])
    then show ?thesis by (simp only: f1)
  qed
  obtain x where x: "thread_current s = Some x" "cur s \<noteq> NULL" using thread_current_pre [OF s] by auto
  have i: "cur s \<noteq> idle_thread s" using s f by (auto simp: kstate frames_ok_def idle_stack_def)
  have "\<exists>s'. lock_release l (?s2\<lparr>frames := (frames ?s2)(cur ?s2 := ?ks)\<rparr>) = Some s' \<and> kinv s'"
    by (rule lock_release_ok [OF k2])
      (use l e i f x f1 in \<open>auto simp: stack_ok_def shape_def sema_init_def\<close>)
  moreover have "cond_wait c l s = lock_release l (?s2\<lparr>frames := (frames ?s2)(cur ?s2 := ?ks)\<rparr>)"
    using c l e x f f1 by (simp add: cond_wait_def lock_held_by_current_thread_def push_frame_def Let_def)
  ultimately show ?thesis by simp
qed

text \<open>
  Signalling succeeds when the sort of the condition's waiters does: its comparison function
  is not an order, see \<open>Kernel_Safety\<close>.
\<close>

definition cond_sortable :: "kernel \<Rightarrow> addr \<Rightarrow> bool" where
  "cond_sortable s c \<longleftrightarrow> (case conds s c of None \<Rightarrow> True
     | Some ws \<Rightarrow> list_sort_run (compare_semaphore_priority s) ws \<noteq> None)"

lemma cond_signal_ok:
  assumes s: "kpre s" and c: "c \<noteq> NULL" "conds s c = Some ws" and l: "l \<noteq> NULL" "lock_holder s l = Some (cur s)"
    and e: "\<not> in_external_intr s" and t: "top_locked (frames s (cur s)) = None" and so: "cond_sortable s c"
  shows "\<exists>s'. cond_signal c l s = Some s' \<and> kinv s'"
proof -
  obtain x where x: "thread_current s = Some x" using thread_current_pre [OF s] by auto
  have held: "lock_held_by_current_thread l s = Some True"
    using l x by (simp add: lock_held_by_current_thread_def)
  show ?thesis
  proof (cases ws)
    case Nil
    then show ?thesis using c l e held s t by (simp add: cond_signal_def kinvI)
  next
    case (Cons a as)
    obtain ys where ys: "list_sort_run (compare_semaphore_priority s) ws = Some ys"
      using so c by (auto simp: cond_sortable_def)
    have ms: "mset ys = mset ws" using mset_list_sort_run [OF ys] .
    with Cons obtain w rest where yr: "ys = w # rest" by (cases ys) auto
    have "set ys = set ws" using ms by (metis set_mset_mset)
    then have mem: "set (w # rest) = set ws" using yr by simp
    obtain m where m: "semas s (WaiterSema w) = Some m"
      using cond_waiter_sema [OF s c(2), of w] mem by auto
    have "kpre (s\<lparr>conds := (conds s)(c \<mapsto> rest)\<rparr>)"
      by (rule kpre_conds [OF s]) (use cond_waiter_sema [OF s c(2)] mem in auto)
    then have "\<exists>s'. sema_up (WaiterSema w) (s\<lparr>conds := (conds s)(c \<mapsto> rest)\<rparr>) = Some s' \<and> kinv s'"
      by (rule sema_up_ok) (use m e t in auto)
    then show ?thesis using c l e held Cons ys yr by (simp add: cond_signal_def)
  qed
qed

lemma compare_priority_push: "compare_priority (push_frame k s) = compare_priority s"
  by (simp add: compare_priority_def prio_def fun_eq_iff)

lemma cond_broadcast_ok:
  assumes s: "kpre s" and c: "c \<noteq> NULL" "conds s c = Some ws" and l: "l \<noteq> NULL" "lock_holder s l = Some (cur s)"
    and e: "\<not> in_external_intr s" and t: "shape (BroadcastLoop c l # frames s (cur s))"
    and i: "cur s \<noteq> idle_thread s" and so: "cond_sortable s c"
  shows "\<exists>s'. cond_broadcast c l s = Some s' \<and> kinv s'"
proof (cases "ws = []")
  case True
  then show ?thesis using c l s e t by (simp add: cond_broadcast_def kinvI shape_def)
next
  case False
  let ?s = "push_frame (BroadcastLoop c l) s"
  have k: "kpre ?s" by (rule kpre_push [OF s]) (use c l t i in auto)
  have "compare_semaphore_priority ?s = compare_semaphore_priority s"
    by (simp add: compare_semaphore_priority_def compare_priority_push prio_def fun_eq_iff)
  then have "\<exists>s'. cond_signal c l ?s = Some s' \<and> kinv s'"
    using c l e t so by (intro cond_signal_ok [OF k]) (auto simp: cond_sortable_def)
  then show ?thesis using False c l by (simp add: cond_broadcast_def)
qed

section \<open>Sleeping\<close>

lemma timer_sleep_ok:
  assumes s: "kpre s" and f: "frames s (cur s) = []" and e: "\<not> in_external_intr s" and o: "intr_on s"
  shows "\<exists>s'. timer_sleep n s = Some s' \<and> kinv s'"
proof (cases "n \<le> 0")
  case True
  then show ?thesis using s e f o by (simp add: timer_sleep_def kinvI)
next
  case False
  let ?k = "SleepReturn True"
  let ?s0 = "push_frame ?k (intr_disable s)"
  obtain x where x: "thr s (cur s) = Some x" "status x = THREAD_RUNNING" "cur s \<noteq> NULL"
    "\<And>r. thr r = thr s \<Longrightarrow> cur r = cur s \<Longrightarrow> thread_current r = Some x"
    using thread_current_pre [OF s] by (auto simp: thread_current_def)
  have i: "cur s \<noteq> idle_thread s" using s f by (auto simp: kstate frames_ok_def idle_stack_def)
  let ?x = "x\<lparr>wake_ticks := i64 (ticks s + n)\<rparr>"
  let ?lt = "compare_timeto_wakeup_ticks (s\<lparr>intr_on := False, thr := (thr s)(cur s \<mapsto> ?x)\<rparr>)"
  let ?fr = "(frames s)(cur s := [?k])"
  let ?s1 = "s\<lparr>intr_on := False, thr := (thr s)(cur s \<mapsto> ?x),
     sleep_list := insert_ord ?lt (cur s) (sleep_list s)\<rparr>"
  let ?s2 = "push_frame ?k ?s1"
  let ?s3 = "?s2\<lparr>thr := (thr s)(cur s \<mapsto> ?x\<lparr>status := THREAD_BLOCKED\<rparr>)\<rparr>"
  have k0: "kpre (push_frame ?k s)"
    by (rule kpre_push [OF s]) (use f i in \<open>auto simp: shape_def\<close>)
  have sc0: "sched_ok (st_of s) ?fr (ready_list s) (sleep_list s) (all_list s) (wt_of s) (idle_thread s)"
    and fo0: "frames_ok (st_of s) ?fr (wt_of s) (lock_holder s) (conds s) (idle_thread s) (tid_lock s)"
    and dk0: "don_ok (thread_mlfqs s) (wl_of s) (dn_of s) (lock_holder s) ?fr"
    using k0 f by (simp_all add: kstate push_frame_def)
  have st: "st_of s (cur s) = Some THREAD_RUNNING" using x by simp
  have notin: "cur s \<notin> ready_set (st_of s) (idle_thread s)" "cur s \<notin> sleepers (st_of s) ?fr"
    "\<And>y. cur s \<notin> waiting (st_of s) ?fr y" "cur s \<in> alive (st_of s)"
    using st by (auto simp: list_sets)
  have sc: "sched_ok ((st_of s)(cur s \<mapsto> THREAD_BLOCKED)) ?fr (ready_list s) (insert_ord ?lt (cur s) (sleep_list s))
      (all_list s) (wt_of s) (idle_thread s)"
    using sc0 notin i x(3) unfolding sched_ok_def by (simp add: set_upds insert_absorb)
  have fo: "frames_ok ((st_of s)(cur s \<mapsto> THREAD_BLOCKED)) ?fr (wt_of s) (lock_holder s) (conds s) (idle_thread s) (tid_lock s)"
    by (rule frames_ok_status [OF fo0]) (use st in auto)
  have lk: "locks_ok ((st_of s)(cur s \<mapsto> THREAD_BLOCKED)) (lock_holder s) (vl_of s) (tid_lock s)"
    by (rule locks_ok_status) (use s in \<open>auto simp: kstate\<close>)
  have same: "(wl_of s)(cur s \<mapsto> waitlock x) = wl_of s" "(dn_of s)(cur s \<mapsto> list_of_donation x) = dn_of s"
    using x by (auto simp: fun_eq_iff)
  have c3: "core ?s3" using s sc fo lk dk0 f by (simp add: core_def kpre_def push_frame_def same)
  have tl: "top_locked (?fr t) = None" for t using s by (auto simp: kpre_def run_pre_def)
  have "\<exists>s'. thread_block ?s2 = Some s' \<and> kinv s'"
    by (rule thread_block_ok [where x = ?x])
      (use x c3 s tl e f in \<open>auto simp: kpre_def run_pre_def dying_ok_def\<close>)
  moreover have "timer_sleep n s = thread_block ?s2"
    using False o x by (simp add: timer_sleep_def intr_disable_def upd_thread_def Let_def)
  ultimately show ?thesis by simp
qed

section \<open>Creating and ending threads\<close>

lemma creators_okD:
  assumes "creators_ok st fr"
  shows "u \<in> creating (fr t) \<Longrightarrow> st u = Some THREAD_BLOCKED" "u \<in> creating (fr t) \<Longrightarrow> fr u = [KernelThread]"
    "u \<in> creating (fr t) \<Longrightarrow> u \<in> creating (fr t') \<Longrightarrow> t = t'"
  using assms unfolding creators_ok_def by blast+

lemma creators_okI:
  assumes "\<And>t u. u \<in> creating (fr t) \<Longrightarrow> st u = Some THREAD_BLOCKED \<and> fr u = [KernelThread]"
    and "\<And>t t' u. u \<in> creating (fr t) \<Longrightarrow> u \<in> creating (fr t') \<Longrightarrow> t = t'"
  shows "creators_ok st fr"
  using assms unfolding creators_ok_def by blast

lemma creators_ok_fresh:
  assumes c: "creators_ok st fr" and t: "fr t = []"
  shows "creators_ok (st(t \<mapsto> THREAD_BLOCKED)) (fr(t := [KernelThread]))"
proof (rule creators_okI)
  have sub: "v \<in> creating (fr u)" if "v \<in> creating ((fr(t := [KernelThread])) u)" for u v
    using that by (auto split: if_splits)
  show "(st(t \<mapsto> THREAD_BLOCKED)) v = Some THREAD_BLOCKED \<and> (fr(t := [KernelThread])) v = [KernelThread]"
    if "v \<in> creating ((fr(t := [KernelThread])) u)" for u v
    using creators_okD(1,2) [OF c sub [OF that]] by simp
  show "u = u'" if "v \<in> creating ((fr(t := [KernelThread])) u)" "v \<in> creating ((fr(t := [KernelThread])) u')" for u u' v
    using creators_okD(3) [OF c sub [OF that(1)] sub [OF that(2)]] .
qed

lemma creators_ok_new:
  assumes c: "creators_ok st fr" and t: "\<And>u. t \<notin> creating (fr u)" "st t = Some THREAD_BLOCKED" "fr t = [KernelThread]"
    and a: "fr a = []" and k: "creating ks = {t}"
  shows "creators_ok st (fr(a := ks))"
proof (rule creators_okI)
  have at: "a \<noteq> t" using a t by auto
  have cases: "(u = a \<and> v = t) \<or> (u \<noteq> a \<and> v \<in> creating (fr u))" if "v \<in> creating ((fr(a := ks)) u)" for u v
    using that k by (auto split: if_splits)
  show "st v = Some THREAD_BLOCKED \<and> (fr(a := ks)) v = [KernelThread]" if "v \<in> creating ((fr(a := ks)) u)" for u v
    using cases [OF that] creators_okD(1,2) [OF c] t at a by fastforce
  show "u = u'" if "v \<in> creating ((fr(a := ks)) u)" "v \<in> creating ((fr(a := ks)) u')" for u u' v
    using cases [OF that(1)] cases [OF that(2)] creators_okD(3) [OF c] t(1) by blast
qed

text \<open>A new, blocked thread on no list but \<open>all_list\<close>.\<close>

lemma init_thread_ok:
  assumes s: "kpre s" and t: "thr s t = None" "frames s t = []" "t \<noteq> NULL"
    and y: "status y = THREAD_BLOCKED" "waitlock y = NULL" "list_of_donation y = []"
  shows "kpre (s\<lparr>thr := (thr s)(t \<mapsto> y), frames := (frames s)(t := [KernelThread]), all_list := all_list s @ [t]\<rparr>)"
    and "t \<notin> creating (frames s u)"
proof -
  let ?fr = "(frames s)(t := [KernelThread])"
  have sc: "sched_ok (st_of s) (frames s) (ready_list s) (sleep_list s) (all_list s) (wt_of s) (idle_thread s)"
    and fo: "frames_ok (st_of s) (frames s) (wt_of s) (lock_holder s) (conds s) (idle_thread s) (tid_lock s)"
    and lo: "locks_ok (st_of s) (lock_holder s) (vl_of s) (tid_lock s)"
    and d: "don_ok (thread_mlfqs s) (wl_of s) (dn_of s) (lock_holder s) (frames s)"
    and ck: "cond_ok (conds s) (wt_of s)"
    using s by (simp_all add: kstate)
  have cr: "creators_ok (st_of s) (frames s)" and id: "idle_stack (frames s (idle_thread s))"
    and sk: "\<And>u. stack_ok (wt_of s) (lock_holder s) (conds s) (idle_thread s) (tid_lock s) u (frames s u)"
    using fo by (simp_all add: frames_ok_def)
  show "t \<notin> creating (frames s u)" using creators_okD(2) [OF cr, of t u] t by auto
  have ct: "cur s \<noteq> t" using thread_current_pre [OF s] t by auto
  have it: "idle_thread s \<noteq> t" using sched_okD(10) [OF sc] t by (auto simp: alive_def)
  have tnot: "t \<notin> ready_set (st_of s) (idle_thread s)" "t \<notin> sleepers (st_of s) (frames s)"
    "\<And>y. t \<notin> waiting (st_of s) (frames s) y" "t \<notin> alive (st_of s)"
    using t by (auto simp: list_sets)
  have sc1: "sched_ok ((st_of s)(t \<mapsto> THREAD_BLOCKED)) ?fr (ready_list s) (sleep_list s) (all_list s @ [t]) (wt_of s) (idle_thread s)"
    using sc tnot t(3) it unfolding sched_ok_def by (simp add: set_upds)
  have fo1: "frames_ok ((st_of s)(t \<mapsto> THREAD_BLOCKED)) ?fr (wt_of s) (lock_holder s) (conds s) (idle_thread s) (tid_lock s)"
    using sk creators_ok_fresh [OF cr t(2)] id it fo
    by (auto simp: frames_ok_def stack_ok_def shape_def)
  have lo1: "locks_ok ((st_of s)(t \<mapsto> THREAD_BLOCKED)) (lock_holder s) (vl_of s) (tid_lock s)"
    by (rule locks_ok_status [OF lo]) simp
  have d1: "don_ok (thread_mlfqs s) ((wl_of s)(t \<mapsto> NULL)) ((dn_of s)(t \<mapsto> [])) (lock_holder s) ?fr"
  proof (rule don_okI)
    show "l = NULL" if "thread_mlfqs s" "((wl_of s)(t \<mapsto> NULL)) u = Some l" for u l
      using that don_okD(1) [OF d, of u l] by (auto split: if_splits)
    show "lock_holder s l \<noteq> None \<and> l \<in> locking (?fr u)" if "((wl_of s)(t \<mapsto> NULL)) u = Some l" "l \<noteq> NULL" for u l
    proof -
      from that have "u \<noteq> t" "wl_of s u = Some l" by (auto split: if_splits)
      with don_okD(2) [OF d this(2) that(2)] show ?thesis by simp
    qed
    show "distinct ds" if "((dn_of s)(t \<mapsto> [])) h = Some ds" for h ds
      using that don_okD(3) [OF d, of h ds] by (auto split: if_splits)
    show "\<exists>l. ((wl_of s)(t \<mapsto> NULL)) u = Some l \<and> l \<noteq> NULL \<and> lock_holder s l = Some h"
      if a: "((dn_of s)(t \<mapsto> [])) h = Some ds" "u \<in> set ds" for h ds u
    proof -
      have "dn_of s h = Some ds" using a by (auto split: if_splits)
      from don_okD(4) [OF d this a(2)] obtain l where l: "wl_of s u = Some l" "l \<noteq> NULL" "lock_holder s l = Some h" by blast
      moreover have "u \<noteq> t" using l t by auto
      ultimately show ?thesis by auto
    qed
  qed
  show "kpre (s\<lparr>thr := (thr s)(t \<mapsto> y), frames := ?fr, all_list := all_list s @ [t]\<rparr>)"
    using s sc1 fo1 lo1 d1 ck y ct by (auto simp: kstate run_pre_def dying_ok_def)
qed

lemma thread_create_ok:
  assumes s: "kpre s" and f: "frames s (cur s) = []" and t: "thr s t = None" "frames s t = []"
    and p: "p \<noteq> NULL" and pri: "PRI_MIN \<le> pri" "pri \<le> PRI_MAX"
    and h: "lock_holder s (tid_lock s) \<noteq> Some (cur s)" and e: "\<not> in_external_intr s"
  shows "\<exists>s'. thread_create t pri p [] s = Some s' \<and> kinv s'"
proof (cases "t = NULL")
  case True
  then show ?thesis using s f e by (simp add: thread_create_def kinvI)
next
  case tn: False
  let ?y = "\<lparr>tid = 0, status = THREAD_BLOCKED, priority = pri, wake_ticks = 0, initial_priority = pri,
          waitlock = NULL, list_of_donation = [], nice = 0, recent_cpu = 0, file_list = [],
          next_fd = 2, child_list = [], parent = -1, cp = NULL, pagedir = NULL\<rparr>"
  let ?s1 = "s\<lparr>thr := (thr s)(t \<mapsto> ?y), frames := (frames s)(t := [KernelThread]), all_list := all_list s @ [t]\<rparr>"
  let ?ks = "[CreateGotTidLock t p]"
  have k1: "kpre ?s1" by (rule init_thread_ok(1) [OF s t tn]) simp_all
  have nc: "t \<notin> creating (frames s u)" for u by (rule init_thread_ok(2) [OF s t tn, of ?y]) simp_all
  have ct: "cur s \<noteq> t" using thread_current_pre [OF s] t by auto
  have fo: "frames_ok (st_of ?s1) (frames ?s1) (wt_of ?s1) (lock_holder ?s1) (conds ?s1) (idle_thread ?s1) (tid_lock ?s1)"
    and lo: "locks_ok (st_of s) (lock_holder s) (vl_of s) (tid_lock s)"
    using k1 s by (simp_all add: kstate)
  have i: "cur s \<noteq> idle_thread s" using s f by (auto simp: kstate frames_ok_def idle_stack_def)
  have cr: "creators_ok (st_of ?s1) ((frames ?s1)(cur s := LockAcquired (tid_lock s) (intr_on s) # ?ks))"
  proof (rule creators_ok_new)
    show "creators_ok (st_of ?s1) (frames ?s1)" using fo by (simp add: frames_ok_def)
    show "t \<notin> creating (frames ?s1 u)" for u using nc [of u] by simp
  qed (use f ct in simp_all)
  from locks_okD(4,5) [OF lo] obtain hh where hh: "lock_holder s (tid_lock s) = Some hh" "tid_lock s \<noteq> NULL" by auto
  have sk: "stack_ok (wt_of s) (lock_holder s) (conds s) (idle_thread s) (tid_lock s) (cur s)
      (LockAcquired (tid_lock s) (intr_on s) # ?ks)"
    using hh h p by (auto simp: stack_ok_def shape_def)
  have "frames_ok (st_of ?s1) ((frames ?s1)(cur ?s1 := LockAcquired (tid_lock s) (intr_on ?s1) # ?ks)) (wt_of ?s1)
      (lock_holder ?s1) (conds ?s1) (idle_thread ?s1) (tid_lock ?s1)"
    using fo cr sk i thread_current_pre [OF s] by (auto simp: frames_ok_def)
  then have "\<exists>s'. lock_acquire (tid_lock s) (?s1\<lparr>frames := (frames ?s1)(cur ?s1 := ?ks)\<rparr>) = Some s' \<and> kinv s'"
    by (intro lock_acquire_gen [OF k1]) (use hh h e f ct i in auto)
  moreover have "thread_create t pri p [] s = lock_acquire (tid_lock s) (?s1\<lparr>frames := (frames ?s1)(cur ?s1 := ?ks)\<rparr>)"
    using tn pri f ct by (simp add: thread_create_def init_thread_def push_frame_def Let_def)
  ultimately show ?thesis by simp
qed

text \<open>Taking a frame off the running thread's stack.\<close>

lemma idle_stack_Cons: "idle_stack (k # ks) \<Longrightarrow> is_set_level k \<Longrightarrow> idle_stack ks"
  by (cases k) (auto simp: idle_stack_def split: if_splits)

lemma kpre_pop:
  assumes s: "kpre s" and f: "frames s (cur s) = k # ks" and k: "\<And>l b. k \<noteq> LockAcquired l b"
    and i: "cur s = idle_thread s \<Longrightarrow> is_set_level k"
  shows "kpre (pop_frame s)"
proof -
  have st: "stack_ok (wt_of s) (lock_holder s) (conds s) (idle_thread s) (tid_lock s) (cur s) (k # ks)"
    and id: "idle_stack (frames s (idle_thread s))"
    and d: "don_ok (thread_mlfqs s) (wl_of s) (dn_of s) (lock_holder s) (frames s)"
    using s f by (simp_all add: kstate frames_ok_def) metis
  have lk: "locking (k # ks) = locking ks" using k by (auto simp: locking_def)
  have fo: "frame_ok (wt_of s) (lock_holder s) (conds s) (idle_thread s) (tid_lock s) (cur s) ks k'"
    if "k' \<in> set ks" for k'
    using st that lk by (auto simp: stack_ok_def intro: frame_ok_mono)
  have sh: "shape ks" using st by (cases k) (auto simp: stack_ok_def shape_def split: if_splits sema_id.splits)
  have "kpre (s\<lparr>frames := (frames s)(cur s := ks)\<rparr>)"
  proof (rule kpre_frames [OF s])
    show "creating ks \<subseteq> creating (frames s (cur s))" using f by (auto split: option.splits)
    show "idle_stack ks" if "cur s = idle_thread s"
      using id f i [OF that] that idle_stack_Cons by metis
    show "l \<in> locking ks" if "wl_of s (cur s) = Some l" "l \<noteq> NULL" for l
      using don_okD(2) [OF d that] f lk by simp
  qed (use fo sh in \<open>simp add: stack_ok_def\<close>)
  then show ?thesis using f by (simp add: pop_frame_def)
qed

lemma frames_pop: "frames s (cur s) = k # ks \<Longrightarrow> frames (pop_frame s) = (frames s)(cur s := ks)"
  by (simp add: pop_frame_def)

lemma pop_frame_simps [simp]:
  "cur (pop_frame s) = cur s" "thr (pop_frame s) = thr s" "intr_on (pop_frame s) = intr_on s"
  "in_external_intr (pop_frame s) = in_external_intr s" "semas (pop_frame s) = semas s"
  "lock_holder (pop_frame s) = lock_holder s" "idle_thread (pop_frame s) = idle_thread s"
  "tid_lock (pop_frame s) = tid_lock s" "conds (pop_frame s) = conds s" "all_list (pop_frame s) = all_list s"
  "ready_list (pop_frame s) = ready_list s" "load_avg (pop_frame s) = load_avg s"
  "thread_mlfqs (pop_frame s) = thread_mlfqs s" "next_tid (pop_frame s) = next_tid s"
  "procs (pop_frame s) = procs s" "sleep_list (pop_frame s) = sleep_list s" "ticks (pop_frame s) = ticks s"
  by (simp_all add: pop_frame_def)

lemma create_got_ok:
  assumes s: "kpre s" and f: "frames s (cur s) = CreateGotTidLock t p # ks" and e: "\<not> in_external_intr s"
  shows "\<exists>s'. create_got_tid_lock t p (pop_frame s) = Some s' \<and> kinv s'"
proof -
  have sh: "shape (frames s (cur s))" using kpre_lock_frames [OF s] by blast
  then have ks: "ks = []" using f by (simp add: shape_def)
  have "frame_ok (wt_of s) (lock_holder s) (conds s) (idle_thread s) (tid_lock s) (cur s) (frames s (cur s)) (CreateGotTidLock t p)"
    by (rule stack_frame_ok [OF s]) (simp add: f)
  then have h: "lock_holder s (tid_lock s) = Some (cur s)" "p \<noteq> NULL" using f ks by (auto simp: locking_def)
  have tn: "tid_lock s \<noteq> NULL" using s by (auto simp: kstate locks_ok_def)
  have i: "cur s \<noteq> idle_thread s" using s f ks by (auto simp: kstate frames_ok_def idle_stack_def)
  let ?s1 = "s\<lparr>next_tid := i32 (next_tid s + 1)\<rparr>"
  let ?ks = "[CreateTail t p (next_tid s)]"
  have "\<exists>s'. lock_release (tid_lock s) (?s1\<lparr>frames := (frames ?s1)(cur ?s1 := ?ks)\<rparr>) = Some s' \<and> kinv s'"
    by (rule lock_release_ok) (use s h tn e i f ks in \<open>auto simp: stack_ok_def shape_def locking_def\<close>)
  moreover have "create_got_tid_lock t p (pop_frame s) = lock_release (tid_lock s) (?s1\<lparr>frames := (frames ?s1)(cur ?s1 := ?ks)\<rparr>)"
    using f ks by (simp add: create_got_tid_lock_def pop_frame_def push_frame_def Let_def)
  ultimately show ?thesis by simp
qed

lemma create_tail_ok:
  assumes s: "kpre s" and f: "frames s (cur s) = CreateTail t p n # ks" and e: "\<not> in_external_intr s"
  shows "\<exists>s'. create_tail t p n (pop_frame s) = Some s' \<and> kinv s'"
proof -
  have "shape (frames s (cur s))" using kpre_lock_frames [OF s] by blast
  then have ks: "ks = []" using f by (simp add: shape_def)
  have "frame_ok (wt_of s) (lock_holder s) (conds s) (idle_thread s) (tid_lock s) (cur s) (frames s (cur s)) (CreateTail t p n)"
    by (rule stack_frame_ok [OF s]) (simp add: f)
  then have p: "p \<noteq> NULL" by simp
  have i: "cur s \<noteq> idle_thread s" using s f ks by (auto simp: kstate frames_ok_def idle_stack_def)
  have cr: "creators_ok (st_of s) (frames s)" using s by (simp add: kstate frames_ok_def)
  have tc: "t \<in> creating (frames s (cur s))" using f by simp
  then obtain y where y: "thr s t = Some y" "status y = THREAD_BLOCKED" and ft: "frames s t = [KernelThread]"
    using creators_okD(1,2) [OF cr tc] by auto
  obtain x where x: "thr s (cur s) = Some x" "status x = THREAD_RUNNING" "cur s \<noteq> NULL"
    using thread_current_pre [OF s] by auto
  have ct: "cur s \<noteq> t" using x y by auto
  let ?s0 = "pop_frame s"
  have k0: "kpre ?s0" by (rule kpre_pop [OF s f]) (use i in auto)
  have f0: "frames ?s0 = (frames s)(cur s := [])" using f ks by (simp add: pop_frame_def)
  let ?y = "y\<lparr>tid := n, parent := tid x, cp := p\<rparr>"
  let ?pr = "(procs s)(p \<mapsto> \<lparr>lock_for_wait = (NULL, \<lparr>sm_value = 1, waiters = []\<rparr>), pid = n, load_state = 0,
        p_wait = False, p_exit = False, p_status = None\<rparr>)"
  let ?x = "x\<lparr>child_list := child_list x @ [p]\<rparr>"
  let ?s1 = "?s0\<lparr>procs := ?pr\<rparr>"
  let ?s2 = "?s1\<lparr>thr := (thr s)(cur s \<mapsto> ?x)\<rparr>"
  let ?s3 = "?s1\<lparr>thr := (thr s)(cur s \<mapsto> ?x, t \<mapsto> ?y)\<rparr>"
  have k1: "kpre ?s1" using k0 by simp
  have k2: "kpre ?s2" using kpre_thr [of ?s1 "cur s" x ?x] x k1 by simp
  have k3: "kpre ?s3" using kpre_thr [of ?s2 t y ?y] y k2 ct by simp
  have t3: "thr ?s3 t = Some ?y" using ct by simp
  have nc: "t \<notin> creating (frames ?s3 u)" for u
    using creators_okD(3) [OF cr tc, of u] f0 by (auto split: if_splits)
  have sc: "sched_ok (st_of s) (frames s) (ready_list s) (sleep_list s) (all_list s) (wt_of s) (idle_thread s)"
    using s by (simp add: kstate)
  have ti: "t \<noteq> idle_thread s" and tn: "t \<noteq> NULL"
    using sc y ft by (auto simp: sched_ok_def)
  have sl: "sleep_list ?s3 = sleep_list s" "t \<notin> set (sleep_list s)" "distinct (sleep_list s)"
    using sched_okD(4,5) [OF sc] ft by (auto simp: sleepers_def pop_frame_def)
  have wn: "t \<notin> set (waiters m)" if "semas s z = Some m" for z m
    using sched_okD(7) [OF sc, of z "waiters m"] that ft by (auto simp: waiting_def)
  let ?r = "insert_ord (compare_priority ?s3) t (ready_list s)"
  let ?s4 = "?s3\<lparr>ready_list := ?r, thr := (thr ?s3)(t \<mapsto> ?y\<lparr>status := THREAD_READY\<rparr>)\<rparr>"
  have "kpre (?s3\<lparr>ready_list := insert_ord (compare_priority ?s3) t (ready_list ?s3),
      thr := (thr ?s3)(t \<mapsto> ?y\<lparr>status := THREAD_READY\<rparr>), sleep_list := sleep_list ?s3, semas := semas ?s3\<rparr>)"
  proof (rule kpre_wake [OF k3 t3])
    show "\<exists>m. semas ?s3 z = Some m \<and> distinct (waiters m') \<and> set (waiters m') = set (waiters m) - {t}"
      if "semas ?s3 z = Some m'" for z m'
      using that wn [of z m'] waiters_distinct [OF s, of z m'] by simp
    show "locks_ok (st_of ?s3) (lock_holder ?s3) (\<lambda>y. map_option sm_value (semas ?s3 y)) (tid_lock ?s3)"
      using k3 by (simp add: kstate)
    show "t \<notin> creating (frames ?s3 u)" for u using nc .
  qed (use y ti ct sl in \<open>simp_all\<close>)
  then have k4: "kpre ?s4" by (simp add: kstate)
  let ?s5 = "intr_disable (push_frame (SetLevel (intr_on s)) ?s4)"
  have k5: "kpre ?s5" using k4 f0 by (auto intro!: kpre_push_SetLevel)
  have "\<exists>s'. iscurrent_thread_has_max_priority ?s5 = Some s' \<and> kinv s'"
    by (rule max_priority_ok [OF k5]) (use e in \<open>simp_all add: intr_disable_def\<close>)
  moreover have "create_tail t p n (pop_frame s) = iscurrent_thread_has_max_priority ?s5"
  proof -
    have "thread_unblock t ?s3 = Some ?s4"
      by (subst thread_unblock_eq [OF t3]) (use y tn e in \<open>simp_all del: One_nat_def\<close>)
    then show ?thesis
      using x y p ct
      by (simp add: create_tail_def upd_thread_def thread_current_def add_process_current_thread_def Let_def
          del: One_nat_def)
  qed
  ultimately show ?thesis by simp
qed

lemma thread_exit_ok:
  assumes s: "kpre s" and f: "frames s (cur s) = []" and e: "\<not> in_external_intr s"
    and l: "\<And>l. lock_holder s l \<noteq> Some (cur s)"
  shows "\<exists>s'. thread_exit s = Some s' \<and> kinv s'"
proof -
  obtain x where x: "thr s (cur s) = Some x" "status x = THREAD_RUNNING" "cur s \<noteq> NULL"
    "\<And>r. thr r = thr s \<Longrightarrow> cur r = cur s \<Longrightarrow> thread_current r = Some x"
    using thread_current_pre [OF s] by (auto simp: thread_current_def)
  let ?c = "cur s"
  let ?s1 = "s\<lparr>intr_on := False, all_list := remove1 ?c (all_list s), thr := (thr s)(?c \<mapsto> x\<lparr>status := THREAD_DYING\<rparr>)\<rparr>"
  have sc: "sched_ok (st_of s) (frames s) (ready_list s) (sleep_list s) (all_list s) (wt_of s) (idle_thread s)"
    using s by (simp add: kstate)
  have i: "?c \<noteq> idle_thread s" using s f by (auto simp: kstate frames_ok_def idle_stack_def)
  have st: "st_of s ?c = Some THREAD_RUNNING" using x by simp
  have notin: "?c \<notin> ready_set (st_of s) (idle_thread s)" "?c \<notin> sleepers (st_of s) (frames s)"
    "\<And>y. ?c \<notin> waiting (st_of s) (frames s) y" using st by (auto simp: list_sets)
  have sc1: "sched_ok ((st_of s)(?c \<mapsto> THREAD_DYING)) (frames s) (ready_list s) (sleep_list s)
      (remove1 ?c (all_list s)) (wt_of s) (idle_thread s)"
    using sc notin i x(3) unfolding sched_ok_def by (simp add: set_upds)
  have fo: "frames_ok ((st_of s)(?c \<mapsto> THREAD_DYING)) (frames s) (wt_of s) (lock_holder s) (conds s) (idle_thread s) (tid_lock s)"
    by (rule frames_ok_status) (use s st in \<open>auto simp: kstate\<close>)
  have lk: "locks_ok ((st_of s)(?c \<mapsto> THREAD_DYING)) (lock_holder s) (vl_of s) (tid_lock s)"
    by (rule locks_ok_status) (use s l in \<open>auto simp: kstate\<close>)
  have same: "(wl_of s)(?c \<mapsto> waitlock x) = wl_of s" "(dn_of s)(?c \<mapsto> list_of_donation x) = dn_of s"
    using x by (auto simp: fun_eq_iff)
  have c1: "core ?s1" using s sc1 fo lk by (simp add: kstate same)
  have tl: "\<forall>t. top_locked (frames s t) = None" using s f by (intro core_not_current_lock) simp_all
  have "\<exists>s'. schedule ?s1 = Some s' \<and> kinv s'"
    by (rule schedule_ok [OF c1]) (use s tl e f l x in \<open>auto simp: kpre_def run_pre_def dying_ok_def\<close>)
  moreover have "thread_exit s = schedule ?s1"
    using x e by (simp add: thread_exit_def intr_disable_def upd_thread_def)
  ultimately show ?thesis by simp
qed

section \<open>The idle thread\<close>

lemma idle_frames:
  assumes s: "kpre s" and f: "frames s (cur s) = k # ks" and k: "k = IdleLoop \<or> k = IdleHlt"
  shows "cur s = idle_thread s" and "ks = []"
proof -
  have "frame_ok (wt_of s) (lock_holder s) (conds s) (idle_thread s) (tid_lock s) (cur s) (frames s (cur s)) k"
    by (rule stack_frame_ok [OF s]) (simp add: f)
  then show c: "cur s = idle_thread s" using k by auto
  have "idle_stack (frames s (idle_thread s))" using s by (simp add: kstate frames_ok_def)
  then have "idle_stack (k # ks)" using f c by metis
  then show "ks = []" using k by (auto simp: idle_stack_def split: if_splits)
qed

lemma idle_kpre:
  assumes s: "kpre s" and f: "frames s (cur s) = k # ks" and k: "k = IdleLoop \<or> k = IdleHlt"
    and k': "k' = IdleLoop \<or> k' = IdleHlt"
  shows "kpre (push_frame k' (pop_frame s))"
proof -
  note i = idle_frames [OF s f k]
  have "kpre (s\<lparr>frames := (frames s)(cur s := [k'])\<rparr>)"
  proof (rule kpre_frames [OF s])
    show "l \<in> locking [k']" if "wl_of s (cur s) = Some l" "l \<noteq> NULL" for l
      using s that don_okD(2) [of "thread_mlfqs s" "wl_of s" "dn_of s" "lock_holder s" "frames s" "cur s" l] f k i
      by (auto simp: kstate locking_def)
  qed (use i k k' f in \<open>auto simp: stack_ok_def shape_def idle_stack_def creating_def\<close>)
  then show ?thesis using f i by (simp add: push_frame_def pop_frame_def)
qed

lemma idle_hlt_ok:
  assumes s: "kpre s" and f: "frames s (cur s) = IdleHlt # ks" and e: "\<not> in_external_intr s"
  shows "\<exists>s'. idle_hlt (pop_frame s) = Some s' \<and> kinv s'"
proof -
  have "kpre (push_frame IdleLoop (pop_frame s))" by (rule idle_kpre [OF s f]) simp_all
  then show ?thesis using e by (simp add: idle_hlt_def intr_enable_def kinvI)
qed

lemma idle_loop_ok:
  assumes s: "kpre s" and f: "frames s (cur s) = IdleLoop # ks" and e: "\<not> in_external_intr s"
  shows "\<exists>s'. idle_loop (pop_frame s) = Some s' \<and> kinv s'"
proof -
  let ?c = "cur s"
  let ?s0 = "push_frame IdleHlt (pop_frame s)"
  let ?s1 = "push_frame IdleHlt (intr_disable (pop_frame s))"
  note i = idle_frames [OF s f]
  have k0: "kpre ?s0" by (rule idle_kpre [OF s f]) simp_all
  have f0: "frames ?s0 = (frames s)(?c := [IdleHlt])" using f i by (simp add: frames_pop)
  have k1: "kpre ?s1" using k0 by (rule kpre_cong) (simp_all add: push_frame_def intr_disable_def pop_frame_def)
  have f1: "frames ?s1 = (frames s)(?c := [IdleHlt])" using f i by (simp add: frames_pop intr_disable_def pop_frame_def)
  obtain x where x: "thr s ?c = Some x" "status x = THREAD_RUNNING" "?c \<noteq> NULL"
    using thread_current_pre [OF s] by auto
  let ?fr = "(frames s)(?c := [IdleHlt])"
  have sc: "sched_ok (st_of s) ?fr (ready_list s) (sleep_list s) (all_list s) (wt_of s) (idle_thread s)"
    and fo: "frames_ok (st_of s) ?fr (wt_of s) (lock_holder s) (conds s) (idle_thread s) (tid_lock s)"
    and lo: "locks_ok (st_of s) (lock_holder s) (vl_of s) (tid_lock s)"
    and d: "don_ok (thread_mlfqs s) (wl_of s) (dn_of s) (lock_holder s) ?fr"
    and ck: "cond_ok (conds s) (wt_of s)"
    using k0 f0 by (simp_all add: kpre_def core_def push_frame_def pop_frame_def)
  have st: "st_of s ?c = Some THREAD_RUNNING" using x by simp
  have notin: "?c \<notin> ready_set (st_of s) (idle_thread s)" "?c \<notin> sleepers (st_of s) ?fr"
    "\<And>y. ?c \<notin> waiting (st_of s) ?fr y" "?c \<in> alive (st_of s)" using st by (auto simp: list_sets)
  have sc1: "sched_ok ((st_of s)(?c \<mapsto> THREAD_BLOCKED)) ?fr (ready_list s) (sleep_list s) (all_list s) (wt_of s) (idle_thread s)"
    using sc notin x(3) i unfolding sched_ok_def by (simp add: set_upds insert_absorb)
  have fo1: "frames_ok ((st_of s)(?c \<mapsto> THREAD_BLOCKED)) ?fr (wt_of s) (lock_holder s) (conds s) (idle_thread s) (tid_lock s)"
    by (rule frames_ok_status [OF fo]) (use st in auto)
  have lk: "locks_ok ((st_of s)(?c \<mapsto> THREAD_BLOCKED)) (lock_holder s) (vl_of s) (tid_lock s)"
    by (rule locks_ok_status [OF lo]) simp
  have same: "(wl_of s)(?c \<mapsto> waitlock x) = wl_of s" "(dn_of s)(?c \<mapsto> list_of_donation x) = dn_of s"
    using x by (auto simp: fun_eq_iff)
  have c1: "core (?s1\<lparr>thr := (thr ?s1)(?c \<mapsto> x\<lparr>status := THREAD_BLOCKED\<rparr>)\<rparr>)"
    using sc1 fo1 lk d ck f1 by (simp add: core_def same intr_disable_def pop_frame_def push_frame_def)
  have tl: "\<forall>t. top_locked (?fr t) = None" using s by (auto simp: kpre_def run_pre_def)
  have "\<exists>s'. thread_block ?s1 = Some s' \<and> kinv s'"
    by (rule thread_block_ok [where x = x])
      (use x c1 k1 tl e f1 in \<open>auto simp: intr_disable_def kpre_def run_pre_def\<close>)
  then show ?thesis by (simp add: idle_loop_def)
qed

end
