(* ===== verification/Kernel_Tick.thy ===== *)
theory Kernel_Tick
  imports Kernel_Calls
begin

text \<open>
  The timer interrupt and the advanced scheduler: no recalculation can fail an assertion or
  trap while the load average and the number of threads are in range, priorities stay between
  \<open>PRI_MIN\<close> and \<open>PRI_MAX\<close>, and the handler keeps the invariant.
\<close>

section \<open>Ranges of the advanced scheduler\<close>

definition load_range :: "int \<Rightarrow> bool" where
  "load_range la \<longleftrightarrow> 0 \<le> la \<and> la \<le> MAX_THREADS * F"

lemma mlfqs_priority_range:
  "\<exists>p. mlfqs_priority r n = Some p \<and> PRI_MIN \<le> p \<and> p \<le> PRI_MAX"
  by (auto simp: mlfqs_priority_def division_mixed_def PRI_MIN_def PRI_MAX_def Let_def)

lemma mlfqs_load_avg_value:
  assumes "0 \<le> k" "k \<le> MAX_THREADS" "load_range la"
  shows "mlfqs_load_avg k la = Some (16110 * la div F + k * F div 60)"
proof -
  have la: "0 \<le> la" "la \<le> 268435456" using assms by (auto simp: load_range_def MAX_THREADS_def F_def)
  have k: "0 \<le> k" "k \<le> 16384" using assms by (auto simp: MAX_THREADS_def)
  have d: "division_mixed (integer_to_float 59) 60 = Some 16110"
    by (simp add: division_mixed_def integer_to_float_def F_def i32_def sdiv_int_pos)
  have p: "i64 (16110 * la) = 16110 * la" using la by (intro i64_id) (simp add: in_i64_def)
  have q0: "0 \<le> 16110 * la div F" "16110 * la div F \<le> 263946240" using la by (simp_all add: F_def)
  then have q: "multiply_float 16110 la = 16110 * la div F"
    using la by (simp add: multiply_float_def p sdiv_int_pos i32_id in_i32_def)
  have "integer_to_float k = k * F" using k by (intro integer_to_float_exact) (simp add: fp_int_range_def)
  then have t: "division_mixed (integer_to_float k) 60 = Some (k * F div 60)"
    using k by (simp add: division_mixed_def sdiv_int_pos F_def)
  have r: "0 \<le> k * F div 60" "k * F div 60 \<le> 4473924" using k by (simp_all add: F_def)
  have "addi (16110 * la div F) (k * F div 60) = 16110 * la div F + k * F div 60"
    using q0 r by (simp add: addi_def i32_id in_i32_def)
  then show ?thesis using d q t q0 r by (simp add: mlfqs_load_avg_def Let_def)
qed

lemma mlfqs_load_avg_range:
  assumes "0 \<le> k" "k \<le> n" "n \<le> MAX_THREADS" "0 \<le> la" "la \<le> n * F"
  shows "\<exists>la'. mlfqs_load_avg k la = Some la' \<and> 0 \<le> la' \<and> la' \<le> n * F"
proof -
  have lr: "load_range la" using assms by (auto simp: load_range_def F_def)
  have v: "mlfqs_load_avg k la = Some (16110 * la div F + k * F div 60)"
    using assms lr by (intro mlfqs_load_avg_value) auto
  have "16110 * la div F \<le> 16110 * (n * F) div F" using assms by (intro zdiv_mono1) (simp_all add: F_def)
  also have "\<dots> = 16110 * n" by (simp add: F_def)
  finally have a: "16110 * la div F \<le> 16110 * n" .
  have "k * F div 60 \<le> n * F div 60" using assms by (intro zdiv_mono1) (simp_all add: F_def)
  also have "\<dots> \<le> 274 * n" using assms by (simp add: F_def)
  finally have b: "k * F div 60 \<le> 274 * n" .
  have "0 \<le> 16110 * la div F" "0 \<le> k * F div 60"
    using assms by (simp_all add: F_def)
  then show ?thesis using v a b by (simp add: F_def)
qed

lemma mlfqs_recent_cpu_defined:
  assumes "load_range la"
  shows "\<exists>r'. mlfqs_recent_cpu la r n = Some r'"
proof -
  have la: "0 \<le> la" "la \<le> 268435456" using assms by (auto simp: load_range_def MAX_THREADS_def F_def)
  have "multiply_mixed la 2 = 2 * la" using la by (simp add: multiply_mixed_def i32_id in_i32_def mult.commute)
  moreover have "integer_to_float 1 = F" by (simp add: integer_to_float_def F_def i32_def)
  then have "add_mixed (2 * la) 1 = 2 * la + F" using la by (simp add: add_mixed_def i32_id in_i32_def F_def)
  ultimately show ?thesis using la by (auto simp: mlfqs_recent_cpu_def division_float_def F_def Let_def)
qed

section \<open>Recalculation\<close>

lemma calculate_priority_ok:
  assumes s: "kpre s" and t: "thr s t \<noteq> None"
  shows "\<exists>s'. mlfqs_calculate_priority t s = Some s' \<and> same_views s s'"
proof (cases "t = idle_thread s")
  case False
  obtain x where x: "thr s t = Some x" using t by auto
  obtain p where "mlfqs_priority (recent_cpu x) (nice x) = Some p" using mlfqs_priority_range by blast
  moreover have "same_views s (s\<lparr>thr := (thr s)(t \<mapsto> x\<lparr>priority := p\<rparr>)\<rparr>)"
    using x by (rule same_views_thr) simp_all
  ultimately show ?thesis using x False by (simp add: mlfqs_calculate_priority_def upd_thread_def)
qed (simp add: mlfqs_calculate_priority_def)

lemma same_views_load: "same_views s s' \<Longrightarrow> load_avg s' = load_avg s"
  by (auto simp: same_views_def)

lemma same_views_dom: "same_views s s' \<Longrightarrow> thr s t \<noteq> None \<Longrightarrow> thr s' t \<noteq> None"
  unfolding same_views_def by (metis option.map_disc_iff)

lemma calculation_recent_cpu_ok:
  assumes s: "kpre s" and t: "thr s t \<noteq> None" and l: "load_range (load_avg s)"
  shows "\<exists>s'. mlfqs_calculation_recent_cpu t s = Some s' \<and> same_views s s'"
proof (cases "t = idle_thread s")
  case False
  obtain x where x: "thr s t = Some x" using t by auto
  obtain r where "mlfqs_recent_cpu (load_avg s) (recent_cpu x) (nice x) = Some r"
    using mlfqs_recent_cpu_defined [OF l] by blast
  moreover have "same_views s (s\<lparr>thr := (thr s)(t \<mapsto> x\<lparr>recent_cpu := r\<rparr>)\<rparr>)"
    using x by (rule same_views_thr) simp_all
  ultimately show ?thesis using x False by (simp add: mlfqs_calculation_recent_cpu_def upd_thread_def)
qed (simp add: mlfqs_calculation_recent_cpu_def)

lemma recalculate_ok:
  "kpre s \<Longrightarrow> \<forall>t\<in>set ts. thr s t \<noteq> None \<Longrightarrow> load_range (load_avg s) \<Longrightarrow>
   \<exists>s'. mlfqs_recalculate ts s = Some s' \<and> same_views s s'"
proof (induction ts arbitrary: s)
  case (Cons t ts)
  obtain s1 where s1: "mlfqs_calculation_recent_cpu t s = Some s1" "same_views s s1"
    using calculation_recent_cpu_ok [OF Cons.prems(1) _ Cons.prems(3), of t] Cons.prems(2) by auto
  have k1: "kpre s1" using same_views_kpre [OF s1(2)] Cons.prems by simp
  obtain s2 where s2: "mlfqs_calculate_priority t s1 = Some s2" "same_views s1 s2"
    using calculate_priority_ok [OF k1, of t] same_views_dom [OF s1(2), of t] Cons.prems(2) by auto
  have v2: "same_views s s2" using s1(2) s2(2) by (rule same_views_trans)
  have "\<exists>s'. mlfqs_recalculate ts s2 = Some s' \<and> same_views s2 s'"
    by (rule Cons.IH)
      (use Cons.prems same_views_kpre [OF v2] same_views_dom [OF v2] same_views_load [OF v2] in auto)
  then show ?case using s1(1) s2(1) v2 by (auto intro: same_views_trans)
qed simp

text \<open>Everything but the load average, the statistics and the priorities.\<close>

definition tick_views :: "kernel \<Rightarrow> kernel \<Rightarrow> bool" where
  "tick_views s s' \<longleftrightarrow> (\<exists>f n. s' = s\<lparr>thr := f, load_avg := n\<rparr>) \<and>
     st_of s' = st_of s \<and> wl_of s' = wl_of s \<and> dn_of s' = dn_of s"

lemma tick_viewsI:
  assumes "same_views s s'"
  shows "tick_views s s'"
proof -
  from assms obtain f where f: "s' = s\<lparr>thr := f\<rparr>" by (auto simp: same_views_def)
  then have "s' = s\<lparr>thr := f, load_avg := load_avg s\<rparr>" by simp
  with assms show ?thesis unfolding tick_views_def same_views_def by blast
qed

lemma tick_views_trans: "tick_views s s' \<Longrightarrow> tick_views s' s'' \<Longrightarrow> tick_views s s''"
  unfolding tick_views_def by force

lemma tick_views_fields:
  assumes "tick_views s s'"
  shows "frames s' = frames s" "cur s' = cur s" "ready_list s' = ready_list s" "intr_on s' = intr_on s"
    "in_external_intr s' = in_external_intr s" "thread_mlfqs s' = thread_mlfqs s"
    "sleep_list s' = sleep_list s" "ticks s' = ticks s" "all_list s' = all_list s"
    "idle_thread s' = idle_thread s"
  using assms by (auto simp: tick_views_def)

lemma tick_views_kpre:
  assumes "tick_views s s'" and "kpre s"
  shows "kpre s'"
proof -
  from assms(1) obtain f n where "s' = s\<lparr>thr := f, load_avg := n\<rparr>" by (auto simp: tick_views_def)
  with assms show ?thesis unfolding kstate tick_views_def by simp
qed

lemma thread_tick_ok:
  assumes "kpre s"
  shows "\<exists>i k u. thread_tick s = Some (s\<lparr>idle_ticks := i, kernel_ticks := k, user_ticks := u\<rparr>)"
proof -
  obtain x where x: "thread_current s = Some x" using thread_current_pre [OF assms] by auto
  have "\<exists>i k u. (if cur s = idle_thread s then s\<lparr>idle_ticks := i64 (idle_ticks s + 1)\<rparr>
      else if pagedir x \<noteq> NULL then s\<lparr>user_ticks := i64 (user_ticks s + 1)\<rparr>
      else s\<lparr>kernel_ticks := i64 (kernel_ticks s + 1)\<rparr>) = s\<lparr>idle_ticks := i, kernel_ticks := k, user_ticks := u\<rparr>"
    (is "\<exists>i k u. ?l = _")
    by (rule exI [of _ "idle_ticks ?l"], rule exI [of _ "kernel_ticks ?l"], rule exI [of _ "user_ticks ?l"]) auto
  then show ?thesis using x by (simp add: thread_tick_def)
qed

lemma increment_recentcpu_ok:
  assumes s: "kpre s"
  shows "\<exists>s'. mlfqs_increment_recentcpu s = Some s' \<and> same_views s s'"
proof -
  obtain x where x: "thr s (cur s) = Some x" "thread_current s = Some x"
    using thread_current_pre [OF s] by auto
  have "same_views s (s\<lparr>thr := (thr s)(cur s \<mapsto> x\<lparr>recent_cpu := add_mixed (recent_cpu x) 1\<rparr>)\<rparr>)"
    using x(1) by (rule same_views_thr) simp_all
  then show ?thesis using x by (simp add: mlfqs_increment_recentcpu_def upd_thread_def)
qed

text \<open>The number of threads bounds the load.\<close>

definition load_ok :: "kernel \<Rightarrow> bool" where
  "load_ok s \<longleftrightarrow> load_range (load_avg s) \<and> int (length (all_list s)) \<le> MAX_THREADS"

lemma ready_bound:
  assumes s: "kpre s"
  shows "int (length (ready_list s)) + (if cur s \<noteq> idle_thread s then 1 else 0) \<le> int (length (all_list s))"
proof -
  have sc: "sched_ok (st_of s) (frames s) (ready_list s) (sleep_list s) (all_list s) (wt_of s) (idle_thread s)"
    using s by (simp add: kstate)
  have c: "st_of s (cur s) = Some THREAD_RUNNING" using thread_current_pre [OF s] by auto
  let ?r = "if cur s \<noteq> idle_thread s then insert (cur s) (set (ready_list s)) else set (ready_list s)"
  have "?r \<subseteq> set (all_list s)"
    using sched_okD(3,9) [OF sc] c by (auto simp: ready_set_def alive_def)
  then have "card ?r \<le> card (set (all_list s))" by (rule card_mono [OF finite_set])
  moreover have "cur s \<notin> set (ready_list s)" using sched_okD(3) [OF sc] c by (auto simp: ready_set_def)
  moreover have "card (set (ready_list s)) = length (ready_list s)" "card (set (all_list s)) = length (all_list s)"
    using sched_okD(2,8) [OF sc] by (simp_all add: distinct_card)
  ultimately show ?thesis by (simp split: if_splits)
qed

lemma calculate_load_avg_ok:
  assumes s: "kpre s" and l: "load_ok s"
  shows "\<exists>la. mlfqs_calculate_load_avg s = Some (s\<lparr>load_avg := la\<rparr>) \<and> load_range la"
proof -
  obtain x where x: "thread_current s = Some x" using thread_current_pre [OF s] by auto
  let ?k = "int (length (ready_list s)) + (if cur s \<noteq> idle_thread s then 1 else 0)"
  have "?k \<le> MAX_THREADS" using ready_bound [OF s] l by (simp add: load_ok_def)
  then obtain la where "mlfqs_load_avg ?k (load_avg s) = Some la" "0 \<le> la" "la \<le> MAX_THREADS * F"
    using mlfqs_load_avg_range [of ?k MAX_THREADS "load_avg s"] l by (auto simp: load_ok_def load_range_def)
  then show ?thesis using x
    by (auto simp: mlfqs_calculate_load_avg_def load_range_def Let_def)
qed

section \<open>The interrupt\<close>

text \<open>The sleepers that are due become ready; the others keep their places.\<close>

lemma sleeper_thread:
  assumes s: "kpre s" and t: "t \<in> set (sleep_list s)"
  shows "\<exists>x. thr s t = Some x \<and> status x = THREAD_BLOCKED" and "t \<noteq> NULL" and "t \<noteq> idle_thread s"
    and "t \<noteq> cur s" and "t \<notin> creating (frames s u)" and "semas s z = Some m \<Longrightarrow> t \<notin> set (waiters m)"
proof -
  have sc: "sched_ok (st_of s) (frames s) (ready_list s) (sleep_list s) (all_list s) (wt_of s) (idle_thread s)"
    using s by (simp add: kstate)
  have tw: "st_of s t = Some THREAD_BLOCKED" "top_sleep (frames s t)"
    using t sched_okD(5) [OF sc] by (auto simp: sleepers_def)
  then show "\<exists>x. thr s t = Some x \<and> status x = THREAD_BLOCKED" by auto
  show "t \<noteq> NULL" using sched_okD(1) [OF sc] tw by auto
  show "t \<noteq> idle_thread s" using sc tw by (auto simp: sched_ok_def)
  show "t \<noteq> cur s" using thread_current_pre [OF s] tw by auto
  have "creators_ok (st_of s) (frames s)" using s by (simp add: kstate frames_ok_def)
  from creators_okD(2) [OF this, of t u] tw show "t \<notin> creating (frames s u)" by auto
  show "t \<notin> set (waiters m)" if "semas s z = Some m"
    using sched_okD(7) [OF sc, of z "waiters m"] that tw
    by (cases "frames s t" rule: top_sleep.cases) (auto simp: waiting_def)
qed

definition wake_views :: "kernel \<Rightarrow> kernel \<Rightarrow> bool" where
  "wake_views s s' \<longleftrightarrow> (\<exists>r sl f. s' = s\<lparr>ready_list := r, sleep_list := sl, thr := f\<rparr>)"

lemma wake_views_fields:
  assumes "wake_views s s'"
  shows "frames s' = frames s" "cur s' = cur s" "intr_on s' = intr_on s" "load_avg s' = load_avg s"
    "in_external_intr s' = in_external_intr s" "all_list s' = all_list s"
  using assms by (auto simp: wake_views_def)

lemma wake_views_refl [simp]: "wake_views s s"
  unfolding wake_views_def
  by (rule exI [of _ "ready_list s"], rule exI [of _ "sleep_list s"], rule exI [of _ "thr s"]) simp

lemma wake_views_trans: "wake_views s s' \<Longrightarrow> wake_views s' s'' \<Longrightarrow> wake_views s s''"
  unfolding wake_views_def by force

lemma wake_loop_ok:
  "kpre s \<Longrightarrow> \<not> intr_on s \<Longrightarrow> \<exists>s'. wake_loop (sleep_list s) s = Some s' \<and> kpre s' \<and> wake_views s s'"
proof (induction "sleep_list s" arbitrary: s)
  case Nil
  then show ?case by (metis wake_loop.simps(1) wake_views_refl)
next
  case (Cons t ts)
  have sl: "sleep_list s = t # ts" using Cons.hyps(2) by simp
  then have tin: "t \<in> set (sleep_list s)" by simp
  note sp = sleeper_thread [OF Cons.prems(1) tin]
  obtain x where x: "thr s t = Some x" "status x = THREAD_BLOCKED" using sp(1) by auto
  show ?case
  proof (cases "ticks s < wake_ticks x")
    case True
    then show ?thesis using sl x Cons.prems(1) by simp
  next
    case False
    let ?s0 = "s\<lparr>sleep_list := ts\<rparr>"
    let ?s1 = "?s0\<lparr>ready_list := insert_ord (compare_priority ?s0) t (ready_list s),
      thr := (thr s)(t \<mapsto> x\<lparr>status := THREAD_READY\<rparr>)\<rparr>"
    have u: "thread_unblock t ?s0 = Some ?s1"
      by (subst thread_unblock_eq [of _ _ x]) (use x sp(2) Cons.prems(2) in simp_all)
    have dts: "distinct ts" "set ts = set (sleep_list s) - {t}"
    proof -
      have "sched_ok (st_of s) (frames s) (ready_list s) (sleep_list s) (all_list s) (wt_of s) (idle_thread s)"
        using Cons.prems by (simp add: kstate)
      from sched_okD(4) [OF this] sl show "distinct ts" "set ts = set (sleep_list s) - {t}" by auto
    qed
    have "kpre (s\<lparr>ready_list := insert_ord (compare_priority ?s0) t (ready_list s),
      thr := (thr s)(t \<mapsto> x\<lparr>status := THREAD_READY\<rparr>), sleep_list := ts, semas := semas s\<rparr>)"
    proof (rule kpre_wake [OF Cons.prems(1) x sp(3,4,5) dts])
      show "\<exists>m. semas s y = Some m \<and> distinct (waiters m') \<and> set (waiters m') = set (waiters m) - {t}"
        if "semas s y = Some m'" for y m'
        using that sp(6) [OF that] waiters_distinct [OF Cons.prems(1) that] by simp
      show "locks_ok (st_of s) (lock_holder s) (vl_of s) (tid_lock s)" using Cons.prems(1) by (simp add: kstate)
    qed auto
    then have k1: "kpre ?s1" by (simp add: kstate)
    have "\<exists>s'. wake_loop (sleep_list ?s1) ?s1 = Some s' \<and> kpre s' \<and> wake_views ?s1 s'"
      by (rule Cons.hyps(1)) (use k1 Cons.prems(2) in simp_all)
    then obtain s' where s': "wake_loop ts ?s1 = Some s'" "kpre s'" "wake_views ?s1 s'" by auto
    have "wake_views s ?s1"
      unfolding wake_views_def by (intro exI kernel.equality) simp_all
    then have "wake_views s s'" using s'(3) by (rule wake_views_trans)
    then show ?thesis using s' sl x False u by simp
  qed
qed

lemma timer_interrupt_ok:
  assumes s: "kpre s" and o: "\<not> intr_on s" and e: "in_external_intr s" and l: "thread_mlfqs s \<Longrightarrow> load_ok s"
  shows "\<exists>s'. timer_interrupt s = Some s' \<and> kpre s' \<and> frames s' = frames s \<and> cur s' = cur s \<and>
    \<not> intr_on s' \<and> in_external_intr s' \<and> all_list s' = all_list s \<and> (thread_mlfqs s \<longrightarrow> load_range (load_avg s'))
    \<and> (\<not> thread_mlfqs s \<longrightarrow> load_avg s' = load_avg s)"
proof -
  let ?s0 = "s\<lparr>ticks := i64 (ticks s + 1)\<rparr>"
  have "kpre ?s0" using s by simp
  from thread_tick_ok [OF this] obtain i k u where
    tt: "thread_tick ?s0 = Some (?s0\<lparr>idle_ticks := i, kernel_ticks := k, user_ticks := u\<rparr>)" by blast
  let ?s1 = "?s0\<lparr>idle_ticks := i, kernel_ticks := k, user_ticks := u\<rparr>"
  have k1: "kpre ?s1" using s by simp
  have "\<exists>s4. (if thread_mlfqs ?s1 then do {
         s \<leftarrow> mlfqs_increment_recentcpu ?s1;
         s \<leftarrow> (if ticks s smod TIMER_FREQ = 0 then do {
             s \<leftarrow> mlfqs_calculate_load_avg s;
             mlfqs_calculation_recentcpu_priority s }
           else Some s);
         if ticks s smod RECALCU_FREQ = 0 then do {
           _ \<leftarrow> thread_current s; mlfqs_calculate_priority (cur s) s }
         else Some s }
       else Some ?s1) = Some s4 \<and> tick_views ?s1 s4 \<and> (thread_mlfqs s \<longrightarrow> load_range (load_avg s4))
       \<and> (\<not> thread_mlfqs s \<longrightarrow> load_avg s4 = load_avg s)"
  proof (cases "thread_mlfqs s")
    case False
    then show ?thesis by (auto intro: tick_viewsI)
  next
    case True
    have lo: "load_ok ?s1" using l [OF True] by (simp add: load_ok_def)
    obtain s2 where s2: "mlfqs_increment_recentcpu ?s1 = Some s2" "same_views ?s1 s2"
      using increment_recentcpu_ok [OF k1] by blast
    have k2: "kpre s2" using same_views_kpre [OF s2(2)] k1 by simp
    have lo2: "load_ok s2"
      using lo same_views_load [OF s2(2)] same_views_fields(15) [OF s2(2)] by (simp add: load_ok_def)
    have "\<exists>s3. (if ticks s2 smod TIMER_FREQ = 0 then do {
             s \<leftarrow> mlfqs_calculate_load_avg s2; mlfqs_calculation_recentcpu_priority s }
           else Some s2) = Some s3 \<and> tick_views s2 s3 \<and> load_range (load_avg s3)"
    proof (cases "ticks s2 smod TIMER_FREQ = 0")
      case False
      then show ?thesis using lo2 by (auto intro: tick_viewsI simp: load_ok_def)
    next
      case tf: True
      obtain la where la: "mlfqs_calculate_load_avg s2 = Some (s2\<lparr>load_avg := la\<rparr>)" "load_range la"
        using calculate_load_avg_ok [OF k2 lo2] by blast
      let ?sl = "s2\<lparr>load_avg := la\<rparr>"
      have kl: "kpre ?sl" using k2 by simp
      have "\<forall>t\<in>set (all_list ?sl). thr ?sl t \<noteq> None"
        using k2 by (auto simp: kstate sched_ok_def alive_def)
      from recalculate_ok [OF kl this] la(2) obtain s3 where
        s3: "mlfqs_recalculate (all_list ?sl) ?sl = Some s3" "same_views ?sl s3" by auto
      obtain f where "s3 = s2\<lparr>load_avg := la, thr := f\<rparr>" using s3(2) by (auto simp: same_views_def)
      then have "s3 = s2\<lparr>thr := f, load_avg := la\<rparr>" by simp
      then have "tick_views s2 s3" using s3(2) unfolding tick_views_def same_views_def by auto
      then show ?thesis using tf la s3 same_views_load [OF s3(2)]
        by (simp add: mlfqs_calculation_recentcpu_priority_def)
    qed
    then obtain s3 where s3: "(if ticks s2 smod TIMER_FREQ = 0 then do {
             s \<leftarrow> mlfqs_calculate_load_avg s2; mlfqs_calculation_recentcpu_priority s }
           else Some s2) = Some s3" "tick_views s2 s3" "load_range (load_avg s3)" by blast
    have k3: "kpre s3" using tick_views_kpre [OF s3(2) k2] .
    obtain x where x: "thread_current s3 = Some x" "thr s3 (cur s3) \<noteq> None"
      using thread_current_pre [OF k3] by auto
    have "\<exists>s4. (if ticks s3 smod RECALCU_FREQ = 0 then do {
           _ \<leftarrow> thread_current s3; mlfqs_calculate_priority (cur s3) s3 } else Some s3) = Some s4 \<and> same_views s3 s4"
      using calculate_priority_ok [OF k3 x(2)] x(1) by simp
    then obtain s4 where s4: "(if ticks s3 smod RECALCU_FREQ = 0 then do {
           _ \<leftarrow> thread_current s3; mlfqs_calculate_priority (cur s3) s3 } else Some s3) = Some s4" "same_views s3 s4" by blast
    have "tick_views ?s1 s4"
      using tick_viewsI [OF s2(2)] s3(2) tick_viewsI [OF s4(2)] by (blast intro: tick_views_trans)
    then show ?thesis using True s2(1) s3(1,3) s4 same_views_load [OF s4(2)] by simp
  qed
  then obtain s4 where s4: "(if thread_mlfqs ?s1 then do {
         s \<leftarrow> mlfqs_increment_recentcpu ?s1;
         s \<leftarrow> (if ticks s smod TIMER_FREQ = 0 then do {
             s \<leftarrow> mlfqs_calculate_load_avg s;
             mlfqs_calculation_recentcpu_priority s }
           else Some s);
         if ticks s smod RECALCU_FREQ = 0 then do {
           _ \<leftarrow> thread_current s; mlfqs_calculate_priority (cur s) s }
         else Some s }
       else Some ?s1) = Some s4" "tick_views ?s1 s4" "thread_mlfqs s \<longrightarrow> load_range (load_avg s4)"
       "\<not> thread_mlfqs s \<longrightarrow> load_avg s4 = load_avg s" by blast
  note f4 = tick_views_fields [OF s4(2)]
  have k4: "kpre s4" using tick_views_kpre [OF s4(2) k1] .
  obtain s5 where s5: "wake_loop (sleep_list s4) s4 = Some s5" "kpre s5" "wake_views s4 s5"
    using wake_loop_ok [OF k4] f4 o by auto
  note f5 = wake_views_fields [OF s5(3)]
  obtain n b where m: "iscurrent_thread_has_max_priority s5 = Some (s5\<lparr>thread_ticks := n, yield_on_return := b\<rparr>)"
    using max_priority_intr [OF s5(2)] f5 f4 e by auto
  have "timer_interrupt s = Some (s5\<lparr>thread_ticks := n, yield_on_return := b\<rparr>)"
    using tt s4(1) s5(1) m by (simp add: timer_interrupt_def Let_def)
  then show ?thesis using s5(2) f5 f4 s4(3,4) o e by simp
qed

lemma timer_step_ok:
  assumes s: "kinv s" and o: "intr_on s" and l: "thread_mlfqs s \<Longrightarrow> load_ok s"
  shows "\<exists>s'. external_interrupt timer_interrupt s = Some s' \<and> kinv s'"
proof -
  have k: "kpre s" and e: "\<not> in_external_intr s" and tl: "top_locked (frames s (cur s)) = None"
    using s o by (auto simp: kinv_def lock_top_def)
  let ?s1 = "push_frame (SetLevel True) (s\<lparr>intr_on := False\<rparr>)"
  have k1: "kpre ?s1" using k tl by (intro kpre_push_SetLevel) simp_all
  let ?s2 = "?s1\<lparr>in_external_intr := True, yield_on_return := False\<rparr>"
  have "load_ok ?s2" if "thread_mlfqs s" using l [OF that] by (simp add: load_ok_def push_frame_def)
  then have "\<exists>s'. timer_interrupt ?s2 = Some s' \<and> kpre s' \<and> frames s' = frames ?s2 \<and> cur s' = cur ?s2 \<and>
    \<not> intr_on s' \<and> in_external_intr s'"
    using timer_interrupt_ok [of ?s2] k1 by (simp add: push_frame_def) blast
  then obtain s3 where s3: "timer_interrupt ?s2 = Some s3" "kpre s3" "frames s3 = frames ?s2"
    "cur s3 = cur s" "\<not> intr_on s3" "in_external_intr s3" by auto
  let ?s4 = "s3\<lparr>in_external_intr := False\<rparr>"
  have k4: "kpre ?s4" using s3(2) by simp
  have t4: "top_locked (frames ?s4 (cur ?s4)) = None" using s3 by simp
  have "\<exists>s'. (if yield_on_return ?s4 then thread_yield ?s4 else Some ?s4) = Some s' \<and> kinv s'"
    using thread_yield_ok [OF k4 _ t4] kinvI [OF k4 t4] by simp
  moreover have "external_interrupt timer_interrupt s = (if yield_on_return ?s4 then thread_yield ?s4 else Some ?s4)"
    using e o s3 by (simp add: external_interrupt_def Let_def)
  ultimately show ?thesis by simp
qed

lemma thread_set_nice_ok:
  assumes s: "kpre s" and e: "\<not> in_external_intr s" and l: "top_locked (frames s (cur s)) = None"
  shows "\<exists>s'. thread_set_nice n s = Some s' \<and> kinv s'"
proof -
  let ?s1 = "intr_disable s"
  have k1: "kpre ?s1" using s by simp
  obtain x where x: "thr s (cur s) = Some x" "thread_current ?s1 = Some x"
    using thread_current_pre [OF k1] by (auto simp: intr_disable_def)
  let ?s2 = "?s1\<lparr>thr := (thr s)(cur s \<mapsto> x\<lparr>nice := n\<rparr>)\<rparr>"
  have v2: "same_views ?s1 ?s2" using same_views_thr [of ?s1 "cur s" x "x\<lparr>nice := n\<rparr>"] x by (simp add: intr_disable_def)
  have k2: "kpre ?s2" using same_views_kpre [OF v2] k1 by simp
  obtain s3 where s3: "mlfqs_calculate_priority (cur s) ?s2 = Some s3" "same_views ?s2 s3"
    using calculate_priority_ok [OF k2, of "cur s"] by auto
  have k3: "kpre s3" using same_views_kpre [OF s3(2)] k2 by simp
  have f3: "frames s3 = frames s" "cur s3 = cur s" "in_external_intr s3 = in_external_intr s"
    using same_views_fields [OF s3(2)] by (simp_all add: intr_disable_def)
  have k4: "kpre (push_frame (SetLevel (intr_on s)) s3)" using k3 l f3 by (intro kpre_push_SetLevel) simp_all
  have "\<exists>s'. iscurrent_thread_has_max_priority (push_frame (SetLevel (intr_on s)) s3) = Some s' \<and> kinv s'"
    by (rule max_priority_ok [OF k4]) (use e f3 in simp_all)
  moreover have "thread_set_nice n s = iscurrent_thread_has_max_priority (push_frame (SetLevel (intr_on s)) s3)"
    using x s3(1) by (simp add: thread_set_nice_def upd_thread_def intr_disable_def Let_def)
  ultimately show ?thesis by simp
qed

end
