(* ===== verification/Kernel_Safety.thy ===== *)
theory Kernel_Safety
  imports Kernel_Tick
begin

text \<open>
  The theorems about the kernel machine: the invariant holds at boot and after every step, no
  step of a reachable state panics (but for one case, the sort in \<open>cond_signal\<close>), and what
  the invariant says of scheduling and of mutual exclusion.
\<close>

section \<open>Operations that leave the load average and the thread list alone\<close>

named_theorems keeps

abbreviation keep :: "kernel \<Rightarrow> kernel \<Rightarrow> bool" where
  "keep s s' \<equiv> load_avg s' = load_avg s \<and> all_list s' = all_list s \<and> thread_mlfqs s' = thread_mlfqs s"

lemma keep_basic [simp]:
  "load_avg (push_frame k s) = load_avg s" "all_list (push_frame k s) = all_list s"
  "load_avg (intr_disable s) = load_avg s" "all_list (intr_disable s) = all_list s"
  "thread_mlfqs (intr_disable s) = thread_mlfqs s"
  by (simp_all add: push_frame_def intr_disable_def)

lemmas bind_Some = Option.bind_eq_Some_conv

lemma keep_upd_thread [keeps]: "upd_thread t f s = Some s' \<Longrightarrow> keep s s'"
  by (auto simp: upd_thread_def split: option.split_asm)

lemma keep_upd_sema [keeps]: "upd_sema x f s = Some s' \<Longrightarrow> keep s s'"
  by (auto simp: upd_sema_def split: option.split_asm)

lemma keep_intr_enable [keeps]: "intr_enable s = Some s' \<Longrightarrow> keep s s'"
  by (auto simp: intr_enable_def split: if_split_asm)

lemma keep_intr_set_level [keeps]: "intr_set_level b s = Some s' \<Longrightarrow> keep s s'"
  by (auto simp: intr_set_level_def intr_enable_def split: if_split_asm)

lemma keep_tail [keeps]: "thread_schedule_tail p s = Some s' \<Longrightarrow> keep s s'"
  by (auto simp: thread_schedule_tail_def bind_Some Let_def split: if_split_asm dest!: keeps)

lemma keep_schedule [keeps]: "schedule s = Some s' \<Longrightarrow> keep s s'"
  by (auto simp: schedule_def next_thread_to_run_def bind_Some Let_def split: if_split_asm list.split_asm dest!: keeps)

lemma keep_block [keeps]: "thread_block s = Some s' \<Longrightarrow> keep s s'"
  by (auto simp: thread_block_def bind_Some split: if_split_asm dest!: keeps)

lemma keep_unblock [keeps]: "thread_unblock t s = Some s' \<Longrightarrow> keep s s'"
  by (auto simp: thread_unblock_def bind_Some Let_def split: if_split_asm dest!: keeps)

lemma keep_yield [keeps]: "thread_yield s = Some s' \<Longrightarrow> keep s s'"
  by (auto simp: thread_yield_def bind_Some Let_def split: if_split_asm dest!: keeps)

lemma bindE:
  assumes "a \<bind> f = Some r"
  obtains x where "a = Some x" "f x = Some r"
  using assms by (cases a) auto

lemma keep_max_priority [keeps]:
  assumes "iscurrent_thread_has_max_priority s = Some s'"
  shows "keep s s'"
proof (cases "ready_list s")
  case Nil
  with assms show ?thesis by (simp add: iscurrent_thread_has_max_priority_def)
next
  case (Cons f fs)
  show ?thesis
  proof (cases "in_external_intr s")
    case True
    from assms Cons True show ?thesis
      unfolding iscurrent_thread_has_max_priority_def Let_def
      by simp (elim bindE, auto simp: intr_yield_on_return_def split: if_split_asm elim!: bindE)
  next
    case False
    from assms Cons False show ?thesis
      unfolding iscurrent_thread_has_max_priority_def Let_def
      by simp (elim bindE, auto split: if_split_asm dest!: keep_yield)
  qed
qed

lemma keep_donation [keeps]: "donation_loop n t l s = Some s' \<Longrightarrow> keep s s'"
proof (induction n arbitrary: t l s)
  case (Suc n)
  show ?case
  proof (cases "donation_loop (Suc n) t l s = Some s")
    case False
    with Suc.prems obtain h hx s1 where "upd_thread h hx s = Some s1"
      "\<exists>w. donation_loop n h w s1 = Some s'"
      by (auto simp: bind_Some split: if_split_asm)
    then show ?thesis using Suc.IH keep_upd_thread by metis
  qed (use Suc.prems in simp)
qed simp

lemma keep_donation_solve [keeps]: "priority_donation_solve s = Some s' \<Longrightarrow> keep s s'"
  by (auto simp: priority_donation_solve_def bind_Some dest!: keeps)

lemma keep_remove [keeps]: "remove_donation_list_waiting_lock l s = Some s' \<Longrightarrow> keep s s'"
  by (auto simp: remove_donation_list_waiting_lock_def bind_Some dest!: keeps)

lemma keep_check [keeps]:
  assumes "priority_check_from_donation_list s = Some s'"
  shows "keep s s'"
  using assms unfolding priority_check_from_donation_list_def
  by (elim bindE) (auto split: list.split_asm if_split_asm elim!: bindE dest!: keep_upd_thread)

lemma keep_set_priority [keeps]: "thread_set_priority p s = Some s' \<Longrightarrow> keep s s'"
  by (auto simp: thread_set_priority_def bind_Some Let_def split: if_split_asm dest!: keeps)

lemma keep_calculate_priority [keeps]: "mlfqs_calculate_priority t s = Some s' \<Longrightarrow> keep s s'"
  by (auto simp: mlfqs_calculate_priority_def bind_Some split: if_split_asm dest!: keeps)

lemma keep_set_nice [keeps]: "thread_set_nice n s = Some s' \<Longrightarrow> keep s s'"
  by (auto simp: thread_set_nice_def bind_Some Let_def dest!: keeps)

lemma keep_sema_down_loop [keeps]: "sema_down_loop x b s = Some s' \<Longrightarrow> keep s s'"
  by (auto simp: sema_down_loop_def bind_Some split: if_split_asm dest!: keeps)

lemma keep_sema_down [keeps]: "sema_down x s = Some s' \<Longrightarrow> keep s s'"
  by (auto simp: sema_down_def bind_Some split: if_split_asm dest!: keeps)

lemma keep_sema_try_down [keeps]: "sema_try_down x s = Some (b, s') \<Longrightarrow> keep s s'"
  by (auto simp: sema_try_down_def bind_Some Let_def split: if_split_asm dest!: keeps)

lemma keep_sema_up [keeps]: "sema_up x s = Some s' \<Longrightarrow> keep s s'"
  by (auto simp: sema_up_def bind_Some Let_def split: if_split_asm list.split_asm dest!: keeps)

lemma keep_lock_init [keeps]: "lock_init l s = Some s' \<Longrightarrow> keep s s'"
  by (auto simp: lock_init_def sema_init_def split: if_split_asm)

lemma keep_lock_acquire [keeps]: "lock_acquire l s = Some s' \<Longrightarrow> keep s s'"
  by (auto simp: lock_acquire_def bind_Some Let_def split: if_split_asm dest!: keeps)

lemma keep_lock_acquired [keeps]: "lock_acquired l b s = Some s' \<Longrightarrow> keep s s'"
  by (auto simp: lock_acquired_def bind_Some dest!: keeps)

lemma keep_lock_try_acquire [keeps]: "lock_try_acquire l s = Some (b, s') \<Longrightarrow> keep s s'"
  by (auto simp: lock_try_acquire_def bind_Some Let_def split: if_split_asm dest!: keeps)

lemma keep_lock_release [keeps]: "lock_release l s = Some s' \<Longrightarrow> keep s s'"
  by (auto simp: lock_release_def bind_Some Let_def split: if_split_asm dest!: keeps)

lemma keep_cond_wait [keeps]: "cond_wait c l s = Some s' \<Longrightarrow> keep s s'"
  by (auto simp: cond_wait_def sema_init_def bind_Some Let_def split: if_split_asm dest!: keeps)

lemma keep_cond_signal [keeps]: "cond_signal c l s = Some s' \<Longrightarrow> keep s s'"
  unfolding cond_signal_def
  by (elim bindE) (auto split: list.split_asm elim!: bindE dest!: keep_sema_up)

lemma keep_cond_broadcast [keeps]: "cond_broadcast c l s = Some s' \<Longrightarrow> keep s s'"
  by (auto simp: cond_broadcast_def bind_Some split: if_split_asm dest!: keep_cond_signal)

lemma keep_cond_init [keeps]: "cond_init c s = Some s' \<Longrightarrow> keep s s'"
  by (auto simp: cond_init_def split: if_split_asm)

lemma keep_create_got [keeps]: "create_got_tid_lock t p s = Some s' \<Longrightarrow> keep s s'"
  by (auto simp: create_got_tid_lock_def Let_def dest!: keeps)

lemma keep_add_process [keeps]: "add_process_current_thread n p s = Some s' \<Longrightarrow> keep s s'"
  by (auto simp: add_process_current_thread_def bind_Some Let_def split: if_split_asm dest!: keeps)

lemma keep_create_tail [keeps]: "create_tail t p n s = Some s' \<Longrightarrow> keep s s'"
  by (auto simp: create_tail_def bind_Some Let_def dest!: keeps)

lemma keep_timer_sleep [keeps]: "timer_sleep n s = Some s' \<Longrightarrow> keep s s'"
  by (auto simp: timer_sleep_def bind_Some Let_def split: if_split_asm dest!: keeps)

lemma keep_idle [keeps]: "idle_loop s = Some s' \<Longrightarrow> keep s s'" "idle_hlt s = Some s' \<Longrightarrow> keep s s'"
  "idle_start x s = Some s' \<Longrightarrow> keep s s'"
  by (auto simp: idle_loop_def idle_hlt_def idle_start_def bind_Some dest!: keeps)

section \<open>A thread that comes back to the loop of sema_down\<close>

text \<open>
  Nothing is ever pushed on a \<open>SemaDownLoop\<close> frame: it is pushed right before the thread
  blocks, and the thread is switched to with interrupts off and goes straight to the loop head.
\<close>

fun down_frame :: "frame \<Rightarrow> bool" where
  "down_frame (SemaDownLoop y b) = True"
| "down_frame _ = False"

definition downs_top :: "kernel \<Rightarrow> bool" where
  "downs_top s \<longleftrightarrow> (\<forall>t. list_all (\<lambda>k. \<not> down_frame k) (tl (frames s t)))"

definition no_down :: "kernel \<Rightarrow> bool" where
  "no_down s \<longleftrightarrow> downs_top s \<and> list_all (\<lambda>k. \<not> down_frame k) (frames s (cur s))"

definition down_off :: "kernel \<Rightarrow> bool" where
  "down_off s \<longleftrightarrow> downs_top s \<and> (intr_on s \<longrightarrow> list_all (\<lambda>k. \<not> down_frame k) (frames s (cur s)))"

lemmas down_defs = downs_top_def no_down_def down_off_def

named_theorems still and downs

abbreviation still :: "kernel \<Rightarrow> kernel \<Rightarrow> bool" where
  "still s s' \<equiv> frames s' = frames s \<and> cur s' = cur s"

lemma in_set_tlD: "x \<in> set (tl xs) \<Longrightarrow> x \<in> set xs"
  by (cases xs) auto

lemma no_down_still: "still s s' \<Longrightarrow> no_down s' = no_down s"
  by (simp add: down_defs)

lemma no_down_off: "no_down s \<Longrightarrow> down_off s"
  by (simp add: down_defs)

lemma no_down_push [simp]: "\<not> down_frame k \<Longrightarrow> no_down (push_frame k s) = no_down s"
  by (auto simp: down_defs push_frame_def list_all_iff dest: in_set_tlD split: if_split_asm)

lemma downs_top_push: "no_down s \<Longrightarrow> downs_top (push_frame k s)"
  by (auto simp: down_defs push_frame_def)

lemma no_down_pop: "downs_top s \<Longrightarrow> no_down (pop_frame s)"
  by (auto simp: down_defs pop_frame_def list_all_iff dest: in_set_tlD)

lemma no_down_disable [simp]: "no_down (intr_disable s) = no_down s"
  by (simp add: down_defs intr_disable_def)

lemma still_disable [simp]: "frames (intr_disable s) = frames s" "cur (intr_disable s) = cur s"
  by (simp_all add: intr_disable_def)

lemma still_upd_thread [still]: "upd_thread t f s = Some s' \<Longrightarrow> still s s'"
  by (auto simp: upd_thread_def split: option.split_asm)

lemma still_upd_sema [still]: "upd_sema x f s = Some s' \<Longrightarrow> still s s'"
  by (auto simp: upd_sema_def split: option.split_asm)

lemma still_intr_enable [still]: "intr_enable s = Some s' \<Longrightarrow> still s s'"
  by (auto simp: intr_enable_def split: if_split_asm)

lemma still_intr_set_level [still]: "intr_set_level b s = Some s' \<Longrightarrow> still s s'"
  by (auto simp: intr_set_level_def intr_enable_def intr_disable_def split: if_split_asm)

lemma still_unblock [still]: "thread_unblock t s = Some s' \<Longrightarrow> still s s'"
  by (auto simp: thread_unblock_def intr_disable_def Let_def elim!: bindE dest!: still split: if_split_asm)

lemma still_donation [still]: "donation_loop n t l s = Some s' \<Longrightarrow> still s s'"
proof (induction n arbitrary: t l s)
  case (Suc n)
  show ?case
  proof (cases "donation_loop (Suc n) t l s = Some s")
    case False
    with Suc.prems obtain h hx s1 where "upd_thread h hx s = Some s1"
      "\<exists>w. donation_loop n h w s1 = Some s'"
      by (auto simp: bind_Some split: if_split_asm)
    then show ?thesis using Suc.IH still_upd_thread by metis
  qed (use Suc.prems in simp)
qed simp

lemma still_donation_solve [still]: "priority_donation_solve s = Some s' \<Longrightarrow> still s s'"
  by (auto simp: priority_donation_solve_def elim!: bindE dest!: still)

lemma still_remove [still]: "remove_donation_list_waiting_lock l s = Some s' \<Longrightarrow> still s s'"
  by (auto simp: remove_donation_list_waiting_lock_def elim!: bindE dest!: still)

lemma still_check [still]:
  assumes "priority_check_from_donation_list s = Some s'"
  shows "still s s'"
  using assms unfolding priority_check_from_donation_list_def
  by (elim bindE) (auto split: list.split_asm if_split_asm elim!: bindE dest!: still_upd_thread)

lemma still_calculate_priority [still]: "mlfqs_calculate_priority t s = Some s' \<Longrightarrow> still s s'"
  by (auto simp: mlfqs_calculate_priority_def split: if_split_asm elim!: bindE dest!: still)

lemma still_try_down [still]: "sema_try_down x s = Some (b, s') \<Longrightarrow> still s s'"
  by (auto simp: sema_try_down_def intr_disable_def Let_def split: if_split_asm elim!: bindE dest!: still)

lemma still_try_acquire [still]: "lock_try_acquire l s = Some (b, s') \<Longrightarrow> still s s'"
  by (auto simp: lock_try_acquire_def intr_disable_def Let_def split: if_split_asm elim!: bindE dest!: still)

lemma still_lock_init [still]: "lock_init l s = Some s' \<Longrightarrow> still s s'"
  by (auto simp: lock_init_def sema_init_def split: if_split_asm)

lemma still_lock_acquired [still]: "lock_acquired l b s = Some s' \<Longrightarrow> still s s'"
  by (auto simp: lock_acquired_def elim!: bindE dest!: still)

lemma still_add_process [still]: "add_process_current_thread n p s = Some s' \<Longrightarrow> still s s'"
  by (auto simp: add_process_current_thread_def Let_def split: if_split_asm elim!: bindE dest!: still)

lemma down_schedule [downs]: "schedule s = Some s' \<Longrightarrow> downs_top s \<Longrightarrow> down_off s'"
  by (auto simp: schedule_def thread_schedule_tail_def next_thread_to_run_def upd_thread_def down_defs Let_def
      split: if_split_asm list.split_asm option.split_asm elim!: bindE)

lemma downs_top_still: "still s s' \<Longrightarrow> downs_top s' = downs_top s"
  by (simp add: down_defs)

lemma down_block [downs]: "thread_block s = Some s' \<Longrightarrow> downs_top s \<Longrightarrow> down_off s'"
  unfolding thread_block_def
  by (elim bindE) (metis still_upd_thread downs_top_still down_schedule)

lemma down_yield [downs]: "thread_yield s = Some s' \<Longrightarrow> no_down s \<Longrightarrow> down_off s'"
  unfolding thread_yield_def Let_def
  by (elim bindE, erule down_schedule)
    (auto simp: upd_thread_def push_frame_def intr_disable_def down_defs split: option.split_asm)

lemma down_max_priority [downs]:
  assumes "iscurrent_thread_has_max_priority s = Some s'" and "no_down s"
  shows "down_off s'"
proof (cases "ready_list s")
  case Nil
  with assms show ?thesis by (simp add: iscurrent_thread_has_max_priority_def no_down_off)
next
  case (Cons f fs)
  show ?thesis
  proof (cases "in_external_intr s")
    case True
    from assms(1) Cons True have "still s s'"
      unfolding iscurrent_thread_has_max_priority_def Let_def
      by simp (elim bindE, auto simp: intr_yield_on_return_def split: if_split_asm elim!: bindE)
    then show ?thesis using assms(2) no_down_still no_down_off by blast
  next
    case False
    from assms(1) Cons False have "thread_yield s = Some s' \<or> s' = s"
      unfolding iscurrent_thread_has_max_priority_def Let_def
      by simp (elim bindE, auto split: if_split_asm)
    then show ?thesis using assms(2) down_yield no_down_off by blast
  qed
qed

lemma down_set_priority [downs]:
  assumes "thread_set_priority p s = Some s'" and n: "no_down s"
  shows "down_off s'"
proof (cases "thread_mlfqs s")
  case False
  with assms(1) show ?thesis
    unfolding thread_set_priority_def Let_def if_not_P [OF False]
    apply (elim bindE)
    subgoal premises pr for c s1 s2 c1 s3 c2
    proof -
      have "still s s1" using still_upd_thread [OF pr(3)] by simp
      moreover have "still s1 s2" using pr(4) by (rule still_check)
      moreover have "still s2 s3" using pr(6) still_donation_solve [of s2 s3] by (cases "priority c < priority c1") simp_all
      ultimately have m: "no_down (push_frame (SetLevel (intr_on s)) s3)" using n no_down_still [of s s3] by simp
      show ?thesis
        using pr(8) down_max_priority [OF _ m] no_down_off [OF m] by (simp split: if_split_asm)
    qed
    done
qed (use assms in \<open>auto simp: thread_set_priority_def no_down_off\<close>)

lemma down_set_nice [downs]: "thread_set_nice n s = Some s' \<Longrightarrow> no_down s \<Longrightarrow> down_off s'"
  unfolding thread_set_nice_def Let_def
  by (elim bindE, erule down_max_priority)
    (metis no_down_push down_frame.simps(2) no_down_still still_upd_thread still_calculate_priority no_down_disable)

lemma down_sema_down_loop [downs]:
  assumes "sema_down_loop x b s = Some s'" and "no_down s"
  shows "down_off s'"
proof -
  from assms(1) obtain m where m: "semas s x = Some m" by (auto simp: sema_down_loop_def elim!: bindE)
  show ?thesis
  proof (cases "sm_value m = 0")
    case True
    with assms(1) m show ?thesis
      unfolding sema_down_loop_def
      apply (simp split del: if_split)
      apply (elim bindE)
      subgoal premises pr for s1 c s2
      proof -
        have "still s s1" using pr(3) still_donation_solve [of s s1] by (cases "thread_mlfqs s") simp_all
        moreover have "still s1 s2" using pr(5) by (rule still_upd_sema)
        ultimately have "no_down s2" using assms(2) no_down_still [of s s2] by simp
        from down_block [OF pr(6) downs_top_push [OF this]] show ?thesis .
      qed
      done
  next
    case False
    with assms(1) m have "still s s'" unfolding sema_down_loop_def by (auto elim!: bindE dest!: still)
    with assms(2) show ?thesis using no_down_still no_down_off by blast
  qed
qed

lemma down_sema_down [downs]: "sema_down x s = Some s' \<Longrightarrow> no_down s \<Longrightarrow> down_off s'"
  unfolding sema_down_def by (elim bindE, erule down_sema_down_loop) simp

lemma down_sema_up [downs]:
  assumes "sema_up x s = Some s'" and n: "no_down s"
  shows "down_off s'"
  using assms(1) unfolding sema_up_def Let_def
  apply (elim bindE)
  subgoal premises pr for m s1 s2
  proof -
    have "still s s1"
      using pr(2) by (auto split: list.split_asm elim!: bindE dest!: still_upd_sema still_unblock)
    moreover have "still s1 s2" using pr(3) by (rule still_upd_sema)
    ultimately have m: "no_down s2" using n no_down_still [of s s2] by simp
    then have m': "no_down (push_frame (SetLevel (intr_on s)) s2)" by simp
    show ?thesis
      using pr(4) down_max_priority [OF _ m'] no_down_off [of s'] no_down_still [of s2 s'] m
        still_intr_set_level [of "intr_on s" s2 s'] by (cases "in_external_intr s2") simp_all
  qed
  done

lemma down_lock_acquire [downs]:
  assumes "lock_acquire l s = Some s'" and n: "no_down s"
  shows "down_off s'"
  using assms(1) unfolding lock_acquire_def Let_def
  apply (elim bindE)
  subgoal premises pr for u u' b u'' h s2
  proof -
    have "still s s2"
      using pr(6) by (cases "\<not> thread_mlfqs (intr_disable s) \<and> h \<noteq> NULL") (auto elim!: bindE dest!: still_upd_thread)
    with n have "no_down s2" using no_down_still [of s s2] by simp
    with pr(7) show ?thesis by (auto intro: down_sema_down)
  qed
  done

lemma down_lock_release [downs]:
  assumes "lock_release l s = Some s'" and n: "no_down s"
  shows "down_off s'"
  using assms(1) unfolding lock_release_def Let_def
  apply (elim bindE)
  subgoal premises pr for u b u' s2
  proof -
    have "still s s2"
      using pr(4) by (cases "thread_mlfqs s") (auto elim!: bindE dest!: still_remove still_check)
    with n have "no_down s2" using no_down_still [of s s2] by simp
    with pr(5) show ?thesis by (auto intro: down_sema_up)
  qed
  done

lemma no_down_simps [simp]:
  "no_down (sema_init x v s) = no_down s"
  "no_down (s\<lparr>conds := cd\<rparr>) = no_down s" "no_down (s\<lparr>next_tid := n\<rparr>) = no_down s"
  "no_down (s\<lparr>sleep_list := sl\<rparr>) = no_down s" "no_down (s\<lparr>all_list := al\<rparr>) = no_down s"
  "no_down (s\<lparr>thr := th\<rparr>) = no_down s" "no_down (s\<lparr>intr_on := b\<rparr>) = no_down s"
  by (simp_all add: down_defs sema_init_def)

lemma down_cond_wait [downs]:
  "cond_wait c l s = Some s' \<Longrightarrow> no_down s \<Longrightarrow> down_off s'"
  unfolding cond_wait_def Let_def by (elim bindE, erule down_lock_release) simp

lemma down_cond_signal [downs]:
  assumes "cond_signal c l s = Some s'" and n: "no_down s"
  shows "down_off s'"
  using assms(1) unfolding cond_signal_def Let_def
  apply (elim bindE)
  subgoal premises pr for u1 u2 u3 b u4 ws
    using pr(7) n by (cases ws) (auto simp: no_down_off split: list.split_asm elim!: bindE dest!: down_sema_up)
  done

lemma down_cond_broadcast [downs]:
  assumes "cond_broadcast c l s = Some s'" and n: "no_down s"
  shows "down_off s'"
  using assms(1) unfolding cond_broadcast_def
  apply (elim bindE)
  subgoal premises pr for u1 u2 ws
    using pr(4) n by (cases "ws = []") (auto simp: no_down_off dest: down_cond_signal)
  done

lemma down_timer_sleep [downs]:
  assumes "timer_sleep n s = Some s'" and m: "no_down s"
  shows "down_off s'"
proof (cases "n \<le> 0")
  case False
  with assms(1) show ?thesis
    unfolding timer_sleep_def Let_def if_not_P [OF False]
    apply (elim bindE)
    subgoal premises pr for u c s2
    proof -
      have "no_down s2" using m still_upd_thread [OF pr(4)] no_down_still [of s s2] by simp
      from down_block [OF pr(5) downs_top_push] this show ?thesis by simp
    qed
    done
qed (use assms in \<open>auto simp: timer_sleep_def no_down_off split: if_split_asm\<close>)

lemma down_thread_create [downs]:
  assumes "thread_create t pri p [] s = Some s'" and n: "no_down s" and t: "frames s t = []"
  shows "down_off s'"
proof (cases "t = NULL")
  case False
  with assms(1) show ?thesis
    unfolding thread_create_def Let_def if_not_P [OF False]
    apply (elim bindE)
    subgoal premises pr for s1
    proof -
      let ?s = "s1\<lparr>frames := (frames s1)(t := [KernelThread])\<rparr>"
      have e: "frames s1 = (frames s)(t := [])" "cur s1 = cur s"
        using pr(2) by (auto simp: init_thread_def split: if_split_asm)
      have "no_down ?s" using n by (auto simp: e down_defs)
      then show ?thesis using pr(3) down_lock_acquire by simp
    qed
    done
qed (use assms in \<open>auto simp: thread_create_def no_down_off\<close>)

lemma down_create_got [downs]:
  "create_got_tid_lock t p s = Some s' \<Longrightarrow> no_down s \<Longrightarrow> down_off s'"
  unfolding create_got_tid_lock_def Let_def by (erule down_lock_release) simp

lemma down_create_tail [downs]:
  assumes "create_tail t p n s = Some s'" and m: "no_down s"
  shows "down_off s'"
  using assms(1) unfolding create_tail_def Let_def
  apply (elim bindE)
  subgoal premises pr for s1 c s2 s3 s4 s5
  proof -
    have "still s s1" "still s1 s2" "still s2 s3" "still s3 s4" "still s4 s5"
      using pr(1,3-6) still_upd_thread still_add_process still_unblock by blast+
    then have "no_down s5" using m no_down_still [of s s5] by simp
    with down_max_priority [OF pr(7)] show ?thesis by simp
  qed
  done

lemma down_thread_exit [downs]:
  assumes "thread_exit s = Some s'" and n: "no_down s"
  shows "down_off s'"
  using assms(1) unfolding thread_exit_def Let_def
  apply (elim bindE)
  subgoal premises pr for u c s1
  proof -
    have "no_down s1" using n still_upd_thread [OF pr(3)] no_down_still [of s s1] by simp
    then show ?thesis using down_schedule [OF pr(4)] by (simp add: no_down_def)
  qed
  done

lemma down_idle_loop [downs]: "idle_loop s = Some s' \<Longrightarrow> no_down s \<Longrightarrow> down_off s'"
  unfolding idle_loop_def by (erule down_block) (simp add: downs_top_push)

lemma down_idle_hlt [downs]: "idle_hlt s = Some s' \<Longrightarrow> no_down s \<Longrightarrow> down_off s'"
  unfolding idle_hlt_def by (drule still_intr_enable) (metis no_down_push down_frame.simps(12) no_down_still no_down_off)

lemma down_external [downs]:
  assumes e: "external_interrupt h s = Some s'" and n: "no_down s"
    and h: "\<And>a b. h a = Some b \<Longrightarrow> still a b"
  shows "down_off s'"
  using e unfolding external_interrupt_def Let_def
  apply (elim bindE)
  subgoal premises pr for u s1 u2 u3
  proof -
    have "no_down (push_frame (SetLevel (intr_on s)) s)" using n by simp
    with h [OF pr(2)] have "no_down s1"
      using no_down_still [of "push_frame (SetLevel (intr_on s)) s" s1] by (simp add: push_frame_def)
    then have "no_down (s1\<lparr>in_external_intr := False\<rparr>)" by (simp add: down_defs)
    then show ?thesis using pr(5) down_yield no_down_off by (auto split: if_split_asm)
  qed
  done

lemma still_wake_loop: "wake_loop ts s = Some s' \<Longrightarrow> still s s'"
proof (induction ts arbitrary: s)
  case (Cons t ts)
  then show ?case by (fastforce split: if_split_asm elim!: bindE dest!: still_unblock)
qed simp

section \<open>One step\<close>

text \<open>
  \<open>safe\<close> is what holds between any two steps. The bounds on the load average and on the
  number of threads only matter to the advanced scheduler.
\<close>

definition safe :: "kernel \<Rightarrow> bool" where
  "safe s \<longleftrightarrow> kinv s \<and> down_off s \<and> load_ok s"

definition conds_sortable :: "kernel \<Rightarrow> bool" where
  "conds_sortable s \<longleftrightarrow> (\<forall>c. cond_sortable s c)"

lemma cond_sortable_frames:
  "compare_semaphore_priority (pop_frame s) = compare_semaphore_priority s"
  "compare_semaphore_priority (push_frame k s) = compare_semaphore_priority s"
proof -
  have "compare_priority (pop_frame s) = compare_priority s" "compare_priority (push_frame k s) = compare_priority s"
    by (intro ext, simp add: compare_priority_def prio_def push_frame_def)+
  then show "compare_semaphore_priority (pop_frame s) = compare_semaphore_priority s"
    "compare_semaphore_priority (push_frame k s) = compare_semaphore_priority s"
    by (intro ext, simp add: compare_semaphore_priority_def prio_def Let_def push_frame_def)+
qed

lemma cond_sortable_pop: "cond_sortable (pop_frame s) c = cond_sortable s c"
proof -
  note cond_sortable_frames(1) [of s]
  then show ?thesis by (cases "conds s c") (simp_all add: cond_sortable_def)
qed

text \<open>A frame of the idle thread, and the frames of any other.\<close>

lemma idle_frame:
  assumes "kpre s" and "frames s (cur s) = k # ks"
  shows "cur s = idle_thread s \<Longrightarrow> is_set_level k \<or> k \<in> {IdleLoop, IdleHlt}"
    and "cur s \<noteq> idle_thread s \<Longrightarrow> k \<notin> {IdleLoop, IdleHlt}"
proof -
  have "idle_stack (frames s (idle_thread s))" using assms by (simp add: kstate frames_ok_def)
  then show "cur s = idle_thread s \<Longrightarrow> is_set_level k \<or> k \<in> {IdleLoop, IdleHlt}"
    using assms(2) by (auto simp: idle_stack_def split: if_splits)
  show "cur s \<noteq> idle_thread s \<Longrightarrow> k \<notin> {IdleLoop, IdleHlt}"
    using stack_frame_ok [OF assms(1), of k "cur s"] assms(2) by auto
qed

lemma no_frames_not_idle: "kpre s \<Longrightarrow> frames s (cur s) = [] \<Longrightarrow> cur s \<noteq> idle_thread s"
  by (auto simp: kstate frames_ok_def idle_stack_def)

text \<open>A call of \<open>cond_signal\<close> or \<open>cond_broadcast\<close> that returns has sorted the waiters.\<close>

lemma list_sort_run_Nil: "list_sort_run lt [] = Some []"
  by (subst list_sort_run.simps) simp

lemma cond_signal_sortable:
  assumes "cond_signal c l s = Some s'"
  shows "cond_sortable s c"
  using assms unfolding cond_signal_def Let_def
  apply (elim bindE)
  subgoal premises pr for u1 u2 u3 b u4 ws
    using pr(6,7) by (cases ws) (auto simp: cond_sortable_def list_sort_run_Nil elim!: bindE)
  done

lemma cond_broadcast_sortable:
  assumes "cond_broadcast c l s = Some s'"
  shows "cond_sortable s c"
  using assms unfolding cond_broadcast_def
  apply (elim bindE)
  subgoal premises pr for u1 u2 ws
  proof (cases "ws = []")
    case True
    then show ?thesis using pr by (simp add: cond_sortable_def list_sort_run_Nil)
  next
    case False
    with pr have "cond_sortable (push_frame (BroadcastLoop c l) s) c" by (auto dest: cond_signal_sortable)
    moreover have "compare_semaphore_priority (push_frame (BroadcastLoop c l) s) = compare_semaphore_priority s"
      using cond_sortable_frames by simp
    ultimately show ?thesis by (cases "conds s c") (simp_all add: cond_sortable_def push_frame_def)
  qed
  done

lemma run_frame_ok:
  assumes k: "kinv s" and d: "down_off s" and so: "run_frame k (pop_frame s) \<noteq> None \<or> conds_sortable s" and f: "frames s (cur s) = k # ks"
  shows "\<exists>s'. run_frame k (pop_frame s) = Some s' \<and> kinv s'"
proof -
  have s: "kpre s" and e: "\<not> in_external_intr s" using k by (auto simp: kinv_def)
  have fk: "frame_ok (wt_of s) (lock_holder s) (conds s) (idle_thread s) (tid_lock s) (cur s) (k # ks) k"
    using stack_frame_ok [OF s, of k "cur s"] f by simp
  have sh: "lock_frames (k # ks)" "shape (k # ks)" using kpre_lock_frames [OF s, of "cur s"] f by simp_all
  note id = idle_frame [OF s f]
  have fp [simp]: "frames (pop_frame s) (cur s) = ks" using f by (simp add: pop_frame_def)
  have pop: "kpre (pop_frame s)" if "\<And>l b. k \<noteq> LockAcquired l b" "k \<notin> {IdleLoop, IdleHlt}"
    using kpre_pop [OF s f that(1)] id that(2) by blast
  show ?thesis
  proof (cases k)
    case (SetLevel b)
    then show ?thesis using intr_set_level_ok [of "pop_frame s" b] pop sh e by simp
  next
    case (SleepReturn b)
    then show ?thesis using intr_set_level_ok [of "pop_frame s" b] pop sh e by simp
  next
    case (SemaDownLoop x b)
    have "lock_wait x b ks" using sh SemaDownLoop by (simp add: lock_wait_def split: sema_id.splits)
    moreover have "\<not> intr_on s" using d f SemaDownLoop by (auto simp: down_off_def)
    ultimately show ?thesis
      using sema_down_loop_ok [of "pop_frame s" x b] pop e fk id SemaDownLoop by auto
  next
    case (LockAcquired l b)
    then show ?thesis using lock_acquired_ok [OF k] f by simp
  next
    case (CallSemaDown x)
    have "lock_wait x (intr_on s) ks"
      using sh fk CallSemaDown by (simp add: lock_wait_def split: sema_id.splits)
    then show ?thesis
      using sema_down_ok [of "pop_frame s" x] pop e fk id CallSemaDown by auto
  next
    case (CallLockAcquire l)
    have "filter lockish ks = []" using sh CallLockAcquire by (simp add: shape_def)
    then show ?thesis
      using lock_acquire_ok [of "pop_frame s" l] pop e fk id CallLockAcquire by auto
  next
    case (BroadcastLoop c l)
    then have "cond_sortable s c"
      using so cond_broadcast_sortable [of c l "pop_frame s"] by (auto simp: conds_sortable_def cond_sortable_pop)
    then show ?thesis
      using cond_broadcast_ok [of "pop_frame s" c _ l] pop e fk id sh BroadcastLoop
      by (auto simp: cond_sortable_pop)
  next
    case (CreateGotTidLock t p)
    then show ?thesis using create_got_ok [OF s _ e] f by simp
  next
    case (CreateTail t p n)
    then show ?thesis using create_tail_ok [OF s _ e] f by simp
  next
    case KernelThread
    then show ?thesis using intr_set_level_ok [of "pop_frame s" True] pop sh e by (simp add: intr_set_level_def)
  next
    case (IdleStart x)
    then show ?thesis using fk by simp
  next
    case IdleLoop
    then show ?thesis using idle_loop_ok [OF s _ e] f by simp
  next
    case IdleHlt
    then show ?thesis using idle_hlt_ok [OF s _ e] f by simp
  qed
qed

lemma run_call_ok:
  assumes k: "kinv s" and so: "run_call c s \<noteq> None \<or> conds_sortable s"
    and f: "frames s (cur s) = []" and l: "legal s c"
  shows "\<exists>s'. run_call c s = Some s' \<and> kinv s'"
proof -
  have s: "kpre s" and e: "\<not> in_external_intr s" using k by (auto simp: kinv_def)
  have t: "top_locked (frames s (cur s)) = None" and li: "filter lockish (frames s (cur s)) = []"
    and i: "cur s \<noteq> idle_thread s" using f no_frames_not_idle [OF s f] by simp_all
  have sb: "shape (BroadcastLoop c l # frames s (cur s))" for c l using f by (simp add: shape_def)
  show ?thesis
  proof (cases c)
    case (SemaInit a v)
    then have "kpre (sema_init (Sema a) v s)"
      using l no_waiting_new [OF s] by (intro kpre_new_sema [OF s]) (auto simp: legal_def)
    then show ?thesis using SemaInit t e by (simp add: run_call_def sema_init_def kinvI)
  next
    case (SemaDown a)
    then show ?thesis using sema_down_ok [OF s _ e i, of "Sema a"] l f
      by (simp add: run_call_def legal_def lock_wait_def)
  next
    case (SemaTryDown a)
    then show ?thesis using sema_try_down_ok [OF s _ e t, of "Sema a"] l by (auto simp: run_call_def legal_def)
  next
    case (SemaUp a)
    then show ?thesis using sema_up_ok [OF s _ e t, of "Sema a"] l by (auto simp: run_call_def legal_def)
  next
    case (LockInit m)
    with l lock_init_ok [OF s, of m] obtain s' where
      "lock_init m s = Some s'" "kpre s'" "frames s' = frames s" "cur s' = cur s"
      "in_external_intr s' = in_external_intr s" by (auto simp: legal_def)
    then show ?thesis using t e LockInit by (simp add: run_call_def kinvI)
  next
    case (LockAcquire m)
    then show ?thesis using lock_acquire_ok [OF s _ _ _ e li i, of m] l by (auto simp: run_call_def legal_def)
  next
    case (LockTryAcquire m)
    with l obtain h where h: "m \<noteq> NULL" "lock_holder s m = Some h" "h \<noteq> cur s" by (auto simp: legal_def)
    from lock_try_acquire_ok [OF s h e li] show ?thesis using LockTryAcquire by (auto simp: run_call_def)
  next
    case (LockRelease m)
    then have "\<exists>s'. lock_release m (s\<lparr>frames := (frames s)(cur s := frames s (cur s))\<rparr>) = Some s' \<and> kinv s'"
      using l f by (intro lock_release_ok [OF s _ _ e i]) (auto simp: legal_def stack_ok_def shape_def)
    then show ?thesis using LockRelease by (simp add: run_call_def)
  next
    case (CondInit d)
    then show ?thesis using l t e kpre_conds [OF s, of "[]" d]
      by (auto simp: run_call_def cond_init_def legal_def kinvI)
  next
    case (CondWait d m)
    then show ?thesis using cond_wait_ok [OF s f _ _ _ _ e] l by (auto simp: run_call_def legal_def)
  next
    case (CondSignal d m)
    then have "cond_sortable s d"
      using so cond_signal_sortable [of d m s] by (auto simp: run_call_def conds_sortable_def)
    then show ?thesis using cond_signal_ok [OF s _ _ _ _ e t] l CondSignal
      by (auto simp: run_call_def legal_def)
  next
    case (CondBroadcast d m)
    then have "cond_sortable s d"
      using so cond_broadcast_sortable [of d m s] by (auto simp: run_call_def conds_sortable_def)
    then show ?thesis using cond_broadcast_ok [OF s _ _ _ _ e sb i] l CondBroadcast
      by (auto simp: run_call_def legal_def)
  next
    case Yield
    then show ?thesis using thread_yield_ok [OF s e t] by (simp add: run_call_def)
  next
    case (SetPriority p)
    then show ?thesis using thread_set_priority_ok [OF s e t] by (simp add: run_call_def)
  next
    case (SetNice n)
    then show ?thesis using thread_set_nice_ok [OF s e t] by (simp add: run_call_def)
  next
    case (Sleep n)
    then show ?thesis using timer_sleep_ok [OF s f e] l by (simp add: run_call_def legal_def)
  next
    case (IntrSetLevel b)
    then show ?thesis using intr_set_level_ok [OF s e t] by (simp add: run_call_def)
  next
    case (Create u pri p)
    then show ?thesis using thread_create_ok [OF s f _ _ _ _ _ _ e] l by (auto simp: run_call_def legal_def)
  next
    case Exit
    then show ?thesis using thread_exit_ok [OF s f e] l by (simp add: run_call_def legal_def)
  qed
qed

section \<open>The bounds of the advanced scheduler\<close>

lemma load_ok_keep: "keep s s' \<Longrightarrow> load_ok s \<Longrightarrow> load_ok s'"
  by (simp add: load_ok_def)

lemma run_frame_keep: "run_frame k s = Some s' \<Longrightarrow> keep s s'"
  by (cases k) (auto dest: keeps)

lemma load_exit:
  assumes "thread_exit s = Some s'" and "load_ok s"
  shows "load_ok s'"
  using assms(1) unfolding thread_exit_def Let_def
  apply (elim bindE)
  subgoal premises pr for u c s1
  proof -
    have "all_list s' = remove1 (cur s) (all_list s)" "load_avg s' = load_avg s"
      using keep_upd_thread [OF pr(3)] keep_schedule [OF pr(4)] by simp_all
    then show ?thesis using assms(2) by (auto simp: load_ok_def length_remove1)
  qed
  done

lemma load_create:
  assumes "thread_create t pri p b s = Some s'" and "load_ok s" and l: "int (length (all_list s)) < MAX_THREADS"
  shows "load_ok s'"
proof (cases "t = NULL")
  case False
  with assms(1) show ?thesis
    unfolding thread_create_def Let_def if_not_P [OF False]
    apply (elim bindE)
    subgoal premises pr for s1
    proof -
      have "all_list s1 = all_list s @ [t]" "load_avg s1 = load_avg s"
        using pr(2) by (auto simp: init_thread_def split: if_split_asm)
      then have "all_list s' = all_list s @ [t]" "load_avg s' = load_avg s"
        using keep_lock_acquire [OF pr(3)] by simp_all
      then show ?thesis using assms(2) l by (simp add: load_ok_def)
    qed
    done
qed (use assms in \<open>auto simp: thread_create_def\<close>)

lemma run_call_keep:
  assumes "run_call c s = Some s'" and "\<And>t pri p. c \<noteq> Create t pri p" and "c \<noteq> Exit"
  shows "keep s s'"
proof (cases c)
  case (SemaTryDown a)
  then show ?thesis using assms by (auto simp: run_call_def dest!: keep_sema_try_down)
next
  case (LockTryAcquire a)
  then show ?thesis using assms by (auto simp: run_call_def dest!: keep_lock_try_acquire)
next
  case (SemaInit a v)
  then show ?thesis using assms by (auto simp: run_call_def sema_init_def)
qed (use assms in \<open>simp_all add: run_call_def keeps\<close>)

lemma run_call_load:
  assumes "run_call c s = Some s'" and "load_ok s" and "legal s c"
  shows "load_ok s'"
proof (cases c)
  case (Create t pri p)
  then show ?thesis using assms load_create by (auto simp: run_call_def legal_def)
next
  case Exit
  then show ?thesis using assms load_exit by (auto simp: run_call_def)
qed (use load_ok_keep [OF run_call_keep [OF assms(1)] assms(2)] in simp_all)

lemma timer_still:
  assumes s: "safe s" and o: "intr_on s"
  shows "\<exists>s'. external_interrupt timer_interrupt s = Some s' \<and> load_ok s' \<and> down_off s'"
proof -
  have k: "kpre s" and e: "\<not> in_external_intr s" and tl: "top_locked (frames s (cur s)) = None"
    using s o by (auto simp: safe_def kinv_def lock_top_def)
  have n: "no_down s" using s o by (simp add: safe_def down_defs)
  let ?s1 = "push_frame (SetLevel True) (s\<lparr>intr_on := False\<rparr>)"
  have k1: "kpre ?s1" using k tl by (intro kpre_push_SetLevel) simp_all
  let ?s2 = "?s1\<lparr>in_external_intr := True, yield_on_return := False\<rparr>"
  have l2: "load_ok ?s2" using s by (simp add: safe_def load_ok_def push_frame_def)
  have "kpre ?s2" using k1 by (simp add: kstate)
  from timer_interrupt_ok [OF this] l2 obtain s3 where s3:
    "timer_interrupt ?s2 = Some s3" "kpre s3" "frames s3 = frames ?s2" "cur s3 = cur ?s2"
    "\<not> intr_on s3" "in_external_intr s3" "all_list s3 = all_list ?s2"
    "thread_mlfqs ?s2 \<longrightarrow> load_range (load_avg s3)" "\<not> thread_mlfqs ?s2 \<longrightarrow> load_avg s3 = load_avg ?s2"
    by (auto simp: push_frame_def)
  have l3: "load_ok s3" using s3 l2 by (auto simp: load_ok_def)
  have n3: "no_down (s3\<lparr>in_external_intr := False\<rparr>)"
    using no_down_still [of "?s1" s3] n s3(3,4) by (simp add: down_defs)
  obtain r where r: "external_interrupt timer_interrupt s = Some r" "kinv r"
    using timer_step_ok [of s] s o by (auto simp: safe_def)
  have ee: "external_interrupt timer_interrupt s = (if yield_on_return s3
      then thread_yield (s3\<lparr>in_external_intr := False\<rparr>) else Some (s3\<lparr>in_external_intr := False\<rparr>))"
    using o e s3(1,5,6) by (simp add: external_interrupt_def push_frame_def)
  have "load_ok r \<and> down_off r"
  proof (cases "yield_on_return s3")
    case True
    then have y: "thread_yield (s3\<lparr>in_external_intr := False\<rparr>) = Some r" using r ee by simp
    then show ?thesis using load_ok_keep [OF keep_yield [OF y]] l3 down_yield [OF y n3] by (simp add: load_ok_def)
  next
    case False
    then show ?thesis using r ee l3 no_down_off [OF n3] by (auto simp: load_ok_def)
  qed
  then show ?thesis using r by blast
qed

lemma still_off: "still s s' \<Longrightarrow> no_down s \<Longrightarrow> down_off s'"
  using no_down_still [of s s'] no_down_off [of s'] by simp

lemma run_frame_down: "run_frame k s = Some s' \<Longrightarrow> no_down s \<Longrightarrow> \<forall>x. k \<noteq> IdleStart x \<Longrightarrow> down_off s'"
  by (cases k) (auto intro: downs still_off [OF still_intr_set_level] still_off [OF still_lock_acquired]
      still_off [OF still_intr_enable])

lemma run_call_down:
  assumes "run_call c s = Some s'" and "no_down s" and "legal s c" and "frames s (cur s) = []"
  shows "down_off s'"
proof (cases c)
  case (SemaTryDown a)
  then show ?thesis using assms by (auto simp: run_call_def intro: still_off [OF still_try_down])
next
  case (LockTryAcquire a)
  then show ?thesis using assms by (auto simp: run_call_def intro: still_off [OF still_try_acquire])
next
  case (SemaInit a v)
  then show ?thesis using assms no_down_off by (auto simp: run_call_def)
next
  case (LockInit l)
  then show ?thesis using assms by (auto simp: run_call_def intro: still_off [OF still_lock_init])
next
  case (CondInit l)
  then show ?thesis using assms by (auto simp: run_call_def cond_init_def down_defs split: if_split_asm)
next
  case (IntrSetLevel b)
  then show ?thesis using assms by (auto simp: run_call_def intro: still_off [OF still_intr_set_level])
next
  case (Create t pri p)
  then show ?thesis using assms down_thread_create by (auto simp: run_call_def legal_def)
qed (use assms in \<open>simp_all add: run_call_def downs\<close>)

text \<open>
  Every step from a safe state that returns leads to a safe state, and only the sort in
  \<open>cond_signal\<close> can keep one from returning.
\<close>

lemma step_ok:
  assumes s: "safe s" and so: "r \<noteq> None \<or> conds_sortable s" and o: "offers s r"
  shows "\<exists>s'. r = Some s' \<and> safe s'"
  using o
proof (cases rule: offers.cases)
  case (frame k ks)
  have st: "\<forall>x. k \<noteq> IdleStart x"
    using stack_frame_ok [of s k "cur s"] s frame by (auto simp: safe_def kinv_def)
  have n: "no_down (pop_frame s)" using s no_down_pop by (simp add: safe_def down_off_def)
  from run_frame_ok [of s k ks] s so frame obtain s' where
    s': "run_frame k (pop_frame s) = Some s'" "kinv s'" by (auto simp: safe_def)
  moreover have "load_ok s'"
    using load_ok_keep [OF run_frame_keep [OF s'(1)]] s by (simp add: safe_def load_ok_def pop_frame_def)
  ultimately show ?thesis using frame run_frame_down [OF s'(1) n st] by (simp add: safe_def)
next
  case (call c)
  have n: "no_down s" using s call by (simp add: safe_def down_defs)
  from run_call_ok [of s c] s so call obtain s' where
    s': "run_call c s = Some s'" "kinv s'" by (auto simp: safe_def)
  then show ?thesis
    using call run_call_load [OF s'(1)] run_call_down [OF s'(1) n] s by (simp add: safe_def)
next
  case timer
  from timer_still [OF s timer(2)] timer_step_ok [of s] s timer show ?thesis by (auto simp: safe_def)
qed

end
