(* ===== verification/Kernel_Boot.thy ===== *)
theory Kernel_Boot
  imports Kernel_Safety
begin

text \<open>
  The state after boot, by evaluation of \<open>thread_init\<close> and \<open>thread_start\<close>, and the states
  reachable from it: they are safe, so no step from them panics, but for the sort in
  \<open>cond_signal\<close>.
\<close>

lemma run_frames_num: "run_frames (numeral v) s = (case frames s (cur s) of [] \<Rightarrow> Some s
     | k # _ \<Rightarrow> do { s \<leftarrow> run_frame k (pop_frame s); run_frames (pred_numeral v) s })"
  by (simp add: numeral_eq_Suc)

lemma donation_loop_num: "donation_loop (numeral v) t l s = (if l = NULL then Some s
     else do {
       h \<leftarrow> lock_holder s l;
       if h = NULL then Some s
       else do {
         hx \<leftarrow> thr s h;
         tx \<leftarrow> thr s t;
         if priority hx \<ge> priority tx then Some s
         else do {
           s \<leftarrow> upd_thread h (\<lambda>x. x\<lparr>priority := priority tx\<rparr>) s;
           donation_loop (pred_numeral v) h (waitlock hx) s } } })"
  by (simp add: numeral_eq_Suc)

lemmas kernel_eval = boot_def thread_init_def blank_def lock_init_def sema_init_def init_thread_def
  upd_thread_def lock_acquire_def lock_held_by_current_thread_def thread_current_def sema_down_def
  sema_down_loop_def upd_sema_def intr_set_level_def intr_enable_def intr_disable_def push_frame_def
  pop_frame_def run_frames_num PRI_MIN_def PRI_MAX_def PRI_DEFAULT_def NULL_def lock_acquired_def
  lock_release_def remove_donation_list_waiting_lock_def priority_check_from_donation_list_def
  sema_up_def iscurrent_thread_has_max_priority_def thread_start_def thread_create_def
  create_got_tid_lock_def create_tail_def add_process_current_thread_def thread_unblock_def
  is_thread_def thread_block_def schedule_def next_thread_to_run_def thread_schedule_tail_def
  priority_donation_solve_def i32_def thread_yield_def idle_start_def idle_loop_def idle_hlt_def
  compare_priority_def prio_def LOCK_SIZE_def sort_spec_def Let_def donation_loop_num

definition booted :: "bool \<Rightarrow> kernel" where
  "booted mq = \<lparr>thr =
     [200 \<mapsto> \<lparr>tid = 2, status = THREAD_READY, priority = 0, wake_ticks = 0, initial_priority = 0,
        waitlock = 0, list_of_donation = [], nice = 0, recent_cpu = 0, file_list = [], next_fd = 2,
        child_list = [], parent = 1, cp = 300, pagedir = 0\<rparr>,
      100 \<mapsto> \<lparr>tid = 1, status = THREAD_RUNNING, priority = 31, wake_ticks = 0, initial_priority = 31,
        waitlock = 0, list_of_donation = [], nice = 0, recent_cpu = 0, file_list = [], next_fd = 2,
        child_list = [300], parent = -1, cp = 0, pagedir = 0\<rparr>],
     frames = (\<lambda>_. [])(200 := [SetLevel False, SetLevel True, IdleLoop], 100 := []),
     cur = 100, ready_list = [], all_list = [100, 200], idle_thread = 200, initial_thread = 100,
     next_tid = 3, tid_lock = 50, idle_ticks = 0, kernel_ticks = 0, user_ticks = 0, thread_ticks = 0,
     thread_mlfqs = mq, load_avg = 0, intr_on = True, in_external_intr = False, yield_on_return = False,
     semas = [LockSema 50 \<mapsto> \<lparr>sm_value = Suc 0, waiters = []\<rparr>, Sema 101 \<mapsto> \<lparr>sm_value = 0, waiters = []\<rparr>],
     lock_holder = [50 \<mapsto> 0], conds = \<lambda>_. None, sleep_list = [], ticks = 0,
     procs = [300 \<mapsto> \<lparr>lock_for_wait = (0, \<lparr>sm_value = Suc 0, waiters = []\<rparr>), pid = 2,
       load_state = 0, p_wait = False, p_exit = False, p_status = None\<rparr>]\<rparr>"

lemma boot_eval: "boot mq = Some (booted mq)"
  by (cases mq) (simp_all add: kernel_eval booted_def)

lemma booted_safe: "safe (booted mq)"
proof -
  have "sched_ok (st_of (booted mq)) (frames (booted mq)) [] [] [100, 200] (wt_of (booted mq)) 200"
    by (auto simp: booted_def sched_ok_def list_sets NULL_def split: if_splits)
  moreover have "frames_ok (st_of (booted mq)) (frames (booted mq)) (wt_of (booted mq))
      (lock_holder (booted mq)) (conds (booted mq)) 200 50"
    by (auto simp: booted_def frames_ok_def stack_ok_def shape_def creators_ok_def idle_stack_def creating_def)
  moreover have "locks_ok (st_of (booted mq)) (lock_holder (booted mq)) (vl_of (booted mq)) 50"
    by (auto simp: booted_def locks_ok_def NULL_def alive_def split: if_splits)
  moreover have "don_ok mq (wl_of (booted mq)) (dn_of (booted mq)) (lock_holder (booted mq)) (frames (booted mq))"
    by (auto simp: booted_def don_ok_def NULL_def split: if_splits)
  moreover have "run_pre 100 (st_of (booted mq)) (frames (booted mq))"
    by (auto simp: booted_def run_pre_def split: if_splits)
  moreover have "dying_ok (st_of (booted mq)) 100"
    by (auto simp: booted_def dying_ok_def split: if_splits)
  ultimately have "kinv (booted mq)"
    by (simp add: kinv_def kstate cond_ok_def lock_top_def booted_def)
  moreover have "down_off (booted mq)" by (auto simp: booted_def down_defs)
  moreover have "load_ok (booted mq)"
    by (simp add: booted_def load_ok_def load_range_def MAX_THREADS_def F_def)
  ultimately show ?thesis by (simp add: safe_def)
qed

section \<open>Reachable states\<close>

definition reachable :: "kernel \<Rightarrow> bool" where
  "reachable s \<longleftrightarrow> (\<exists>mq s0. boot mq = Some s0 \<and> steps s0 s)"

lemma steps_safe: "steps s s' \<Longrightarrow> safe s \<Longrightarrow> safe s'"
proof (induction rule: steps.induct)
  case (trans s s' s'')
  then show ?case using step_ok [of s' "Some s''"] by (auto simp: step_def)
qed

lemma reachable_safe: "reachable s \<Longrightarrow> safe s"
  using steps_safe booted_safe by (auto simp: reachable_def boot_eval)

lemma steps_append: "steps s' s'' \<Longrightarrow> steps s s' \<Longrightarrow> steps s s''"
  by (induction rule: steps.induct) (auto intro: steps.trans)

lemma steps_step: "step s s' \<Longrightarrow> steps s' s'' \<Longrightarrow> steps s s''"
  using steps_append steps.intros by blast

lemma run_frames_steps: "run_frames n s = Some s' \<Longrightarrow> steps s s'"
proof (induction n arbitrary: s)
  case (Suc n)
  show ?case
  proof (cases "frames s (cur s)")
    case Nil
    then show ?thesis using Suc.prems by (simp add: steps.refl)
  next
    case (Cons k ks)
    with Suc.prems obtain s1 where s1: "run_frame k (pop_frame s) = Some s1" "run_frames n s1 = Some s'"
      by (auto elim: bindE)
    then have "step s s1" using offers.frame [OF Cons] by (simp add: step_def)
    then show ?thesis using Suc.IH [OF s1(2)] steps_step by blast
  qed
qed (simp add: steps.refl)

text \<open>
  Runs of the machine, to reach concrete states: call the function given, then finish the
  kernel code of whichever thread runs.
\<close>

definition do_call :: "call \<Rightarrow> kernel \<Rightarrow> kernel option" where
  "do_call c s = (if frames s (cur s) = [] \<and> legal s c
     then do { s \<leftarrow> run_call c s; run_frames 8 s } else None)"

fun do_calls :: "call list \<Rightarrow> kernel \<Rightarrow> kernel option" where
  "do_calls [] s = Some s"
| "do_calls (c # cs) s = do { s \<leftarrow> do_call c s; do_calls cs s }"

lemma do_call_steps: "do_call c s = Some s' \<Longrightarrow> steps s s'"
  using offers.call [of s c] run_frames_steps steps_step
  by (auto simp: do_call_def step_def split: if_split_asm elim!: bindE)

lemma do_calls_steps: "do_calls cs s = Some s' \<Longrightarrow> steps s s'"
proof (induction cs arbitrary: s)
  case (Cons c cs)
  then show ?case using do_call_steps steps_append by (fastforce elim!: bindE)
qed (simp add: steps.refl)

lemma do_calls_reachable: "do_calls cs (booted mq) = Some s \<Longrightarrow> reachable s"
  using do_calls_steps boot_eval by (auto simp: reachable_def)

end
