(* ===== verification/Kernel_Props.thy ===== *)
theory Kernel_Props
  imports Kernel_Boot
begin

text \<open>
  The properties of the scheduler, the synchronization primitives and the timer.
\<close>

section \<open>Safety of the whole machine\<close>


lemma booted_reachable: "reachable (booted mq)"
  using do_calls_reachable [of "[]" mq] by simp

lemma booted_sortable: "cond_sortable (booted mq) c"
  by (simp add: booted_def cond_sortable_def)







text \<open>C15. The advanced scheduler's load average stays between 0 and the number of pages for
  threads, so its fixed-point arithmetic never leaves its range and its ASSERT holds.\<close>

theorem load_avg_bounded:
  assumes "reachable s"
  shows "0 \<le> load_avg s \<and> load_avg s \<le> MAX_THREADS * F \<and> int (length (all_list s)) \<le> MAX_THREADS"
  using reachable_safe [OF assms] by (simp add: safe_def load_ok_def load_range_def)

lemma load_avg_bounded_witness: "0 \<le> load_avg (booted True)"
  using load_avg_bounded [OF booted_reachable] by blast

section \<open>Two behaviours the code gets wrong\<close>

lemmas call_eval = do_call_def booted_def legal_def run_call_def cond_init_def cond_wait_def
  MAX_THREADS_def compare_semaphore_priority_def waits_for_def


text \<open>
  Three threads of rising priority: each waits for the lock while the one before it holds it,
  so each \<open>cond_wait\<close> is preempted by the \<open>lock_release\<close> inside it, before its
  \<open>sema_down\<close>.
\<close>

definition two_in_cond_wait :: "call list" where
  "two_in_cond_wait = [CondInit 400, LockInit 410, LockAcquire 410, Create 500 32 600,
     LockAcquire 410, CondWait 400 410, Create 510 33 610, LockAcquire 410, CondWait 400 410]"

lemma list_sort_run_symmetric: "lt a b \<Longrightarrow> lt b a \<Longrightarrow> list_sort_run lt [a, b] = None"
  by (subst list_sort_run.simps) (simp add: merge_pass.simps(2))

text \<open>C17. cond_signal can panic: when two threads are in cond_wait and have released the lock but
  not yet reached sema_down, their semaphores have no waiters, compare_semaphore_priority holds in
  both directions, and list_sort's final ASSERT that the list is sorted fails.\<close>

theorem cond_signal_can_panic:
  "\<exists>s. reachable s \<and> frames s (cur s) = [] \<and> legal s (CondSignal 400 410) \<and>
     run_call (CondSignal 400 410) s = None"
proof -
  have "\<exists>s. do_calls two_in_cond_wait (booted False) = Some s \<and> frames s (cur s) = [] \<and>
      legal s (CondSignal 400 410) \<and> run_call (CondSignal 400 410) s = None"
    by (simp add: two_in_cond_wait_def kernel_eval call_eval cond_signal_def list_sort_run_symmetric)
  then show ?thesis using do_calls_reachable by blast
qed


section \<open>Semaphores\<close>

lemma by_priority_hd:
  assumes "sort_spec (compare_priority s) xs = t # rest" and "u \<in> set xs"
  shows "prio s u \<le> prio s t"
proof -
  have "ordered (compare_priority s) (t # rest)" using by_priority.ordered_sort_spec [of s xs] assms(1) by simp
  moreover have "u \<in> set (t # rest)" using assms set_sort_spec by metis
  ultimately show ?thesis by (auto simp: ordered_def compare_priority_def)
qed

lemma yield_ready:
  assumes "thread_yield s = Some s'" and "st_of s t = Some THREAD_READY"
  shows "st_of s' t \<in> {Some THREAD_READY, Some THREAD_RUNNING} \<and> semas s' = semas s"
  using assms(1) unfolding thread_yield_def Let_def
  apply (elim bindE)
  subgoal premises pr for c u s1
  proof -
    have s1: "st_of s1 = (st_of s)(cur s \<mapsto> THREAD_READY)" "semas s1 = semas s" "cur s1 = cur s"
      using pr(3) by (auto simp: upd_thread_def push_frame_def intr_disable_def fun_eq_iff split: option.split_asm)
    have "st_of s1 t = Some THREAD_READY" "st_of s1 (cur s1) = Some THREAD_READY"
      using fun_cong [OF s1(1), of t] fun_cong [OF s1(1), of "cur s"] assms(2) s1(3) by (simp_all split: if_split_asm)
    then show ?thesis
      using pr(4) s1(2)
      by (auto simp: schedule_def next_thread_to_run_def thread_schedule_tail_def upd_thread_def Let_def
          split: if_split_asm list.split_asm option.split_asm)
  qed
  done

lemma max_priority_ready:
  assumes "iscurrent_thread_has_max_priority s = Some s'" and "st_of s t = Some THREAD_READY"
    and "\<not> in_external_intr s"
  shows "st_of s' t \<in> {Some THREAD_READY, Some THREAD_RUNNING} \<and> semas s' = semas s"
  using assms yield_ready [of s s' t]
  by (auto simp: iscurrent_thread_has_max_priority_def split: list.split_asm if_split_asm elim!: bindE)

text \<open>C4. sema_up on a semaphore with waiters, in any reachable state: it returns, the thread it
  wakes is a waiter of the highest priority at that moment (whatever the list's order was), it
  leaves the list and is ready or already running, the others stay, and the value goes up by
  one.\<close>

theorem sema_up_wakes_highest:
  assumes r: "reachable s" and f: "frames s (cur s) = []"
    and m: "semas s (Sema a) = Some m" and w: "waiters m \<noteq> []"
  shows "\<exists>t s' m'. sema_up (Sema a) s = Some s' \<and> t \<in> set (waiters m) \<and>
    (\<forall>u\<in>set (waiters m). prio s u \<le> prio s t) \<and>
    semas s' (Sema a) = Some m' \<and> sm_value m' = sm_value m + 1 \<and>
    set (waiters m') = set (waiters m) - {t} \<and>
    st_of s' t \<in> {Some THREAD_READY, Some THREAD_RUNNING}"
proof -
  have k: "kpre s" and e: "\<not> in_external_intr s" using reachable_safe [OF r] by (auto simp: safe_def kinv_def)
  have lo: "locks_ok (st_of s) (lock_holder s) ((vl_of s)(Sema a \<mapsto> sm_value m + 1)) (tid_lock s)"
    using k by (intro locks_ok_value_other) (auto simp: kstate)
  obtain w1 ws where "waiters m = w1 # ws" using w by (cases "waiters m") auto
  from sema_up_wake [OF k m lo e this] obtain t x rest where
    u: "sema_up (Sema a) s = iscurrent_thread_has_max_priority (push_frame (SetLevel (intr_on s))
        (s\<lparr>intr_on := False, ready_list := insert_ord (compare_priority s) t (ready_list s),
           thr := (thr s)(t \<mapsto> x\<lparr>status := THREAD_READY\<rparr>),
           semas := (semas s)(Sema a \<mapsto> m\<lparr>waiters := rest, sm_value := sm_value m + 1\<rparr>)\<rparr>))"
      (is "_ = _ (push_frame _ ?s)")
    and so: "sort_spec (compare_priority s) (waiters m) = t # rest" by blast
  obtain s' where s': "sema_up (Sema a) s = Some s'"
    using sema_up_ok [OF k m e] f by auto
  have "st_of s' t \<in> {Some THREAD_READY, Some THREAD_RUNNING} \<and> semas s' = semas ?s"
    using max_priority_ready [of "push_frame (SetLevel (intr_on s)) ?s" s' t] s' u e by (simp add: push_frame_def)
  moreover have "distinct (t # rest)" "set (t # rest) = set (waiters m)"
    using so waiters_distinct [OF k m] by (metis distinct_sort_spec) (metis so set_sort_spec)
  then have "t \<in> set (waiters m)" "set rest = set (waiters m) - {t}" by auto
  ultimately show ?thesis using s' by_priority_hd [OF so] by fastforce
qed

text \<open>A concrete state in which a second thread waits for a semaphore.\<close>

lemma sema_up_wakes_highest_witness:
  "\<exists>s. (\<exists>m. reachable s \<and> semas s (Sema 700) = Some m \<and> waiters m = [500] \<and> cur s = 100) \<and>
     (\<exists>t s'. sema_up (Sema 700) s = Some s' \<and> t = 500)"
proof -
  have "\<exists>s. do_calls [SemaInit 700 0, Create 500 40 600, SemaDown 700] (booted False) = Some s \<and>
      frames s (cur s) = [] \<and> cur s = 100 \<and> semas s (Sema 700) = Some \<lparr>sm_value = 0, waiters = [500]\<rparr>"
    by (simp add: kernel_eval call_eval)
  then obtain s where s: "reachable s" "frames s (cur s) = []" "cur s = 100"
      "semas s (Sema 700) = Some \<lparr>sm_value = 0, waiters = [500]\<rparr>" using do_calls_reachable by blast
  from sema_up_wakes_highest [OF s(1,2,4)] show ?thesis using s by auto
qed

section \<open>Priority donation\<close>

text \<open>The holders that a thread waiting for the lock \<open>l\<close> donates to: who holds it, who holds the lock
  that one waits for, and so on.\<close>

fun holders :: "nat \<Rightarrow> addr \<Rightarrow> kernel \<Rightarrow> addr list" where
  "holders 0 l s = []"
| "holders (Suc n) l s = (if l = NULL then [] else case lock_holder s l of None \<Rightarrow> []
     | Some h \<Rightarrow> if h = NULL then [] else h # holders n (waits_for s h) s)"

lemma waits_for_priority: "thr s h = Some x \<Longrightarrow>
    waits_for (s\<lparr>thr := (thr s)(h \<mapsto> x\<lparr>priority := p\<rparr>)\<rparr>) = waits_for s"
  by (auto simp: waits_for_def fun_eq_iff)

lemma holders_priority: "thr s h = Some x \<Longrightarrow>
    holders n l (s\<lparr>thr := (thr s)(h \<mapsto> x\<lparr>priority := p\<rparr>)\<rparr>) = holders n l s"
  by (induction n arbitrary: l) (simp_all add: waits_for_priority split: option.split)

lemma donation_loop_prio:
  assumes "donation_loop n t l s = Some s'" and "distinct (holders n l s)" and "thr s t \<noteq> None"
  shows "prio s' u = (if u \<in> set (takeWhile (\<lambda>h. prio s h < prio s t) (holders n l s)) then prio s t else prio s u)"
  using assms
proof (induction n arbitrary: t l s)
  case (Suc n)
  show ?case
  proof (cases "l = NULL \<or> lock_holder s l = Some NULL")
    case True
    then show ?thesis using Suc.prems by auto
  next
    case False
    with Suc.prems(1) obtain h hx tx where h: "lock_holder s l = Some h" "h \<noteq> NULL" "l \<noteq> NULL"
      "thr s h = Some hx" "thr s t = Some tx" by (auto elim!: bindE)
    show ?thesis
    proof (cases "priority hx \<ge> priority tx")
      case True
      then show ?thesis using Suc.prems(1) h by (simp add: prio_def)
    next
      case lower: False
      let ?s1 = "s\<lparr>thr := (thr s)(h \<mapsto> hx\<lparr>priority := priority tx\<rparr>)\<rparr>"
      let ?hs = "holders n (waits_for s h) s"
      have w: "waits_for s h = waitlock hx" using h by (simp add: waits_for_def)
      have d: "distinct (h # ?hs)" using Suc.prems(2) h by simp
      have "donation_loop n h (waitlock hx) ?s1 = Some s'"
        using Suc.prems(1) h lower by (simp add: upd_thread_def)
      from Suc.IH [OF this] d have ih: "prio s' u = (if u \<in> set (takeWhile (\<lambda>g. prio ?s1 g < prio ?s1 h) ?hs)
          then prio ?s1 h else prio ?s1 u)" by (simp add: holders_priority h w)
      have p: "prio ?s1 g = (if g = h then prio s t else prio s g)" for g
        using h by (simp add: prio_def)
      have "takeWhile (\<lambda>g. prio ?s1 g < prio ?s1 h) ?hs = takeWhile (\<lambda>g. prio s g < prio s t) ?hs"
        by (rule takeWhile_cong) (use d in \<open>auto simp: p\<close>)
      then show ?thesis using ih d h lower by (auto simp: p prio_def [of s h] prio_def [of s t] dest: set_takeWhileD)
    qed
  qed
qed simp

text \<open>C5. Priority donation: the thread's priority goes to the chain of lock holders it waits for,
  directly or indirectly, up to eight of them and up to the first that already has it; no other
  priority changes.\<close>

theorem donation_reaches_holders:
  assumes "priority_donation_solve s = Some s'" and "distinct (holders 8 (waits_for s (cur s)) s)"
  shows "prio s' u = (if u \<in> set (takeWhile (\<lambda>h. prio s h < prio s (cur s)) (holders 8 (waits_for s (cur s)) s))
    then prio s (cur s) else prio s u)"
proof -
  obtain t where "thr s (cur s) = Some t" "donation_loop 8 (cur s) (waitlock t) s = Some s'"
    using assms(1) by (auto simp: priority_donation_solve_def thread_current_def LOCK_SIZE_def
        split: if_split_asm elim!: bindE)
  then show ?thesis using donation_loop_prio [of 8 "cur s" "waitlock t" s s' u] assms(2)
    by (simp add: waits_for_def)
qed

definition donating :: kernel where
  "donating = (booted False)\<lparr>cur := 500, lock_holder := [410 \<mapsto> 100], thr := (thr (booted False))(500 \<mapsto>
     (the (thr (booted False) 100))\<lparr>priority := 40, waitlock := 410\<rparr>)\<rparr>"

lemma donation_reaches_holders_witness: "\<exists>s'. priority_donation_solve donating = Some s' \<and> prio s' 100 = 40"
proof -
  have h: "holders 8 (waits_for donating (cur donating)) donating = [100]"
    by (simp add: donating_def booted_def waits_for_def NULL_def eval_nat_numeral)
  have "\<exists>s'. priority_donation_solve donating = Some s'"
    by (simp add: donating_def booted_def kernel_eval)
  then obtain s' where s': "priority_donation_solve donating = Some s'" by blast
  from donation_reaches_holders [OF s', of 100] h have "prio s' 100 = 40"
    by (simp add: donating_def booted_def prio_def)
  with s' show ?thesis by blast
qed


definition releasing :: kernel where
  "releasing = (booted False)\<lparr>thr := (thr (booted False))(
     100 \<mapsto> (the (thr (booted False) 100))\<lparr>priority := 50, list_of_donation := [500, 510]\<rparr>,
     500 \<mapsto> (the (thr (booted False) 100))\<lparr>priority := 50, waitlock := 410\<rparr>,
     510 \<mapsto> (the (thr (booted False) 100))\<lparr>priority := 40, waitlock := 420\<rparr>)\<rparr>"


section \<open>The timer\<close>

lemma unblock_view:
  assumes "thread_unblock t s = Some s'"
  shows "sleep_list s' = sleep_list s \<and> ticks s' = ticks s \<and> (\<forall>u. wake_time s' u = wake_time s u) \<and>
    st_of s' = (st_of s)(t \<mapsto> THREAD_READY) \<and> set (ready_list s') = insert t (set (ready_list s))"
  using assms
  by (auto simp: thread_unblock_def upd_thread_def intr_disable_def intr_set_level_def intr_enable_def
      wake_time_def Let_def fun_eq_iff split: if_split_asm option.split_asm elim!: bindE)

lemma wake_loop_drop:
  assumes "wake_loop (sleep_list s) s = Some s'" and "distinct (sleep_list s)"
  shows "sleep_list s' = dropWhile (\<lambda>t. wake_time s t \<le> ticks s) (sleep_list s) \<and>
    (\<forall>t\<in>set (takeWhile (\<lambda>t. wake_time s t \<le> ticks s) (sleep_list s)).
       st_of s' t = Some THREAD_READY \<and> t \<in> set (ready_list s')) \<and>
    (\<forall>t. t \<notin> set (takeWhile (\<lambda>t. wake_time s t \<le> ticks s) (sleep_list s)) \<longrightarrow> st_of s' t = st_of s t) \<and>
    set (ready_list s) \<subseteq> set (ready_list s')"
  using assms
proof (induction "sleep_list s" arbitrary: s)
  case Nil
  then show ?case by (metis dropWhile.simps(1) empty_iff list.set(1) option.inject subset_refl takeWhile.simps(1) wake_loop.simps(1))
next
  case (Cons t ts)
  note sl = Cons.hyps(2) [symmetric]
  from Cons.prems sl obtain x where x: "thr s t = Some x" by (auto elim!: bindE)
  have wt: "wake_time s t = wake_ticks x" using x by (simp add: wake_time_def)
  show ?case
  proof (cases "ticks s < wake_ticks x")
    case True
    then show ?thesis using Cons.prems sl x wt by auto
  next
    case False
    with Cons.prems sl x obtain s1 where s1: "thread_unblock t (s\<lparr>sleep_list := ts\<rparr>) = Some s1"
      "wake_loop ts s1 = Some s'" by (auto elim!: bindE)
    have v: "sleep_list s1 = ts" "ticks s1 = ticks s" "\<And>u. wake_time s1 u = wake_time s u"
      "\<And>u. st_of s1 u = (if u = t then Some THREAD_READY else st_of s u)"
      "set (ready_list s1) = insert t (set (ready_list s))"
      using unblock_view [OF s1(1)] by (simp_all add: wake_time_def fun_eq_iff)
    have "distinct (sleep_list s1)" using Cons.prems sl v by simp
    from Cons.hyps(1) [of s1, OF v(1) [symmetric] _ this] s1(2) v
    have ih: "sleep_list s' = dropWhile (\<lambda>t. wake_time s t \<le> ticks s) ts"
      "\<forall>t\<in>set (takeWhile (\<lambda>t. wake_time s t \<le> ticks s) ts). st_of s' t = Some THREAD_READY \<and> t \<in> set (ready_list s')"
      "\<And>u. u \<notin> set (takeWhile (\<lambda>t. wake_time s t \<le> ticks s) ts) \<Longrightarrow> st_of s' u = st_of s1 u"
      "set (ready_list s1) \<subseteq> set (ready_list s')" by auto
    have "t \<notin> set ts" using Cons.prems sl by simp
    then have "t \<notin> set (takeWhile (\<lambda>t. wake_time s t \<le> ticks s) ts)" using set_takeWhileD by fastforce
    with ih(3) v(4) have "st_of s' t = Some THREAD_READY" by metis
    then show ?thesis using ih v(1,2,3,5) v(4) False wt sl by auto
  qed
qed

lemma dropWhile_wake:
  assumes "ordered (compare_timeto_wakeup_ticks s) xs"
  shows "dropWhile (\<lambda>t. wake_time s t \<le> n) xs = filter (\<lambda>t. n < wake_time s t) xs"
    and "set (takeWhile (\<lambda>t. wake_time s t \<le> n) xs) = {t \<in> set xs. wake_time s t \<le> n}"
  using assms
  by (induction xs)
    (auto simp: ordered_def compare_timeto_wakeup_ticks_def intro!: filter_True [symmetric] dest: set_takeWhileD)


definition sleeping :: kernel where
  "sleeping = (booted False)\<lparr>ticks := 7, sleep_list := [500, 510], thr := (thr (booted False))(
     500 \<mapsto> (the (thr (booted False) 100))\<lparr>status := THREAD_BLOCKED, wake_ticks := 6\<rparr>,
     510 \<mapsto> (the (thr (booted False) 100))\<lparr>status := THREAD_BLOCKED, wake_ticks := 9\<rparr>)\<rparr>"


section \<open>The advanced scheduler\<close>

text \<open>C16. The advanced scheduler's priority is PRI_MAX minus a quarter of recent_cpu minus twice
  nice, computed in fixed point, truncated towards zero and clamped into the range of priorities;
  it never divides by zero, and within the documented ranges no intermediate result overflows.\<close>

theorem mlfqs_priority_formula:
  assumes "\<bar>r\<bar> \<le> 2 ^ 30" and "\<bar>n\<bar> \<le> 20"
  shows "mlfqs_priority r n =
    Some (max PRI_MIN (min PRI_MAX ((PRI_MAX * F - r sdiv 4 - 2 * n * F) sdiv F)))"
proof -
  have r: "\<bar>r sdiv 4\<bar> \<le> 2 ^ 30" using sdiv_int_abs_le [of 4 r] assms(1) by simp
  have n: "i32 (2 * n) = 2 * n" "i32 (2 * n * F) = 2 * n * F" "i32 (PRI_MAX * F) = PRI_MAX * F"
    using assms(2) by (auto intro!: i32_id simp: in_i32_def F_def PRI_MAX_def)
  have "i32 (PRI_MAX * F - r sdiv 4) = PRI_MAX * F - r sdiv 4"
    using r by (intro i32_id) (auto simp: in_i32_def F_def PRI_MAX_def)
  moreover have "i32 (PRI_MAX * F - r sdiv 4 - 2 * n * F) = PRI_MAX * F - r sdiv 4 - 2 * n * F"
    using r assms(2) by (intro i32_id) (auto simp: in_i32_def F_def PRI_MAX_def)
  ultimately show ?thesis
    using n by (simp add: mlfqs_priority_def division_mixed_def integer_to_float_def subi_def sub_mixed_def
        float_to_int_def Let_def PRI_MIN_def PRI_MAX_def max_def min_def)
qed

lemma mlfqs_priority_formula_witness: "mlfqs_priority (40 * F) 3 = Some 47"
  using mlfqs_priority_formula [of "40 * F" 3]
  by (simp add: F_def PRI_MIN_def PRI_MAX_def signed_divide_int_def)

end
