(* ===== verification/Arithmetic.thy ===== *)
theory Arithmetic
  imports Pintos_Prelude
begin

text \<open>
  \<open>lib/arithmetic.c\<close>: 64-bit division from the processor's 64-by-32-bit \<open>divl\<close>, and the
  four routines the compiler calls. A division traps (\<open>None\<close>) where \<open>divl\<close> raises a divide
  error; all values are words of the C types' widths.
\<close>

section \<open>The routines\<close>

definition divl :: "64 word \<Rightarrow> 32 word \<Rightarrow> 32 word option" where
  "divl n d = (if d = 0 \<or> n div ucast d \<ge> 2 ^ 32 then None else Some (ucast (n div ucast d)))"

definition nlz :: "32 word \<Rightarrow> nat" where
  "nlz x =
     (let (x, n) = (if x \<le> 0x0000FFFF then (push_bit 16 x, 16) else (x, 0));
          (x, n) = (if x \<le> 0x00FFFFFF then (push_bit 8 x, n + 8) else (x, n));
          (x, n) = (if x \<le> 0x0FFFFFFF then (push_bit 4 x, n + 4) else (x, n));
          (x, n) = (if x \<le> 0x3FFFFFFF then (push_bit 2 x, n + 2) else (x, n))
      in if x \<le> 0x7FFFFFFF then n + 1 else n)"

definition udiv64 :: "64 word \<Rightarrow> 64 word \<Rightarrow> 64 word option" where
  "udiv64 n d =
     (if drop_bit 32 d = 0 then
        (let b = 2 ^ 32 :: 64 word;
             n1 = ucast (drop_bit 32 n) :: 32 word;
             n0 = ucast n :: 32 word;
             d0 = ucast d :: 32 word
         in if d0 = 0 then None
            else do {
              q \<leftarrow> divl (b * ucast (n1 mod d0) + ucast n0) d0;
              Some (ucast q + b * ucast (n1 div d0)) })
      else if n < d then Some 0
      else
        (let d1 = ucast (drop_bit 32 d) :: 32 word;
             s = nlz d1
         in do {
              q \<leftarrow> divl (drop_bit 1 n) (ucast (drop_bit 32 (push_bit s d)));
              let q = (ucast (drop_bit (31 - s) q) :: 64 word);
              Some (if n - (q - 1) * d < d then q - 1 else q) }))"

definition umod64 :: "64 word \<Rightarrow> 64 word \<Rightarrow> 32 word option" where
  "umod64 n d = do { q \<leftarrow> udiv64 n d; Some (ucast (n - d * q)) }"

definition sdiv64 :: "64 word \<Rightarrow> 64 word \<Rightarrow> 64 word option" where
  "sdiv64 n d =
     (let n_abs = (if 0 \<le> sint n then n else - n);
          d_abs = (if 0 \<le> sint d then d else - d)
      in do {
        q_abs \<leftarrow> udiv64 n_abs d_abs;
        Some (if (sint n < 0) = (sint d < 0) then q_abs else - q_abs) })"

definition smod64 :: "64 word \<Rightarrow> 64 word \<Rightarrow> 32 word option" where
  "smod64 n d = do { q \<leftarrow> sdiv64 n d; Some (ucast (n - d * q)) }"

definition divdi3 :: "64 word \<Rightarrow> 64 word \<Rightarrow> 64 word option" where
  "divdi3 n d = sdiv64 n d"

definition moddi3 :: "64 word \<Rightarrow> 64 word \<Rightarrow> 64 word option" where
  "moddi3 n d = map_option scast (smod64 n d)"

definition udivdi3 :: "64 word \<Rightarrow> 64 word \<Rightarrow> 64 word option" where
  "udivdi3 n d = udiv64 n d"

definition umoddi3 :: "64 word \<Rightarrow> 64 word \<Rightarrow> 64 word option" where
  "umoddi3 n d = map_option ucast (umod64 n d)"

section \<open>Leading zeros\<close>

lemma unat_push_bit: "unat (x :: 32 word) < 2 ^ (32 - k) \<Longrightarrow> k \<le> 32 \<Longrightarrow> unat (push_bit k x) = unat x * 2 ^ k"
proof -
  assume "unat x < 2 ^ (32 - k)" "k \<le> 32"
  then have "unat x * 2 ^ k < 2 ^ (32 - k) * 2 ^ k" by simp
  also have "\<dots> = 2 ^ 32" using \<open>k \<le> 32\<close> by (simp flip: power_add)
  finally show ?thesis by (subst unsigned_push_bit_eq) (simp add: push_bit_eq_mult take_bit_eq_mod)
qed

lemma nlz_bounds:
  assumes "x \<noteq> 0"
  shows "nlz x \<le> 31 \<and> 2 ^ 31 \<le> unat x * 2 ^ nlz x \<and> unat x * 2 ^ nlz x < 2 ^ 32"
proof -
  define p1 where "p1 = (if x \<le> 0x0000FFFF then (push_bit 16 x, 16::nat) else (x, 0))"
  define p2 where "p2 = (if fst p1 \<le> 0x00FFFFFF then (push_bit 8 (fst p1), snd p1 + 8) else p1)"
  define p3 where "p3 = (if fst p2 \<le> 0x0FFFFFFF then (push_bit 4 (fst p2), snd p2 + 4) else p2)"
  define p4 where "p4 = (if fst p3 \<le> 0x3FFFFFFF then (push_bit 2 (fst p3), snd p3 + 2) else p3)"
  have n: "nlz x = (if fst p4 \<le> 0x7FFFFFFF then snd p4 + 1 else snd p4)"
    by (simp add: nlz_def p1_def p2_def p3_def p4_def Let_def split: prod.split)
  have x0: "unat x \<ge> 1" using assms by (simp add: Suc_leI unat_gt_0)
  have lt: "unat y < 2 ^ 32" for y :: "32 word" using unsigned_less [of y, where 'a = nat] by simp
  have 1: "unat (fst p1) = unat x * 2 ^ snd p1" "unat (fst p1) \<ge> 2 ^ 16" "snd p1 \<le> 16"
    using x0 unat_push_bit [of x 16] by (auto simp: p1_def word_le_nat_alt)
  have 2: "unat (fst p2) = unat x * 2 ^ snd p2" "unat (fst p2) \<ge> 2 ^ 24" "snd p2 \<le> 24"
    using 1 unat_push_bit [of "fst p1" 8] by (auto simp: p2_def word_le_nat_alt power_add)
  have 3: "unat (fst p3) = unat x * 2 ^ snd p3" "unat (fst p3) \<ge> 2 ^ 28" "snd p3 \<le> 28"
    using 2 unat_push_bit [of "fst p2" 4] by (auto simp: p3_def word_le_nat_alt power_add)
  have 4: "unat (fst p4) = unat x * 2 ^ snd p4" "unat (fst p4) \<ge> 2 ^ 30" "snd p4 \<le> 30"
    using 3 unat_push_bit [of "fst p3" 2] by (auto simp: p4_def word_le_nat_alt power_add)
  show ?thesis
    using 4 lt [of "fst p4"] by (auto simp: n word_le_nat_alt power_add)
qed

section \<open>Unsigned division\<close>

text \<open>
  The quotient of \<open>n\<close> by the divisor cut to its 32 leading bits is the true quotient or one
  too large.
\<close>

lemma quotient_estimate:
  fixes n D w r k :: nat
  assumes "D = w + r" and "r \<le> 2 ^ k - 1" and "2 ^ (31 + k) \<le> w" and "n < 2 ^ 64" and "1 \<le> k"
  shows "n div D \<le> n div w \<and> n div w \<le> n div D + 1"
proof
  have w0: "0 < w" using assms(3) by (cases w) auto
  show "n div D \<le> n div w" using assms(1) w0 by (simp add: div_le_mono2)
  obtain j where k: "k = Suc j" using assms(5) by (cases k) auto
  have "(2::nat) ^ k - 1 \<le> 2 ^ (2 * j)"
  proof -
    have "0 \<le> ((2::int) ^ j - 1) ^ 2" by simp
    then have "(2::int) ^ k - 1 \<le> 2 ^ (2 * j)"
      by (simp add: k power2_eq_square algebra_simps flip: power_add mult_2)
    then have "int (2 ^ k) \<le> int (2 ^ (2 * j) + 1)" by simp
    then have "(2::nat) ^ k \<le> 2 ^ (2 * j) + 1" by (simp only: of_nat_le_iff)
    then show ?thesis by simp
  qed
  with assms(2) have r: "r \<le> 2 ^ (2 * j)" by linarith
  have "n * r < w * D"
  proof (cases "r = 0")
    case False
    have "n * r < 2 ^ 64 * r" using assms(4) False by simp
    also have "\<dots> \<le> 2 ^ 64 * 2 ^ (2 * j)" using r by simp
    also have "\<dots> = 2 ^ (64 + 2 * j)" by (rule power_add [symmetric])
    also have "64 + 2 * j = (31 + k) + (31 + k)" using k by simp
    also have "2 ^ ((31 + k) + (31 + k)) = 2 ^ (31 + k) * (2 ^ (31 + k) :: nat)" by (rule power_add)
    also have "\<dots> \<le> w * D" using assms(1,3) by (intro mult_mono) auto
    finally show ?thesis .
  qed (use w0 assms(1) in simp)
  let ?Q = "n div w"
  have "?Q * w * D \<le> n * D" by (simp add: mult_right_mono div_times_less_eq_dividend)
  also have "n * D < w * (D + n)" using \<open>n * r < w * D\<close> assms(1) by (simp add: algebra_simps)
  finally have "w * (?Q * D) < w * (D + n)" by (simp add: algebra_simps)
  then have lt: "?Q * D < D + n" by simp
  show "?Q \<le> n div D + 1"
  proof (cases ?Q)
    case (Suc m)
    with lt have "m * D < n" by simp
    moreover have "0 < D" using assms(1) w0 by simp
    ultimately show ?thesis using Suc less_eq_div_iff_mult_less_eq [of D m n] by simp
  qed simp
qed

text \<open>Words as natural numbers.\<close>

lemma unat_drop64: "unat (drop_bit k (w :: 64 word)) = unat w div 2 ^ k"
  using unsigned_less [of w, where 'a = nat]
  by (subst unsigned_drop_bit_eq) (simp add: drop_bit_eq_div take_bit_eq_mod)

lemma unat_drop32: "unat (drop_bit k (w :: 32 word)) = unat w div 2 ^ k"
  using unsigned_less [of w, where 'a = nat]
  by (subst unsigned_drop_bit_eq) (simp add: drop_bit_eq_div take_bit_eq_mod)

lemma unat_down: "unat (ucast (w :: 64 word) :: 32 word) = unat w mod 2 ^ 32"
  by (simp add: unsigned_ucast_eq take_bit_eq_mod)

lemma unat_up: "unat (ucast (w :: 32 word) :: 64 word) = unat w"
  using unsigned_less [of w, where 'a = nat] by (simp add: unsigned_ucast_eq take_bit_eq_mod)

lemma unat_add64: "unat (a :: 64 word) + unat b < 2 ^ 64 \<Longrightarrow> unat (a + b) = unat a + unat b"
  by (simp add: unat_word_ariths)

lemma unat_mult64: "unat (a :: 64 word) * unat b < 2 ^ 64 \<Longrightarrow> unat (a * b) = unat a * unat b"
  by (simp add: unat_word_ariths)

lemma unat_lt64: "unat (a :: 64 word) < 2 ^ 64"
  using unsigned_less [of a, where 'a = nat] by simp

lemma unat_lt32: "unat (a :: 32 word) < 2 ^ 32"
  using unsigned_less [of a, where 'a = nat] by simp

lemma divl_quotient:
  assumes "d \<noteq> 0" and "unat n div unat d < 2 ^ 32"
  shows "\<exists>q. divl n d = Some q \<and> unat q = unat n div unat d"
proof -
  have u: "unat (n div ucast d) = unat n div unat d" by (simp add: unat_div unat_up)
  then have "\<not> (n div ucast d \<ge> 2 ^ 32)" using assms(2) by (simp add: word_le_nat_alt)
  then have "divl n d = Some (ucast (n div ucast d))" using assms(1) by (simp add: divl_def)
  moreover have "unat (ucast (n div ucast d) :: 32 word) = unat n div unat d"
    using u assms(2) by (simp add: unat_down)
  ultimately show ?thesis by blast
qed

lemma udiv64_short:
  assumes d: "d \<noteq> 0" "unat d < 2 ^ 32"
  shows "udiv64 n d = Some (n div d)"
proof -
  let ?n1 = "ucast (drop_bit 32 n) :: 32 word" and ?n0 = "ucast n :: 32 word" and ?d0 = "ucast d :: 32 word"
  let ?N = "unat n" and ?D = "unat d"
  have D: "unat ?d0 = ?D" "?D > 0" using d by (simp_all add: unat_down unat_gt_0)
  then have d0: "?d0 \<noteq> 0" by (metis less_not_refl unat_0)
  have hi: "drop_bit 32 d = 0" using d(2) by (simp add: word_unat_eq_iff unat_drop64)
  have n1: "unat ?n1 = ?N div 2 ^ 32" using unat_lt64 [of n] by (simp add: unat_down unat_drop64)
  have n0: "unat ?n0 = ?N mod 2 ^ 32" by (simp add: unat_down)
  have m: "unat (?n1 mod ?d0) = (?N div 2 ^ 32) mod ?D" by (simp add: unat_mod n1 D)
  have v: "unat (?n1 div ?d0) = (?N div 2 ^ 32) div ?D" by (simp add: unat_div n1 D)
  let ?a = "2 ^ 32 * ((?N div 2 ^ 32) mod ?D) + ?N mod 2 ^ 32"
  have mD: "(?N div 2 ^ 32) mod ?D < ?D" using D by simp
  have a: "?a < 2 ^ 32 * ?D"
  proof -
    have "2 ^ 32 * ((?N div 2 ^ 32) mod ?D) + 2 ^ 32 \<le> 2 ^ 32 * ?D" using mD by simp
    moreover have "?N mod 2 ^ 32 < 2 ^ 32" by simp
    ultimately show ?thesis by linarith
  qed
  have a64: "?a < 2 ^ 64" using a d(2) by simp
  have b: "unat (2 ^ 32 * ucast (?n1 mod ?d0) + ucast ?n0 :: 64 word) = ?a"
  proof -
    have "unat (2 ^ 32 * ucast (?n1 mod ?d0) :: 64 word) = 2 ^ 32 * ((?N div 2 ^ 32) mod ?D)"
      using a64 by (subst unat_mult64) (simp_all add: unat_up m)
    then show ?thesis using a64 by (subst unat_add64) (simp_all add: unat_up n0)
  qed
  have "?a div ?D < 2 ^ 32" using a D(2) by (simp add: div_less_iff_less_mult mult.commute)
  then obtain q where q: "divl (2 ^ 32 * ucast (?n1 mod ?d0) + ucast ?n0) ?d0 = Some q" "unat q = ?a div ?D"
    using divl_quotient [OF d0, of "2 ^ 32 * ucast (?n1 mod ?d0) + ucast ?n0"] b D by auto
  have N: "?N div ?D = ?a div ?D + 2 ^ 32 * ((?N div 2 ^ 32) div ?D)"
  proof -
    have N: "?N = 2 ^ 32 * (?N div 2 ^ 32) + ?N mod 2 ^ 32" by (rule mult_div_mod_eq [symmetric])
    have "?N div 2 ^ 32 = (?N div 2 ^ 32) mod ?D + ?D * ((?N div 2 ^ 32) div ?D)"
      by (rule mod_mult_div_eq [symmetric])
    then have "2 ^ 32 * (?N div 2 ^ 32) = 2 ^ 32 * ((?N div 2 ^ 32) mod ?D) + 2 ^ 32 * (?D * ((?N div 2 ^ 32) div ?D))"
      by (metis distrib_left)
    with N have "?N = ?a + ?D * (2 ^ 32 * ((?N div 2 ^ 32) div ?D))" by (simp only: ac_simps)
    then have "?N div ?D = (?a + ?D * (2 ^ 32 * ((?N div 2 ^ 32) div ?D))) div ?D" by simp
    also have "\<dots> = ?a div ?D + 2 ^ 32 * ((?N div 2 ^ 32) div ?D)" using D(2) by simp
    finally show ?thesis .
  qed
  have "unat (ucast q + 2 ^ 32 * ucast (?n1 div ?d0) :: 64 word) = ?N div ?D"
  proof -
    have le: "?N div ?D < 2 ^ 64" using unat_lt64 [of n] div_le_dividend [of ?N ?D] by linarith
    have "unat (2 ^ 32 * ucast (?n1 div ?d0) :: 64 word) = 2 ^ 32 * ((?N div 2 ^ 32) div ?D)"
      using le N by (subst unat_mult64) (simp_all add: unat_up v)
    then show ?thesis using le N q(2) by (subst unat_add64) (simp_all add: unat_up)
  qed
  then have "ucast q + 2 ^ 32 * ucast (?n1 div ?d0) = n div d" by (simp add: word_unat_eq_iff unat_div)
  then show ?thesis using hi d0 q(1) by (simp add: udiv64_def Let_def)
qed

lemma udiv64_long:
  assumes d: "2 ^ 32 \<le> unat d"
  shows "udiv64 n d = Some (n div d)"
proof (cases "n < d")
  case True
  then have "n div d = 0" by (simp add: word_unat_eq_iff unat_div word_less_nat_alt)
  moreover have "drop_bit 32 d \<noteq> 0" using d by (simp add: word_unat_eq_iff unat_drop64)
  ultimately show ?thesis using True by (simp add: udiv64_def)
next
  case False
  let ?N = "unat n" and ?D = "unat d"
  let ?d1 = "ucast (drop_bit 32 d) :: 32 word"
  let ?s = "nlz ?d1"
  let ?v = "ucast (drop_bit 32 (push_bit ?s d)) :: 32 word"
  have hi: "drop_bit 32 d \<noteq> 0" using d by (simp add: word_unat_eq_iff unat_drop64)
  have d1: "unat ?d1 = ?D div 2 ^ 32" using unat_lt64 [of d] by (simp add: unat_down unat_drop64)
  then have "?d1 \<noteq> 0" using d by (auto simp: word_unat_eq_iff)
  from nlz_bounds [OF this] have s: "?s \<le> 31" "2 ^ 31 \<le> (?D div 2 ^ 32) * 2 ^ ?s" "(?D div 2 ^ 32) * 2 ^ ?s < 2 ^ 32"
    using d1 by simp_all
  define k where "k = 32 - ?s"
  have k: "1 \<le> k" "k + ?s = 32" using s(1) by (simp_all add: k_def)
  have D64: "?D * 2 ^ ?s < 2 ^ 64"
  proof -
    have "?D < (?D div 2 ^ 32 + 1) * 2 ^ 32" using dividend_less_div_times [of "2 ^ 32" ?D] by simp
    then have "?D * 2 ^ ?s < (?D div 2 ^ 32 + 1) * 2 ^ 32 * 2 ^ ?s" by simp
    also have "\<dots> = ((?D div 2 ^ 32 + 1) * 2 ^ ?s) * 2 ^ 32" by (simp only: ac_simps)
    also have "(?D div 2 ^ 32 + 1) * 2 ^ ?s \<le> 2 ^ 32"
    proof -
      have "(2::nat) ^ 32 = 2 ^ k * 2 ^ ?s" using k(2) by (simp flip: power_add)
      with s(3) have "(?D div 2 ^ 32) * 2 ^ ?s < 2 ^ k * 2 ^ ?s" by (simp only:)
      then have "?D div 2 ^ 32 < 2 ^ k" by simp
      then have "?D div 2 ^ 32 + 1 \<le> 2 ^ k" by simp
      then have "(?D div 2 ^ 32 + 1) * 2 ^ ?s \<le> 2 ^ k * 2 ^ ?s" by (rule mult_right_mono) simp
      with \<open>2 ^ 32 = 2 ^ k * 2 ^ ?s\<close> show ?thesis by simp
    qed
    finally show ?thesis by simp
  qed
  have sh: "unat (push_bit ?s d) = ?D * 2 ^ ?s"
    using D64 by (subst unsigned_push_bit_eq) (simp add: push_bit_eq_mult take_bit_eq_mod)
  have v: "unat ?v = ?D div 2 ^ k"
  proof -
    have "unat ?v = (?D * 2 ^ ?s) div 2 ^ 32"
      using D64 by (simp add: unat_down unat_drop64 sh)
    also have "(2::nat) ^ 32 = 2 ^ k * 2 ^ ?s" using k(2) by (simp flip: power_add)
    finally show ?thesis by simp
  qed
  define w where "w = ?D div 2 ^ k * 2 ^ k"
  have v31: "2 ^ 31 \<le> ?D div 2 ^ k"
  proof -
    have "2 ^ 31 * 2 ^ 32 \<le> ?D div 2 ^ 32 * 2 ^ ?s * 2 ^ 32" by (rule mult_right_mono [OF s(2)]) simp
    also have "\<dots> \<le> ?D * 2 ^ ?s" using div_times_less_eq_dividend [of ?D "2 ^ 32"] by simp
    finally have "2 ^ 31 * (2 ^ k * 2 ^ ?s) \<le> ?D * 2 ^ ?s" using k(2) by (simp flip: power_add)
    then have "2 ^ 31 * 2 ^ k \<le> ?D" by simp
    then show ?thesis by (simp add: less_eq_div_iff_mult_less_eq)
  qed
  have est: "?N div ?D \<le> ?N div w \<and> ?N div w \<le> ?N div ?D + 1"
  proof (rule quotient_estimate)
    show "?D = w + ?D mod 2 ^ k" unfolding w_def by (rule div_mult_mod_eq [symmetric])
    have "?D mod 2 ^ k < 2 ^ k" by simp
    then show "?D mod 2 ^ k \<le> 2 ^ k - 1" by linarith
    show "2 ^ (31 + k) \<le> w" using v31 by (simp add: w_def power_add)
  qed (use unat_lt64 k in auto)
  have "?N div 2 div unat ?v < 2 ^ 32"
  proof -
    have "?N div 2 < 2 ^ 63" using unat_lt64 [of n] by simp
    also have "(2::nat) ^ 63 = 2 ^ 31 * 2 ^ 32" by simp
    also have "\<dots> \<le> unat ?v * 2 ^ 32" using v31 v by simp
    finally show ?thesis using v31 v by (simp add: div_less_iff_less_mult mult.commute)
  qed
  moreover have "?v \<noteq> 0" using v v31 by (auto simp: word_unat_eq_iff)
  ultimately obtain q where q: "divl (drop_bit 1 n) ?v = Some q" "unat q = ?N div 2 div unat ?v"
    using divl_quotient [of ?v "drop_bit 1 n"] by (auto simp: unat_drop64)
  let ?q = "ucast (drop_bit (31 - ?s) q) :: 64 word"
  have qv: "unat ?q = ?N div w"
  proof -
    have "unat ?q = ?N div 2 div (?D div 2 ^ k) div 2 ^ (31 - ?s)" by (simp add: unat_up unat_drop32 q v)
    also have "\<dots> = ?N div ((?D div 2 ^ k) * (2 * 2 ^ (31 - ?s)))"
      by (simp add: div_mult2_eq [symmetric] ac_simps)
    also have "(2::nat) * 2 ^ (31 - ?s) = 2 ^ k" using s(1) by (simp add: k_def Suc_diff_le flip: power_Suc)
    finally show ?thesis by (simp add: w_def)
  qed
  let ?m = "?N div ?D"
  have D0: "0 < ?D" using d by simp
  have m1: "1 \<le> ?m" using False D0 by (simp add: word_less_nat_alt div_greater_zero_iff Suc_leI)
  have "unat (?q - 1) = ?N div w - 1" using qv est m1 by (subst unat_sub) (simp_all add: word_le_nat_alt)
  have mul: "unat ((?q - 1) * d) = (?N div w - 1) * ?D"
  proof -
    have "(?N div w - 1) * ?D \<le> ?m * ?D" using est by (intro mult_right_mono) linarith+
    also have "\<dots> \<le> ?N" by (rule div_times_less_eq_dividend)
    finally have "(?N div w - 1) * ?D < 2 ^ 64" using unat_lt64 [of n] by linarith
    then show ?thesis using \<open>unat (?q - 1) = ?N div w - 1\<close> by (subst unat_mult64) simp_all
  qed
  have "(if n - (?q - 1) * d < d then ?q - 1 else ?q) = n div d"
  proof (cases "?N div w = ?m")
    case True
    have e: "?N = ?m * ?D + ?N mod ?D" by simp
    have "(?m - 1) * ?D + ?D = ?m * ?D" using m1 by (cases ?m) simp_all
    with e have ge: "?N - (?m - 1) * ?D \<ge> ?D" by linarith
    have "(?m - 1) * ?D \<le> ?N" using e \<open>(?m - 1) * ?D + ?D = ?m * ?D\<close> by linarith
    then have "unat (n - (?q - 1) * d) = ?N - (?m - 1) * ?D"
      using mul True by (subst unat_sub) (simp_all add: word_le_nat_alt)
    with ge have "\<not> n - (?q - 1) * d < d" by (simp add: word_less_nat_alt)
    then show ?thesis using qv True by (simp add: word_unat_eq_iff unat_div)
  next
    case F: False
    with est have Q: "?N div w = ?m + 1" by linarith
    have "unat (n - (?q - 1) * d) = ?N - ?m * ?D"
      using mul Q div_times_less_eq_dividend [of ?N ?D] by (subst unat_sub) (simp_all add: word_le_nat_alt)
    also have "\<dots> = ?N mod ?D" by (simp add: minus_div_mult_eq_mod)
    finally have "n - (?q - 1) * d < d" using D0 by (simp add: word_less_nat_alt)
    then show ?thesis using \<open>unat (?q - 1) = ?N div w - 1\<close> Q by (simp add: word_unat_eq_iff unat_div)
  qed
  then show ?thesis using hi False q(1) by (simp add: udiv64_def Let_def)
qed

lemma udiv64_zero: "udiv64 n 0 = None"
  by (simp add: udiv64_def Let_def)

lemma udiv64_div: "udiv64 n d = (if d = 0 then None else Some (n div d))"
  using udiv64_short [of d n] udiv64_long [of d n] udiv64_zero [of n]
  by (cases "unat d < 2 ^ 32") (auto simp: not_less)

section \<open>Signed division\<close>

lemma uint_mod_sint: "uint (x :: 64 word) = sint x mod 2 ^ 64"
  by (simp add: uint_sint take_bit_eq_mod)

lemma sint_range64: "- (2 ^ 63) \<le> sint (x :: 64 word) \<and> sint x < 2 ^ 63"
  using signed_take_bit_int_greater_eq_minus_exp [of 63 "uint x"] signed_take_bit_int_less_exp [of 63 "uint x"]
  by (simp add: sint_uint)

lemma uint_abs: "uint (if 0 \<le> sint x then x else - x :: 64 word) = \<bar>sint x\<bar>"
proof -
  have "(- uint x) mod 2 ^ 64 = (- sint x) mod 2 ^ 64"
    by (simp only: uint_mod_sint mod_minus_eq)
  then have "uint (- x) = (- sint x) mod 2 ^ 64" by (simp add: uint_word_ariths)
  then show ?thesis using sint_range64 [of x] by (auto simp: uint_mod_sint)
qed

lemma sdiv64_sdiv: "sdiv64 n d = (if d = 0 then None else Some (word_of_int (sint n sdiv sint d)))"
proof (cases "d = 0")
  case False
  let ?n = "if 0 \<le> sint n then n else - n" and ?d = "if 0 \<le> sint d then d else - d"
  have "?n div ?d = word_of_int (uint ?n div uint ?d)" by (rule word_div_def)
  also have "\<dots> = word_of_int (\<bar>sint n\<bar> div \<bar>sint d\<bar>)" by (simp only: uint_abs)
  finally have q: "?n div ?d = word_of_int (\<bar>sint n\<bar> div \<bar>sint d\<bar>)" .
  have "uint d \<noteq> 0" using False by (metis unsigned_0 word_uint_eq_iff)
  then have "sint d \<noteq> 0" by (auto simp: uint_mod_sint)
  with False have d0: "sint d \<noteq> 0" "?d \<noteq> 0" by auto
  then have "sdiv64 n d = Some (if (sint n < 0) = (sint d < 0) then ?n div ?d else - (?n div ?d))"
    by (simp only: sdiv64_def Let_def udiv64_div) simp
  also have "(if (sint n < 0) = (sint d < 0) then ?n div ?d else - (?n div ?d)) =
      word_of_int (sint n sdiv sint d)"
    unfolding q signed_divide_int_def using d0(1)
    by (cases "sint n" "0 :: int" rule: linorder_cases; cases "sint d" "0 :: int" rule: linorder_cases) simp_all
  finally show ?thesis using False by simp
qed (simp add: sdiv64_def udiv64_div)

text \<open>C23. The 64-bit division routines agree with division: for every numerator and every nonzero
  divisor the unsigned quotient is exact, whichever of the two algorithms computes it, and divl
  never traps on the way; the signed quotient is the truncated one, wrapped to 64 bits where
  it does not fit; a zero divisor traps.\<close>

theorem division_correct:
  "udivdi3 n d = (if d = 0 then None else Some (n div d)) \<and>
   divdi3 n d = (if d = 0 then None else Some (word_of_int (sint n sdiv sint d)))"
  by (simp add: udivdi3_def divdi3_def udiv64_div sdiv64_sdiv)

text \<open>C24. The remainder routines return only the low 32 bits of the remainder: the unsigned one is
  right exactly for the remainders below 2^32, so the compiler's 64-bit remainders are wrong for
  the others.\<close>

theorem remainder_truncated:
  "d \<noteq> 0 \<Longrightarrow> umoddi3 n d = Some (take_bit 32 (n mod d)) \<and> (umoddi3 n d = Some (n mod d) \<longleftrightarrow> n mod d < 2 ^ 32)"
proof -
  assume d: "d \<noteq> 0"
  have m: "n - d * (n div d) = n mod d" by (metis minus_div_mult_eq_mod mult.commute)
  have t: "unat (take_bit 32 w) = unat w mod 2 ^ 32" for w :: "64 word"
    by (subst unsigned_take_bit_eq) (simp add: take_bit_eq_mod)
  have "ucast (ucast (n mod d) :: 32 word) = take_bit 32 (n mod d)"
    by (simp only: word_unat_eq_iff unat_up unat_down t)
  then have u: "umoddi3 n d = Some (take_bit 32 (n mod d))"
    using d by (simp add: umoddi3_def umod64_def udiv64_div m)
  have "take_bit 32 (n mod d) = n mod d \<longleftrightarrow> unat (n mod d) mod 2 ^ 32 = unat (n mod d)"
    by (simp only: word_unat_eq_iff t)
  also have "\<dots> \<longleftrightarrow> n mod d < 2 ^ 32" by (simp add: word_less_nat_alt mod_eq_self_iff_div_eq_0 div_eq_0_iff)
  finally show ?thesis using u by simp
qed

lemma remainder_truncated_witness: "umoddi3 (2 ^ 33) (2 ^ 34) = Some 0 \<and> umoddi3 (2 ^ 33) (2 ^ 34) \<noteq> Some (2 ^ 33 mod 2 ^ 34)"
  using remainder_truncated [of "2 ^ 34" "2 ^ 33"] by simp

end
