(* ===== verification/Bitmap.thy ===== *)
theory Bitmap
  imports Pintos_Prelude
begin

unbundle bit_operations_syntax

text \<open>
  \<open>lib/kernel/bitmap.c\<close>: arrays of bits in arrays of 32-bit elements, with their ASSERTs and
  with \<open>size_t\<close> sums that wrap. An element outside the array is \<open>None\<close>. The abstraction is
  a \<open>bool list\<close>; the last section states what the allocators built on a bitmap rely on as a
  locale and interprets it.
\<close>

section \<open>Elements\<close>

record bitmap =
  bit_cnt :: nat
  bits :: "32 word list"

definition ELEM_BITS :: nat where "ELEM_BITS = 32"
definition SIZE_MOD :: nat where "SIZE_MOD = 2 ^ 32"
definition BITMAP_ERROR :: nat where "BITMAP_ERROR = 2 ^ 32 - 1"

definition elem_idx :: "nat \<Rightarrow> nat" where
  "elem_idx bit_idx = bit_idx div ELEM_BITS"

definition bit_mask :: "nat \<Rightarrow> 32 word" where
  "bit_mask bit_idx = push_bit (bit_idx mod ELEM_BITS) 1"

definition elem_cnt :: "nat \<Rightarrow> nat" where
  "elem_cnt n = (n + ELEM_BITS - 1) mod SIZE_MOD div ELEM_BITS"

definition byte_cnt :: "nat \<Rightarrow> nat" where
  "byte_cnt n = 4 * elem_cnt n mod SIZE_MOD"

definition last_mask :: "bitmap \<Rightarrow> 32 word" where
  "last_mask b = (let last_bits = bit_cnt b mod ELEM_BITS in
     if last_bits \<noteq> 0 then push_bit last_bits 1 - 1 else -1)"

definition bitmap_size :: "bitmap \<Rightarrow> nat" where
  "bitmap_size b = bit_cnt b"

definition bitmap_buf_size :: "nat \<Rightarrow> nat" where
  "bitmap_buf_size n = (8 + byte_cnt n) mod SIZE_MOD"

section \<open>Single bits\<close>

definition upd_elem :: "nat \<Rightarrow> (32 word \<Rightarrow> 32 word) \<Rightarrow> bitmap \<Rightarrow> bitmap option" where
  "upd_elem i f b = (if i < length (bits b) then Some (b\<lparr>bits := (bits b)[i := f (bits b ! i)]\<rparr>) else None)"

definition bitmap_mark :: "bitmap \<Rightarrow> nat \<Rightarrow> bitmap option" where
  "bitmap_mark b bit_idx = upd_elem (elem_idx bit_idx) (\<lambda>w. w OR bit_mask bit_idx) b"

definition bitmap_reset :: "bitmap \<Rightarrow> nat \<Rightarrow> bitmap option" where
  "bitmap_reset b bit_idx = upd_elem (elem_idx bit_idx) (\<lambda>w. w AND NOT (bit_mask bit_idx)) b"

definition bitmap_flip :: "bitmap \<Rightarrow> nat \<Rightarrow> bitmap option" where
  "bitmap_flip b bit_idx = upd_elem (elem_idx bit_idx) (\<lambda>w. w XOR bit_mask bit_idx) b"

definition bitmap_set :: "bitmap \<Rightarrow> nat \<Rightarrow> bool \<Rightarrow> bitmap option" where
  "bitmap_set b idx v = do {
     _ \<leftarrow> ASSERT (idx < bit_cnt b);
     if v then bitmap_mark b idx else bitmap_reset b idx }"

definition bitmap_test :: "bitmap \<Rightarrow> nat \<Rightarrow> bool option" where
  "bitmap_test b idx = do {
     _ \<leftarrow> ASSERT (idx < bit_cnt b);
     if elem_idx idx < length (bits b) then Some (bits b ! elem_idx idx AND bit_mask idx \<noteq> 0) else None }"

section \<open>Ranges of bits\<close>

text \<open>The loops take the number of rounds left and the current index \<open>start + i\<close>.\<close>

definition in_range :: "bitmap \<Rightarrow> nat \<Rightarrow> nat \<Rightarrow> bool" where
  "in_range b start cnt \<longleftrightarrow> start \<le> bit_cnt b \<and> (start + cnt) mod SIZE_MOD \<le> bit_cnt b"

fun set_loop :: "nat \<Rightarrow> nat \<Rightarrow> bool \<Rightarrow> bitmap \<Rightarrow> bitmap option" where
  "set_loop 0 k v b = Some b"
| "set_loop (Suc n) k v b = do { b \<leftarrow> bitmap_set b k v; set_loop n ((k + 1) mod SIZE_MOD) v b }"

definition bitmap_set_multiple :: "bitmap \<Rightarrow> nat \<Rightarrow> nat \<Rightarrow> bool \<Rightarrow> bitmap option" where
  "bitmap_set_multiple b start cnt v = do { _ \<leftarrow> ASSERT (in_range b start cnt); set_loop cnt start v b }"

definition bitmap_set_all :: "bitmap \<Rightarrow> bool \<Rightarrow> bitmap option" where
  "bitmap_set_all b v = bitmap_set_multiple b 0 (bitmap_size b) v"

fun count_loop :: "nat \<Rightarrow> nat \<Rightarrow> bool \<Rightarrow> bitmap \<Rightarrow> nat \<Rightarrow> nat option" where
  "count_loop 0 k v b acc = Some acc"
| "count_loop (Suc n) k v b acc = do {
     t \<leftarrow> bitmap_test b k;
     count_loop n ((k + 1) mod SIZE_MOD) v b (if t = v then acc + 1 else acc) }"

definition bitmap_count :: "bitmap \<Rightarrow> nat \<Rightarrow> nat \<Rightarrow> bool \<Rightarrow> nat option" where
  "bitmap_count b start cnt v = do { _ \<leftarrow> ASSERT (in_range b start cnt); count_loop cnt start v b 0 }"

fun contains_loop :: "nat \<Rightarrow> nat \<Rightarrow> bool \<Rightarrow> bitmap \<Rightarrow> bool option" where
  "contains_loop 0 k v b = Some False"
| "contains_loop (Suc n) k v b = do {
     t \<leftarrow> bitmap_test b k;
     if t = v then Some True else contains_loop n ((k + 1) mod SIZE_MOD) v b }"

definition bitmap_contains :: "bitmap \<Rightarrow> nat \<Rightarrow> nat \<Rightarrow> bool \<Rightarrow> bool option" where
  "bitmap_contains b start cnt v = do { _ \<leftarrow> ASSERT (in_range b start cnt); contains_loop cnt start v b }"

definition bitmap_any :: "bitmap \<Rightarrow> nat \<Rightarrow> nat \<Rightarrow> bool option" where
  "bitmap_any b start cnt = bitmap_contains b start cnt True"

definition bitmap_none :: "bitmap \<Rightarrow> nat \<Rightarrow> nat \<Rightarrow> bool option" where
  "bitmap_none b start cnt = map_option Not (bitmap_contains b start cnt True)"

definition bitmap_all :: "bitmap \<Rightarrow> nat \<Rightarrow> nat \<Rightarrow> bool option" where
  "bitmap_all b start cnt = map_option Not (bitmap_contains b start cnt False)"

function scan_loop :: "bitmap \<Rightarrow> nat \<Rightarrow> nat \<Rightarrow> nat \<Rightarrow> bool \<Rightarrow> nat option" where
  "scan_loop b i lst cnt v =
     (if i \<le> lst then do {
        c \<leftarrow> bitmap_contains b i cnt (\<not> v);
        if \<not> c then Some i else scan_loop b (i + 1) lst cnt v }
      else Some BITMAP_ERROR)"
  by pat_completeness auto
termination by (relation "measure (\<lambda>(b, i, lst, cnt, v). Suc lst - i)") auto

declare scan_loop.simps [simp del]

definition bitmap_scan :: "bitmap \<Rightarrow> nat \<Rightarrow> nat \<Rightarrow> bool \<Rightarrow> nat option" where
  "bitmap_scan b start cnt v = do {
     _ \<leftarrow> ASSERT (start \<le> bit_cnt b);
     if cnt \<le> bit_cnt b then scan_loop b start (bit_cnt b - cnt) cnt v else Some BITMAP_ERROR }"

definition bitmap_scan_and_flip :: "bitmap \<Rightarrow> nat \<Rightarrow> nat \<Rightarrow> bool \<Rightarrow> (nat \<times> bitmap) option" where
  "bitmap_scan_and_flip b start cnt v = do {
     idx \<leftarrow> bitmap_scan b start cnt v;
     b \<leftarrow> (if idx \<noteq> BITMAP_ERROR then bitmap_set_multiple b idx cnt (\<not> v) else Some b);
     Some (idx, b) }"

section \<open>Creation\<close>

text \<open>
  The allocator's answers are arguments: whether the header was allocated, and the elements
  (with whatever they held), \<open>None\<close> for \<open>NULL\<close>. The result is \<open>NULL\<close> or a bitmap.
\<close>

definition bitmap_create :: "nat \<Rightarrow> bool \<Rightarrow> 32 word list option \<Rightarrow> bitmap option option" where
  "bitmap_create n hdr blk =
     (if hdr then
        (if blk \<noteq> None \<or> n = 0 then do {
           b \<leftarrow> bitmap_set_all \<lparr>bit_cnt = n, bits = (case blk of None \<Rightarrow> [] | Some ws \<Rightarrow> ws)\<rparr> False;
           Some (Some b) }
         else Some None)
      else Some None)"

definition bitmap_create_in_buf :: "nat \<Rightarrow> 32 word list \<Rightarrow> nat \<Rightarrow> bitmap option" where
  "bitmap_create_in_buf n blk block_size = do {
     _ \<leftarrow> ASSERT (block_size \<ge> bitmap_buf_size n);
     bitmap_set_all \<lparr>bit_cnt = n, bits = blk\<rparr> False }"

section \<open>The array of bits\<close>

definition bit_at :: "bitmap \<Rightarrow> nat \<Rightarrow> bool" where
  "bit_at b i = bit (bits b ! (i div 32)) (i mod 32)"

definition bits_of :: "bitmap \<Rightarrow> bool list" where
  "bits_of b = map (bit_at b) [0..<bit_cnt b]"

definition bitmap_ok :: "bitmap \<Rightarrow> bool" where
  "bitmap_ok b \<longleftrightarrow> bit_cnt b < 2 ^ 32 \<and> bit_cnt b \<le> 32 * length (bits b)"

lemma length_bits_of [simp]: "length (bits_of b) = bit_cnt b"
  by (simp add: bits_of_def)

lemma nth_bits_of: "i < bit_cnt b \<Longrightarrow> bits_of b ! i = bit_at b i"
  by (simp add: bits_of_def)

lemma elem_in: "bitmap_ok b \<Longrightarrow> i < bit_cnt b \<Longrightarrow> i div 32 < length (bits b)"
  by (auto simp: bitmap_ok_def div_less_iff_less_mult)

lemma bit_bit_mask: "bit (bit_mask i) j = (j = i mod 32)"
proof -
  have "i mod 32 < 32" by simp
  then show ?thesis by (auto simp: bit_mask_def ELEM_BITS_def bit_simps)
qed

lemma and_bit_mask: "(w AND bit_mask i \<noteq> 0) = bit w (i mod 32)"
proof
  assume "bit w (i mod 32)"
  then have "bit (w AND bit_mask i) (i mod 32)" by (simp add: bit_and_iff bit_bit_mask)
  then show "w AND bit_mask i \<noteq> 0" by fastforce
next
  assume n: "w AND bit_mask i \<noteq> 0"
  show "bit w (i mod 32)"
  proof (rule ccontr)
    assume c: "\<not> bit w (i mod 32)"
    have "w AND bit_mask i = 0" by (rule bit_eqI) (use c in \<open>auto simp: bit_and_iff bit_bit_mask\<close>)
    with n show False by simp
  qed
qed

lemma bitmap_test_spec: "bitmap_ok b \<Longrightarrow> i < bit_cnt b \<Longrightarrow> bitmap_test b i = Some (bits_of b ! i)"
  using elem_in [of b i]
  by (simp add: bitmap_test_def elem_idx_def ELEM_BITS_def and_bit_mask nth_bits_of bit_at_def)

lemma bitmap_test_None: "bit_cnt b \<le> i \<Longrightarrow> bitmap_test b i = None"
  by (simp add: bitmap_test_def)

text \<open>A change of one element changes the bits that the operation's mask selects.\<close>

lemma upd_elem_bits:
  assumes b: "bitmap_ok b" and i: "i < bit_cnt b"
    and f: "\<And>w j. bit (f w) j = (if j = i mod 32 then g (bit w j) else bit (w :: 32 word) j)"
  shows "\<exists>b'. upd_elem (elem_idx i) f b = Some b' \<and> bitmap_ok b' \<and> bits_of b' = (bits_of b)[i := g (bits_of b ! i)]"
proof -
  let ?b = "b\<lparr>bits := (bits b)[i div 32 := f (bits b ! (i div 32))]\<rparr>"
  note el = elem_in [OF b i]
  have "bits_of ?b = (bits_of b)[i := g (bits_of b ! i)]"
  proof (rule nth_equalityI)
    fix k assume "k < length (bits_of ?b)"
    then have k: "k < bit_cnt b" by simp
    show "bits_of ?b ! k = (bits_of b)[i := g (bits_of b ! i)] ! k"
    proof (cases "k = i")
      case True
      then show ?thesis using i el by (simp add: nth_bits_of bit_at_def f)
    next
      case ki: False
      show ?thesis
      proof (cases "k div 32 = i div 32")
        case True
        with ki have "k mod 32 \<noteq> i mod 32" by (metis div_mult_mod_eq)
        then show ?thesis using k ki True el by (simp add: nth_bits_of bit_at_def f)
      next
        case False
        then show ?thesis using k ki by (simp add: nth_bits_of bit_at_def)
      qed
    qed
  qed simp
  moreover have "bitmap_ok ?b" using b by (simp add: bitmap_ok_def)
  moreover have "upd_elem (elem_idx i) f b = Some ?b" using el by (simp add: upd_elem_def elem_idx_def ELEM_BITS_def)
  ultimately show ?thesis by blast
qed

lemma bitmap_mark_spec:
  "bitmap_ok b \<Longrightarrow> i < bit_cnt b \<Longrightarrow> \<exists>b'. bitmap_mark b i = Some b' \<and> bitmap_ok b' \<and> bits_of b' = (bits_of b)[i := True]"
  unfolding bitmap_mark_def
  by (rule upd_elem_bits [where g = "\<lambda>_. True"]) (auto simp: bit_or_iff bit_bit_mask)

lemma bitmap_reset_spec:
  "bitmap_ok b \<Longrightarrow> i < bit_cnt b \<Longrightarrow> \<exists>b'. bitmap_reset b i = Some b' \<and> bitmap_ok b' \<and> bits_of b' = (bits_of b)[i := False]"
  unfolding bitmap_reset_def
  by (rule upd_elem_bits [where g = "\<lambda>_. False"])
    (auto simp: bit_and_iff bit_not_iff bit_bit_mask dest: bit_imp_le_length)

lemma bitmap_flip_spec:
  "bitmap_ok b \<Longrightarrow> i < bit_cnt b \<Longrightarrow> \<exists>b'. bitmap_flip b i = Some b' \<and> bitmap_ok b' \<and> bits_of b' = (bits_of b)[i := \<not> bits_of b ! i]"
  unfolding bitmap_flip_def
  by (rule upd_elem_bits [where g = Not]) (auto simp: bit_xor_iff bit_bit_mask)

lemma bitmap_set_spec:
  "bitmap_ok b \<Longrightarrow> i < bit_cnt b \<Longrightarrow> \<exists>b'. bitmap_set b i v = Some b' \<and> bitmap_ok b' \<and> bits_of b' = (bits_of b)[i := v]"
  using bitmap_mark_spec [of b i] bitmap_reset_spec [of b i] by (cases v) (simp_all add: bitmap_set_def)

section \<open>Ranges\<close>

definition set_range :: "nat \<Rightarrow> nat \<Rightarrow> bool \<Rightarrow> bool list \<Rightarrow> bool list" where
  "set_range s n v xs = take s xs @ replicate n v @ drop (s + n) xs"

definition range_all :: "bool list \<Rightarrow> nat \<Rightarrow> nat \<Rightarrow> bool \<Rightarrow> bool" where
  "range_all xs s n v = list_all (\<lambda>x. x = v) (take n (drop s xs))"

lemma set_range_0 [simp]: "set_range s 0 v xs = xs"
  by (simp add: set_range_def)

lemma set_range_Suc: "s < length xs \<Longrightarrow> set_range (Suc s) n v (xs[s := v]) = set_range s (Suc n) v xs"
  by (simp add: set_range_def take_Suc_conv_app_nth)

lemma length_set_range [simp]: "s + n \<le> length xs \<Longrightarrow> length (set_range s n v xs) = length xs"
  by (simp add: set_range_def)

lemma nth_set_range: "s + n \<le> length xs \<Longrightarrow> i < length xs \<Longrightarrow>
    set_range s n v xs ! i = (if s \<le> i \<and> i < s + n then v else xs ! i)"
  by (auto simp: set_range_def nth_append)

lemma set_loop_spec:
  "bitmap_ok b \<Longrightarrow> k + n \<le> bit_cnt b \<Longrightarrow>
   \<exists>b'. set_loop n k v b = Some b' \<and> bitmap_ok b' \<and> bits_of b' = set_range k n v (bits_of b)"
proof (induction n arbitrary: k b)
  case (Suc n)
  then obtain b1 where b1: "bitmap_set b k v = Some b1" "bitmap_ok b1" "bits_of b1 = (bits_of b)[k := v]"
    using bitmap_set_spec [of b k v] by auto
  then have c: "bit_cnt b1 = bit_cnt b" by (metis length_bits_of length_list_update)
  have "(k + 1) mod SIZE_MOD = Suc k" using Suc.prems by (simp add: SIZE_MOD_def bitmap_ok_def)
  moreover obtain b' where "set_loop n (Suc k) v b1 = Some b'" "bitmap_ok b'"
      "bits_of b' = set_range (Suc k) n v (bits_of b1)"
    using Suc.IH [of b1 "Suc k"] b1 c Suc.prems by auto
  ultimately show ?case using b1 Suc.prems by (simp add: set_range_Suc)
qed simp

lemma in_range_iff: "bitmap_ok b \<Longrightarrow> start + cnt < 2 ^ 32 \<Longrightarrow> in_range b start cnt \<longleftrightarrow> start + cnt \<le> bit_cnt b"
  by (auto simp: in_range_def SIZE_MOD_def)

lemma bitmap_set_multiple_spec:
  "bitmap_ok b \<Longrightarrow> start + cnt \<le> bit_cnt b \<Longrightarrow>
   \<exists>b'. bitmap_set_multiple b start cnt v = Some b' \<and> bitmap_ok b' \<and> bits_of b' = set_range start cnt v (bits_of b)"
  using set_loop_spec [of b start cnt v] by (auto simp: bitmap_set_multiple_def in_range_def SIZE_MOD_def bitmap_ok_def)

lemma bitmap_set_all_spec:
  "bitmap_ok b \<Longrightarrow> \<exists>b'. bitmap_set_all b v = Some b' \<and> bitmap_ok b' \<and> bits_of b' = replicate (bit_cnt b) v"
  using bitmap_set_multiple_spec [of b 0 "bit_cnt b" v] by (auto simp: bitmap_set_all_def bitmap_size_def set_range_def)

lemma take_drop_Suc: "k < length xs \<Longrightarrow> take (Suc n) (drop k xs) = xs ! k # take n (drop (Suc k) xs)"
  by (simp flip: Cons_nth_drop_Suc)

lemma count_loop_spec:
  "bitmap_ok b \<Longrightarrow> k + n \<le> bit_cnt b \<Longrightarrow>
   count_loop n k v b acc = Some (acc + length (filter (\<lambda>x. x = v) (take n (drop k (bits_of b)))))"
proof (induction n arbitrary: k acc)
  case (Suc n)
  have "(k + 1) mod SIZE_MOD = Suc k" using Suc.prems by (simp add: SIZE_MOD_def bitmap_ok_def)
  then show ?case using Suc by (simp add: bitmap_test_spec take_drop_Suc)
qed simp

lemma bitmap_count_spec:
  "bitmap_ok b \<Longrightarrow> start + cnt \<le> bit_cnt b \<Longrightarrow>
   bitmap_count b start cnt v = Some (length (filter (\<lambda>x. x = v) (take cnt (drop start (bits_of b)))))"
  using count_loop_spec [of b start cnt v 0] by (auto simp: bitmap_count_def in_range_def SIZE_MOD_def bitmap_ok_def)

lemma contains_loop_spec:
  "bitmap_ok b \<Longrightarrow> k + n \<le> bit_cnt b \<Longrightarrow>
   contains_loop n k v b = Some (\<not> range_all (bits_of b) k n (\<not> v))"
proof (induction n arbitrary: k)
  case (Suc n)
  have "(k + 1) mod SIZE_MOD = Suc k" using Suc.prems by (simp add: SIZE_MOD_def bitmap_ok_def)
  then show ?case using Suc by (auto simp: bitmap_test_spec range_all_def take_drop_Suc)
qed (simp add: range_all_def)

lemma bitmap_contains_spec:
  "bitmap_ok b \<Longrightarrow> start + cnt \<le> bit_cnt b \<Longrightarrow>
   bitmap_contains b start cnt v = Some (\<not> range_all (bits_of b) start cnt (\<not> v))"
  using contains_loop_spec [of b start cnt v] by (auto simp: bitmap_contains_def in_range_def SIZE_MOD_def bitmap_ok_def)

text \<open>The first group of \<open>n\<close> equal bits at or after \<open>s\<close>.\<close>

definition first_run :: "bool list \<Rightarrow> nat \<Rightarrow> nat \<Rightarrow> bool \<Rightarrow> nat option" where
  "first_run xs s n v = (if n \<le> length xs then List.find (\<lambda>i. range_all xs i n v) [s..<Suc (length xs - n)] else None)"

lemma scan_loop_spec:
  assumes "bitmap_ok b" and "cnt \<le> bit_cnt b"
  shows "scan_loop b i (bit_cnt b - cnt) cnt v = Some (case List.find (\<lambda>i. range_all (bits_of b) i cnt v) [i..<Suc (bit_cnt b - cnt)]
      of None \<Rightarrow> BITMAP_ERROR | Some j \<Rightarrow> j)"
  using assms
proof (induction "Suc (bit_cnt b - cnt) - i" arbitrary: i)
  case 0
  then have "\<not> i \<le> bit_cnt b - cnt" by simp
  then show ?case by (subst scan_loop.simps) simp
next
  case (Suc m)
  then have i: "i \<le> bit_cnt b - cnt" by simp
  then have "i + cnt \<le> bit_cnt b" using Suc.prems by simp
  moreover have "[i..<Suc (bit_cnt b - cnt)] = i # [Suc i..<Suc (bit_cnt b - cnt)]" using i by (simp add: upt_conv_Cons)
  moreover have "m = Suc (bit_cnt b - cnt) - Suc i" using Suc.hyps by simp
  ultimately show ?case using Suc i by (subst scan_loop.simps) (simp add: bitmap_contains_spec)
qed

lemma bitmap_scan_spec:
  "bitmap_ok b \<Longrightarrow> start \<le> bit_cnt b \<Longrightarrow>
   bitmap_scan b start cnt v = Some (case first_run (bits_of b) start cnt v of None \<Rightarrow> BITMAP_ERROR | Some j \<Rightarrow> j)"
  using scan_loop_spec [of b cnt start v] by (simp add: bitmap_scan_def first_run_def)

lemma find_SomeD: "List.find P xs = Some x \<Longrightarrow> x \<in> set xs \<and> P x"
  by (metis find_Some_iff nth_mem)

lemma first_run_Some: "first_run xs s n v = Some i \<Longrightarrow> s \<le> i \<and> i + n \<le> length xs \<and> range_all xs i n v"
  unfolding first_run_def by (auto split: if_split_asm dest!: find_SomeD)

lemma first_run_first:
  assumes r: "first_run xs s n v = Some i" and j: "s \<le> j" "j < i"
  shows "\<not> range_all xs j n v"
proof -
  let ?is = "[s..<Suc (length xs - n)]"
  from r have "List.find (\<lambda>i. range_all xs i n v) ?is = Some i" by (simp add: first_run_def split: if_split_asm)
  then obtain k where k: "k < length ?is" "i = ?is ! k" "\<forall>m<k. \<not> range_all xs (?is ! m) n v"
    by (auto simp: find_Some_iff)
  then have "i = s + k" by (simp del: upt_Suc)
  with j have "j - s < k" by simp
  with k have "\<not> range_all xs (?is ! (j - s)) n v" by blast
  moreover have "?is ! (j - s) = j" using j k \<open>i = s + k\<close> by (simp del: upt_Suc)
  ultimately show ?thesis by simp
qed

lemma first_run_None: "first_run xs s n v = None \<Longrightarrow> s \<le> j \<Longrightarrow> j + n \<le> length xs \<Longrightarrow> \<not> range_all xs j n v"
  unfolding first_run_def by (auto simp: find_None_iff split: if_split_asm)

lemma range_all_nth: "range_all xs i n v \<Longrightarrow> i + n \<le> length xs \<Longrightarrow> i \<le> j \<Longrightarrow> j < i + n \<Longrightarrow> xs ! j = v"
proof -
  assume a: "range_all xs i n v" "i + n \<le> length xs" "i \<le> j" "j < i + n"
  then have "take n (drop i xs) ! (j - i) = xs ! j" by simp
  moreover have "take n (drop i xs) ! (j - i) \<in> set (take n (drop i xs))" using a by (intro nth_mem) simp
  ultimately show ?thesis using a(1) by (auto simp: range_all_def list_all_iff)
qed

lemma range_all_iff: "i + n \<le> length xs \<Longrightarrow> range_all xs i n v \<longleftrightarrow> (\<forall>j. i \<le> j \<and> j < i + n \<longrightarrow> xs ! j = v)"
proof
  assume l: "i + n \<le> length xs" and a: "\<forall>j. i \<le> j \<and> j < i + n \<longrightarrow> xs ! j = v"
  show "range_all xs i n v"
    using a l by (auto simp: range_all_def list_all_iff in_set_conv_nth)
qed (use range_all_nth in blast)

lemma bitmap_scan_and_flip_spec:
  assumes b: "bitmap_ok b" and s: "start \<le> bit_cnt b" and n: "0 < cnt"
  shows "\<exists>b'. bitmap_ok b' \<and> bitmap_scan_and_flip b start cnt v =
    (case first_run (bits_of b) start cnt v of None \<Rightarrow> Some (BITMAP_ERROR, b) | Some i \<Rightarrow> Some (i, b')) \<and>
    (\<forall>i. first_run (bits_of b) start cnt v = Some i \<longrightarrow> i < BITMAP_ERROR \<and> bits_of b' = set_range i cnt (\<not> v) (bits_of b))"
proof (cases "first_run (bits_of b) start cnt v")
  case None
  then show ?thesis using b bitmap_scan_spec [OF b s, of cnt v] by (auto simp: bitmap_scan_and_flip_def)
next
  case (Some i)
  from first_run_Some [OF this] have i: "i + cnt \<le> bit_cnt b" by simp
  then have "i < BITMAP_ERROR" using b n by (simp add: bitmap_ok_def BITMAP_ERROR_def)
  then show ?thesis
    using Some bitmap_scan_spec [OF b s, of cnt v] bitmap_set_multiple_spec [OF b i, of "\<not> v"]
    by (auto simp: bitmap_scan_and_flip_def)
qed

section \<open>What an allocator relies on\<close>

text \<open>
  The page allocator and the free map keep a bit per page or sector, true while it is in use,
  and call only these operations on it.
\<close>

locale bit_allocator =
  fixes ok :: "'b \<Rightarrow> bool" and view :: "'b \<Rightarrow> bool list"
    and scan_flip :: "'b \<Rightarrow> nat \<Rightarrow> nat \<Rightarrow> bool \<Rightarrow> (nat \<times> 'b) option"
    and set_multiple :: "'b \<Rightarrow> nat \<Rightarrow> nat \<Rightarrow> bool \<Rightarrow> 'b option"
    and err :: nat
  assumes scan_flip: "ok b \<Longrightarrow> s \<le> length (view b) \<Longrightarrow> 0 < n \<Longrightarrow>
      \<exists>b'. ok b' \<and> scan_flip b s n v = (case first_run (view b) s n v of None \<Rightarrow> Some (err, b) | Some i \<Rightarrow> Some (i, b')) \<and>
        (\<forall>i. first_run (view b) s n v = Some i \<longrightarrow> i < err \<and> view b' = set_range i n (\<not> v) (view b))"
    and set_multiple: "ok b \<Longrightarrow> s + n \<le> length (view b) \<Longrightarrow>
      \<exists>b'. set_multiple b s n v = Some b' \<and> ok b' \<and> view b' = set_range s n v (view b)"
begin

definition used :: "'b \<Rightarrow> nat set" where
  "used b = {i. i < length (view b) \<and> view b ! i}"

lemma used_set_range:
  "s + n \<le> length xs \<Longrightarrow> {i. i < length (set_range s n v xs) \<and> set_range s n v xs ! i} =
     (if v then {i. i < length xs \<and> xs ! i} \<union> {s..<s + n} else {i. i < length xs \<and> xs ! i} - {s..<s + n})"
  by (auto simp: nth_set_range split: if_split_asm)

text \<open>An allocation of \<open>n\<close> units takes units that were free, or fails only when no \<open>n\<close>
  consecutive ones are.\<close>

lemma alloc:
  assumes b: "ok b" and n: "0 < n" and r: "scan_flip b 0 n False = Some (i, b')"
  shows "ok b' \<and> length (view b') = length (view b) \<and>
    (if i = err then b' = b \<and> (\<forall>j. j + n \<le> length (view b) \<longrightarrow> (\<exists>k\<in>{j..<j + n}. k \<in> used b))
     else i + n \<le> length (view b) \<and> {i..<i + n} \<inter> used b = {} \<and> used b' = used b \<union> {i..<i + n})"
proof (cases "first_run (view b) 0 n False")
  case None
  with scan_flip [OF b, of 0 n False] n r b have e: "i = err" "b' = b" by auto
  have "\<exists>k\<in>{j..<j + n}. k \<in> used b" if "j + n \<le> length (view b)" for j
    using first_run_None [OF None _ that] that by (auto simp: range_all_iff used_def)
  with e b show ?thesis by simp
next
  case (Some j)
  from scan_flip [OF b, of 0 n False] n r Some
  have e: "i = j" "ok b'" "i < err" "view b' = set_range i n True (view b)" by auto
  from first_run_Some [OF Some] have f: "j + n \<le> length (view b)" "range_all (view b) j n False" by auto
  then have "{i..<i + n} \<inter> used b = {}" using e by (auto simp: range_all_iff used_def)
  moreover have "used b' = used b \<union> {i..<i + n}"
    unfolding used_def e(4) using used_set_range [of i n "view b" True] f e(1) by simp
  ultimately show ?thesis using e f by simp
qed

text \<open>A release makes exactly the given units free.\<close>

lemma release:
  assumes b: "ok b" and r: "i + n \<le> length (view b)"
  shows "\<exists>b'. set_multiple b i n False = Some b' \<and> ok b' \<and> length (view b') = length (view b) \<and>
    used b' = used b - {i..<i + n}"
proof -
  from set_multiple [OF b r] obtain b' where b': "set_multiple b i n False = Some b'" "ok b'"
    "view b' = set_range i n False (view b)" by blast
  have "used b' = used b - {i..<i + n}"
    unfolding used_def b'(3) using used_set_range [OF r, of False] by simp
  then show ?thesis using b' r by simp
qed

lemma alloc_release:
  assumes b: "ok b" and n: "0 < n" and r: "scan_flip b 0 n False = Some (i, b')" and i: "i \<noteq> err"
  shows "\<exists>b''. set_multiple b' i n False = Some b'' \<and> ok b'' \<and> used b'' = used b"
proof -
  note a = alloc [OF b n r]
  with i have "i + n \<le> length (view b')" "ok b'" "used b' = used b \<union> {i..<i + n}" "{i..<i + n} \<inter> used b = {}"
    by simp_all
  then show ?thesis using release [of b' i n] by auto
qed

end

interpretation bm: bit_allocator bitmap_ok bits_of bitmap_scan_and_flip bitmap_set_multiple BITMAP_ERROR
proof
  fix b s n v assume "bitmap_ok b" "s \<le> length (bits_of b)" "0 < (n :: nat)"
  then show "\<exists>b'. bitmap_ok b' \<and> bitmap_scan_and_flip b s n v =
      (case first_run (bits_of b) s n v of None \<Rightarrow> Some (BITMAP_ERROR, b) | Some i \<Rightarrow> Some (i, b')) \<and>
      (\<forall>i. first_run (bits_of b) s n v = Some i \<longrightarrow> i < BITMAP_ERROR \<and> bits_of b' = set_range i n (\<not> v) (bits_of b))"
    using bitmap_scan_and_flip_spec by simp
next
  fix b s n v assume "bitmap_ok b" "s + n \<le> length (bits_of b)"
  then show "\<exists>b'. bitmap_set_multiple b s n v = Some b' \<and> bitmap_ok b' \<and> bits_of b' = set_range s n v (bits_of b)"
    using bitmap_set_multiple_spec by simp
qed

section \<open>Properties\<close>

text \<open>C22. bitmap_scan_and_flip: it never panics on a well-formed bitmap, it returns the first index
  at or after START of CNT bits that all have the value, it flips exactly those bits, and when
  there is no such group it returns BITMAP_ERROR and changes nothing.\<close>

theorem bitmap_scan_and_flip_correct:
  assumes b: "bitmap_ok b" and s: "start \<le> bit_cnt b" and n: "0 < cnt"
  shows "\<exists>r b'. bitmap_scan_and_flip b start cnt v = Some (r, b') \<and> bitmap_ok b' \<and>
    (if r = BITMAP_ERROR
     then b' = b \<and> (\<forall>i\<ge>start. i + cnt \<le> bit_cnt b \<longrightarrow> (\<exists>j\<in>{i..<i + cnt}. bitmap_test b j = Some (\<not> v)))
     else start \<le> r \<and> r + cnt \<le> bit_cnt b \<and>
       (\<forall>j\<in>{r..<r + cnt}. bitmap_test b j = Some v) \<and>
       (\<forall>i\<in>{start..<r}. \<exists>j\<in>{i..<i + cnt}. bitmap_test b j = Some (\<not> v)) \<and>
       (\<forall>j<bit_cnt b. bitmap_test b' j = (if j \<in> {r..<r + cnt} then Some (\<not> v) else bitmap_test b j)))"
proof (cases "first_run (bits_of b) start cnt v")
  case None
  have "\<exists>j\<in>{i..<i + cnt}. bitmap_test b j = Some (\<not> v)" if "start \<le> i" "i + cnt \<le> bit_cnt b" for i
    using first_run_None [OF None that(1)] that(2) b by (auto simp: range_all_iff bitmap_test_spec)
  with None bitmap_scan_and_flip_spec [OF b s n, of v] b show ?thesis by auto
next
  case (Some i)
  note f = first_run_Some [OF Some]
  from Some bitmap_scan_and_flip_spec [OF b s n, of v] obtain b' where
    b': "bitmap_scan_and_flip b start cnt v = Some (i, b')" "bitmap_ok b'" "i < BITMAP_ERROR"
    "bits_of b' = set_range i cnt (\<not> v) (bits_of b)" by auto
  then have c: "bit_cnt b' = bit_cnt b" using f by (metis length_bits_of length_set_range)
  have 1: "\<forall>j\<in>{i..<i + cnt}. bitmap_test b j = Some v"
    using f b by (auto simp: range_all_iff bitmap_test_spec)
  have 2: "\<exists>j\<in>{k..<k + cnt}. bitmap_test b j = Some (\<not> v)" if "k \<in> {start..<i}" for k
    using first_run_first [OF Some, of k] that f b by (auto simp: range_all_iff bitmap_test_spec)
  have 3: "bitmap_test b' j = (if j \<in> {i..<i + cnt} then Some (\<not> v) else bitmap_test b j)" if "j < bit_cnt b" for j
    using that f b b' c by (simp add: bitmap_test_spec nth_set_range)
  show ?thesis using b' f 1 2 3 by auto
qed

definition sample_bitmap :: bitmap where
  "sample_bitmap = \<lparr>bit_cnt = 10, bits = [0b0001001011]\<rparr>"

lemma bitmap_scan_and_flip_correct_witness:
  "\<exists>r b'. bitmap_scan_and_flip sample_bitmap 0 2 False = Some (r, b') \<and> bitmap_ok b'"
  using bitmap_scan_and_flip_correct [of sample_bitmap 0 2 False]
  by (auto simp: sample_bitmap_def bitmap_ok_def)

text \<open>For a count of zero the result is START, not 0 as the comment says.\<close>

lemma bitmap_scan_and_flip_zero:
  assumes "bitmap_ok b" and "start \<le> bit_cnt b" and "start < BITMAP_ERROR"
  shows "bitmap_scan_and_flip b start 0 v = Some (start, b)"
proof -
  have "first_run (bits_of b) start 0 v = Some start"
    using assms(2) by (simp add: first_run_def range_all_def upt_conv_Cons del: upt_Suc)
  then show ?thesis using assms bitmap_scan_spec [OF assms(1,2), of 0 v]
    by (simp add: bitmap_scan_and_flip_def bitmap_set_multiple_def in_range_def SIZE_MOD_def bitmap_ok_def)
qed

end
