(* ===== verification/Vaddr.thy ===== *)
theory Vaddr
  imports Kernel_List
begin

unbundle bit_operations_syntax

text \<open>
  \<open>threads/vaddr.h\<close> and \<open>threads/pte.h\<close>: page numbers and offsets, the mapping between
  physical and kernel virtual addresses, and the format of page-directory and page-table
  entries. Addresses and entries are 32-bit values in \<open>nat\<close>, with the code's masks and shifts.
\<close>

section \<open>Virtual addresses\<close>

definition PGBITS :: nat where "PGBITS = 12"
definition PGSIZE :: nat where "PGSIZE = push_bit PGBITS 1"

definition BITMASK :: "nat \<Rightarrow> nat \<Rightarrow> nat" where
  "BITMASK shift cnt = push_bit shift (push_bit cnt 1 - 1)"

definition PGMASK :: nat where "PGMASK = BITMASK 0 PGBITS"

text \<open>A 32-bit unsigned result, and the complement of a 32-bit value.\<close>

definition u32 :: "nat \<Rightarrow> nat" where "u32 n = n mod 2 ^ 32"

definition not32 :: "nat \<Rightarrow> nat" where "not32 m = 2 ^ 32 - 1 - m"

definition pg_ofs :: "nat \<Rightarrow> nat" where "pg_ofs va = va AND PGMASK"
definition pg_no :: "nat \<Rightarrow> nat" where "pg_no va = drop_bit PGBITS va"
definition pg_round_up :: "nat \<Rightarrow> nat" where "pg_round_up va = (va + PGSIZE - 1) mod 2 ^ 32 AND not32 PGMASK"
definition pg_round_down :: "nat \<Rightarrow> nat" where "pg_round_down va = va AND not32 PGMASK"

definition PHYS_BASE :: nat where "PHYS_BASE = 0xc0000000"

definition is_user_vaddr :: "nat \<Rightarrow> bool" where "is_user_vaddr va \<longleftrightarrow> va < PHYS_BASE"
definition is_kernel_vaddr :: "nat \<Rightarrow> bool" where "is_kernel_vaddr va \<longleftrightarrow> va \<ge> PHYS_BASE"

definition ptov :: "nat \<Rightarrow> nat option" where
  "ptov pa = do { _ \<leftarrow> ASSERT (pa < PHYS_BASE); Some ((pa + PHYS_BASE) mod 2 ^ 32) }"

definition vtop :: "nat \<Rightarrow> nat option" where
  "vtop va = do { _ \<leftarrow> ASSERT (is_kernel_vaddr va); Some (va - PHYS_BASE) }"

section \<open>Page table entries\<close>

definition PTSHIFT :: nat where "PTSHIFT = PGBITS"
definition PTBITS :: nat where "PTBITS = 10"
definition PTMASK :: nat where "PTMASK = BITMASK PTSHIFT PTBITS"
definition PDSHIFT :: nat where "PDSHIFT = PTSHIFT + PTBITS"

definition pt_no :: "nat \<Rightarrow> nat" where "pt_no va = drop_bit PTSHIFT (va AND PTMASK)"
definition pd_no :: "nat \<Rightarrow> nat" where "pd_no va = drop_bit PDSHIFT va"

definition PTE_ADDR :: nat where "PTE_ADDR = 0xfffff000"
definition PTE_P :: nat where "PTE_P = 0x1"
definition PTE_W :: nat where "PTE_W = 0x2"
definition PTE_U :: nat where "PTE_U = 0x4"
definition PTE_A :: nat where "PTE_A = 0x20"
definition PTE_D :: nat where "PTE_D = 0x40"

definition pde_create :: "nat \<Rightarrow> nat option" where
  "pde_create pt = do { _ \<leftarrow> ASSERT (pg_ofs pt = 0); p \<leftarrow> vtop pt; Some (p OR PTE_U OR PTE_P OR PTE_W) }"

definition pde_get_pt :: "nat \<Rightarrow> nat option" where
  "pde_get_pt pde = do { _ \<leftarrow> ASSERT (pde AND PTE_P \<noteq> 0); ptov (pde AND PTE_ADDR) }"

definition pte_create_kernel :: "nat \<Rightarrow> bool \<Rightarrow> nat option" where
  "pte_create_kernel page writable = do {
     _ \<leftarrow> ASSERT (pg_ofs page = 0);
     p \<leftarrow> vtop page;
     Some (p OR PTE_P OR (if writable then PTE_W else 0)) }"

definition pte_create_user :: "nat \<Rightarrow> bool \<Rightarrow> nat option" where
  "pte_create_user page writable = do { e \<leftarrow> pte_create_kernel page writable; Some (e OR PTE_U) }"

definition pte_get_page :: "nat \<Rightarrow> nat option" where
  "pte_get_page pte = ptov (pte AND PTE_ADDR)"

section \<open>Arithmetic\<close>

lemma PGSIZE_value [simp]: "PGSIZE = 4096"
  by (simp add: PGSIZE_def PGBITS_def)

lemma PGMASK_mask: "PGMASK = mask 12"
  by (simp add: PGMASK_def BITMASK_def PGBITS_def mask_eq_exp_minus_1)

lemma not32_PGMASK: "not32 PGMASK = push_bit 12 (mask 20)"
  by (simp add: PGMASK_mask not32_def mask_eq_exp_minus_1)

lemma pg_ofs_mod: "pg_ofs va = va mod 4096"
  by (simp add: pg_ofs_def PGMASK_mask take_bit_eq_mod flip: take_bit_eq_mask)

lemma pg_no_div: "pg_no va = va div 4096"
  by (simp add: pg_no_def PGBITS_def drop_bit_eq_div)

lemma and_page_mask: "va < 2 ^ 32 \<Longrightarrow> va AND not32 PGMASK = va div 4096 * 4096"
proof -
  assume "va < 2 ^ 32"
  then have "take_bit 32 va = va" by (simp add: take_bit_nat_eq_self)
  then have t: "bit va j \<Longrightarrow> j < 32" for j by (metis bit_take_bit_iff)
  have "va AND push_bit 12 (mask 20) = push_bit 12 (drop_bit 12 va)"
    by (rule bit_eqI) (auto simp: bit_and_iff bit_push_bit_iff bit_mask_iff bit_drop_bit_eq dest: t)
  then show ?thesis unfolding not32_PGMASK by (simp add: push_bit_eq_mult drop_bit_eq_div)
qed

lemma pg_round_down_div: "va < 2 ^ 32 \<Longrightarrow> pg_round_down va = va div 4096 * 4096"
  by (simp add: pg_round_down_def and_page_mask)

lemma pg_round_up_div: "va + 4095 < 2 ^ 32 \<Longrightarrow> pg_round_up va = (va + 4095) div 4096 * 4096"
  by (simp add: pg_round_up_def and_page_mask)

lemma pt_no_div: "pt_no va = va div 4096 mod 1024"
proof -
  have "drop_bit 12 (va AND push_bit 12 (mask 10)) = take_bit 10 (drop_bit 12 va)"
    by (rule bit_eqI) (auto simp: bit_and_iff bit_push_bit_iff bit_mask_iff bit_drop_bit_eq bit_take_bit_iff)
  moreover have "PTMASK = push_bit 12 (mask 10)"
    by (simp add: PTMASK_def BITMASK_def PTSHIFT_def PTBITS_def PGBITS_def mask_eq_exp_minus_1)
  ultimately show ?thesis
    by (simp add: pt_no_def PTSHIFT_def PGBITS_def drop_bit_eq_div take_bit_eq_mod)
qed

lemma pd_no_div: "pd_no va = va div (1024 * 4096)"
  by (simp add: pd_no_def PDSHIFT_def PTSHIFT_def PTBITS_def PGBITS_def drop_bit_eq_div)

text \<open>A page's number splits into the directory and the table index.\<close>

lemma page_split: "va div 4096 = pd_no va * 1024 + pt_no va"
proof -
  have "va div (1024 * 4096) = va div 4096 div 1024" by (simp add: div_mult2_eq mult.commute)
  then show ?thesis by (simp add: pd_no_div pt_no_div)
qed

end
