(* ===== verification/Palloc.thy ===== *)
theory Palloc
  imports Bitmap Vaddr
begin

text \<open>
  \<open>threads/palloc.c\<close>: the page allocator over two pools, each with a bitmap of its pages.
  \<open>ram\<close> is the memory at kernel virtual addresses; addresses are 32-bit values in \<open>nat\<close>.
  The pools' locks only serialize calls and leave no trace in the state.
\<close>

section \<open>Data\<close>

record pool =
  used_map :: bitmap
  base :: addr

record pages =
  kernel_pool :: pool
  user_pool :: pool
  ram :: "addr \<Rightarrow> byte"

definition PAL_ASSERT :: nat where "PAL_ASSERT = 1"
definition PAL_ZERO :: nat where "PAL_ZERO = 2"
definition PAL_USER :: nat where "PAL_USER = 4"

definition fill :: "addr \<Rightarrow> nat \<Rightarrow> byte \<Rightarrow> pages \<Rightarrow> pages" where
  "fill p n v s = s\<lparr>ram := (\<lambda>a. if p \<le> a \<and> a < p + n then v else ram s a)\<rparr>"

section \<open>Initialization\<close>

text \<open>The 32-bit elements in memory at an address.\<close>

definition ram_word :: "(addr \<Rightarrow> byte) \<Rightarrow> addr \<Rightarrow> 32 word" where
  "ram_word m a = ucast (m a) OR push_bit 8 (ucast (m (a + 1))) OR push_bit 16 (ucast (m (a + 2)))
     OR push_bit 24 (ucast (m (a + 3)))"

definition DIV_ROUND_UP :: "nat \<Rightarrow> nat \<Rightarrow> nat" where
  "DIV_ROUND_UP x step = (x + step - 1) mod 2 ^ 32 div step"

definition init_pool :: "addr \<Rightarrow> nat \<Rightarrow> (addr \<Rightarrow> byte) \<Rightarrow> pool option" where
  "init_pool bas page_cnt m = do {
     let bm_pages = DIV_ROUND_UP (bitmap_buf_size page_cnt) PGSIZE;
     _ \<leftarrow> ASSERT (\<not> bm_pages > page_cnt);
     let page_cnt = page_cnt - bm_pages;
     b \<leftarrow> bitmap_create_in_buf page_cnt
            (map (\<lambda>i. ram_word m (bas + 8 + 4 * i)) [0..<(bm_pages * PGSIZE - 8) div 4]) (bm_pages * PGSIZE);
     Some \<lparr>used_map = b, base = (bas + bm_pages * PGSIZE) mod 2 ^ 32\<rparr> }"

definition palloc_init :: "nat \<Rightarrow> nat \<Rightarrow> (addr \<Rightarrow> byte) \<Rightarrow> pages option" where
  "palloc_init user_page_limit init_ram_pages m = do {
     free_start \<leftarrow> ptov (1024 * 1024);
     free_end \<leftarrow> ptov (init_ram_pages * PGSIZE mod 2 ^ 32);
     let free_pages = (free_end - free_start) div PGSIZE;
     let user_pages = free_pages div 2;
     let user_pages = (if user_pages > user_page_limit then user_page_limit else user_pages);
     let kernel_pages = free_pages - user_pages;
     kp \<leftarrow> init_pool free_start kernel_pages m;
     up \<leftarrow> init_pool (free_start + kernel_pages * PGSIZE) user_pages m;
     Some \<lparr>kernel_pool = kp, user_pool = up, ram = m\<rparr> }"

section \<open>Allocation\<close>

definition palloc_get_multiple :: "nat \<Rightarrow> nat \<Rightarrow> pages \<Rightarrow> (addr \<times> pages) option" where
  "palloc_get_multiple flags page_cnt s =
     (if page_cnt = 0 then Some (NULL, s)
      else do {
        let user = (flags AND PAL_USER \<noteq> 0);
        let pool = (if user then user_pool s else kernel_pool s);
        (page_idx, b) \<leftarrow> bitmap_scan_and_flip (used_map pool) 0 page_cnt False;
        let s = (if user then s\<lparr>user_pool := pool\<lparr>used_map := b\<rparr>\<rparr> else s\<lparr>kernel_pool := pool\<lparr>used_map := b\<rparr>\<rparr>);
        let pages = (if page_idx \<noteq> BITMAP_ERROR then (base pool + PGSIZE * page_idx) mod 2 ^ 32 else NULL);
        if pages \<noteq> NULL
        then Some (pages, if flags AND PAL_ZERO \<noteq> 0 then fill pages (PGSIZE * page_cnt) 0 s else s)
        else do { _ \<leftarrow> ASSERT (flags AND PAL_ASSERT = 0); Some (NULL, s) } })"

definition palloc_get_page :: "nat \<Rightarrow> pages \<Rightarrow> (addr \<times> pages) option" where
  "palloc_get_page flags s = palloc_get_multiple flags 1 s"

definition page_from_pool :: "pool \<Rightarrow> addr \<Rightarrow> bool" where
  "page_from_pool pool page =
     (let page_no = pg_no page;
          start_page = pg_no (base pool);
          end_page = start_page + bitmap_size (used_map pool)
      in page_no \<ge> start_page \<and> page_no < end_page)"

definition free_from_pool :: "pool \<Rightarrow> addr \<Rightarrow> nat \<Rightarrow> pool option" where
  "free_from_pool pool pages page_cnt = do {
     let page_idx = pg_no pages - pg_no (base pool);
     all \<leftarrow> bitmap_all (used_map pool) page_idx page_cnt;
     _ \<leftarrow> ASSERT all;
     b \<leftarrow> bitmap_set_multiple (used_map pool) page_idx page_cnt False;
     Some (pool\<lparr>used_map := b\<rparr>) }"

definition palloc_free_multiple :: "addr \<Rightarrow> nat \<Rightarrow> pages \<Rightarrow> pages option" where
  "palloc_free_multiple pages page_cnt s = do {
     _ \<leftarrow> ASSERT (pg_ofs pages = 0);
     if pages = NULL \<or> page_cnt = 0 then Some s
     else if page_from_pool (kernel_pool s) pages then do {
       p \<leftarrow> free_from_pool (kernel_pool s) pages page_cnt;
       Some (fill pages (PGSIZE * page_cnt) 0xcc (s\<lparr>kernel_pool := p\<rparr>)) }
     else if page_from_pool (user_pool s) pages then do {
       p \<leftarrow> free_from_pool (user_pool s) pages page_cnt;
       Some (fill pages (PGSIZE * page_cnt) 0xcc (s\<lparr>user_pool := p\<rparr>)) }
     else None }"

definition palloc_free_page :: "addr \<Rightarrow> pages \<Rightarrow> pages option" where
  "palloc_free_page page s = palloc_free_multiple page 1 s"

section \<open>The pages in use\<close>

definition pool_ok :: "pool \<Rightarrow> bool" where
  "pool_ok p \<longleftrightarrow> bitmap_ok (used_map p) \<and> base p mod 4096 = 0 \<and> 0 < base p \<and>
     base p + 4096 * bit_cnt (used_map p) \<le> 2 ^ 32"

definition pool_range :: "pool \<Rightarrow> addr set" where
  "pool_range p = {base p..<base p + 4096 * bit_cnt (used_map p)}"

definition pages_ok :: "pages \<Rightarrow> bool" where
  "pages_ok s \<longleftrightarrow> pool_ok (kernel_pool s) \<and> pool_ok (user_pool s) \<and>
     pool_range (kernel_pool s) \<inter> pool_range (user_pool s) = {}"

text \<open>The addresses that lie in allocated pages.\<close>

definition page_span :: "nat \<Rightarrow> nat set \<Rightarrow> nat set" where
  "page_span bs U = {a. \<exists>i\<in>U. bs + 4096 * i \<le> a \<and> a < bs + 4096 * i + 4096}"

definition pool_used :: "pool \<Rightarrow> addr set" where
  "pool_used p = page_span (base p) (bm.used (used_map p))"

definition in_use :: "pages \<Rightarrow> addr set" where
  "in_use s = pool_used (kernel_pool s) \<union> pool_used (user_pool s)"

lemma page_span_interval: "page_span bs {k..<k + n} = {bs + 4096 * k..<bs + 4096 * k + 4096 * n}"
proof (intro set_eqI iffI)
  fix a assume "a \<in> page_span bs {k..<k + n}"
  then obtain i where "k \<le> i" "i < k + n" "bs + 4096 * i \<le> a" "a < bs + 4096 * i + 4096"
    by (auto simp: page_span_def)
  then have "bs + 4096 * k \<le> a" "a < bs + 4096 * k + 4096 * n" by linarith+
  then show "a \<in> {bs + 4096 * k..<bs + 4096 * k + 4096 * n}" by simp
next
  fix a assume "a \<in> {bs + 4096 * k..<bs + 4096 * k + 4096 * n}"
  then have a: "bs + 4096 * k \<le> a" "a < bs + 4096 * k + 4096 * n" by simp_all
  then obtain m where m: "a = bs + m" by (metis le_add1 le_trans le_Suc_ex)
  define j where "j = m div 4096"
  have "4096 * j \<le> m" "m < 4096 * j + 4096" using dividend_less_div_times [of 4096 m] by (simp_all add: j_def)
  with a m have "k \<le> j" "j < k + n" "bs + 4096 * j \<le> a" "a < bs + 4096 * j + 4096" by linarith+
  then show "a \<in> page_span bs {k..<k + n}" by (auto simp: page_span_def)
qed

lemma page_span_Un: "page_span bs (U \<union> V) = page_span bs U \<union> page_span bs V"
  by (auto simp: page_span_def)

lemma page_span_disjoint: "U \<inter> V = {} \<Longrightarrow> page_span bs U \<inter> page_span bs V = {}"
proof (rule ccontr)
  assume uv: "U \<inter> V = {}" and "page_span bs U \<inter> page_span bs V \<noteq> {}"
  then obtain a i j where "i \<in> U" "j \<in> V" "bs + 4096 * i \<le> a" "a < bs + 4096 * i + 4096"
    "bs + 4096 * j \<le> a" "a < bs + 4096 * j + 4096" by (auto simp: page_span_def)
  moreover from this have "i = j" by linarith
  ultimately show False using uv by auto
qed

lemma page_span_Diff: "page_span bs (U - V) = page_span bs U - page_span bs V"
proof -
  have "page_span bs U = page_span bs (U - V) \<union> page_span bs (U \<inter> V)" by (auto simp: page_span_def)
  moreover have "page_span bs (U - V) \<inter> page_span bs V = {}" by (rule page_span_disjoint) auto
  moreover have "page_span bs (U \<inter> V) \<subseteq> page_span bs V" by (auto simp: page_span_def)
  ultimately show ?thesis by auto
qed

lemma page_span_mono: "U \<subseteq> V \<Longrightarrow> page_span bs U \<subseteq> page_span bs V"
  by (auto simp: page_span_def)

lemma pool_used_range: "pool_used p \<subseteq> pool_range p"
proof -
  have "bm.used (used_map p) \<subseteq> {0..<0 + bit_cnt (used_map p)}" by (auto simp: bm.used_def)
  from page_span_mono [OF this, of "base p"] show ?thesis
    unfolding pool_used_def pool_range_def page_span_interval by simp
qed

section \<open>Allocation and release in one pool\<close>

abbreviation extent :: "addr \<Rightarrow> nat \<Rightarrow> addr set" where
  "extent a n \<equiv> {a..<a + 4096 * n}"

lemma pool_get:
  assumes p: "pool_ok p" and n: "0 < n"
  shows "\<exists>i b. bitmap_scan_and_flip (used_map p) 0 n False = Some (i, b) \<and> pool_ok (p\<lparr>used_map := b\<rparr>) \<and>
    pool_range (p\<lparr>used_map := b\<rparr>) = pool_range p \<and>
    (if i = BITMAP_ERROR then b = used_map p \<and>
        (\<forall>j. j + n \<le> bit_cnt (used_map p) \<longrightarrow> extent (base p + 4096 * j) n \<inter> pool_used p \<noteq> {})
     else let a = base p + 4096 * i in
       (base p + 4096 * i) mod 2 ^ 32 = a \<and> 0 < a \<and> a mod 4096 = 0 \<and> extent a n \<subseteq> pool_range p \<and>
       extent a n \<inter> pool_used p = {} \<and> pool_used (p\<lparr>used_map := b\<rparr>) = pool_used p \<union> extent a n)"
proof -
  have ok: "bitmap_ok (used_map p)" using p by (simp add: pool_ok_def)
  obtain i b where ib: "bitmap_scan_and_flip (used_map p) 0 n False = Some (i, b)"
    using bitmap_scan_and_flip_spec [OF ok _ n, of 0 False]
    by (cases "first_run (bits_of (used_map p)) 0 n False") auto
  note al = bm.alloc [OF ok n ib]
  let ?p = "p\<lparr>used_map := b\<rparr>"
  have r: "pool_range ?p = pool_range p" "pool_ok ?p" using al p by (simp_all add: pool_range_def pool_ok_def)
  show ?thesis
  proof (cases "i = BITMAP_ERROR")
    case True
    have "extent (base p + 4096 * j) n \<inter> pool_used p \<noteq> {}" if j: "j + n \<le> bit_cnt (used_map p)" for j
    proof -
      from al True j obtain k where k: "k \<in> {j..<j + n}" "k \<in> bm.used (used_map p)" by auto
      then have "base p + 4096 * k \<in> page_span (base p) {j..<j + n}" "base p + 4096 * k \<in> pool_used p"
        by (auto simp: page_span_def pool_used_def)
      then show ?thesis unfolding page_span_interval by blast
    qed
    then show ?thesis using ib r al True by auto
  next
    case False
    with al have i: "i + n \<le> bit_cnt (used_map p)" "{i..<i + n} \<inter> bm.used (used_map p) = {}"
      "bm.used b = bm.used (used_map p) \<union> {i..<i + n}" by simp_all
    have e: "extent (base p + 4096 * i) n = page_span (base p) {i..<i + n}" by (simp add: page_span_interval)
    have "base p + 4096 * i + 4096 * n \<le> base p + 4096 * bit_cnt (used_map p)" using i(1) by simp
    moreover have "base p + 4096 * bit_cnt (used_map p) \<le> 2 ^ 32" "0 < base p" "base p mod 4096 = 0"
      using p by (simp_all add: pool_ok_def)
    ultimately have "(base p + 4096 * i) mod 2 ^ 32 = base p + 4096 * i" "(base p + 4096 * i) mod 4096 = 0"
      "extent (base p + 4096 * i) n \<subseteq> pool_range p" using n by (auto simp: pool_range_def mod_mult_self2)
    moreover have "extent (base p + 4096 * i) n \<inter> pool_used p = {}"
      unfolding e pool_used_def using i(2) by (rule page_span_disjoint)
    moreover have "pool_used ?p = pool_used p \<union> extent (base p + 4096 * i) n"
      unfolding e pool_used_def using i(3) by (simp add: page_span_Un)
    ultimately show ?thesis using ib r False \<open>0 < base p\<close> by (simp add: Let_def)
  qed
qed

lemma page_from_pool_iff:
  assumes "pool_ok p" and "a mod 4096 = 0"
  shows "page_from_pool p a \<longleftrightarrow> a \<in> pool_range p"
proof -
  obtain x where x: "a = 4096 * x" using assms(2) by (metis mod_0_imp_dvd dvd_def)
  obtain y where y: "base p = 4096 * y" using assms(1) by (metis pool_ok_def mod_0_imp_dvd dvd_def)
  have "4096 * x < 4096 * y + 4096 * c \<longleftrightarrow> x < y + c" for c by linarith
  then show ?thesis
    by (simp add: page_from_pool_def pool_range_def pg_no_div bitmap_size_def Let_def x y)
qed

lemma pool_put:
  assumes p: "pool_ok p" and a: "a mod 4096 = 0" and n: "0 < n" and u: "extent a n \<subseteq> pool_used p"
  shows "\<exists>p'. free_from_pool p a n = Some p' \<and> pool_ok p' \<and> pool_range p' = pool_range p \<and>
    pool_used p' = pool_used p - extent a n"
proof -
  have ok: "bitmap_ok (used_map p)" using p by (simp add: pool_ok_def)
  obtain x where x: "a = 4096 * x" using a by (metis mod_0_imp_dvd dvd_def)
  obtain y where y: "base p = 4096 * y" using p by (metis pool_ok_def mod_0_imp_dvd dvd_def)
  have mem: "4096 * k \<in> pool_used p \<Longrightarrow> k - y \<in> bm.used (used_map p) \<and> y \<le> k" for k
  proof -
    assume "4096 * k \<in> pool_used p"
    then obtain i where i: "i \<in> bm.used (used_map p)" "4096 * y + 4096 * i \<le> 4096 * k" "4096 * k < 4096 * y + 4096 * i + 4096"
      by (auto simp: pool_used_def page_span_def y)
    then have "k = y + i" by linarith
    with i show ?thesis by simp
  qed
  have k: "x + j - y \<in> bm.used (used_map p) \<and> y \<le> x + j" if "j < n" for j
  proof -
    have "4096 * (x + j) \<in> extent a n" using that x by simp
    with u have "4096 * (x + j) \<in> pool_used p" by blast
    then show ?thesis by (rule mem)
  qed
  let ?i = "x - y"
  have xy: "y \<le> x" using k [of 0] n by simp
  have us: "?i + j \<in> bm.used (used_map p)" if "j < n" for j using k [OF that] xy by simp
  have le: "?i + n \<le> bit_cnt (used_map p)" using us [of "n - 1"] n by (cases n) (simp_all add: bm.used_def)
  have "range_all (bits_of (used_map p)) ?i n True"
  proof -
    have "bits_of (used_map p) ! j" if "?i \<le> j" "j < ?i + n" for j
      using us [of "j - ?i"] that by (simp add: bm.used_def)
    then show ?thesis using le by (simp add: range_all_iff)
  qed
  then have "bitmap_all (used_map p) ?i n = Some True"
    using bitmap_contains_spec [OF ok le, of False] by (simp add: bitmap_all_def)
  moreover obtain b where b: "bitmap_set_multiple (used_map p) ?i n False = Some b" "bitmap_ok b"
    "length (bits_of b) = length (bits_of (used_map p))" "bm.used b = bm.used (used_map p) - {?i..<?i + n}"
    using bm.release [OF ok, of ?i n] le by auto
  moreover have "pg_no a - pg_no (base p) = ?i" by (simp add: pg_no_div x y)
  ultimately have "free_from_pool p a n = Some (p\<lparr>used_map := b\<rparr>)" by (simp add: free_from_pool_def Let_def)
  moreover have "extent a n = page_span (base p) {?i..<?i + n}"
    unfolding page_span_interval x y using xy by (simp add: algebra_simps)
  ultimately show ?thesis using b p
    by (simp add: pool_ok_def pool_range_def pool_used_def page_span_Diff)
qed

section \<open>The allocator\<close>

lemma in_use_range: "in_use s \<subseteq> pool_range (kernel_pool s) \<union> pool_range (user_pool s)"
  using pool_used_range by (auto simp: in_use_def)

text \<open>What a successful call of \<open>palloc_get_multiple\<close> does.\<close>

definition got :: "nat \<Rightarrow> nat \<Rightarrow> pages \<Rightarrow> addr \<Rightarrow> pages \<Rightarrow> bool" where
  "got flags n s a s' \<longleftrightarrow> a \<noteq> NULL \<and> pages_ok s' \<and> a mod 4096 = 0 \<and>
     extent a n \<subseteq> pool_range (if flags AND PAL_USER \<noteq> 0 then user_pool s else kernel_pool s) \<and>
     extent a n \<inter> in_use s = {} \<and> in_use s' = in_use s \<union> extent a n \<and>
     (if flags AND PAL_USER \<noteq> 0
      then kernel_pool s' = kernel_pool s \<and> pool_range (user_pool s') = pool_range (user_pool s) \<and>
        pool_used (user_pool s') = pool_used (user_pool s) \<union> extent a n
      else user_pool s' = user_pool s \<and> pool_range (kernel_pool s') = pool_range (kernel_pool s) \<and>
        pool_used (kernel_pool s') = pool_used (kernel_pool s) \<union> extent a n) \<and>
     ram s' = (\<lambda>x. if x \<in> extent a n \<and> flags AND PAL_ZERO \<noteq> 0 then 0 else ram s x)"

definition no_room :: "nat \<Rightarrow> pool \<Rightarrow> bool" where
  "no_room n p \<longleftrightarrow> (\<forall>j. j + n \<le> bit_cnt (used_map p) \<longrightarrow> extent (base p + 4096 * j) n \<inter> pool_used p \<noteq> {})"

lemma palloc_get_ok:
  assumes s: "pages_ok s" and n: "0 < n"
  shows "(\<exists>a s'. palloc_get_multiple flags n s = Some (a, s') \<and> got flags n s a s') \<or>
    (palloc_get_multiple flags n s = (if flags AND PAL_ASSERT = 0 then Some (NULL, s) else None) \<and>
     no_room n (if flags AND PAL_USER \<noteq> 0 then user_pool s else kernel_pool s))"
proof -
  let ?u = "flags AND PAL_USER \<noteq> 0"
  define p where "p = (if ?u then user_pool s else kernel_pool s)"
  have p: "pool_ok p" using s by (simp add: p_def pages_ok_def)
  from pool_get [OF p n] obtain i b where ib: "bitmap_scan_and_flip (used_map p) 0 n False = Some (i, b)"
    "pool_ok (p\<lparr>used_map := b\<rparr>)" "pool_range (p\<lparr>used_map := b\<rparr>) = pool_range p"
    and c: "(if i = BITMAP_ERROR then b = used_map p \<and>
        (\<forall>j. j + n \<le> bit_cnt (used_map p) \<longrightarrow> extent (base p + 4096 * j) n \<inter> pool_used p \<noteq> {})
     else let a = base p + 4096 * i in
       (base p + 4096 * i) mod 2 ^ 32 = a \<and> 0 < a \<and> a mod 4096 = 0 \<and> extent a n \<subseteq> pool_range p \<and>
       extent a n \<inter> pool_used p = {} \<and> pool_used (p\<lparr>used_map := b\<rparr>) = pool_used p \<union> extent a n)" by blast
  define s1 where "s1 = (if ?u then s\<lparr>user_pool := p\<lparr>used_map := b\<rparr>\<rparr> else s\<lparr>kernel_pool := p\<lparr>used_map := b\<rparr>\<rparr>)"
  have g: "palloc_get_multiple flags n s =
    (let pages = (if i \<noteq> BITMAP_ERROR then (base p + PGSIZE * i) mod 2 ^ 32 else NULL) in
     if pages \<noteq> NULL
     then Some (pages, if flags AND PAL_ZERO \<noteq> 0 then fill pages (PGSIZE * n) 0 s1 else s1)
     else do { _ \<leftarrow> ASSERT (flags AND PAL_ASSERT = 0); Some (NULL, s1) })"
    using n ib(1) by (cases ?u) (simp_all add: palloc_get_multiple_def s1_def p_def Let_def)
  show ?thesis
  proof (cases "i = BITMAP_ERROR")
    case True
    then have "s1 = s" using c by (simp add: s1_def p_def)
    then show ?thesis using True c g by (simp add: Let_def p_def no_room_def)
  next
    case False
    let ?a = "base p + 4096 * i"
    from c False have a: "(base p + 4096 * i) mod 2 ^ 32 = ?a" "0 < ?a" "?a mod 4096 = 0" "extent ?a n \<subseteq> pool_range p"
       "extent ?a n \<inter> pool_used p = {}" "pool_used (p\<lparr>used_map := b\<rparr>) = pool_used p \<union> extent ?a n"
      by (simp_all add: Let_def)
    let ?s' = "if flags AND PAL_ZERO \<noteq> 0 then fill ?a (4096 * n) 0 s1 else s1"
    have g': "palloc_get_multiple flags n s = Some (?a, ?s')" using g a(1,2) False by (simp add: NULL_def Let_def)
    have "got flags n s ?a ?s'"
      unfolding got_def
    proof (intro conjI)
      show "?a \<noteq> NULL" using a(2) by (simp add: NULL_def)
      show "pages_ok ?s'" using s ib by (auto simp: pages_ok_def fill_def s1_def p_def split: if_splits)
      show "?a mod 4096 = 0" by (rule a(3))
      show "extent ?a n \<subseteq> pool_range (if ?u then user_pool s else kernel_pool s)" using a(4) by (simp add: p_def)
      show "extent ?a n \<inter> in_use s = {}"
        using a(4,5) pool_used_range [of "kernel_pool s"] pool_used_range [of "user_pool s"] s
        by (cases ?u) (simp_all add: in_use_def p_def pages_ok_def, blast+)
      show "in_use ?s' = in_use s \<union> extent ?a n"
        using a(6) by (cases ?u) (simp_all add: in_use_def fill_def s1_def p_def Un_ac)
      show "if ?u
       then kernel_pool ?s' = kernel_pool s \<and> pool_range (user_pool ?s') = pool_range (user_pool s) \<and>
         pool_used (user_pool ?s') = pool_used (user_pool s) \<union> extent ?a n
       else user_pool ?s' = user_pool s \<and> pool_range (kernel_pool ?s') = pool_range (kernel_pool s) \<and>
         pool_used (kernel_pool ?s') = pool_used (kernel_pool s) \<union> extent ?a n"
        using a(6) ib(3) by (cases ?u) (simp_all add: fill_def s1_def p_def)
      show "ram ?s' = (\<lambda>x. if x \<in> extent ?a n \<and> flags AND PAL_ZERO \<noteq> 0 then 0 else ram s x)"
        by (auto simp: fill_def s1_def fun_eq_iff)
    qed
    with g' show ?thesis by blast
  qed
qed

lemma palloc_free_kernel:
  assumes s: "pages_ok s" and a: "a mod 4096 = 0" and n: "0 < n" and u: "extent a n \<subseteq> pool_used (kernel_pool s)"
  shows "\<exists>s'. palloc_free_multiple a n s = Some s' \<and> pages_ok s' \<and> user_pool s' = user_pool s \<and>
    pool_range (kernel_pool s') = pool_range (kernel_pool s) \<and>
    pool_used (kernel_pool s') = pool_used (kernel_pool s) - extent a n \<and>
    ram s' = (\<lambda>x. if x \<in> extent a n then 0xcc else ram s x)"
proof -
  have k: "pool_ok (kernel_pool s)" using s by (simp add: pages_ok_def)
  have "a \<in> extent a n" using n by simp
  then have ar: "a \<in> pool_range (kernel_pool s)" using u pool_used_range by blast
  then have "a \<noteq> NULL" using k by (auto simp: pool_range_def pool_ok_def NULL_def)
  from pool_put [OF k a n u] obtain p' where p': "free_from_pool (kernel_pool s) a n = Some p'" "pool_ok p'"
    "pool_range p' = pool_range (kernel_pool s)" "pool_used p' = pool_used (kernel_pool s) - extent a n" by blast
  have "palloc_free_multiple a n s = Some (fill a (4096 * n) 0xcc (s\<lparr>kernel_pool := p'\<rparr>))"
    using a n ar p'(1) \<open>a \<noteq> NULL\<close> page_from_pool_iff [OF k a] by (simp add: palloc_free_multiple_def pg_ofs_mod)
  moreover have "pages_ok (fill a (4096 * n) 0xcc (s\<lparr>kernel_pool := p'\<rparr>))"
    using s p' by (simp add: pages_ok_def fill_def)
  ultimately show ?thesis using p' by (auto simp: fill_def fun_eq_iff)
qed

lemma palloc_free_user:
  assumes s: "pages_ok s" and a: "a mod 4096 = 0" and n: "0 < n" and u: "extent a n \<subseteq> pool_used (user_pool s)"
  shows "\<exists>s'. palloc_free_multiple a n s = Some s' \<and> pages_ok s' \<and> kernel_pool s' = kernel_pool s \<and>
    pool_used (user_pool s') = pool_used (user_pool s) - extent a n \<and>
    ram s' = (\<lambda>x. if x \<in> extent a n then 0xcc else ram s x)"
proof -
  have k: "pool_ok (user_pool s)" and kk: "pool_ok (kernel_pool s)" using s by (simp_all add: pages_ok_def)
  have "a \<in> extent a n" using n by simp
  then have ar: "a \<in> pool_range (user_pool s)" using u pool_used_range by blast
  then have "a \<notin> pool_range (kernel_pool s)" using s by (auto simp: pages_ok_def)
  have "a \<noteq> NULL" using k ar by (auto simp: pool_range_def pool_ok_def NULL_def)
  from pool_put [OF k a n u] obtain p' where p': "free_from_pool (user_pool s) a n = Some p'" "pool_ok p'"
    "pool_range p' = pool_range (user_pool s)" "pool_used p' = pool_used (user_pool s) - extent a n" by blast
  have "palloc_free_multiple a n s = Some (fill a (4096 * n) 0xcc (s\<lparr>user_pool := p'\<rparr>))"
    using a n ar p'(1) \<open>a \<noteq> NULL\<close> \<open>a \<notin> pool_range (kernel_pool s)\<close> page_from_pool_iff [OF k a]
      page_from_pool_iff [OF kk a] by (simp add: palloc_free_multiple_def pg_ofs_mod)
  moreover have "pages_ok (fill a (4096 * n) 0xcc (s\<lparr>user_pool := p'\<rparr>))"
    using s p' by (simp add: pages_ok_def fill_def)
  ultimately show ?thesis using p' by (auto simp: fill_def fun_eq_iff)
qed

text \<open>C21. The page allocator never hands out a page twice: a successful call returns a page-aligned
  run of pages of the pool asked for, all of them free until then and in use afterwards, zeroed if
  asked for; it fails only when no such run is free, with a null pointer or, under PAL_ASSERT,
  a panic; and giving the run back restores exactly the pages that were in use before.\<close>

theorem palloc_get_free:
  assumes s: "pages_ok s" and n: "0 < n"
  shows "case palloc_get_multiple flags n s of
      None \<Rightarrow> flags AND PAL_ASSERT \<noteq> 0 \<and> no_room n (if flags AND PAL_USER \<noteq> 0 then user_pool s else kernel_pool s)
    | Some (a, s') \<Rightarrow>
        if a = NULL then s' = s \<and> no_room n (if flags AND PAL_USER \<noteq> 0 then user_pool s else kernel_pool s)
        else pages_ok s' \<and> a mod 4096 = 0 \<and> extent a n \<inter> in_use s = {} \<and> in_use s' = in_use s \<union> extent a n \<and>
          extent a n \<subseteq> pool_range (if flags AND PAL_USER \<noteq> 0 then user_pool s else kernel_pool s) \<and>
          ram s' = (\<lambda>x. if x \<in> extent a n \<and> flags AND PAL_ZERO \<noteq> 0 then 0 else ram s x) \<and>
          (\<exists>s''. palloc_free_multiple a n s' = Some s'' \<and> pages_ok s'' \<and> in_use s'' = in_use s)"
  using palloc_get_ok [OF s n, of flags]
proof (elim disjE exE conjE)
  fix a s'
  assume g: "palloc_get_multiple flags n s = Some (a, s')" "got flags n s a s'"
  then have r: "a \<noteq> NULL" "pages_ok s'" "a mod 4096 = 0" "extent a n \<inter> in_use s = {}" "in_use s' = in_use s \<union> extent a n"
    "extent a n \<subseteq> pool_range (if flags AND PAL_USER \<noteq> 0 then user_pool s else kernel_pool s)"
    "ram s' = (\<lambda>x. if x \<in> extent a n \<and> flags AND PAL_ZERO \<noteq> 0 then 0 else ram s x)"
    and u: "(if flags AND PAL_USER \<noteq> 0
       then kernel_pool s' = kernel_pool s \<and> pool_used (user_pool s') = pool_used (user_pool s) \<union> extent a n
       else user_pool s' = user_pool s \<and> pool_used (kernel_pool s') = pool_used (kernel_pool s) \<union> extent a n)"
    by (auto simp: got_def split: if_split_asm)
  have "\<exists>s''. palloc_free_multiple a n s' = Some s'' \<and> pages_ok s'' \<and> in_use s'' = in_use s"
  proof (cases "flags AND PAL_USER \<noteq> 0")
    case True
    with u have "extent a n \<subseteq> pool_used (user_pool s')" "kernel_pool s' = kernel_pool s" by auto
    with palloc_free_user [OF r(2,3) n] u True r(4) show ?thesis by (fastforce simp: in_use_def)
  next
    case False
    with u have "extent a n \<subseteq> pool_used (kernel_pool s')" "user_pool s' = user_pool s" by auto
    with palloc_free_kernel [OF r(2,3) n] u False r(4) show ?thesis by (fastforce simp: in_use_def)
  qed
  then show ?thesis using r g by auto
qed auto

definition sample_pages :: pages where
  "sample_pages = \<lparr>kernel_pool = \<lparr>used_map = \<lparr>bit_cnt = 10, bits = [0]\<rparr>, base = 0xc0100000\<rparr>,
     user_pool = \<lparr>used_map = \<lparr>bit_cnt = 5, bits = [0]\<rparr>, base = 0xc0200000\<rparr>, ram = (\<lambda>_. 7)\<rparr>"

lemma sample_pages_ok: "pages_ok sample_pages"
  by (auto simp: sample_pages_def pages_ok_def pool_ok_def bitmap_ok_def pool_range_def)

lemma palloc_get_free_witness:
  "\<exists>a s'. palloc_get_multiple PAL_ZERO 2 sample_pages = Some (a, s') \<and> a \<noteq> NULL \<and> ram s' a = 0"
proof -
  have "bm.used (used_map (kernel_pool sample_pages)) = {}"
    by (auto simp: bm.used_def sample_pages_def nth_bits_of bit_at_def)
  then have "\<not> no_room 2 (kernel_pool sample_pages)"
    by (auto simp: no_room_def pool_used_def page_span_def sample_pages_def intro!: exI [of _ 0])
  then obtain a s' where g: "palloc_get_multiple PAL_ZERO 2 sample_pages = Some (a, s')" "a \<noteq> NULL"
    using palloc_get_ok [OF sample_pages_ok, of 2 PAL_ZERO] by (auto simp: got_def PAL_ZERO_def PAL_USER_def)
  from palloc_get_free [OF sample_pages_ok, of 2 PAL_ZERO] g have "ram s' a = 0" by (simp add: PAL_ZERO_def)
  with g show ?thesis by blast
qed

end
