(* ===== verification/Malloc.thy ===== *)
theory Malloc
  imports Palloc
begin

text \<open>
  \<open>threads/malloc.c\<close>: blocks of seven sizes carved out of one-page arenas, larger requests
  in page runs of their own. An arena header is an entry of \<open>m_arenas\<close> at its page, which
  stands for an intact \<open>magic\<close>; the free lists are HOL lists (\<open>list.c\<close> implements them). The
  memory holds the contents of the allocated blocks: a free block's bytes belong to its list
  element. Sizes are \<open>size_t\<close>, so sums and products wrap at 32 bits.
\<close>

section \<open>Data\<close>

record desc =
  block_size_of :: nat
  blocks_per_arena :: nat
  free_list :: "addr list"

record arena =
  a_desc :: "nat option"
  free_cnt :: nat

record malloc_state =
  m_descs :: "desc list"
  m_arenas :: "addr \<Rightarrow> arena option"
  m_pages :: pages

text \<open>\<open>sizeof (struct arena)\<close>.\<close>

definition ARENA_SIZE :: nat where "ARENA_SIZE = 12"

definition upd_desc :: "nat \<Rightarrow> (desc \<Rightarrow> desc) \<Rightarrow> malloc_state \<Rightarrow> malloc_state" where
  "upd_desc i f s = s\<lparr>m_descs := (m_descs s)[i := f (m_descs s ! i)]\<rparr>"

section \<open>Initialization\<close>

function init_descs :: "nat \<Rightarrow> desc list" where
  "init_descs bs = (if 0 < bs \<and> bs < PGSIZE div 2
     then \<lparr>block_size_of = bs, blocks_per_arena = (PGSIZE - ARENA_SIZE) div bs, free_list = []\<rparr> # init_descs (bs * 2)
     else [])"
  by pat_completeness auto
termination by (relation "measure (\<lambda>bs. PGSIZE - bs)") auto

declare init_descs.simps [simp del]

definition malloc_init :: "pages \<Rightarrow> malloc_state option" where
  "malloc_init ps = do {
     let ds = init_descs 16;
     _ \<leftarrow> ASSERT (length ds \<le> 10);
     Some \<lparr>m_descs = ds, m_arenas = (\<lambda>_. None), m_pages = ps\<rparr> }"

section \<open>Blocks and arenas\<close>

definition block_to_arena :: "addr \<Rightarrow> malloc_state \<Rightarrow> addr option" where
  "block_to_arena b s = do {
     let a = pg_round_down b;
     _ \<leftarrow> ASSERT (a \<noteq> NULL);
     r \<leftarrow> m_arenas s a;
     _ \<leftarrow> (case a_desc r of None \<Rightarrow> ASSERT (pg_ofs b = ARENA_SIZE)
        | Some i \<Rightarrow> ASSERT (i < length (m_descs s) \<and>
            u32 (pg_ofs b + 2 ^ 32 - ARENA_SIZE) mod block_size_of (m_descs s ! i) = 0));
     Some a }"

definition arena_to_block :: "addr \<Rightarrow> desc \<Rightarrow> nat \<Rightarrow> addr" where
  "arena_to_block a d idx = a + ARENA_SIZE + idx * block_size_of d"

definition arena_blocks :: "addr \<Rightarrow> desc \<Rightarrow> addr list" where
  "arena_blocks a d = map (arena_to_block a d) [0..<blocks_per_arena d]"

section \<open>malloc\<close>

fun find_desc :: "nat \<Rightarrow> desc list \<Rightarrow> nat \<Rightarrow> nat option" where
  "find_desc sz [] i = None"
| "find_desc sz (d # ds) i = (if block_size_of d \<ge> sz then Some i else find_desc sz ds (i + 1))"

definition malloc_big :: "nat \<Rightarrow> malloc_state \<Rightarrow> (addr \<times> malloc_state) option" where
  "malloc_big sz s = do {
     let page_cnt = u32 (u32 (sz + ARENA_SIZE) + PGSIZE - 1) div PGSIZE;
     (a, ps) \<leftarrow> palloc_get_multiple 0 page_cnt (m_pages s);
     if a = NULL then Some (NULL, s\<lparr>m_pages := ps\<rparr>)
     else Some (a + ARENA_SIZE,
       s\<lparr>m_pages := ps, m_arenas := (m_arenas s)(a \<mapsto> \<lparr>a_desc = None, free_cnt = page_cnt\<rparr>)\<rparr>) }"

text \<open>A new arena for the descriptor; the result tells whether there was a page for it.\<close>

definition new_arena :: "nat \<Rightarrow> malloc_state \<Rightarrow> (bool \<times> malloc_state) option" where
  "new_arena i s = do {
     (a, ps) \<leftarrow> palloc_get_page 0 (m_pages s);
     let s = s\<lparr>m_pages := ps\<rparr>;
     if a = NULL then Some (False, s)
     else Some (True,
       upd_desc i (\<lambda>d. d\<lparr>free_list := free_list d @ arena_blocks a d\<rparr>)
         (s\<lparr>m_arenas := (m_arenas s)(a \<mapsto> \<lparr>a_desc = Some i, free_cnt = blocks_per_arena (m_descs s ! i)\<rparr>)\<rparr>)) }"

definition take_block :: "nat \<Rightarrow> malloc_state \<Rightarrow> (addr \<times> malloc_state) option" where
  "take_block i s = (case free_list (m_descs s ! i) of [] \<Rightarrow> None
     | b # bs \<Rightarrow> do {
         let s = upd_desc i (\<lambda>d. d\<lparr>free_list := bs\<rparr>) s;
         a \<leftarrow> block_to_arena b s;
         r \<leftarrow> m_arenas s a;
         Some (b, s\<lparr>m_arenas := (m_arenas s)(a \<mapsto> r\<lparr>free_cnt := u32 (free_cnt r + 2 ^ 32 - 1)\<rparr>)\<rparr>) })"

definition malloc :: "nat \<Rightarrow> malloc_state \<Rightarrow> (addr \<times> malloc_state) option" where
  "malloc sz s =
     (if sz = 0 then Some (NULL, s)
      else case find_desc sz (m_descs s) 0 of None \<Rightarrow> malloc_big sz s
      | Some i \<Rightarrow> do {
          (ok, s) \<leftarrow> (if free_list (m_descs s ! i) = [] then new_arena i s else Some (True, s));
          if \<not> ok then Some (NULL, s) else take_block i s })"

section \<open>The other entry points\<close>

definition calloc :: "nat \<Rightarrow> nat \<Rightarrow> malloc_state \<Rightarrow> (addr \<times> malloc_state) option" where
  "calloc a b s = do {
     let sz = u32 (a * b);
     if sz < a \<or> sz < b then Some (NULL, s)
     else do {
       (p, s) \<leftarrow> malloc sz s;
       Some (p, if p \<noteq> NULL then s\<lparr>m_pages := fill p sz 0 (m_pages s)\<rparr> else s) } }"

definition block_size :: "addr \<Rightarrow> malloc_state \<Rightarrow> nat option" where
  "block_size block s = do {
     a \<leftarrow> block_to_arena block s;
     r \<leftarrow> m_arenas s a;
     Some (case a_desc r of Some i \<Rightarrow> block_size_of (m_descs s ! i)
       | None \<Rightarrow> u32 (PGSIZE * free_cnt r + 2 ^ 32 - pg_ofs block)) }"

text \<open>Take the arena's blocks off the free list and give its page back, once all are free.\<close>

definition drop_arena :: "addr \<Rightarrow> nat \<Rightarrow> malloc_state \<Rightarrow> malloc_state option" where
  "drop_arena a i s = do {
     ps \<leftarrow> palloc_free_page a (m_pages s);
     Some (upd_desc i (\<lambda>d. d\<lparr>free_list := fold remove1 (arena_blocks a d) (free_list d)\<rparr>)
       (s\<lparr>m_pages := ps, m_arenas := (m_arenas s)(a := None)\<rparr>)) }"

definition free :: "addr \<Rightarrow> malloc_state \<Rightarrow> malloc_state option" where
  "free p s =
     (if p = NULL then Some s
      else do {
        a \<leftarrow> block_to_arena p s;
        r \<leftarrow> m_arenas s a;
        case a_desc r of
          None \<Rightarrow> do {
            ps \<leftarrow> palloc_free_multiple a (free_cnt r) (m_pages s);
            Some (s\<lparr>m_pages := ps, m_arenas := (m_arenas s)(a := None)\<rparr>) }
        | Some i \<Rightarrow> do {
            let d = m_descs s ! i;
            let s = s\<lparr>m_pages := fill p (block_size_of d) 0xcc (m_pages s)\<rparr>;
            let s = upd_desc i (\<lambda>d. d\<lparr>free_list := p # free_list d\<rparr>) s;
            let r = r\<lparr>free_cnt := u32 (free_cnt r + 1)\<rparr>;
            let s = s\<lparr>m_arenas := (m_arenas s)(a \<mapsto> r)\<rparr>;
            if free_cnt r \<ge> blocks_per_arena d then do {
              _ \<leftarrow> ASSERT (free_cnt r = blocks_per_arena d);
              drop_arena a i s }
            else Some s } })"

definition copy_bytes :: "addr \<Rightarrow> addr \<Rightarrow> nat \<Rightarrow> pages \<Rightarrow> pages" where
  "copy_bytes dst src n ps = ps\<lparr>ram := (\<lambda>x. if dst \<le> x \<and> x < dst + n then ram ps (src + (x - dst)) else ram ps x)\<rparr>"

definition realloc :: "addr \<Rightarrow> nat \<Rightarrow> malloc_state \<Rightarrow> (addr \<times> malloc_state) option" where
  "realloc old_block new_size s =
     (if new_size = 0 then do { s \<leftarrow> free old_block s; Some (NULL, s) }
      else do {
        (new_block, s) \<leftarrow> malloc new_size s;
        if old_block \<noteq> NULL \<and> new_block \<noteq> NULL then do {
          old_size \<leftarrow> block_size old_block s;
          let s = s\<lparr>m_pages := copy_bytes new_block old_block (min new_size old_size) (m_pages s)\<rparr>;
          s \<leftarrow> free old_block s;
          Some (new_block, s) }
        else Some (new_block, s) })"

section \<open>Geometry of an arena\<close>

definition desc_ok :: "desc \<Rightarrow> bool" where
  "desc_ok d \<longleftrightarrow> 0 < block_size_of d \<and> 0 < blocks_per_arena d \<and> block_size_of d * blocks_per_arena d \<le> 4084"

lemma length_arena_blocks [simp]: "length (arena_blocks a d) = blocks_per_arena d"
  by (simp add: arena_blocks_def)

lemma arena_blocks_free_list [simp]: "arena_blocks a (d\<lparr>free_list := l\<rparr>) = arena_blocks a d"
  by (simp add: arena_blocks_def arena_to_block_def)

lemma set_arena_blocks: "set (arena_blocks a d) = (\<lambda>k. a + 12 + k * block_size_of d) ` {..<blocks_per_arena d}"
  by (auto simp: arena_blocks_def arena_to_block_def ARENA_SIZE_def)

lemma distinct_arena_blocks: "desc_ok d \<Longrightarrow> distinct (arena_blocks a d)"
  by (auto simp: arena_blocks_def arena_to_block_def distinct_map inj_on_def desc_ok_def)

lemma card_arena_blocks: "desc_ok d \<Longrightarrow> card (set (arena_blocks a d)) = blocks_per_arena d"
  using distinct_card [OF distinct_arena_blocks [of d a]] by simp

lemma block_span:
  assumes "desc_ok d" and "b \<in> set (arena_blocks a d)"
  shows "a + 12 \<le> b \<and> b + block_size_of d \<le> a + 4096 \<and> (b - a - 12) mod block_size_of d = 0"
proof -
  obtain k where k: "k < blocks_per_arena d" "b = a + 12 + k * block_size_of d"
    using assms(2) by (auto simp: set_arena_blocks)
  have "(k + 1) * block_size_of d \<le> blocks_per_arena d * block_size_of d" using k(1) by (intro mult_right_mono) auto
  also have "\<dots> \<le> 4084" using assms(1) by (simp add: desc_ok_def mult.commute)
  finally show ?thesis using k by simp
qed

lemma page_of_block:
  assumes a: "a mod 4096 = 0" "a + 4096 \<le> 2 ^ 32" and b: "a + 12 \<le> b" "b < a + 4096"
  shows "pg_round_down b = a \<and> pg_ofs b = b - a"
proof -
  obtain x where x: "a = 4096 * x" using a(1) by (metis mod_0_imp_dvd dvd_def)
  obtain m where m: "b = a + m" "m < 4096" using b by (metis add_less_cancel_left le_add1 le_trans le_Suc_ex)
  have "b div 4096 = x" "b mod 4096 = m" using m x by simp_all
  then show ?thesis using a(2) m x by (simp add: pg_round_down_div pg_ofs_mod)
qed

lemma blocks_disjoint:
  assumes "desc_ok d" and "b \<in> set (arena_blocks a d)" and "b' \<in> set (arena_blocks a d)" and "b \<noteq> b'"
  shows "{b..<b + block_size_of d} \<inter> {b'..<b' + block_size_of d} = {}"
proof -
  obtain k k' where k: "b = a + 12 + k * block_size_of d" "b' = a + 12 + k' * block_size_of d"
    using assms(2,3) by (auto simp: set_arena_blocks)
  show ?thesis
  proof (cases "k < k'")
    case True
    then have "(k + 1) * block_size_of d \<le> k' * block_size_of d" by (intro mult_right_mono) auto
    then show ?thesis using k by auto
  next
    case False
    then have "k' < k" using k assms(4) by (cases "k = k'") auto
    then have "(k' + 1) * block_size_of d \<le> k * block_size_of d" by (intro mult_right_mono) auto
    then show ?thesis using k by auto
  qed
qed

section \<open>The invariant\<close>

definition npages :: "arena \<Rightarrow> nat" where
  "npages r = (case a_desc r of None \<Rightarrow> free_cnt r | Some _ \<Rightarrow> 1)"

text \<open>The free blocks of an arena.\<close>

definition free_in :: "malloc_state \<Rightarrow> addr \<Rightarrow> nat \<Rightarrow> addr set" where
  "free_in s a i = set (arena_blocks a (m_descs s ! i)) \<inter> set (free_list (m_descs s ! i))"

definition arena_ok :: "addr set \<Rightarrow> malloc_state \<Rightarrow> addr \<Rightarrow> arena \<Rightarrow> bool" where
  "arena_ok X s a r \<longleftrightarrow> a mod 4096 = 0 \<and> a \<noteq> NULL \<and> 0 < npages r \<and>
     extent a (npages r) \<subseteq> pool_used (kernel_pool (m_pages s)) \<and>
     (\<forall>i. a_desc r = Some i \<longrightarrow> i < length (m_descs s) \<and> free_cnt r = card (free_in s a i) \<and>
        (a \<notin> X \<longrightarrow> free_cnt r < blocks_per_arena (m_descs s ! i)))"

text \<open>
  \<open>X\<close> holds the arenas that may have no block in use, which is only so in the middle of an
  operation.
\<close>

definition heap_inv :: "addr set \<Rightarrow> malloc_state \<Rightarrow> bool" where
  "heap_inv X s \<longleftrightarrow> pages_ok (m_pages s) \<and> (\<forall>d\<in>set (m_descs s). desc_ok d) \<and>
     (\<forall>a r. m_arenas s a = Some r \<longrightarrow> arena_ok X s a r) \<and>
     (\<forall>a r a' r'. m_arenas s a = Some r \<longrightarrow> m_arenas s a' = Some r' \<longrightarrow> a \<noteq> a' \<longrightarrow>
        extent a (npages r) \<inter> extent a' (npages r') = {}) \<and>
     (\<forall>i<length (m_descs s). distinct (free_list (m_descs s ! i)) \<and>
        (\<forall>b\<in>set (free_list (m_descs s ! i)). \<exists>a r. m_arenas s a = Some r \<and> a_desc r = Some i \<and>
           b \<in> set (arena_blocks a (m_descs s ! i))))"

lemma heap_invD:
  assumes "heap_inv X s"
  shows "pages_ok (m_pages s)" "d \<in> set (m_descs s) \<Longrightarrow> desc_ok d"
    "m_arenas s a = Some r \<Longrightarrow> arena_ok X s a r"
    "m_arenas s a = Some r \<Longrightarrow> m_arenas s a' = Some r' \<Longrightarrow> a \<noteq> a' \<Longrightarrow> extent a (npages r) \<inter> extent a' (npages r') = {}"
    "i < length (m_descs s) \<Longrightarrow> distinct (free_list (m_descs s ! i))"
    "i < length (m_descs s) \<Longrightarrow> b \<in> set (free_list (m_descs s ! i)) \<Longrightarrow>
       \<exists>a r. m_arenas s a = Some r \<and> a_desc r = Some i \<and> b \<in> set (arena_blocks a (m_descs s ! i))"
  using assms unfolding heap_inv_def by blast+

definition allocated :: "malloc_state \<Rightarrow> (addr \<times> nat) set" where
  "allocated s = {(b, n). \<exists>a r. m_arenas s a = Some r \<and> (case a_desc r of
       None \<Rightarrow> b = a + 12 \<and> n = 4096 * free_cnt r - 12
     | Some i \<Rightarrow> b \<in> set (arena_blocks a (m_descs s ! i)) \<and> b \<notin> set (free_list (m_descs s ! i)) \<and>
         n = block_size_of (m_descs s ! i))}"

lemma arena_top:
  assumes "heap_inv X s" and "m_arenas s a = Some r"
  shows "a + 4096 * npages r \<le> 2 ^ 32 \<and> 0 < npages r \<and> a mod 4096 = 0 \<and> a \<noteq> NULL"
proof -
  have ao: "arena_ok X s a r" by (rule heap_invD(3) [OF assms])
  then have n: "0 < npages r" by (simp add: arena_ok_def)
  then have "a + 4096 * npages r - 1 \<in> extent a (npages r)" by auto
  then have "a + 4096 * npages r - 1 \<in> pool_range (kernel_pool (m_pages s))"
    using ao pool_used_range unfolding arena_ok_def by blast
  moreover have "pool_ok (kernel_pool (m_pages s))" using heap_invD(1) [OF assms(1)] by (simp add: pages_ok_def)
  ultimately show ?thesis using n ao by (auto simp: pool_range_def pool_ok_def arena_ok_def)
qed

lemma header_offset:
  assumes "12 \<le> m" and "m < 4096"
  shows "u32 (m + 2 ^ 32 - ARENA_SIZE) = m - 12"
proof -
  obtain k where k: "m = 12 + k" using assms(1) le_Suc_ex by blast
  then have "m + 2 ^ 32 - 12 = k + 2 ^ 32" by simp
  then show ?thesis using k assms(2) by (simp add: u32_def ARENA_SIZE_def)
qed

lemma small_block_to_arena:
  assumes s: "heap_inv X s" and a: "m_arenas s a = Some r" "a_desc r = Some i"
    and b: "b \<in> set (arena_blocks a (m_descs s ! i))"
  shows "block_to_arena b s = Some a" and "b \<noteq> NULL"
proof -
  have i: "i < length (m_descs s)" using heap_invD(3) [OF s a(1)] a(2) by (simp add: arena_ok_def)
  then have d: "desc_ok (m_descs s ! i)" using heap_invD(2) [OF s] by simp
  note t = arena_top [OF s a(1)]
  have t1: "a + 4096 \<le> 2 ^ 32" using t a(2) by (simp add: npages_def)
  note bs = block_span [OF d b]
  have lt: "b < a + 4096" using bs d by (simp add: desc_ok_def)
  note p = page_of_block [of a b, OF _ t1 _ lt] t bs
  have "pg_ofs b = b - a" using p by simp
  moreover have "12 \<le> b - a" "b - a < 4096" using conjunct1 [OF bs] lt by linarith+
  ultimately have "u32 (pg_ofs b + 2 ^ 32 - ARENA_SIZE) = b - a - 12" by (simp only: header_offset)
  then show "block_to_arena b s = Some a" using p a i bs by (simp add: block_to_arena_def Let_def)
  show "b \<noteq> NULL" using bs by (simp add: NULL_def)
qed

lemma arena_blocks_sub: "desc_ok d \<Longrightarrow> set (arena_blocks a d) \<subseteq> extent a 1"
  using block_span by (fastforce simp: desc_ok_def)

lemma arena_desc:
  assumes "heap_inv X s" and "m_arenas s a = Some r" and "a_desc r = Some i"
  shows "i < length (m_descs s)" "desc_ok (m_descs s ! i)" "free_cnt r = card (free_in s a i)"
    "a \<notin> X \<Longrightarrow> free_cnt r < blocks_per_arena (m_descs s ! i)" "extent a 1 \<subseteq> pool_used (kernel_pool (m_pages s))"
proof -
  have ao: "arena_ok X s a r" by (rule heap_invD(3) [OF assms(1,2)])
  then show i: "i < length (m_descs s)" using assms(3) by (simp add: arena_ok_def)
  then show "desc_ok (m_descs s ! i)" using heap_invD(2) [OF assms(1)] by simp
  show "free_cnt r = card (free_in s a i)" "a \<notin> X \<Longrightarrow> free_cnt r < blocks_per_arena (m_descs s ! i)"
    "extent a 1 \<subseteq> pool_used (kernel_pool (m_pages s))" using ao assms(3) by (simp_all add: arena_ok_def npages_def)
qed

text \<open>Two arenas share no block.\<close>

lemma arenas_apart:
  assumes s: "heap_inv X s" and a: "m_arenas s a = Some r" "a_desc r = Some i"
    and a': "m_arenas s a' = Some r'" "a_desc r' = Some j" and ne: "a \<noteq> a'"
  shows "set (arena_blocks a (m_descs s ! i)) \<inter> set (arena_blocks a' (m_descs s ! j)) = {}"
proof -
  have "extent a 1 \<inter> extent a' 1 = {}" using heap_invD(4) [OF s a(1) a'(1) ne] a(2) a'(2) by (simp add: npages_def)
  then show ?thesis
    using arena_blocks_sub [OF arena_desc(2) [OF s a], of a] arena_blocks_sub [OF arena_desc(2) [OF s a'], of a'] by blast
qed

section \<open>Changing a free list and an arena\<close>

definition set_free :: "nat \<Rightarrow> addr list \<Rightarrow> malloc_state \<Rightarrow> malloc_state" where
  "set_free i l s = upd_desc i (\<lambda>d. d\<lparr>free_list := l\<rparr>) s"

lemma set_free_fold:
  "upd_desc i (\<lambda>d. d\<lparr>free_list := l\<rparr>) s = set_free i l s"
  "upd_desc i (\<lambda>d. d\<lparr>free_list := free_list d @ arena_blocks a d\<rparr>) s =
     set_free i (free_list (m_descs s ! i) @ arena_blocks a (m_descs s ! i)) s"
  "upd_desc i (\<lambda>d. d\<lparr>free_list := p # free_list d\<rparr>) s = set_free i (p # free_list (m_descs s ! i)) s"
  "upd_desc i (\<lambda>d. d\<lparr>free_list := fold remove1 (arena_blocks a d) (free_list d)\<rparr>) s =
     set_free i (fold remove1 (arena_blocks a (m_descs s ! i)) (free_list (m_descs s ! i))) s"
  by (simp_all add: set_free_def upd_desc_def)

lemma set_free_simps [simp]:
  "m_arenas (set_free i l s) = m_arenas s" "m_pages (set_free i l s) = m_pages s"
  "length (m_descs (set_free i l s)) = length (m_descs s)"
  by (simp_all add: set_free_def upd_desc_def)

lemma set_free_nth:
  assumes "i < length (m_descs s)"
  shows "m_descs (set_free i l s) ! j = (if j = i then (m_descs s ! i)\<lparr>free_list := l\<rparr> else m_descs s ! j)"
  using assms by (simp add: set_free_def upd_desc_def nth_list_update)

lemma block_to_arena_set_free:
  assumes "i < length (m_descs s)"
  shows "block_to_arena b (set_free i l s) = block_to_arena b s"
proof -
  have sz: "block_size_of (m_descs (set_free i l s) ! j) = block_size_of (m_descs s ! j)" for j
    by (simp add: set_free_nth [OF assms])
  show ?thesis unfolding block_to_arena_def set_free_simps sz by (rule refl)
qed

text \<open>
  The one step all operations consist of: the free list of descriptor \<open>i\<close> becomes \<open>l\<close>, and
  arena \<open>a\<close> is added, changed or removed. The premises say that only blocks of \<open>a\<close> enter or
  leave the list.
\<close>

definition put :: "nat \<Rightarrow> addr list \<Rightarrow> addr \<Rightarrow> arena option \<Rightarrow> pages \<Rightarrow> malloc_state \<Rightarrow> malloc_state" where
  "put i l a ro ps s = (set_free i l s)\<lparr>m_arenas := (m_arenas s)(a := ro), m_pages := ps\<rparr>"

lemma put_simps [simp]:
  "m_arenas (put i l a ro ps s) = (m_arenas s)(a := ro)" "m_pages (put i l a ro ps s) = ps"
  "length (m_descs (put i l a ro ps s)) = length (m_descs s)"
  by (simp_all add: put_def)

lemma put_nth:
  assumes "i < length (m_descs s)"
  shows "m_descs (put i l a ro ps s) ! j = (if j = i then (m_descs s ! i)\<lparr>free_list := l\<rparr> else m_descs s ! j)"
  using set_free_nth [OF assms] by (simp add: put_def)

lemma put_blocks:
  assumes "i < length (m_descs s)"
  shows "arena_blocks c (m_descs (put i l a ro ps s) ! j) = arena_blocks c (m_descs s ! j)"
    "blocks_per_arena (m_descs (put i l a ro ps s) ! j) = blocks_per_arena (m_descs s ! j)"
    "block_size_of (m_descs (put i l a ro ps s) ! j) = block_size_of (m_descs s ! j)"
    "free_list (m_descs (put i l a ro ps s) ! j) = (if j = i then l else free_list (m_descs s ! j))"
  by (simp_all add: put_nth [OF assms])

lemma put_desc_ok:
  assumes "i < length (m_descs s)" and "\<forall>d\<in>set (m_descs s). desc_ok d"
  shows "\<forall>d\<in>set (m_descs (put i l a ro ps s)). desc_ok d"
proof -
  have "desc_ok (d\<lparr>free_list := l\<rparr>) = desc_ok d" for d by (simp add: desc_ok_def)
  then show ?thesis using assms by (fastforce simp: in_set_conv_nth put_nth [OF assms(1)])
qed

lemma put_inv:
  assumes s: "heap_inv X s" and i: "i < length (m_descs s)" and X: "X \<subseteq> {a}"
    and old: "\<forall>r. m_arenas s a = Some r \<longrightarrow> a_desc r = Some i"
    and l: "distinct l" "set l - B = set (free_list (m_descs s ! i)) - B" "set l \<inter> B = F"
    and B: "B = set (arena_blocks a (m_descs s ! i))"
    and ps: "pages_ok ps" "pool_used (kernel_pool (m_pages s)) - extent a 1 \<subseteq> pool_used (kernel_pool ps)"
    and ro: "case ro of None \<Rightarrow> F = {} | Some r \<Rightarrow> a_desc r = Some i \<and> free_cnt r = card F \<and>
      (a \<notin> Y \<longrightarrow> card F < blocks_per_arena (m_descs s ! i)) \<and> a mod 4096 = 0 \<and> a \<noteq> NULL \<and>
      extent a 1 \<subseteq> pool_used (kernel_pool ps)"
    and apart: "\<forall>a' r'. a' \<noteq> a \<longrightarrow> m_arenas s a' = Some r' \<longrightarrow> extent a 1 \<inter> extent a' (npages r') = {}"
  shows "heap_inv Y (put i l a ro ps s)"
proof -
  let ?s = "put i l a ro ps s"
  note pb = put_blocks [OF i]
  have d: "desc_ok (m_descs s ! i)" using heap_invD(2) [OF s] i by simp
  have Bsub: "B \<subseteq> extent a 1" using arena_blocks_sub [OF d] B by blast
  have other: "set (arena_blocks a' (m_descs s ! j)) \<inter> B = {}"
    if "a' \<noteq> a" "m_arenas s a' = Some r'" "a_desc r' = Some j" for a' r' j
  proof -
    have "extent a 1 \<inter> extent a' 1 = {}" using apart [rule_format, OF that(1,2)] that(3) by (simp add: npages_def)
    then show ?thesis using arena_blocks_sub [OF arena_desc(2) [OF s that(2,3)], of a'] Bsub by blast
  qed
  have fi: "free_in ?s a' j = free_in s a' j" if "a' \<noteq> a" "m_arenas s a' = Some r'" "a_desc r' = Some j" for a' r' j
  proof (cases "j = i")
    case True
    with other [OF that] l(2) show ?thesis by (auto simp: free_in_def pb)
  qed (simp add: free_in_def pb)
  have ok: "arena_ok Y ?s a' r'" if "m_arenas ?s a' = Some r'" for a' r'
  proof (cases "a' = a")
    case True
    with that ro l(3) i B show ?thesis by (auto simp: arena_ok_def npages_def free_in_def pb Int_commute)
  next
    case False
    then have m: "m_arenas s a' = Some r'" using that by simp
    have ao: "arena_ok X s a' r'" by (rule heap_invD(3) [OF s m])
    have "extent a' (npages r') \<subseteq> pool_used (kernel_pool ps)"
      using ao ps(2) apart False m by (fastforce simp: arena_ok_def)
    then show ?thesis using ao False X fi [OF False m] by (auto simp: arena_ok_def pb)
  qed
  have ext: "extent a1 (npages r1) \<inter> extent a2 (npages r2) = {}"
    if "m_arenas ?s a1 = Some r1" "m_arenas ?s a2 = Some r2" "a1 \<noteq> a2" for a1 r1 a2 r2
  proof -
    have n: "npages r = 1" if "m_arenas ?s a = Some r" for r using that ro by (auto simp: npages_def)
    consider "a1 = a" | "a2 = a" | "a1 \<noteq> a" "a2 \<noteq> a" by blast
    then show ?thesis
    proof cases
      case 1 with that apart n show ?thesis by auto
    next
      case 2
      then have "m_arenas s a1 = Some r1" "a1 \<noteq> a" "npages r2 = 1" using that n by auto
      with apart 2 show ?thesis by (metis inf_commute)
    next
      case 3 with that heap_invD(4) [OF s] show ?thesis by simp
    qed
  qed
  have fl: "\<exists>a' r'. m_arenas ?s a' = Some r' \<and> a_desc r' = Some j \<and> b \<in> set (arena_blocks a' (m_descs ?s ! j))"
    if j: "j < length (m_descs s)" and b: "b \<in> set (free_list (m_descs ?s ! j))" for j b
  proof (cases "j = i \<and> b \<in> B")
    case True
    then have "b \<in> F" using b l(3) by (auto simp: pb)
    then obtain r where "ro = Some r" "a_desc r = Some i" using ro by (cases ro) auto
    then show ?thesis using True B by (auto simp: pb)
  next
    case False
    then have "b \<in> set (free_list (m_descs s ! j))" using b l(2) by (auto simp: pb split: if_splits)
    from heap_invD(6) [OF s j this] obtain a' r' where a': "m_arenas s a' = Some r'" "a_desc r' = Some j"
      "b \<in> set (arena_blocks a' (m_descs s ! j))" by blast
    have "a' \<noteq> a"
    proof
      assume "a' = a"
      with a' old have "j = i" by auto
      with False a'(3) B \<open>a' = a\<close> show False by simp
    qed
    with a' show ?thesis by (auto simp: pb)
  qed
  have "distinct (free_list (m_descs ?s ! j))" if "j < length (m_descs s)" for j
    using l(1) heap_invD(5) [OF s that] by (simp add: pb)
  then show ?thesis
    unfolding heap_inv_def using ps(1) put_desc_ok [OF i] heap_invD(2) [OF s] ok ext fl by (metis put_simps(2,3))
qed

lemma ex_upd:
  "(\<exists>x y. (f(a := z)) x = Some y \<and> Q x y) \<longleftrightarrow> (\<exists>y. z = Some y \<and> Q a y) \<or> (\<exists>x y. x \<noteq> a \<and> f x = Some y \<and> Q x y)"
  by (metis fun_upd_apply)

lemma put_allocated:
  assumes s: "heap_inv X s" and i: "i < length (m_descs s)"
    and old: "\<forall>r. m_arenas s a = Some r \<longrightarrow> a_desc r = Some i"
    and l: "set l - B = set (free_list (m_descs s ! i)) - B"
    and B: "B = set (arena_blocks a (m_descs s ! i))"
    and ro: "\<forall>r. ro = Some r \<longrightarrow> a_desc r = Some i"
    and apart: "\<forall>a' r'. a' \<noteq> a \<longrightarrow> m_arenas s a' = Some r' \<longrightarrow> extent a 1 \<inter> extent a' (npages r') = {}"
  shows "allocated (put i l a ro ps s) =
    {x\<in>allocated s. fst x \<notin> B} \<union> (if ro = None then {} else (B - set l) \<times> {block_size_of (m_descs s ! i)})"
proof -
  note pb = put_blocks [OF i]
  have d: "desc_ok (m_descs s ! i)" using heap_invD(2) [OF s] i by simp
  have Bsub: "B \<subseteq> extent a 1" using arena_blocks_sub [OF d] B by blast
  let ?at = "\<lambda>s a r b n. (case a_desc r of None \<Rightarrow> b = a + 12 \<and> n = 4096 * free_cnt r - 12
     | Some i \<Rightarrow> b \<in> set (arena_blocks a (m_descs s ! i)) \<and> b \<notin> set (free_list (m_descs s ! i)) \<and>
         n = block_size_of (m_descs s ! i))"
  have out: "b \<notin> B \<and> ?at (put i l a ro ps s) a' r' b n = ?at s a' r' b n \<or>
      \<not> ?at s a' r' b n \<and> \<not> ?at (put i l a ro ps s) a' r' b n"
    if a': "a' \<noteq> a" "m_arenas s a' = Some r'" for a' r' b n
  proof (cases "b \<in> extent a' (npages r')")
    case True
    then have "b \<notin> B" using Bsub apart a' by blast
    then show ?thesis using l by (auto simp: pb split: option.splits)
  next
    case False
    have "\<not> ?at s a' r' b n \<and> \<not> ?at (put i l a ro ps s) a' r' b n"
    proof (cases "a_desc r'")
      case None
      have "0 < npages r'" using heap_invD(3) [OF s a'(2)] by (simp add: arena_ok_def)
      then show ?thesis using False None by (auto simp: npages_def)
    next
      case (Some j)
      have "b \<notin> set (arena_blocks a' (m_descs s ! j))"
        using arena_blocks_sub [OF arena_desc(2) [OF s a'(2) Some], of a'] False Some by (auto simp: npages_def)
      then show ?thesis using Some by (simp add: pb)
    qed
    then show ?thesis by blast
  qed
  have "(b, n) \<in> allocated (put i l a ro ps s) \<longleftrightarrow>
    (b, n) \<in> {x\<in>allocated s. fst x \<notin> B} \<union> (if ro = None then {} else (B - set l) \<times> {block_size_of (m_descs s ! i)})" for b n
  proof -
    have "(b, n) \<in> allocated (put i l a ro ps s) \<longleftrightarrow>
      (\<exists>r. ro = Some r \<and> b \<in> B - set l \<and> n = block_size_of (m_descs s ! i)) \<or>
      (\<exists>a' r'. a' \<noteq> a \<and> m_arenas s a' = Some r' \<and> ?at (put i l a ro ps s) a' r' b n)"
    proof -
      have at: "?at (put i l a ro ps s) a r b n \<longleftrightarrow> b \<in> B - set l \<and> n = block_size_of (m_descs s ! i)" if "ro = Some r" for r
        using ro that by (simp add: pb B)
      have "(b, n) \<in> allocated (put i l a ro ps s) \<longleftrightarrow>
        (\<exists>a' r'. ((m_arenas s)(a := ro)) a' = Some r' \<and> ?at (put i l a ro ps s) a' r' b n)"
        by (simp only: allocated_def mem_Collect_eq prod.case put_simps)
      also have "\<dots> \<longleftrightarrow> (\<exists>r. ro = Some r \<and> ?at (put i l a ro ps s) a r b n) \<or>
        (\<exists>a' r'. a' \<noteq> a \<and> m_arenas s a' = Some r' \<and> ?at (put i l a ro ps s) a' r' b n)"
        by (rule ex_upd)
      also have "(\<exists>r. ro = Some r \<and> ?at (put i l a ro ps s) a r b n) \<longleftrightarrow>
        (\<exists>r. ro = Some r \<and> b \<in> B - set l \<and> n = block_size_of (m_descs s ! i))"
        by (rule iff_exI, rule conj_cong [OF refl], rule at)
      finally show ?thesis .
    qed
    moreover have "(b, n) \<in> allocated s \<and> b \<notin> B \<longleftrightarrow>
      (\<exists>a' r'. a' \<noteq> a \<and> m_arenas s a' = Some r' \<and> ?at (put i l a ro ps s) a' r' b n)"
    proof
      assume "(b, n) \<in> allocated s \<and> b \<notin> B"
      then obtain a' r' where a': "m_arenas s a' = Some r'" "?at s a' r' b n" "b \<notin> B" unfolding allocated_def by blast
      have "a' \<noteq> a" using a' old B by auto
      then show "\<exists>a' r'. a' \<noteq> a \<and> m_arenas s a' = Some r' \<and> ?at (put i l a ro ps s) a' r' b n" using out a' by blast
    next
      assume "\<exists>a' r'. a' \<noteq> a \<and> m_arenas s a' = Some r' \<and> ?at (put i l a ro ps s) a' r' b n"
      then obtain a' r' where a': "a' \<noteq> a" "m_arenas s a' = Some r'" "?at (put i l a ro ps s) a' r' b n" by blast
      then have "b \<notin> B" "?at s a' r' b n" using out by blast+
      then show "(b, n) \<in> allocated s \<and> b \<notin> B" using a' unfolding allocated_def by blast
    qed
    ultimately show ?thesis by auto
  qed
  then show ?thesis by auto
qed

section \<open>Allocation\<close>

lemma own_apart:
  assumes "heap_inv X s" and "m_arenas s a = Some r" and "a_desc r = Some i"
  shows "\<forall>a' r'. a' \<noteq> a \<longrightarrow> m_arenas s a' = Some r' \<longrightarrow> extent a 1 \<inter> extent a' (npages r') = {}"
  using heap_invD(4) [OF assms(1,2)] assms(3) by (fastforce simp: npages_def)

lemma fresh_apart:
  assumes "heap_inv X s" and "extent a n \<inter> pool_used (kernel_pool (m_pages s)) = {}" and "m_arenas s a' = Some r'"
  shows "extent a n \<inter> extent a' (npages r') = {}"
  using heap_invD(3) [OF assms(1,3)] assms(2) unfolding arena_ok_def by blast

lemma put_eq:
  "(set_free i l s)\<lparr>m_arenas := (m_arenas s)(a := ro)\<rparr> = put i l a ro (m_pages s) s"
  "set_free i l (s\<lparr>m_pages := ps, m_arenas := (m_arenas s)(a := ro)\<rparr>) = put i l a ro ps s"
  "set_free i l (s\<lparr>m_arenas := (m_arenas s)(a := ro)\<rparr>) = put i l a ro (m_pages s) s"
  "(set_free i l (s\<lparr>m_pages := ps\<rparr>))\<lparr>m_arenas := (m_arenas s)(a := ro)\<rparr> = put i l a ro ps s"
  by (cases s; simp add: put_def set_free_def upd_desc_def)+

lemma put_same:
  assumes "i < length (m_descs s)" and "m_arenas s a = ro" and "free_list (m_descs s ! i) = l" and "m_pages s = ps"
  shows "put i l a ro ps s = s"
  using assms by (auto simp: put_def set_free_def upd_desc_def fun_upd_idem)

lemma new_arena_ok:
  assumes s: "heap_inv {} s" and i: "i < length (m_descs s)" and fl: "free_list (m_descs s ! i) = []"
  shows "new_arena i s = Some (False, s) \<or>
    (\<exists>a s' r. new_arena i s = Some (True, s') \<and> heap_inv {a} s' \<and> allocated s' = allocated s \<and>
       length (m_descs s') = length (m_descs s) \<and> block_size_of (m_descs s' ! i) = block_size_of (m_descs s ! i) \<and>
       m_arenas s' a = Some r \<and> a_desc r = Some i \<and> free_list (m_descs s' ! i) = arena_blocks a (m_descs s' ! i))"
proof -
  have ps: "pages_ok (m_pages s)" using heap_invD(1) [OF s] .
  have d: "desc_ok (m_descs s ! i)" using heap_invD(2) [OF s] i by simp
  from palloc_get_ok [OF ps zero_less_one, of 0]
  consider "palloc_get_multiple 0 1 (m_pages s) = Some (NULL, m_pages s)"
    | a ps' where "palloc_get_multiple 0 1 (m_pages s) = Some (a, ps')" "got 0 1 (m_pages s) a ps'" by auto
  then show ?thesis
  proof cases
    case 1
    then show ?thesis by (simp add: new_arena_def palloc_get_page_def Let_def)
  next
    case 2
    let ?B = "arena_blocks a (m_descs s ! i)"
    let ?r = "\<lparr>a_desc = Some i, free_cnt = blocks_per_arena (m_descs s ! i)\<rparr>"
    let ?s = "put i ?B a (Some ?r) ps' s"
    have g: "a \<noteq> NULL" "pages_ok ps'" "a mod 4096 = 0" "extent a 1 \<inter> pool_used (kernel_pool (m_pages s)) = {}"
      "pool_used (kernel_pool ps') = pool_used (kernel_pool (m_pages s)) \<union> extent a 1"
      using 2(2) by (auto simp: got_def in_use_def)
    have e: "new_arena i s = Some (True, ?s)"
      using 2(1) g(1) by (simp add: new_arena_def palloc_get_page_def Let_def set_free_fold fl)
        (simp add: put_def set_free_def upd_desc_def fl)
    have no: "m_arenas s a = None"
    proof (rule ccontr)
      assume "m_arenas s a \<noteq> None"
      then obtain r where r: "m_arenas s a = Some r" by blast
      have "0 < npages r" "a \<in> extent a 1" using heap_invD(3) [OF s r] by (simp_all add: arena_ok_def)
      then show False using fresh_apart [OF s g(4) r] by auto
    qed
    have ap: "\<forall>a' r'. a' \<noteq> a \<longrightarrow> m_arenas s a' = Some r' \<longrightarrow> extent a 1 \<inter> extent a' (npages r') = {}"
      using fresh_apart [OF s g(4)] by blast
    have inv: "heap_inv {a} ?s"
      by (rule put_inv [OF s i, where B = "set ?B" and F = "set ?B"])
        (use g ap no fl d in \<open>auto simp: distinct_arena_blocks card_arena_blocks\<close>)
    have al: "allocated ?s = {x\<in>allocated s. fst x \<notin> set ?B}"
      by (subst put_allocated [OF s i, where B = "set ?B"]) (use ap no fl in auto)
    have "fst x \<notin> set ?B" if x: "x \<in> allocated s" for x
    proof
      assume b: "fst x \<in> set ?B"
      then have ba: "fst x \<in> extent a 1" using arena_blocks_sub [OF d, of a] by blast
      obtain a' r' where a': "m_arenas s a' = Some r'" and c: "case a_desc r' of
           None \<Rightarrow> fst x = a' + 12 | Some i \<Rightarrow> fst x \<in> set (arena_blocks a' (m_descs s ! i))"
        using x by (auto simp: allocated_def split: option.splits)
      have "fst x \<in> extent a' (npages r')"
      proof (cases "a_desc r'")
        case None
        then show ?thesis using c heap_invD(3) [OF s a'] by (simp add: arena_ok_def npages_def)
      next
        case (Some j)
        then show ?thesis using c arena_blocks_sub [OF arena_desc(2) [OF s a' Some], of a'] by (auto simp: npages_def)
      qed
      with ba fresh_apart [OF s g(4) a'] show False by blast
    qed
    then have "allocated ?s = allocated s" using al by auto
    then show ?thesis using e inv put_blocks [OF i]
      by (intro disjI2 exI [of _ a] exI [of _ ?s] exI [of _ ?r]) simp
  qed
qed

lemma u32_dec: "0 < n \<Longrightarrow> n < 2 ^ 32 \<Longrightarrow> u32 (n + 2 ^ 32 - 1) = n - 1"
  by (cases n) (simp_all add: u32_def)

lemma arena_cnt:
  assumes "heap_inv X s" and "m_arenas s a = Some r" and "a_desc r = Some i"
  shows "free_cnt r \<le> blocks_per_arena (m_descs s ! i)" "blocks_per_arena (m_descs s ! i) \<le> 4084"
proof -
  note ad = arena_desc [OF assms]
  show "free_cnt r \<le> blocks_per_arena (m_descs s ! i)"
    using card_mono [of "set (arena_blocks a (m_descs s ! i))" "free_in s a i"] ad(3) card_arena_blocks [OF ad(2)]
    by (simp add: free_in_def)
  have "1 * blocks_per_arena (m_descs s ! i) \<le> block_size_of (m_descs s ! i) * blocks_per_arena (m_descs s ! i)"
    using ad(2) by (intro mult_right_mono) (simp_all add: desc_ok_def)
  also have "\<dots> \<le> 4084" using ad(2) by (simp add: desc_ok_def)
  finally show "blocks_per_arena (m_descs s ! i) \<le> 4084" by simp
qed

lemma take_block_ok:
  assumes s: "heap_inv X s" and X: "X \<subseteq> {a}" and a: "m_arenas s a = Some r" "a_desc r = Some i"
    and fl: "free_list (m_descs s ! i) = b # bs" and b: "b \<in> set (arena_blocks a (m_descs s ! i))"
  shows "\<exists>s'. take_block i s = Some (b, s') \<and> heap_inv {} s' \<and> b \<noteq> NULL \<and> b \<notin> fst ` allocated s \<and>
    allocated s' = insert (b, block_size_of (m_descs s ! i)) (allocated s)"
proof -
  note ad = arena_desc [OF s a] and cnt = arena_cnt [OF s a] and i = arena_desc(1) [OF s a]
  let ?B = "set (arena_blocks a (m_descs s ! i))"
  have db: "distinct (b # bs)" using heap_invD(5) [OF s i] fl by simp
  have fi: "free_in s a i = insert b (?B \<inter> set bs)" using fl b by (auto simp: free_in_def)
  then have c: "free_cnt r = Suc (card (?B \<inter> set bs))" using ad(3) db by simp
  then have u: "u32 (free_cnt r + 2 ^ 32 - 1) = card (?B \<inter> set bs)" using cnt u32_dec [of "free_cnt r"] by simp
  let ?r = "r\<lparr>free_cnt := card (?B \<inter> set bs)\<rparr>"
  let ?s = "put i bs a (Some ?r) (m_pages s) s"
  have nm: "pg_round_down b = a" "b \<noteq> NULL" and ba: "block_to_arena b (set_free i bs s) = Some a"
  proof -
    show "b \<noteq> NULL" by (rule small_block_to_arena(2) [OF s a b])
    have "block_to_arena b s = Some a" by (rule small_block_to_arena(1) [OF s a b])
    moreover from this show "pg_round_down b = a"
      by (auto simp: block_to_arena_def Let_def split: Option.bind_splits option.splits if_splits)
    ultimately show "block_to_arena b (set_free i bs s) = Some a" by (simp add: block_to_arena_set_free [OF i])
  qed
  have e: "take_block i s = Some (b, ?s)"
    using fl ba a(1) u by (simp add: take_block_def set_free_fold Let_def put_eq)
  have inv: "heap_inv {} ?s"
  proof (rule put_inv [OF s i X, where B = ?B and F = "?B \<inter> set bs"])
    show "case Some ?r of None \<Rightarrow> ?B \<inter> set bs = {} | Some r \<Rightarrow> a_desc r = Some i \<and> free_cnt r = card (?B \<inter> set bs) \<and>
      (a \<notin> {} \<longrightarrow> card (?B \<inter> set bs) < blocks_per_arena (m_descs s ! i)) \<and> a mod 4096 = 0 \<and> a \<noteq> NULL \<and>
      extent a 1 \<subseteq> pool_used (kernel_pool (m_pages s))"
      using a c cnt(1) ad(5) arena_top [OF s a(1)] by simp
  qed (use a fl b db heap_invD(1) [OF s] own_apart [OF s a] in auto)
  have nb: "b \<notin> fst ` allocated s"
  proof
    assume "b \<in> fst ` allocated s"
    then obtain n a' r' where a': "m_arenas s a' = Some r'" and c: "case a_desc r' of None \<Rightarrow> b = a' + 12
      | Some j \<Rightarrow> b \<in> set (arena_blocks a' (m_descs s ! j)) \<and> b \<notin> set (free_list (m_descs s ! j))"
      by (auto simp: allocated_def split: option.splits)
    have "a' \<noteq> a" using c a' a fl by auto
    have "b \<in> extent a' (npages r')"
    proof (cases "a_desc r'")
      case None
      then show ?thesis using c heap_invD(3) [OF s a'] by (simp add: arena_ok_def npages_def)
    next
      case (Some j)
      then show ?thesis using c arena_blocks_sub [OF arena_desc(2) [OF s a' Some], of a'] by (auto simp: npages_def)
    qed
    moreover have "b \<in> extent a 1" using b arena_blocks_sub [OF ad(2), of a] by blast
    ultimately show False using own_apart [OF s a] a' \<open>a' \<noteq> a\<close> by blast
  qed
  have keep: "{x\<in>allocated s. fst x \<notin> ?B} \<union> (?B - set (b # bs)) \<times> {block_size_of (m_descs s ! i)} = allocated s"
    using put_allocated [OF s i, where l = "b # bs" and a = a and ro = "Some r" and B = ?B and ps = "m_pages s"]
      own_apart [OF s a] a fl by (simp add: put_same [OF i a(1) fl])
  have "allocated ?s = {x\<in>allocated s. fst x \<notin> ?B} \<union> (?B - set bs) \<times> {block_size_of (m_descs s ! i)}"
    by (subst put_allocated [OF s i, where B = ?B]) (use own_apart [OF s a] a fl b in auto)
  also have "\<dots> = insert (b, block_size_of (m_descs s ! i))
      ({x\<in>allocated s. fst x \<notin> ?B} \<union> (?B - set (b # bs)) \<times> {block_size_of (m_descs s ! i)})"
    using b db by auto
  finally show ?thesis using e inv nb nm(2) keep by auto
qed

lemma allocated_in_arena:
  assumes "heap_inv X s" and "x \<in> allocated s"
  shows "\<exists>a r. m_arenas s a = Some r \<and> 0 < snd x \<and> a + 12 \<le> fst x \<and> fst x + snd x \<le> a + 4096 * npages r"
proof -
  obtain b n where x: "x = (b, n)" by (cases x)
  obtain a r where a: "m_arenas s a = Some r" and c: "case a_desc r of None \<Rightarrow> b = a + 12 \<and> n = 4096 * free_cnt r - 12
      | Some i \<Rightarrow> b \<in> set (arena_blocks a (m_descs s ! i)) \<and> n = block_size_of (m_descs s ! i)"
    using assms(2) by (auto simp: x allocated_def split: option.splits)
  show ?thesis
  proof (cases "a_desc r")
    case None
    then have "0 < free_cnt r" using heap_invD(3) [OF assms(1) a] by (simp add: arena_ok_def npages_def)
    then show ?thesis using a c None by (intro exI [of _ a] exI [of _ r]) (simp add: x npages_def)
  next
    case (Some i)
    note d = arena_desc(2) [OF assms(1) a Some]
    from c Some have b: "b \<in> set (arena_blocks a (m_descs s ! i))" and n: "n = block_size_of (m_descs s ! i)" by simp_all
    show ?thesis using a block_span [OF d b] d Some n
      by (intro exI [of _ a] exI [of _ r]) (simp add: x npages_def desc_ok_def)
  qed
qed

lemma big_inv:
  assumes s: "heap_inv X s" and old: "\<forall>r. m_arenas s a = Some r \<longrightarrow> a_desc r = None"
    and ps: "pages_ok ps" "pool_used (kernel_pool (m_pages s)) - extent a n \<subseteq> pool_used (kernel_pool ps)"
    and ro: "\<forall>r. ro = Some r \<longrightarrow> a_desc r = None \<and> free_cnt r = n \<and> 0 < n \<and> a mod 4096 = 0 \<and> a \<noteq> NULL \<and>
      extent a n \<subseteq> pool_used (kernel_pool ps)"
    and apart: "\<forall>a' r'. a' \<noteq> a \<longrightarrow> m_arenas s a' = Some r' \<longrightarrow> extent a n \<inter> extent a' (npages r') = {}"
  shows "heap_inv X (s\<lparr>m_pages := ps, m_arenas := (m_arenas s)(a := ro)\<rparr>)"
proof -
  let ?s = "s\<lparr>m_pages := ps, m_arenas := (m_arenas s)(a := ro)\<rparr>"
  have ok: "arena_ok X ?s a' r'" if "m_arenas ?s a' = Some r'" for a' r'
  proof (cases "a' = a")
    case True
    with that ro show ?thesis by (auto simp: arena_ok_def npages_def)
  next
    case False
    then have m: "m_arenas s a' = Some r'" using that by simp
    have ao: "arena_ok X s a' r'" by (rule heap_invD(3) [OF s m])
    then have "extent a' (npages r') \<subseteq> pool_used (kernel_pool ps)"
      using ps(2) apart False m by (fastforce simp: arena_ok_def)
    moreover have e: "m_descs ?s = m_descs s" "m_pages ?s = ps" by simp_all
    ultimately show ?thesis using ao unfolding arena_ok_def free_in_def e by blast
  qed
  have ext: "extent a1 (npages r1) \<inter> extent a2 (npages r2) = {}"
    if "m_arenas ?s a1 = Some r1" "m_arenas ?s a2 = Some r2" "a1 \<noteq> a2" for a1 r1 a2 r2
  proof -
    have n: "npages r = n" if "m_arenas ?s a = Some r" for r using that ro by (auto simp: npages_def)
    consider "a1 = a" | "a2 = a" | "a1 \<noteq> a" "a2 \<noteq> a" by blast
    then show ?thesis
    proof cases
      case 1 with that apart n show ?thesis by auto
    next
      case 2
      then have "m_arenas s a1 = Some r1" "a1 \<noteq> a" "npages r2 = n" using that n by auto
      with apart 2 show ?thesis by (metis inf_commute)
    next
      case 3 with that heap_invD(4) [OF s] show ?thesis by simp
    qed
  qed
  have fl: "\<exists>a' r'. m_arenas ?s a' = Some r' \<and> a_desc r' = Some j \<and> b \<in> set (arena_blocks a' (m_descs ?s ! j))"
    if j: "j < length (m_descs s)" and b: "b \<in> set (free_list (m_descs s ! j))" for j b
  proof -
    from heap_invD(6) [OF s j b] obtain a' r' where a': "m_arenas s a' = Some r'" "a_desc r' = Some j"
      "b \<in> set (arena_blocks a' (m_descs s ! j))" by blast
    then have "a' \<noteq> a" using old by auto
    with a' show ?thesis by auto
  qed
  show ?thesis
  proof -
    have e: "m_descs ?s = m_descs s" "m_pages ?s = ps" by simp_all
    note fl = fl [unfolded e]
    show ?thesis unfolding heap_inv_def e using ps(1) heap_invD(2) [OF s] heap_invD(5) [OF s] ok ext fl by blast
  qed
qed

lemma big_allocated:
  assumes s: "heap_inv X s" and n: "0 < n" and old: "\<forall>r. m_arenas s a = Some r \<longrightarrow> a_desc r = None \<and> free_cnt r = n"
    and ro: "\<forall>r. ro = Some r \<longrightarrow> a_desc r = None \<and> free_cnt r = n"
    and apart: "\<forall>a' r'. a' \<noteq> a \<longrightarrow> m_arenas s a' = Some r' \<longrightarrow> extent a n \<inter> extent a' (npages r') = {}"
  shows "allocated (s\<lparr>m_pages := ps, m_arenas := (m_arenas s)(a := ro)\<rparr>) =
    allocated s - {(a + 12, 4096 * n - 12)} \<union> (if ro = None then {} else {(a + 12, 4096 * n - 12)})"
proof -
  let ?at = "\<lambda>a r b m. (case a_desc r of None \<Rightarrow> b = a + 12 \<and> m = 4096 * free_cnt r - 12
     | Some i \<Rightarrow> b \<in> set (arena_blocks a (m_descs s ! i)) \<and> b \<notin> set (free_list (m_descs s ! i)) \<and>
         m = block_size_of (m_descs s ! i))"
  have al: "(b, m) \<in> allocated s \<longleftrightarrow> (\<exists>a r. m_arenas s a = Some r \<and> ?at a r b m)" for b m
    by (simp add: allocated_def)
  have out: "b \<noteq> a + 12" if a': "a' \<noteq> a" "m_arenas s a' = Some r'" and at: "?at a' r' b m" for a' r' b m
  proof -
    have "b \<in> extent a' (npages r')"
    proof (cases "a_desc r'")
      case None
      then show ?thesis using at heap_invD(3) [OF s a'(2)] by (simp add: arena_ok_def npages_def)
    next
      case (Some j)
      then show ?thesis using at arena_blocks_sub [OF arena_desc(2) [OF s a'(2) Some], of a'] by (auto simp: npages_def)
    qed
    moreover have "a + 12 \<in> extent a n" using n by simp
    ultimately show ?thesis using apart a' by blast
  qed
  have "(b, m) \<in> allocated (s\<lparr>m_pages := ps, m_arenas := (m_arenas s)(a := ro)\<rparr>) \<longleftrightarrow>
    (\<exists>r. ro = Some r \<and> ?at a r b m) \<or> (\<exists>a' r'. a' \<noteq> a \<and> m_arenas s a' = Some r' \<and> ?at a' r' b m)" for b m
  proof -
    have "(b, m) \<in> allocated (s\<lparr>m_pages := ps, m_arenas := (m_arenas s)(a := ro)\<rparr>) \<longleftrightarrow>
      (\<exists>a' r'. ((m_arenas s)(a := ro)) a' = Some r' \<and> ?at a' r' b m)"
    proof -
      have e: "m_descs (s\<lparr>m_pages := ps, m_arenas := (m_arenas s)(a := ro)\<rparr>) = m_descs s"
        "m_arenas (s\<lparr>m_pages := ps, m_arenas := (m_arenas s)(a := ro)\<rparr>) = (m_arenas s)(a := ro)" by simp_all
      show ?thesis unfolding allocated_def mem_Collect_eq prod.case e by (rule refl)
    qed
    then show ?thesis unfolding ex_upd .
  qed
  moreover have "(\<exists>a' r'. a' \<noteq> a \<and> m_arenas s a' = Some r' \<and> ?at a' r' b m) \<longleftrightarrow>
    (b, m) \<in> allocated s - {(a + 12, 4096 * n - 12)}" (is "?L = ?R") for b m
  proof
    assume ?L
    then obtain a' r' where a': "a' \<noteq> a" "m_arenas s a' = Some r'" "?at a' r' b m" by blast
    then have "b \<noteq> a + 12" by (rule out)
    moreover have "(b, m) \<in> allocated s" unfolding al using a' by blast
    ultimately show ?R by simp
  next
    assume ?R
    then obtain a' r' where a': "m_arenas s a' = Some r'" "?at a' r' b m" "\<not> (b = a + 12 \<and> m = 4096 * n - 12)"
      unfolding al Diff_iff by auto
    have "a' \<noteq> a" using a' old by auto
    with a' show ?L by blast
  qed
  moreover have "(\<exists>r. ro = Some r \<and> ?at a r b m) \<longleftrightarrow> ro \<noteq> None \<and> b = a + 12 \<and> m = 4096 * n - 12" for b m
    using ro by (cases ro) auto
  ultimately show ?thesis by auto
qed

lemma malloc_big_ok:
  assumes s: "heap_inv {} s" and sz: "sz + 4107 < 2 ^ 32"
  shows "malloc_big sz s = Some (NULL, s) \<or>
    (\<exists>a n s'. malloc_big sz s = Some (a, s') \<and> a \<noteq> NULL \<and> heap_inv {} s' \<and> sz \<le> n \<and> a \<notin> fst ` allocated s \<and>
       allocated s' = insert (a, n) (allocated s))"
proof -
  let ?n = "(sz + 4107) div 4096"
  have u: "u32 (u32 (sz + ARENA_SIZE) + PGSIZE - 1) div PGSIZE = ?n" using sz by (simp add: u32_def ARENA_SIZE_def)
  have n: "0 < ?n" "sz + 12 \<le> 4096 * ?n" by linarith+
  from palloc_get_ok [OF heap_invD(1) [OF s] n(1), of 0]
  consider "palloc_get_multiple 0 ?n (m_pages s) = Some (NULL, m_pages s)"
    | a ps' where "palloc_get_multiple 0 ?n (m_pages s) = Some (a, ps')" "got 0 ?n (m_pages s) a ps'" by auto
  then show ?thesis
  proof cases
    case 1
    then show ?thesis unfolding malloc_big_def u by simp
  next
    case 2
    let ?r = "\<lparr>a_desc = None, free_cnt = ?n\<rparr>"
    let ?s = "s\<lparr>m_pages := ps', m_arenas := (m_arenas s)(a := Some ?r)\<rparr>"
    have g: "a \<noteq> NULL" "pages_ok ps'" "a mod 4096 = 0" "extent a ?n \<inter> pool_used (kernel_pool (m_pages s)) = {}"
      "pool_used (kernel_pool ps') = pool_used (kernel_pool (m_pages s)) \<union> extent a ?n"
      using 2(2) by (auto simp: got_def in_use_def)
    have ap: "\<forall>a' r'. a' \<noteq> a \<longrightarrow> m_arenas s a' = Some r' \<longrightarrow> extent a ?n \<inter> extent a' (npages r') = {}"
      using fresh_apart [OF s g(4)] by blast
    have no: "m_arenas s a = None"
    proof (rule ccontr)
      assume "m_arenas s a \<noteq> None"
      then obtain r where r: "m_arenas s a = Some r" by blast
      have "0 < npages r" "a \<in> extent a ?n" using heap_invD(3) [OF s r] n(1) by (simp_all add: arena_ok_def)
      then show False using fresh_apart [OF s g(4) r] by auto
    qed
    have e: "malloc_big sz s = Some (a + 12, ?s)"
      unfolding malloc_big_def u using 2(1) g(1) by (simp add: ARENA_SIZE_def)
    have inv: "heap_inv {} ?s" by (rule big_inv [OF s, where n = ?n]) (use g ap no n(1) in auto)
    have nb: "a + 12 \<notin> fst ` allocated s"
    proof
      assume "a + 12 \<in> fst ` allocated s"
      then obtain x where x: "x \<in> allocated s" "fst x = a + 12" by auto
      from allocated_in_arena [OF s x(1)] obtain a' r' where "m_arenas s a' = Some r'" "a + 12 \<in> extent a' (npages r')"
        using x(2) by auto
      moreover have "a + 12 \<in> extent a ?n" using n(1) by simp
      ultimately show False using fresh_apart [OF s g(4)] by blast
    qed
    then have "(a + 12, 4096 * ?n - 12) \<notin> allocated s" by force
    then have "allocated ?s = insert (a + 12, 4096 * ?n - 12) (allocated s)"
      by (subst big_allocated [OF s n(1)]) (use ap no in auto)
    moreover have "a + 12 \<noteq> NULL" "sz \<le> 4096 * ?n - 12" using n(2) by (simp_all add: NULL_def)
    ultimately show ?thesis using e inv nb by blast
  qed
qed

lemma find_desc_Some: "find_desc sz ds k = Some i \<Longrightarrow> k \<le> i \<and> i - k < length ds \<and> sz \<le> block_size_of (ds ! (i - k))"
proof (induction ds arbitrary: k)
  case (Cons d ds)
  show ?case
  proof (cases "sz \<le> block_size_of d")
    case False
    with Cons show ?thesis by (fastforce simp: nth_Cons' Suc_diff_Suc)
  qed (use Cons.prems in auto)
qed simp

lemma malloc_ok:
  assumes s: "heap_inv {} s" and sz: "sz + 4107 < 2 ^ 32"
  shows "malloc sz s = Some (NULL, s) \<or>
    (\<exists>a n s'. malloc sz s = Some (a, s') \<and> a \<noteq> NULL \<and> heap_inv {} s' \<and> sz \<le> n \<and> a \<notin> fst ` allocated s \<and>
       allocated s' = insert (a, n) (allocated s))"
proof (cases "find_desc sz (m_descs s) 0")
  case None
  then show ?thesis using malloc_big_ok [OF assms] by (cases "sz = 0") (simp_all add: malloc_def)
next
  case (Some i)
  then have i: "i < length (m_descs s)" "sz \<le> block_size_of (m_descs s ! i)" using find_desc_Some [OF Some] by simp_all
  show ?thesis
  proof (cases "free_list (m_descs s ! i)")
    case Nil
    from new_arena_ok [OF s i(1) Nil] show ?thesis
    proof
      assume "new_arena i s = Some (False, s)"
      then show ?thesis using Some Nil by (simp add: malloc_def)
    next
      assume "\<exists>a s' r. new_arena i s = Some (True, s') \<and> heap_inv {a} s' \<and> allocated s' = allocated s \<and>
        length (m_descs s') = length (m_descs s) \<and> block_size_of (m_descs s' ! i) = block_size_of (m_descs s ! i) \<and>
        m_arenas s' a = Some r \<and> a_desc r = Some i \<and> free_list (m_descs s' ! i) = arena_blocks a (m_descs s' ! i)"
      then obtain a s1 r where n: "new_arena i s = Some (True, s1)" "heap_inv {a} s1" "allocated s1 = allocated s"
        "block_size_of (m_descs s1 ! i) = block_size_of (m_descs s ! i)" "m_arenas s1 a = Some r" "a_desc r = Some i"
        "free_list (m_descs s1 ! i) = arena_blocks a (m_descs s1 ! i)" by blast
      have "desc_ok (m_descs s1 ! i)" by (rule arena_desc(2) [OF n(2,5,6)])
      then have "arena_blocks a (m_descs s1 ! i) \<noteq> []"
        by (metis desc_ok_def length_arena_blocks length_greater_0_conv)
      then obtain b bs where b: "arena_blocks a (m_descs s1 ! i) = b # bs" by (meson neq_Nil_conv)
      from take_block_ok [OF n(2) subset_refl n(5,6) n(7) [unfolded b]] b obtain s' where
        "take_block i s1 = Some (b, s')" "heap_inv {} s'" "b \<noteq> NULL" "b \<notin> fst ` allocated s1"
        "allocated s' = insert (b, block_size_of (m_descs s1 ! i)) (allocated s1)" by auto
      then show ?thesis using n Some Nil i(2) by (auto simp: malloc_def)
    qed
  next
    case (Cons b bs)
    then obtain a r where a: "m_arenas s a = Some r" "a_desc r = Some i" "b \<in> set (arena_blocks a (m_descs s ! i))"
      using heap_invD(6) [OF s i(1), of b] by auto
    from take_block_ok [OF s _ a(1,2) Cons a(3)] show ?thesis using Some i(2) Cons by (auto simp: malloc_def)
  qed
qed

text \<open>Blocks in use never overlap.\<close>

lemma allocated_disjoint:
  assumes s: "heap_inv X s" and x: "(b, n) \<in> allocated s" and y: "(b', n') \<in> allocated s" and ne: "b \<noteq> b'"
  shows "{b..<b + n} \<inter> {b'..<b' + n'} = {}"
proof -
  obtain a r where a: "m_arenas s a = Some r" and c: "case a_desc r of None \<Rightarrow> b = a + 12 \<and> n = 4096 * free_cnt r - 12
      | Some i \<Rightarrow> b \<in> set (arena_blocks a (m_descs s ! i)) \<and> n = block_size_of (m_descs s ! i)"
    using x by (auto simp: allocated_def split: option.splits)
  obtain a' r' where a': "m_arenas s a' = Some r'" and c': "case a_desc r' of None \<Rightarrow> b' = a' + 12 \<and> n' = 4096 * free_cnt r' - 12
      | Some i \<Rightarrow> b' \<in> set (arena_blocks a' (m_descs s ! i)) \<and> n' = block_size_of (m_descs s ! i)"
    using y by (auto simp: allocated_def split: option.splits)
  have sub: "{b..<b + n} \<subseteq> extent a (npages r)" if "m_arenas s a = Some r"
    "case a_desc r of None \<Rightarrow> b = a + 12 \<and> n = 4096 * free_cnt r - 12
      | Some i \<Rightarrow> b \<in> set (arena_blocks a (m_descs s ! i)) \<and> n = block_size_of (m_descs s ! i)" for a r b n
  proof (cases "a_desc r")
    case None
    with that show ?thesis by (auto simp: npages_def)
  next
    case (Some i)
    with that have "b \<in> set (arena_blocks a (m_descs s ! i))" "n = block_size_of (m_descs s ! i)" by simp_all
    with block_span [OF arena_desc(2) [OF s that(1) Some]] show ?thesis using Some by (fastforce simp: npages_def)
  qed
  show ?thesis
  proof (cases "a = a'")
    case False
    with sub [OF a c] sub [OF a' c'] heap_invD(4) [OF s a a'] show ?thesis by blast
  next
    case True
    then have r: "r' = r" using a a' by simp
    then obtain i where i: "a_desc r = Some i" using c c' ne True by (cases "a_desc r") auto
    show ?thesis using blocks_disjoint [OF arena_desc(2) [OF s a i], of b a b'] c c' i r True ne by auto
  qed
qed

section \<open>Release\<close>

lemma fold_remove1: "distinct ys \<Longrightarrow> set (fold remove1 xs ys) = set ys - set xs \<and> distinct (fold remove1 xs ys)"
  by (induction xs arbitrary: ys) auto

lemma fill_pages [simp]:
  "kernel_pool (fill a n v ps) = kernel_pool ps" "pages_ok (fill a n v ps) = pages_ok ps"
  by (simp_all add: fill_def pages_ok_def)

lemma free_small_ok:
  assumes s: "heap_inv {} s" and a: "m_arenas s a = Some r" "a_desc r = Some i"
    and b: "p \<in> set (arena_blocks a (m_descs s ! i))" "p \<notin> set (free_list (m_descs s ! i))"
  shows "\<exists>s'. free p s = Some s' \<and> heap_inv {} s' \<and>
    allocated s' = allocated s - {(p, block_size_of (m_descs s ! i))}"
proof -
  note ad = arena_desc [OF s a] and cnt = arena_cnt [OF s a] and i = arena_desc(1) [OF s a]
  let ?d = "m_descs s ! i"
  let ?B = "set (arena_blocks a ?d)"
  let ?l = "p # free_list ?d"
  let ?ps = "fill p (block_size_of ?d) 0xcc (m_pages s)"
  let ?c = "free_cnt r + 1"
  have dl: "distinct ?l" using heap_invD(5) [OF s i] b(2) by simp
  have F: "set ?l \<inter> ?B = insert p (free_in s a i)" using b by (auto simp: free_in_def)
  have c: "card (set ?l \<inter> ?B) = ?c" unfolding F using ad(3) b(2) by (simp add: free_in_def)
  have "card (set ?l \<inter> ?B) \<le> card ?B" by (rule card_mono) auto
  then have le: "?c \<le> blocks_per_arena ?d" using c card_arena_blocks [OF ad(2)] by simp
  then have u: "u32 ?c = ?c" using cnt by (simp add: u32_def)
  note top = arena_top [OF s a(1)]
  have ba: "block_to_arena p s = Some a" "p \<noteq> NULL" using small_block_to_arena [OF s a b(1)] by simp_all
  have keep: "allocated s = {x\<in>allocated s. fst x \<notin> ?B} \<union> (?B - set (free_list ?d)) \<times> {block_size_of ?d}"
    using put_allocated [OF s i, where l = "free_list ?d" and a = a and ro = "Some r" and B = ?B and ps = "m_pages s"]
      own_apart [OF s a] a by (simp add: put_same [OF i a(1) refl])
  let ?s1 = "put i ?l a (Some (r\<lparr>free_cnt := ?c\<rparr>)) ?ps s"
  have f: "free p s = (if blocks_per_arena ?d \<le> ?c then drop_arena a i ?s1 else Some ?s1)"
    using ba a u le by (simp add: free_def Let_def set_free_fold put_eq)
  show ?thesis
  proof (cases "?c < blocks_per_arena ?d")
    case True
    have "heap_inv {} ?s1"
    proof (rule put_inv [OF s i empty_subsetI, where B = ?B and F = "set ?l \<inter> ?B"])
      show "case Some (r\<lparr>free_cnt := ?c\<rparr>) of None \<Rightarrow> set ?l \<inter> ?B = {} | Some r \<Rightarrow> a_desc r = Some i \<and>
        free_cnt r = card (set ?l \<inter> ?B) \<and> (a \<notin> {} \<longrightarrow> card (set ?l \<inter> ?B) < blocks_per_arena ?d) \<and>
        a mod 4096 = 0 \<and> a \<noteq> NULL \<and> extent a 1 \<subseteq> pool_used (kernel_pool ?ps)"
        using a c True ad(5) top by simp
    qed (use a b dl heap_invD(1) [OF s] own_apart [OF s a] in auto)
    moreover have "allocated ?s1 = {x\<in>allocated s. fst x \<notin> ?B} \<union> (?B - set ?l) \<times> {block_size_of ?d}"
      by (subst put_allocated [OF s i, where B = ?B]) (use own_apart [OF s a] a b in auto)
    moreover have "\<dots> = allocated s - {(p, block_size_of ?d)}"
      by (subst (2) keep) (use b in auto)
    ultimately show ?thesis using f True by auto
  next
    case False
    obtain ps where ps: "palloc_free_multiple a 1 ?ps = Some ps" "pages_ok ps"
      "pool_used (kernel_pool ps) = pool_used (kernel_pool (m_pages s)) - extent a 1"
      using palloc_free_kernel [of ?ps a 1] heap_invD(1) [OF s] top ad(5) by auto
    let ?l' = "fold remove1 (arena_blocks a ?d) ?l"
    let ?s2 = "put i ?l' a None ps s"
    have "drop_arena a i ?s1 = Some ?s2"
      using ps(1) i by (simp add: drop_arena_def palloc_free_page_def set_free_fold)
        (simp add: put_def set_free_def upd_desc_def)
    with f False have f: "free p s = Some ?s2" by simp
    have sl: "set ?l' = set ?l - ?B" "distinct ?l'" using fold_remove1 [OF dl] by blast+
    have all: "?B \<subseteq> set ?l"
    proof -
      have "set ?l \<inter> ?B = ?B" using c False le card_arena_blocks [OF ad(2)] by (intro card_subset_eq) auto
      then show ?thesis by blast
    qed
    have "heap_inv {} ?s2"
      by (rule put_inv [OF s i empty_subsetI, where B = ?B and F = "{}"])
        (use a b sl ps own_apart [OF s a] in auto)
    moreover have "allocated ?s2 = {x\<in>allocated s. fst x \<notin> ?B}"
      by (subst put_allocated [OF s i, where B = ?B]) (use own_apart [OF s a] a b sl in auto)
    moreover have "\<dots> = allocated s - {(p, block_size_of ?d)}"
      by (subst (2) keep) (use b all in auto)
    ultimately show ?thesis using f by auto
  qed
qed

lemma free_big_ok:
  assumes s: "heap_inv {} s" and a: "m_arenas s a = Some r" "a_desc r = None"
  shows "\<exists>s'. free (a + 12) s = Some s' \<and> heap_inv {} s' \<and> allocated s' = allocated s - {(a + 12, 4096 * free_cnt r - 12)}"
proof -
  let ?n = "free_cnt r"
  have ao: "0 < ?n" "a mod 4096 = 0" "a \<noteq> NULL" "extent a ?n \<subseteq> pool_used (kernel_pool (m_pages s))"
    using heap_invD(3) [OF s a(1)] a(2) by (simp_all add: arena_ok_def npages_def)
  have t: "a + 4096 \<le> 2 ^ 32" using arena_top [OF s a(1)] a(2) ao(1) by (simp add: npages_def)
  have ba: "block_to_arena (a + 12) s = Some a"
    using page_of_block [OF ao(2) t, of "a + 12"] a ao by (simp add: block_to_arena_def Let_def ARENA_SIZE_def)
  have ap: "\<forall>a' r'. a' \<noteq> a \<longrightarrow> m_arenas s a' = Some r' \<longrightarrow> extent a ?n \<inter> extent a' (npages r') = {}"
    using heap_invD(4) [OF s a(1)] a(2) by (fastforce simp: npages_def)
  obtain ps where ps: "palloc_free_multiple a ?n (m_pages s) = Some ps" "pages_ok ps"
    "pool_used (kernel_pool ps) = pool_used (kernel_pool (m_pages s)) - extent a ?n"
    using palloc_free_kernel [OF heap_invD(1) [OF s] ao(2,1,4)] by blast
  let ?s = "s\<lparr>m_pages := ps, m_arenas := (m_arenas s)(a := None)\<rparr>"
  have "free (a + 12) s = Some ?s" using ba a ps(1) by (simp add: free_def NULL_def)
  moreover have "heap_inv {} ?s" by (rule big_inv [OF s, where n = ?n]) (use a ap ps in auto)
  moreover have "allocated ?s = allocated s - {(a + 12, 4096 * ?n - 12)}"
    by (subst big_allocated [OF s ao(1)]) (use a ap in auto)
  ultimately show ?thesis by blast
qed

lemma free_ok:
  assumes s: "heap_inv {} s" and p: "(p, n) \<in> allocated s"
  shows "\<exists>s'. free p s = Some s' \<and> heap_inv {} s' \<and> allocated s' = allocated s - {(p, n)}"
proof -
  obtain a r where a: "m_arenas s a = Some r" and c: "case a_desc r of None \<Rightarrow> p = a + 12 \<and> n = 4096 * free_cnt r - 12
      | Some i \<Rightarrow> p \<in> set (arena_blocks a (m_descs s ! i)) \<and> p \<notin> set (free_list (m_descs s ! i)) \<and> n = block_size_of (m_descs s ! i)"
    using p by (auto simp: allocated_def)
  show ?thesis
  proof (cases "a_desc r")
    case None
    then show ?thesis using c free_big_ok [OF s a None] by simp
  next
    case (Some i)
    then show ?thesis using c free_small_ok [OF s a Some] by simp
  qed
qed

section \<open>The heap\<close>

lemma init_descs_16:
  "init_descs 16 = map (\<lambda>n. \<lparr>block_size_of = n, blocks_per_arena = 4084 div n, free_list = []\<rparr>) [16, 32, 64, 128, 256, 512, 1024]"
  by (simp add: init_descs.simps ARENA_SIZE_def)

lemma malloc_init_ok: "pages_ok ps \<Longrightarrow> \<exists>s. malloc_init ps = Some s \<and> m_pages s = ps \<and> heap_inv {} s \<and> allocated s = {}"
proof -
  assume "pages_ok ps"
  moreover have "\<forall>d\<in>set (init_descs 16). desc_ok d \<and> free_list d = []" by (simp add: init_descs_16 desc_ok_def)
  moreover have "length (init_descs 16) \<le> 10" by (simp add: init_descs_16)
  ultimately show ?thesis by (simp add: malloc_init_def heap_inv_def allocated_def)
qed

text \<open>C19. malloc never panics and never hands out memory in use: with a size that leaves room for
  the arena header, it either fails with a null pointer and an unchanged heap, or returns one new
  block of at least the requested size that overlaps no block in use; every other block stays in
  use, and the heap invariant (free counts equal to the free blocks of each arena, every free-list
  element inside a live arena, arenas in disjoint used pages, no arena without a block in use) holds
  again.\<close>

theorem malloc_correct:
  assumes s: "heap_inv {} s" and sz: "sz + 4107 < 2 ^ 32"
  shows "\<exists>a s'. malloc sz s = Some (a, s') \<and> heap_inv {} s' \<and>
    (if a = NULL then s' = s
     else \<exists>n. sz \<le> n \<and> allocated s' = insert (a, n) (allocated s) \<and>
       (\<forall>b m. (b, m) \<in> allocated s \<longrightarrow> {a..<a + n} \<inter> {b..<b + m} = {}))"
  using malloc_ok [OF s sz]
proof (elim disjE exE conjE)
  assume "malloc sz s = Some (NULL, s)"
  then show ?thesis using s by auto
next
  fix a n s'
  assume m: "malloc sz s = Some (a, s')" "a \<noteq> NULL" "heap_inv {} s'" "sz \<le> n" "a \<notin> fst ` allocated s"
    "allocated s' = insert (a, n) (allocated s)"
  have "{a..<a + n} \<inter> {b..<b + m} = {}" if "(b, m) \<in> allocated s" for b m
    using that m by (intro allocated_disjoint [OF m(3)]) force+
  with m show ?thesis by auto
qed

lemma malloc_correct_witness:
  "\<exists>s0 a s'. malloc_init sample_pages = Some s0 \<and> malloc 100 s0 = Some (a, s') \<and> heap_inv {} s'"
proof -
  obtain s0 where s0: "malloc_init sample_pages = Some s0" "heap_inv {} s0"
    using malloc_init_ok [OF sample_pages_ok] by blast
  from malloc_correct [OF s0(2), of 100] s0 show ?thesis by auto
qed


definition sample_heap :: malloc_state where
  "sample_heap = \<lparr>m_descs = [], m_arenas = [0xc0100000 \<mapsto> \<lparr>a_desc = None, free_cnt = 1\<rparr>],
     m_pages = sample_pages\<lparr>kernel_pool := \<lparr>used_map = \<lparr>bit_cnt = 10, bits = [1]\<rparr>, base = 0xc0100000\<rparr>\<rparr>\<rparr>"

lemma sample_heap_ok: "heap_inv {} sample_heap \<and> (0xc010000c, 4084) \<in> allocated sample_heap"
proof -
  have "0 \<in> bm.used \<lparr>bit_cnt = 10, bits = [1]\<rparr>" by (simp add: bm.used_def nth_bits_of bit_at_def)
  then have "extent 0xc0100000 1 \<subseteq> pool_used (kernel_pool (m_pages sample_heap))"
    by (force simp: pool_used_def page_span_def sample_heap_def)
  moreover have "pages_ok (m_pages sample_heap)"
    by (auto simp: sample_heap_def sample_pages_def pages_ok_def pool_ok_def bitmap_ok_def pool_range_def)
  moreover have "m_arenas sample_heap = [0xc0100000 \<mapsto> \<lparr>a_desc = None, free_cnt = 1\<rparr>]" "m_descs sample_heap = []"
    by (simp_all add: sample_heap_def)
  ultimately show ?thesis
    by (auto simp: heap_inv_def arena_ok_def npages_def allocated_def NULL_def)
qed


text \<open>
  Without that bound the size wraps: a request for almost 4 GB gets a single page, and the overflow
  test of \<open>calloc\<close> (\<open>size < a || size < b\<close>) misses products that wrap past both factors.
\<close>

lemma malloc_size_wraps:
  assumes s: "heap_inv {} s" and a: "palloc_get_multiple 0 1 (m_pages s) = Some (a, ps)" "a \<noteq> NULL"
    and d: "\<forall>d\<in>set (m_descs s). block_size_of d < 2 ^ 32 - 1"
  shows "\<exists>s'. malloc (2 ^ 32 - 1) s = Some (a + 12, s') \<and> m_arenas s' a = Some \<lparr>a_desc = None, free_cnt = 1\<rparr>"
proof -
  have "find_desc (2 ^ 32 - 1) ds k = None" if "\<forall>d\<in>set ds. block_size_of d < 2 ^ 32 - 1" for ds k
    using that by (induction ds arbitrary: k) auto
  then have "find_desc (2 ^ 32 - 1) (m_descs s) 0 = None" using d by blast
  then show ?thesis using a by (simp add: malloc_def malloc_big_def u32_def ARENA_SIZE_def)
qed

lemma calloc_overflow_missed:
  "calloc 0x10001 0x10001 s = (do { (p, s) \<leftarrow> malloc 0x20001 s;
     Some (p, if p \<noteq> NULL then s\<lparr>m_pages := fill p 0x20001 0 (m_pages s)\<rparr> else s) })"
  by (simp add: calloc_def u32_def)

end
