(* ===== verification/Block_Dev.thy ===== *)
theory Block_Dev
  imports Pintos_Prelude
begin

text \<open>
  \<open>devices/block.c\<close>: block devices of 512-byte sectors, their table and roles, and the bounds
  check of every access. A device holds what its driver stores (the driver's \<open>read\<close> and
  \<open>write\<close> operations are the only way to its sectors). The last section states what the file
  system relies on as a locale, proves there how a range of bytes across sectors is changed, and
  interprets it on the operations.
\<close>

section \<open>Devices\<close>

datatype block_type = BLOCK_KERNEL | BLOCK_FILESYS | BLOCK_SCRATCH | BLOCK_SWAP | BLOCK_RAW | BLOCK_FOREIGN

definition BLOCK_SECTOR_SIZE :: nat where "BLOCK_SECTOR_SIZE = 512"

record block =
  b_name :: string
  b_type :: block_type
  b_size :: nat
  b_data :: "nat \<Rightarrow> byte list"
  read_cnt :: nat
  write_cnt :: nat

definition check_sector :: "block \<Rightarrow> nat \<Rightarrow> unit option" where
  "check_sector b sector = ASSERT (\<not> sector \<ge> b_size b)"

definition block_read :: "block \<Rightarrow> nat \<Rightarrow> (byte list \<times> block) option" where
  "block_read b sector = do {
     _ \<leftarrow> check_sector b sector;
     Some (b_data b sector, b\<lparr>read_cnt := (read_cnt b + 1) mod 2 ^ 64\<rparr>) }"

definition block_write :: "block \<Rightarrow> nat \<Rightarrow> byte list \<Rightarrow> block option" where
  "block_write b sector buf = do {
     _ \<leftarrow> check_sector b sector;
     _ \<leftarrow> ASSERT (b_type b \<noteq> BLOCK_FOREIGN);
     Some (b\<lparr>b_data := (b_data b)(sector := buf), write_cnt := (write_cnt b + 1) mod 2 ^ 64\<rparr>) }"

definition block_device_size :: "block \<Rightarrow> nat" where
  "block_device_size b = b_size b"

definition block_name :: "block \<Rightarrow> string" where
  "block_name b = b_name b"

definition block_type_get :: "block \<Rightarrow> block_type" where
  "block_type_get b = b_type b"

fun block_type_name :: "block_type \<Rightarrow> string" where
  "block_type_name BLOCK_KERNEL = ''kernel''"
| "block_type_name BLOCK_FILESYS = ''filesys''"
| "block_type_name BLOCK_SCRATCH = ''scratch''"
| "block_type_name BLOCK_SWAP = ''swap''"
| "block_type_name BLOCK_RAW = ''raw''"
| "block_type_name BLOCK_FOREIGN = ''foreign''"

section \<open>The table of devices\<close>

text \<open>A pointer to a device is its position in \<open>all_blocks\<close>, since devices are never removed.\<close>

record block_table =
  all_blocks :: "block list"
  block_by_role :: "block_type \<Rightarrow> nat option"

definition is_role :: "block_type \<Rightarrow> bool" where
  "is_role role \<longleftrightarrow> role \<notin> {BLOCK_RAW, BLOCK_FOREIGN}"

definition block_get_role :: "block_type \<Rightarrow> block_table \<Rightarrow> nat option option" where
  "block_get_role role t = do { _ \<leftarrow> ASSERT (is_role role); Some (block_by_role t role) }"

definition block_set_role :: "block_type \<Rightarrow> nat option \<Rightarrow> block_table \<Rightarrow> block_table option" where
  "block_set_role role b t = do { _ \<leftarrow> ASSERT (is_role role); Some (t\<lparr>block_by_role := (block_by_role t)(role := b)\<rparr>) }"

definition block_first :: "block_table \<Rightarrow> nat option" where
  "block_first t = (if all_blocks t = [] then None else Some 0)"

definition block_next :: "nat \<Rightarrow> block_table \<Rightarrow> nat option" where
  "block_next i t = (if i + 1 < length (all_blocks t) then Some (i + 1) else None)"

fun by_name_loop :: "string \<Rightarrow> block list \<Rightarrow> nat \<Rightarrow> nat option" where
  "by_name_loop name [] i = None"
| "by_name_loop name (b # bs) i = (if name = b_name b then Some i else by_name_loop name bs (i + 1))"

definition block_get_by_name :: "string \<Rightarrow> block_table \<Rightarrow> nat option" where
  "block_get_by_name name t = by_name_loop name (all_blocks t) 0"

text \<open>Registration; the allocator's answer and the driver's medium are arguments.\<close>

definition block_register :: "bool \<Rightarrow> string \<Rightarrow> block_type \<Rightarrow> nat \<Rightarrow> (nat \<Rightarrow> byte list) \<Rightarrow> block_table \<Rightarrow> (nat \<times> block_table) option" where
  "block_register allocated name ty sz medium t = do {
     _ \<leftarrow> ASSERT allocated;
     let b = \<lparr>b_name = take 15 name, b_type = ty, b_size = sz, b_data = medium, read_cnt = 0, write_cnt = 0\<rparr>;
     Some (length (all_blocks t), t\<lparr>all_blocks := all_blocks t @ [b]\<rparr>) }"

lemma by_name_loop_spec:
  "by_name_loop name bs i = Some j \<Longrightarrow> i \<le> j \<and> j - i < length bs \<and> b_name (bs ! (j - i)) = name \<and>
     (\<forall>k<j - i. b_name (bs ! k) \<noteq> name)"
proof (induction bs arbitrary: i)
  case (Cons b bs)
  show ?case
  proof (cases "name = b_name b")
    case False
    with Cons.IH [of "i + 1"] Cons.prems have r: "i + 1 \<le> j" "j - (i + 1) < length bs"
      "b_name (bs ! (j - (i + 1))) = name" "\<forall>k<j - (i + 1). b_name (bs ! k) \<noteq> name" by auto
    then have "j - i = Suc (j - (i + 1))" by simp
    then show ?thesis using r False by (auto simp: nth_Cons split: nat.split)
  qed (use Cons.prems in auto)
qed simp

lemma by_name_loop_None: "by_name_loop name bs i = None \<longleftrightarrow> name \<notin> b_name ` set bs"
  by (induction bs arbitrary: i) auto

section \<open>Bytes of a range of sectors\<close>

text \<open>Replacing the bytes of a sector from an offset on.\<close>

definition patch :: "byte list \<Rightarrow> nat \<Rightarrow> byte list \<Rightarrow> byte list" where
  "patch sec ofs bs = take ofs sec @ bs @ drop (ofs + length bs) sec"

lemma length_patch [simp]: "ofs + length bs \<le> length sec \<Longrightarrow> length (patch sec ofs bs) = length sec"
  by (simp add: patch_def)

lemma nth_patch:
  "ofs + length bs \<le> length sec \<Longrightarrow> i < length sec \<Longrightarrow>
    patch sec ofs bs ! i = (if ofs \<le> i \<and> i < ofs + length bs then bs ! (i - ofs) else sec ! i)"
  by (auto simp: patch_def nth_append)

locale sector_store =
  fixes rd :: "'s \<Rightarrow> nat \<Rightarrow> (byte list \<times> 's) option"
    and wr :: "'s \<Rightarrow> nat \<Rightarrow> byte list \<Rightarrow> 's option"
    and content :: "'s \<Rightarrow> nat \<Rightarrow> byte list"
    and sectors :: "'s \<Rightarrow> nat"
    and ok :: "'s \<Rightarrow> bool"
  assumes rd_ok: "ok s \<Longrightarrow> i < sectors s \<Longrightarrow> \<exists>s'. rd s i = Some (content s i, s') \<and> ok s' \<and>
      content s' = content s \<and> sectors s' = sectors s"
    and wr_ok: "ok s \<Longrightarrow> i < sectors s \<Longrightarrow> length bs = 512 \<Longrightarrow> \<exists>s'. wr s i bs = Some s' \<and> ok s' \<and>
      content s' = (content s)(i := bs) \<and> sectors s' = sectors s"
    and full: "ok s \<Longrightarrow> i < sectors s \<Longrightarrow> length (content s i) = 512"
begin

definition byte_at :: "'s \<Rightarrow> nat \<Rightarrow> byte" where
  "byte_at s k = content s (k div 512) ! (k mod 512)"

lemma read_slice:
  assumes s: "ok s" and i: "i < sectors s" and "ofs + n \<le> 512"
  shows "\<exists>s'. rd s i = Some (content s i, s') \<and> ok s' \<and> content s' = content s \<and> sectors s' = sectors s \<and>
    take n (drop ofs (content s i)) = map (byte_at s) [512 * i + ofs..<512 * i + ofs + n]"
proof -
  have "take n (drop ofs (content s i)) = map (byte_at s) [512 * i + ofs..<512 * i + ofs + n]"
  proof (rule nth_equalityI)
    fix j assume "j < length (take n (drop ofs (content s i)))"
    then have j: "j < n" "ofs + j < 512" using full [OF s i] assms(3) by simp_all
    then have "(512 * i + (ofs + j)) div 512 = i" "(512 * i + (ofs + j)) mod 512 = ofs + j" by simp_all
    then show "take n (drop ofs (content s i)) ! j = map (byte_at s) [512 * i + ofs..<512 * i + ofs + n] ! j"
      using j full [OF s i] by (simp add: byte_at_def add.assoc)
  qed (use full [OF s i] assms(3) in simp)
  with rd_ok [OF s i] show ?thesis by blast
qed

lemma write_slice:
  assumes s: "ok s" and i: "i < sectors s" and n: "ofs + length bs \<le> 512"
  shows "\<exists>s'. wr s i (patch (content s i) ofs bs) = Some s' \<and> ok s' \<and> sectors s' = sectors s \<and>
    byte_at s' = (\<lambda>k. if 512 * i + ofs \<le> k \<and> k < 512 * i + ofs + length bs then bs ! (k - (512 * i + ofs)) else byte_at s k)"
proof -
  have l: "length (content s i) = 512" by (rule full [OF s i])
  obtain s' where s': "wr s i (patch (content s i) ofs bs) = Some s'" "ok s'" "sectors s' = sectors s"
    "content s' = (content s)(i := patch (content s i) ofs bs)" using wr_ok [OF s i, of "patch (content s i) ofs bs"] n l by auto
  have "byte_at s' k = (if 512 * i + ofs \<le> k \<and> k < 512 * i + ofs + length bs then bs ! (k - (512 * i + ofs)) else byte_at s k)" for k
  proof (cases "k div 512 = i")
    case True
    define m where "m = k mod 512"
    have k: "k = 512 * i + m" "m < 512" unfolding m_def True [symmetric] by simp_all
    then have "patch (content s i) ofs bs ! m = (if ofs \<le> m \<and> m < ofs + length bs then bs ! (m - ofs) else content s i ! m)"
      using n l by (intro nth_patch) simp_all
    then show ?thesis using True k by (simp add: byte_at_def s'(4))
  next
    case False
    then have "\<not> (512 * i + ofs \<le> k \<and> k < 512 * i + ofs + length bs)"
      using n by (auto simp: div_nat_eqI)
    then show ?thesis using False by (auto simp: byte_at_def s'(4))
  qed
  with s' show ?thesis by auto
qed

end

definition dev_ok :: "block \<Rightarrow> bool" where
  "dev_ok b \<longleftrightarrow> b_type b \<noteq> BLOCK_FOREIGN \<and> (\<forall>i<b_size b. length (b_data b i) = 512)"

interpretation dev: sector_store block_read block_write b_data b_size dev_ok
  by unfold_locales (auto simp: block_read_def block_write_def check_sector_def dev_ok_def)

end
