(* ===== verification/Inode_IO.thy ===== *)
theory Inode_IO
  imports Block_Dev Bitmap
begin

text \<open>
  The state of the file system (\<open>filesys/inode.c\<close>, \<open>file.c\<close>, \<open>directory.c\<close>,
  \<open>free-map.c\<close>) and the two transfer loops of \<open>inode.c\<close>, \<open>inode_read_at\<close> and
  \<open>inode_write_at\<close>. Heap objects are entries of maps from addresses; \<open>mem\<close> holds the
  answers of the coming \<open>malloc\<close> and \<open>calloc\<close> calls (memory is available once it is
  empty), and a new object gets an unused address. Offsets are 32-bit \<open>off_t\<close>.
\<close>

section \<open>State\<close>

record inode_disk =
  start :: nat
  i_length :: int
  i_magic :: nat

record inode =
  i_sector :: nat
  open_cnt :: int
  removed :: bool
  deny_write_cnt :: int
  i_data :: inode_disk

record open_file =
  f_inode :: nat
  f_pos :: int
  f_deny_write :: bool

record dir =
  d_inode :: nat
  d_pos :: int

record fs =
  fs_device :: block
  free_map :: bitmap
  free_map_file :: nat
  open_inodes :: "nat list"
  inodes :: "nat \<Rightarrow> inode option"
  files :: "nat \<Rightarrow> open_file option"
  dirs :: "nat \<Rightarrow> dir option"
  mem :: "bool list"
  next_addr :: nat

text \<open>A call of the allocator.\<close>

definition try_alloc :: "fs \<Rightarrow> bool \<times> fs" where
  "try_alloc s = (case mem s of [] \<Rightarrow> (True, s) | b # bs \<Rightarrow> (b, s\<lparr>mem := bs\<rparr>))"

definition fresh_addr :: "fs \<Rightarrow> nat \<times> fs" where
  "fresh_addr s = (next_addr s, s\<lparr>next_addr := next_addr s + 1\<rparr>)"

section \<open>Sectors of an inode\<close>

definition INODE_MAGIC :: nat where "INODE_MAGIC = 0x494e4f44"

definition bytes_to_sectors :: "int \<Rightarrow> nat" where
  "bytes_to_sectors n = nat (i32 (n + 512 - 1) sdiv 512 mod 2 ^ 32)"

definition byte_to_sector :: "inode_disk \<Rightarrow> int \<Rightarrow> nat" where
  "byte_to_sector d pos =
     (if pos < i_length d then nat ((int (start d) + pos sdiv 512) mod 2 ^ 32) else 2 ^ 32 - 1)"

text \<open>The number of bytes the next round transfers.\<close>

definition chunk_of :: "inode_disk \<Rightarrow> int \<Rightarrow> int \<Rightarrow> int" where
  "chunk_of d sz offset = min sz (min (i32 (i_length d - offset)) (512 - offset smod 512))"

section \<open>Reading\<close>

text \<open>The loop returns the bytes it stored in the buffer, in order.\<close>

function read_loop :: "inode_disk \<Rightarrow> bool \<Rightarrow> int \<Rightarrow> int \<Rightarrow> fs \<Rightarrow> (byte list \<times> fs) option" where
  "read_loop d bounce sz offset s =
     (if sz > 0 then
        let sector_idx = byte_to_sector d offset;
            sector_ofs = offset smod 512;
            chunk = chunk_of d sz offset
        in if chunk \<le> 0 then Some ([], s)
           else if sector_ofs = 0 \<and> chunk = 512 then do {
             (bs, dv) \<leftarrow> block_read (fs_device s) sector_idx;
             (rest, s) \<leftarrow> read_loop d bounce (sz - chunk) (i32 (offset + chunk)) (s\<lparr>fs_device := dv\<rparr>);
             Some (bs @ rest, s) }
           else let (ok, s) = (if bounce then (True, s) else try_alloc s) in
             if \<not> ok then Some ([], s)
             else do {
               (bs, dv) \<leftarrow> block_read (fs_device s) sector_idx;
               _ \<leftarrow> ASSERT (sector_ofs \<ge> 0);
               (rest, s) \<leftarrow> read_loop d True (sz - chunk) (i32 (offset + chunk)) (s\<lparr>fs_device := dv\<rparr>);
               Some (take (nat chunk) (drop (nat sector_ofs) bs) @ rest, s) }
      else Some ([], s))"
  by pat_completeness auto
termination by (relation "measure (\<lambda>(d, bounce, sz, offset, s). nat sz)") auto

declare read_loop.simps [simp del]

definition inode_read_at :: "nat \<Rightarrow> int \<Rightarrow> int \<Rightarrow> fs \<Rightarrow> (byte list \<times> fs) option" where
  "inode_read_at ip sz offset s = do {
     i \<leftarrow> inodes s ip;
     read_loop (i_data i) False sz offset s }"

section \<open>Writing\<close>

text \<open>The loop takes what is left of the buffer and returns the number of bytes written.\<close>

function write_loop :: "inode_disk \<Rightarrow> bool \<Rightarrow> byte list \<Rightarrow> int \<Rightarrow> int \<Rightarrow> fs \<Rightarrow> (int \<times> fs) option" where
  "write_loop d bounce buf sz offset s =
     (if sz > 0 then
        let sector_idx = byte_to_sector d offset;
            sector_ofs = offset smod 512;
            sector_left = 512 - sector_ofs;
            chunk = chunk_of d sz offset
        in if chunk \<le> 0 then Some (0, s)
           else if sector_ofs = 0 \<and> chunk = 512 then do {
             dv \<leftarrow> block_write (fs_device s) sector_idx (take 512 buf);
             (n, s) \<leftarrow> write_loop d bounce (drop 512 buf) (sz - chunk) (i32 (offset + chunk)) (s\<lparr>fs_device := dv\<rparr>);
             Some (chunk + n, s) }
           else let (ok, s) = (if bounce then (True, s) else try_alloc s) in
             if \<not> ok then Some (0, s)
             else do {
               (sec, dv) \<leftarrow> (if sector_ofs > 0 \<or> chunk < sector_left then block_read (fs_device s) sector_idx
                            else Some (replicate 512 0, fs_device s));
               _ \<leftarrow> ASSERT (sector_ofs \<ge> 0);
               dv \<leftarrow> block_write dv sector_idx (patch sec (nat sector_ofs) (take (nat chunk) buf));
               (n, s) \<leftarrow> write_loop d True (drop (nat chunk) buf) (sz - chunk) (i32 (offset + chunk)) (s\<lparr>fs_device := dv\<rparr>);
               Some (chunk + n, s) }
      else Some (0, s))"
  by pat_completeness auto
termination by (relation "measure (\<lambda>(d, bounce, buf, sz, offset, s). nat sz)") auto

declare write_loop.simps [simp del]

definition inode_write_at :: "nat \<Rightarrow> byte list \<Rightarrow> int \<Rightarrow> int \<Rightarrow> fs \<Rightarrow> (int \<times> fs) option" where
  "inode_write_at ip buf sz offset s = do {
     i \<leftarrow> inodes s ip;
     if deny_write_cnt i \<noteq> 0 then Some (0, s) else write_loop (i_data i) False buf sz offset s }"

definition inode_length :: "nat \<Rightarrow> fs \<Rightarrow> int option" where
  "inode_length ip s = do { i \<leftarrow> inodes s ip; Some (i_length (i_data i)) }"

section \<open>The bytes of a file\<close>

definition ino_ok :: "inode_disk \<Rightarrow> block \<Rightarrow> bool" where
  "ino_ok d dv \<longleftrightarrow> 0 \<le> i_length d \<and> i_length d < 2 ^ 31 \<and> b_size dv < 2 ^ 32 \<and>
     start d + nat ((i_length d + 511) div 512) \<le> b_size dv"

definition ibytes :: "inode_disk \<Rightarrow> block \<Rightarrow> byte list" where
  "ibytes d dv = map (dev.byte_at dv) [512 * start d..<512 * start d + nat (i_length d)]"

lemma length_ibytes [simp]: "length (ibytes d dv) = nat (i_length d)"
  by (simp add: ibytes_def)

text \<open>What transfers leave alone: everything but the device's contents and counters and the allocator's answers.\<close>

definition same_but_dev :: "fs \<Rightarrow> fs \<Rightarrow> bool" where
  "same_but_dev s s' \<longleftrightarrow> s' = s\<lparr>fs_device := fs_device s', mem := mem s'\<rparr> \<and> (mem s = [] \<longrightarrow> mem s' = []) \<and>
     dev_ok (fs_device s') \<and> b_size (fs_device s') = b_size (fs_device s)"

lemma same_but_dev_trans: "same_but_dev s s' \<Longrightarrow> same_but_dev s' s'' \<Longrightarrow> same_but_dev s s''"
  by (cases s; cases s'; cases s'') (simp add: same_but_dev_def)

lemma same_but_dev_refl: "dev_ok (fs_device s) \<Longrightarrow> same_but_dev s s"
  by (cases s) (simp add: same_but_dev_def)

lemma same_but_devD:
  assumes "same_but_dev s s'"
  shows "dev_ok (fs_device s')" "b_size (fs_device s') = b_size (fs_device s)" "mem s = [] \<Longrightarrow> mem s' = []"
    "free_map s' = free_map s" "free_map_file s' = free_map_file s" "open_inodes s' = open_inodes s"
    "inodes s' = inodes s" "files s' = files s" "dirs s' = dirs s" "next_addr s' = next_addr s"
  using assms by (cases s; cases s'; simp add: same_but_dev_def)+

lemma smod_int_pos: "0 \<le> (a::int) \<Longrightarrow> 0 < b \<Longrightarrow> a smod b = a mod b"
  by (cases "a = 0") (simp_all add: signed_modulo_int_def)

lemma try_alloc_cases:
  "dev_ok (fs_device s) \<Longrightarrow> \<exists>ok s'. try_alloc s = (ok, s') \<and> fs_device s' = fs_device s \<and> same_but_dev s s' \<and> (mem s = [] \<longrightarrow> ok)"
  by (cases s; cases "mem s") (auto simp: try_alloc_def same_but_dev_def)

text \<open>One round: the sector, the offset in it and the number of bytes, as natural numbers.\<close>

lemma round_facts:
  assumes d: "ino_ok d dv" and o: "0 \<le> offset" "offset < 2 ^ 31" and sz: "0 < sz"
  defines "c \<equiv> chunk_of d sz offset"
  shows "c = min sz (min (i_length d - offset) (512 - offset mod 512))"
    and "c \<le> 0 \<longleftrightarrow> i_length d \<le> offset"
    and "0 < c \<Longrightarrow> byte_to_sector d offset = start d + nat (offset div 512) \<and> byte_to_sector d offset < b_size dv \<and>
      nat (offset mod 512) + nat c \<le> 512 \<and> i32 (offset + c) = offset + c \<and> offset + c \<le> i_length d"
proof -
  have l: "i32 (i_length d - offset) = i_length d - offset"
    using d o by (intro i32_id) (auto simp: in_i32_def ino_ok_def)
  show c: "c = min sz (min (i_length d - offset) (512 - offset mod 512))"
    using o by (simp add: c_def chunk_of_def l smod_int_pos)
  have m: "offset mod 512 < 512" by simp
  show "c \<le> 0 \<longleftrightarrow> i_length d \<le> offset" unfolding c using sz m by linarith
  assume "0 < c"
  then have lt: "offset < i_length d" unfolding c by linarith
  have dl: "offset div 512 < (i_length d + 511) div 512" using lt by linarith
  have le: "int (start d) + (i_length d + 511) div 512 \<le> int (b_size dv)" "b_size dv < 2 ^ 32" using d by (auto simp: ino_ok_def)
  have "0 \<le> offset div 512" using o by simp
  with dl le have r: "0 \<le> int (start d) + offset div 512" "int (start d) + offset div 512 < int (b_size dv)" by linarith+
  have "int (b_size dv) < 2 ^ 32" using le(2) by (simp flip: of_nat_less_iff)
  then have "(int (start d) + offset div 512) mod 2 ^ 32 = int (start d) + offset div 512" using r by (intro mod_pos_pos_trivial) linarith+
  moreover have "nat (int (start d) + offset div 512) = start d + nat (offset div 512)" using \<open>0 \<le> offset div 512\<close> by linarith
  ultimately have "byte_to_sector d offset = start d + nat (offset div 512)"
    using lt o by (simp add: byte_to_sector_def sdiv_int_pos)
  moreover have "start d + nat (offset div 512) < b_size dv" using r(2) \<open>0 \<le> offset div 512\<close> by linarith
  moreover have "nat (offset mod 512) + nat c \<le> 512"
  proof -
    have "nat q + nat c \<le> 512" if "0 \<le> q" "c \<le> 512 - q" for q using that \<open>0 < c\<close> by linarith
    moreover have "c \<le> 512 - offset mod 512" unfolding c by simp
    ultimately show ?thesis using o by simp
  qed
  moreover have "offset + c \<le> i_length d" unfolding c by linarith
  moreover have "i32 (offset + c) = offset + c"
    using \<open>offset + c \<le> i_length d\<close> o \<open>0 < c\<close> d by (intro i32_id) (auto simp: in_i32_def ino_ok_def)
  ultimately show "byte_to_sector d offset = start d + nat (offset div 512) \<and> byte_to_sector d offset < b_size dv \<and>
      nat (offset mod 512) + nat c \<le> 512 \<and> i32 (offset + c) = offset + c \<and> offset + c \<le> i_length d" by simp
qed

lemma ibytes_slice:
  assumes "0 \<le> offset" and "offset + c \<le> i_length d" and "0 < c"
  shows "map (dev.byte_at dv) [512 * (start d + nat (offset div 512)) + nat (offset mod 512)..<
      512 * (start d + nat (offset div 512)) + nat (offset mod 512) + nat c] = take (nat c) (drop (nat offset) (ibytes d dv))"
proof -
  have e: "nat (offset mod 512) + 512 * nat (offset div 512) = nat offset"
    using assms(1) by (simp add: nat_div_distrib nat_mod_distrib)
  then have eq: "512 * (start d + nat (offset div 512)) + nat (offset mod 512) = 512 * start d + nat offset" by simp
  show ?thesis unfolding eq using assms by (simp add: ibytes_def take_map drop_map)
qed

lemma read_loop_ok:
  assumes "dev_ok (fs_device s)" and "ino_ok d (fs_device s)" and "0 \<le> offset" "offset < 2 ^ 31"
  shows "\<exists>n s'. read_loop d bounce sz offset s = Some (take n (drop (nat offset) (ibytes d (fs_device s))), s') \<and>
    n \<le> nat sz \<and> (mem s = [] \<longrightarrow> n = nat sz) \<and> same_but_dev s s' \<and> b_data (fs_device s') = b_data (fs_device s)"
  using assms
proof (induction "nat sz" arbitrary: bounce sz offset s rule: less_induct)
  case less
  note s = less.prems(1) and d = less.prems(2) and o = less.prems(3,4)
  let ?L = "ibytes d (fs_device s)" and ?c = "chunk_of d sz offset"
  show ?case
  proof (cases "sz > 0 \<and> ?c > 0")
    case False
    then have e: "read_loop d bounce sz offset s = Some ([], s)"
      by (subst read_loop.simps) (auto simp: Let_def)
    show ?thesis
    proof (cases "sz > 0")
      case True
      then have "i_length d \<le> offset" using round_facts(2) [OF d o True] False by simp
      then show ?thesis using e same_but_dev_refl [OF s] by (intro exI [of _ "nat sz"] exI [of _ s]) simp
    next
      case False
      then show ?thesis using e same_but_dev_refl [OF s] by (intro exI [of _ 0] exI [of _ s]) simp
    qed
  next
    case True
    note rf = round_facts [OF d o conjunct1 [OF True]]
    let ?i = "byte_to_sector d offset" and ?k = "nat (offset mod 512)"
    from rf(3) True have i: "?i = start d + nat (offset div 512)" "?i < b_size (fs_device s)" "?k + nat ?c \<le> 512"
      "i32 (offset + ?c) = offset + ?c" "offset + ?c \<le> i_length d" by simp_all
    obtain dv where dv: "block_read (fs_device s) ?i = Some (b_data (fs_device s) ?i, dv)" "dev_ok dv"
      "b_data dv = b_data (fs_device s)" "b_size dv = b_size (fs_device s)"
      and sl: "take (nat ?c) (drop ?k (b_data (fs_device s) ?i)) = take (nat ?c) (drop (nat offset) ?L)"
      using dev.read_slice [OF s i(2,3)] ibytes_slice [OF o(1) i(5), of "fs_device s"] True i(1) by auto
    have cz: "?c \<le> sz" unfolding rf(1) by simp
    have rest: "\<exists>n s'. read_loop d b (sz - ?c) (i32 (offset + ?c)) (s1\<lparr>fs_device := dv\<rparr>) =
        Some (take n (drop (nat (offset + ?c)) ?L), s') \<and> n \<le> nat (sz - ?c) \<and> (mem s = [] \<longrightarrow> n = nat (sz - ?c)) \<and>
        same_but_dev s s' \<and> b_data (fs_device s') = b_data (fs_device s)"
      if s1: "same_but_dev s s1" for b s1
    proof -
      have q: "same_but_dev s (s1\<lparr>fs_device := dv\<rparr>)" using s1 dv by (cases s; cases s1) (simp add: same_but_dev_def)
      have dd: "ino_ok d dv" "ibytes d dv = ?L"
        using d dv by (simp_all add: ino_ok_def ibytes_def dev.byte_at_def)
      have "nat (sz - ?c) < nat sz" using True by simp
      from less.hyps [OF this, of "s1\<lparr>fs_device := dv\<rparr>" "offset + ?c" b] dv dd i(4,5) o True d
      obtain n s' where r: "read_loop d b (sz - ?c) (offset + ?c) (s1\<lparr>fs_device := dv\<rparr>) =
        Some (take n (drop (nat (offset + ?c)) ?L), s')" "n \<le> nat (sz - ?c)" "mem s1 = [] \<longrightarrow> n = nat (sz - ?c)"
        "same_but_dev (s1\<lparr>fs_device := dv\<rparr>) s'" "b_data (fs_device s') = b_data dv"
        by (auto simp: ino_ok_def)
      then show ?thesis using i(4) same_but_dev_trans [OF q r(4)] same_but_devD(3) [OF s1] dv(3) by auto
    qed
    have join: "take (nat ?c) (drop (nat offset) ?L) @ take n (drop (nat (offset + ?c)) ?L) =
        take (nat ?c + n) (drop (nat offset) ?L)" for n
    proof -
      have "nat (offset + ?c) = nat ?c + nat offset" using o True by linarith
      then show ?thesis by (simp add: take_add)
    qed
    have fin: "n \<le> nat (sz - ?c) \<Longrightarrow> nat ?c + n \<le> nat sz" "n = nat (sz - ?c) \<Longrightarrow> nat ?c + n = nat sz" for n
      using cz True by linarith+
    show ?thesis
    proof (cases "offset smod 512 = 0 \<and> ?c = 512")
      case full: True
      then have "b_data (fs_device s) ?i = take (nat ?c) (drop (nat offset) ?L)"
        using sl dev.full [OF s i(2)] o by (simp add: smod_int_pos)
      moreover obtain n s' where r: "read_loop d bounce (sz - ?c) (i32 (offset + ?c)) (s\<lparr>fs_device := dv\<rparr>) =
        Some (take n (drop (nat (offset + ?c)) ?L), s')" "n \<le> nat (sz - ?c)" "mem s = [] \<longrightarrow> n = nat (sz - ?c)"
        "same_but_dev s s'" "b_data (fs_device s') = b_data (fs_device s)"
        using rest [OF same_but_dev_refl [OF s]] by blast
      ultimately have "read_loop d bounce sz offset s = Some (take (nat ?c + n) (drop (nat offset) ?L), s')"
        using True full dv(1) join [of n] by (subst read_loop.simps) (simp add: Let_def)
      then show ?thesis using r fin by blast
    next
      case part: False
      obtain ok s1 where a: "(if bounce then (True, s) else try_alloc s) = (ok, s1)" "fs_device s1 = fs_device s"
        "same_but_dev s s1" "mem s = [] \<longrightarrow> ok"
        using try_alloc_cases [OF s] same_but_dev_refl [OF s] by (cases bounce) auto
      show ?thesis
      proof (cases ok)
        case False
        then have "read_loop d bounce sz offset s = Some ([], s1)"
          using True part a by (subst read_loop.simps) (auto simp: Let_def)
        then show ?thesis using a False by (intro exI [of _ 0] exI [of _ s1]) auto
      next
        case ok: True
        obtain n s' where r: "read_loop d True (sz - ?c) (i32 (offset + ?c)) (s1\<lparr>fs_device := dv\<rparr>) =
          Some (take n (drop (nat (offset + ?c)) ?L), s')" "n \<le> nat (sz - ?c)" "mem s = [] \<longrightarrow> n = nat (sz - ?c)"
          "same_but_dev s s'" "b_data (fs_device s') = b_data (fs_device s)"
          using rest [OF a(3)] by blast
        have "read_loop d bounce sz offset s = Some (take (nat ?c + n) (drop (nat offset) ?L), s')"
          using True part a ok dv(1) sl join [of n] r(1) o
          by (subst read_loop.simps) (auto simp: Let_def smod_int_pos)
        then show ?thesis using r fin by blast
      qed
    qed
  qed
qed

lemma two_ranges:
  fixes a c k n :: nat
  assumes "c \<le> length xs"
  shows "(if a + c \<le> k \<and> k < a + c + n then drop c xs ! (k - (a + c)) else if a \<le> k \<and> k < a + c then xs ! (k - a) else x) =
    (if a \<le> k \<and> k < a + (c + n) then xs ! (k - a) else x)"
proof -
  have "drop c xs ! (k - (a + c)) = xs ! (k - a)" if "a + c \<le> k" using assms that by simp
  then show ?thesis by auto
qed

lemma min_step:
  fixes c sz ofs l :: int
  assumes "0 < c" and "c \<le> sz" and "ofs + c \<le> l" and "0 \<le> ofs"
  shows "nat c + min (nat (sz - c)) (nat l - nat (ofs + c)) = min (nat sz) (nat l - nat ofs)"
proof -
  have "nat (sz - c) = nat sz - nat c" "nat (ofs + c) = nat ofs + nat c" "nat c \<le> nat sz" "nat ofs + nat c \<le> nat l"
    using assms by linarith+
  moreover have "x + min (a - x) (b - (y + x)) = min a (b - y)" if "x \<le> a" "y + x \<le> b" for a b x y :: nat
    using that by (auto simp: le_iff_add)
  ultimately show ?thesis by simp
qed

text \<open>Writing replaces a range of the inode's bytes.\<close>

lemma write_loop_ok:
  assumes "dev_ok (fs_device s)" and "ino_ok d (fs_device s)" and "0 \<le> offset" "offset < 2 ^ 31" and "nat sz \<le> length buf"
  shows "\<exists>n s'. write_loop d bounce buf sz offset s = Some (int n, s') \<and> n \<le> nat sz \<and>
    n \<le> nat (i_length d) - nat offset \<and> (mem s = [] \<longrightarrow> n = min (nat sz) (nat (i_length d) - nat offset)) \<and> same_but_dev s s' \<and>
    dev.byte_at (fs_device s') = (\<lambda>k. if 512 * start d + nat offset \<le> k \<and> k < 512 * start d + nat offset + n
      then buf ! (k - (512 * start d + nat offset)) else dev.byte_at (fs_device s) k)"
  using assms
proof (induction "nat sz" arbitrary: bounce buf sz offset s rule: less_induct)
  case less
  note s = less.prems(1) and d = less.prems(2) and o = less.prems(3,4) and buf = less.prems(5)
  let ?c = "chunk_of d sz offset"
  show ?case
  proof (cases "sz > 0 \<and> ?c > 0")
    case False
    then have e: "write_loop d bounce buf sz offset s = Some (0, s)"
      by (subst write_loop.simps) (auto simp: Let_def)
    moreover have "sz \<le> 0 \<or> i_length d \<le> offset" using round_facts(2) [OF d o, of sz] False by (cases "sz > 0") auto
    then have "min (nat sz) (nat (i_length d) - nat offset) = 0" using o by (auto simp: nat_le_eq_zle)
    moreover have "dev.byte_at (fs_device s) = (\<lambda>k. if 512 * start d + nat offset \<le> k \<and> k < 512 * start d + nat offset + 0
      then buf ! (k - (512 * start d + nat offset)) else dev.byte_at (fs_device s) k)" by (auto simp: fun_eq_iff)
    ultimately show ?thesis using same_but_dev_refl [OF s] by (intro exI [of _ 0] exI [of _ s]) auto
  next
    case True
    note rf = round_facts [OF d o conjunct1 [OF True]]
    let ?i = "byte_to_sector d offset" and ?k = "nat (offset mod 512)" and ?b = "take (nat ?c) buf"
    from rf(3) True have i: "?i = start d + nat (offset div 512)" "?i < b_size (fs_device s)" "?k + nat ?c \<le> 512"
      "i32 (offset + ?c) = offset + ?c" "offset + ?c \<le> i_length d" by simp_all
    have cz: "?c \<le> sz" unfolding rf(1) by simp
    then have lb: "length ?b = nat ?c" using buf by simp
    have pos: "512 * ?i + ?k = 512 * start d + nat offset"
    proof -
      have "?k + 512 * nat (offset div 512) = nat offset" using o(1) by (simp add: nat_div_distrib nat_mod_distrib)
      then show ?thesis using i(1) by simp
    qed
    let ?sec = "patch (b_data (fs_device s) ?i) ?k ?b"
    have sec: "length (b_data (fs_device s) ?i) = 512" by (rule dev.full [OF s i(2)])
    have step: "\<exists>dv'. block_write dv ?i ?sec = Some dv' \<and> dev_ok dv' \<and> b_size dv' = b_size (fs_device s) \<and>
        dev.byte_at dv' = (\<lambda>k. if 512 * start d + nat offset \<le> k \<and> k < 512 * start d + nat offset + nat ?c
          then buf ! (k - (512 * start d + nat offset)) else dev.byte_at (fs_device s) k)"
      if "dev_ok dv" "b_data dv = b_data (fs_device s)" "b_size dv = b_size (fs_device s)" for dv
    proof -
      have "dev.byte_at dv = dev.byte_at (fs_device s)" using that(2) by (simp add: dev.byte_at_def fun_eq_iff)
      with dev.write_slice [of dv ?i ?k ?b] that i(2,3) lb show ?thesis
        by (auto simp: pos fun_eq_iff less_diff_conv2)
    qed
    have rest: "\<exists>n s'. write_loop d b (drop (nat ?c) buf) (sz - ?c) (i32 (offset + ?c)) (s1\<lparr>fs_device := dv'\<rparr>) = Some (int n, s') \<and>
        nat ?c + n \<le> nat sz \<and> nat ?c + n \<le> nat (i_length d) - nat offset \<and>
        (mem s = [] \<longrightarrow> nat ?c + n = min (nat sz) (nat (i_length d) - nat offset)) \<and> same_but_dev s s' \<and>
        dev.byte_at (fs_device s') = (\<lambda>k. if 512 * start d + nat offset \<le> k \<and> k < 512 * start d + nat offset + (nat ?c + n)
          then buf ! (k - (512 * start d + nat offset)) else dev.byte_at (fs_device s) k)"
      if s1: "same_but_dev s s1" and dv: "dev_ok dv'" "b_size dv' = b_size (fs_device s)"
        "dev.byte_at dv' = (\<lambda>k. if 512 * start d + nat offset \<le> k \<and> k < 512 * start d + nat offset + nat ?c
          then buf ! (k - (512 * start d + nat offset)) else dev.byte_at (fs_device s) k)" for b s1 dv'
    proof -
      have q: "same_but_dev s (s1\<lparr>fs_device := dv'\<rparr>)" using s1 dv by (cases s; cases s1) (simp add: same_but_dev_def)
      have dd: "ino_ok d dv'" using d dv by (simp add: ino_ok_def)
      have "nat (sz - ?c) < nat sz" using True by simp
      moreover let ?s2 = "s1\<lparr>fs_device := dv'\<rparr>"
      have "dev_ok (fs_device ?s2)" "ino_ok d (fs_device ?s2)" "0 \<le> offset + ?c" "offset + ?c < 2 ^ 31"
        "nat (sz - ?c) \<le> length (drop (nat ?c) buf)"
        using dv(1) dd o True i(5) d buf cz by (simp_all add: ino_ok_def nat_diff_distrib)
      ultimately obtain n s' where r: "write_loop d b (drop (nat ?c) buf) (sz - ?c) (offset + ?c) ?s2 = Some (int n, s')"
        "n \<le> nat (sz - ?c)" "n \<le> nat (i_length d) - nat (offset + ?c)"
        "mem ?s2 = [] \<longrightarrow> n = min (nat (sz - ?c)) (nat (i_length d) - nat (offset + ?c))"
        "same_but_dev ?s2 s'"
        "dev.byte_at (fs_device s') = (\<lambda>k. if 512 * start d + nat (offset + ?c) \<le> k \<and> k < 512 * start d + nat (offset + ?c) + n
          then drop (nat ?c) buf ! (k - (512 * start d + nat (offset + ?c))) else dev.byte_at (fs_device ?s2) k)"
        using less.hyps by blast
      have d2: "fs_device ?s2 = dv'" by simp
      have no: "nat (offset + ?c) = nat offset + nat ?c" using o True by linarith
      have "dev.byte_at (fs_device s') = (\<lambda>k. if 512 * start d + nat offset \<le> k \<and> k < 512 * start d + nat offset + (nat ?c + n)
          then buf ! (k - (512 * start d + nat offset)) else dev.byte_at (fs_device s) k)"
      proof (rule ext)
        fix k
        have lc: "nat ?c \<le> length buf" using buf cz by linarith
        have eq: "512 * start d + nat (offset + ?c) = 512 * start d + nat offset + nat ?c" using no by simp
        show "dev.byte_at (fs_device s') k = (if 512 * start d + nat offset \<le> k \<and>
          k < 512 * start d + nat offset + (nat ?c + n)
          then buf ! (k - (512 * start d + nat offset)) else dev.byte_at (fs_device s) k)"
          unfolding r(6) d2 dv(3) eq by (rule two_ranges [OF lc])
      qed
      moreover have "nat ?c + n \<le> nat sz" "nat ?c + n \<le> nat (i_length d) - nat offset"
        using r(2,3) cz no i(5) True o by linarith+
      moreover have "mem s = [] \<longrightarrow> nat ?c + n = min (nat sz) (nat (i_length d) - nat offset)"
      proof
        assume "mem s = []"
        then have "n = min (nat (sz - ?c)) (nat (i_length d) - nat (offset + ?c))" using r(4) same_but_devD(3) [OF s1] by simp
        then show "nat ?c + n = min (nat sz) (nat (i_length d) - nat offset)"
          using min_step [of ?c sz offset "i_length d"] cz i(5) True o by simp
      qed
      ultimately show ?thesis using r(1) i(4) same_but_dev_trans [OF q r(5)] by auto
    qed
    show ?thesis
    proof (cases "offset smod 512 = 0 \<and> ?c = 512")
      case full: True
      then have "take 512 buf = ?sec" using lb sec o by (simp add: patch_def smod_int_pos)
      moreover obtain dv' where dv: "block_write (fs_device s) ?i ?sec = Some dv'" "dev_ok dv'" "b_size dv' = b_size (fs_device s)"
        "dev.byte_at dv' = (\<lambda>k. if 512 * start d + nat offset \<le> k \<and> k < 512 * start d + nat offset + nat ?c
          then buf ! (k - (512 * start d + nat offset)) else dev.byte_at (fs_device s) k)"
        using step [OF s refl refl] by blast
      moreover obtain n s' where r: "write_loop d bounce (drop (nat ?c) buf) (sz - ?c) (i32 (offset + ?c)) (s\<lparr>fs_device := dv'\<rparr>) = Some (int n, s')"
        "nat ?c + n \<le> nat sz" "nat ?c + n \<le> nat (i_length d) - nat offset"
        "mem s = [] \<longrightarrow> nat ?c + n = min (nat sz) (nat (i_length d) - nat offset)" "same_but_dev s s'"
        "dev.byte_at (fs_device s') = (\<lambda>k. if 512 * start d + nat offset \<le> k \<and> k < 512 * start d + nat offset + (nat ?c + n)
          then buf ! (k - (512 * start d + nat offset)) else dev.byte_at (fs_device s) k)"
        using rest [OF same_but_dev_refl [OF s] dv(2-4)] by blast
      ultimately have "write_loop d bounce buf sz offset s = Some (int (nat ?c + n), s')"
        using True full by (subst write_loop.simps) (simp add: Let_def)
      then show ?thesis using r(2-6) by blast
    next
      case part: False
      obtain ok s1 where a: "(if bounce then (True, s) else try_alloc s) = (ok, s1)" "fs_device s1 = fs_device s"
        "same_but_dev s s1" "mem s = [] \<longrightarrow> ok"
        using try_alloc_cases [OF s] same_but_dev_refl [OF s] by (cases bounce) auto
      show ?thesis
      proof (cases ok)
        case False
        then have "write_loop d bounce buf sz offset s = Some (0, s1)"
          using True part a by (subst write_loop.simps) (auto simp: Let_def)
        then show ?thesis using a False by (intro exI [of _ 0] exI [of _ s1]) (auto simp: fun_eq_iff)
      next
        case ok: True
        obtain dv where dv: "block_read (fs_device s) ?i = Some (b_data (fs_device s) ?i, dv)" "dev_ok dv"
          "b_data dv = b_data (fs_device s)" "b_size dv = b_size (fs_device s)" using dev.rd_ok [OF s i(2)] by blast
        define sec0 where "sec0 = (if offset smod 512 > 0 \<or> ?c < 512 - offset smod 512 then b_data (fs_device s) ?i else replicate 512 (0::byte))"
        define dv0 where "dv0 = (if offset smod 512 > 0 \<or> ?c < 512 - offset smod 512 then dv else fs_device s)"
        have "patch sec0 ?k ?b = ?sec"
          using lb sec o i(3) by (auto simp: sec0_def patch_def smod_int_pos)
        moreover have "dev_ok dv0" "b_data dv0 = b_data (fs_device s)" "b_size dv0 = b_size (fs_device s)"
          using s dv by (simp_all add: dv0_def)
        ultimately obtain dv' where w: "block_write dv0 ?i (patch sec0 ?k ?b) = Some dv'" "dev_ok dv'" "b_size dv' = b_size (fs_device s)"
          "dev.byte_at dv' = (\<lambda>k. if 512 * start d + nat offset \<le> k \<and> k < 512 * start d + nat offset + nat ?c
            then buf ! (k - (512 * start d + nat offset)) else dev.byte_at (fs_device s) k)"
          using step [of dv0] by auto
        have rd: "(if offset smod 512 > 0 \<or> ?c < 512 - offset smod 512 then block_read (fs_device s1) ?i
            else Some (replicate 512 0, fs_device s1)) = Some (sec0, dv0)"
          using dv(1) a(2) by (simp add: sec0_def dv0_def)
        obtain n s' where r: "write_loop d True (drop (nat ?c) buf) (sz - ?c) (i32 (offset + ?c)) (s1\<lparr>fs_device := dv'\<rparr>) = Some (int n, s')"
          "nat ?c + n \<le> nat sz" "nat ?c + n \<le> nat (i_length d) - nat offset"
          "mem s = [] \<longrightarrow> nat ?c + n = min (nat sz) (nat (i_length d) - nat offset)" "same_but_dev s s'"
          "dev.byte_at (fs_device s') = (\<lambda>k. if 512 * start d + nat offset \<le> k \<and> k < 512 * start d + nat offset + (nat ?c + n)
            then buf ! (k - (512 * start d + nat offset)) else dev.byte_at (fs_device s) k)"
          using rest [OF a(3) w(2-4)] by blast
        have k: "nat (offset smod 512) = ?k" "offset smod 512 \<ge> 0" using o by (simp_all add: smod_int_pos)
        have "write_loop d bounce buf sz offset s = Some (?c + int n, s')"
          using True part a(1) ok rd w(1) r(1) k by (subst write_loop.simps) (simp only: Let_def, auto)
        also have "?c + int n = int (nat ?c + n)" using True by simp
        finally show ?thesis using r(2-6) by blast
      qed
    qed
  qed
qed

section \<open>The two operations\<close>

lemma inode_read_ok:
  assumes "inodes s ip = Some i" and "dev_ok (fs_device s)" and "ino_ok (i_data i) (fs_device s)" and "0 \<le> offset" "offset < 2 ^ 31"
  shows "\<exists>n s'. inode_read_at ip sz offset s = Some (take n (drop (nat offset) (ibytes (i_data i) (fs_device s))), s') \<and>
    n \<le> nat sz \<and> (mem s = [] \<longrightarrow> n = nat sz) \<and> same_but_dev s s' \<and> b_data (fs_device s') = b_data (fs_device s)"
  using read_loop_ok [OF assms(2-5), of False sz] assms(1) by (simp add: inode_read_at_def)

lemma ibytes_write:
  assumes "n \<le> nat (i_length d) - ofs" and "n \<le> length buf"
    and b: "dev.byte_at dv' = (\<lambda>k. if 512 * start d + ofs \<le> k \<and> k < 512 * start d + ofs + n
      then buf ! (k - (512 * start d + ofs)) else dev.byte_at dv k)"
  shows "ibytes d dv' = patch (ibytes d dv) ofs (take n buf)"
proof (cases "ofs \<le> nat (i_length d)")
  case True
  have lp: "ofs + length (take n buf) \<le> length (ibytes d dv)" using assms(1,2) True by simp
  show ?thesis
  proof (rule nth_equalityI)
    fix j assume "j < length (ibytes d dv')"
    then have j: "j < nat (i_length d)" by simp
    have "ibytes d dv' ! j = dev.byte_at dv' (512 * start d + j)" using j by (simp add: ibytes_def)
    also have "\<dots> = patch (ibytes d dv) ofs (take n buf) ! j"
      using j lp assms(2) by (subst nth_patch) (auto simp: b ibytes_def)
    finally show "ibytes d dv' ! j = patch (ibytes d dv) ofs (take n buf) ! j" .
  qed (use lp in simp)
next
  case False
  then have n: "n = 0" using assms(1) by simp
  then have "dev.byte_at dv' = dev.byte_at dv" using b by (auto simp: fun_eq_iff)
  then show ?thesis using n by (simp add: ibytes_def patch_def)
qed

lemma inode_write_ok:
  assumes i: "inodes s ip = Some i" "deny_write_cnt i = 0" and s: "dev_ok (fs_device s)" and d: "ino_ok (i_data i) (fs_device s)"
    and o: "0 \<le> offset" "offset < 2 ^ 31" and buf: "nat sz \<le> length buf"
  shows "\<exists>n s'. inode_write_at ip buf sz offset s = Some (int n, s') \<and> n \<le> nat sz \<and>
    n \<le> nat (i_length (i_data i)) - nat offset \<and>
    (mem s = [] \<longrightarrow> n = min (nat sz) (nat (i_length (i_data i)) - nat offset)) \<and> same_but_dev s s' \<and>
    ibytes (i_data i) (fs_device s') = patch (ibytes (i_data i) (fs_device s)) (nat offset) (take n buf) \<and>
    (\<forall>k. k \<notin> {512 * start (i_data i)..<512 * start (i_data i) + nat (i_length (i_data i))} \<longrightarrow>
       dev.byte_at (fs_device s') k = dev.byte_at (fs_device s) k)"
proof -
  let ?d = "i_data i"
  obtain n s' where w: "write_loop ?d False buf sz offset s = Some (int n, s')" "n \<le> nat sz"
    "n \<le> nat (i_length ?d) - nat offset" "mem s = [] \<longrightarrow> n = min (nat sz) (nat (i_length ?d) - nat offset)" "same_but_dev s s'"
    and b: "dev.byte_at (fs_device s') = (\<lambda>k. if 512 * start ?d + nat offset \<le> k \<and> k < 512 * start ?d + nat offset + n
      then buf ! (k - (512 * start ?d + nat offset)) else dev.byte_at (fs_device s) k)"
    using write_loop_ok [OF s d o buf, of False] by blast
  have "ibytes ?d (fs_device s') = patch (ibytes ?d (fs_device s)) (nat offset) (take n buf)"
    by (rule ibytes_write [OF w(3) _ b]) (use w(2) buf in simp)
  moreover have "dev.byte_at (fs_device s') k = dev.byte_at (fs_device s) k"
    if "k \<notin> {512 * start ?d..<512 * start ?d + nat (i_length ?d)}" for k
    using that w(3) unfolding b by auto
  ultimately show ?thesis using w i by (simp add: inode_write_at_def)
qed

text \<open>A write changes no other inode's bytes.\<close>

lemma ibytes_other:
  assumes "\<forall>k. k \<notin> {512 * start d..<512 * start d + nat (i_length d)} \<longrightarrow> dev.byte_at dv' k = dev.byte_at dv k"
    and "{512 * start d..<512 * start d + nat (i_length d)} \<inter> {512 * start d'..<512 * start d' + nat (i_length d')} = {}"
  shows "ibytes d' dv' = ibytes d' dv"
  using assms unfolding ibytes_def by (intro map_cong refl) auto

end
