(* ===== verification/File_Ops.thy ===== *)
theory File_Ops
  imports Inode_IO
begin

text \<open>
  The rest of \<open>filesys/inode.c\<close>, all of \<open>filesys/file.c\<close> and \<open>filesys/free-map.c\<close>, and the
  file functions of \<open>lib/kernel/bitmap.c\<close>. A null pointer is 0.
\<close>

section \<open>Little-endian words\<close>

definition le32 :: "nat \<Rightarrow> byte list" where
  "le32 n = map (\<lambda>k. word_of_nat (n div 256 ^ k)) [0..<4]"

definition of_le32 :: "byte list \<Rightarrow> nat" where
  "of_le32 bs = (\<Sum>k<4. unat (bs ! k) * 256 ^ k)"

section \<open>Positioned file access\<close>

definition file_read_at :: "nat \<Rightarrow> int \<Rightarrow> int \<Rightarrow> fs \<Rightarrow> (byte list \<times> fs) option" where
  "file_read_at fp sz ofs s = do { f \<leftarrow> files s fp; inode_read_at (f_inode f) sz ofs s }"

definition file_write_at :: "nat \<Rightarrow> byte list \<Rightarrow> int \<Rightarrow> int \<Rightarrow> fs \<Rightarrow> (int \<times> fs) option" where
  "file_write_at fp buf sz ofs s = do { f \<leftarrow> files s fp; inode_write_at (f_inode f) buf sz ofs s }"

definition bitmap_file_size :: "bitmap \<Rightarrow> nat" where
  "bitmap_file_size b = byte_cnt (bit_cnt b)"

definition elems_bytes :: "32 word list \<Rightarrow> byte list" where
  "elems_bytes ws = concat (map (\<lambda>w. le32 (unat w)) ws)"

definition bytes_elems :: "byte list \<Rightarrow> 32 word list" where
  "bytes_elems bs = map (\<lambda>k. word_of_nat (of_le32 (drop (4 * k) bs))) [0..<length bs div 4]"

definition bitmap_read :: "bitmap \<Rightarrow> nat \<Rightarrow> fs \<Rightarrow> (bool \<times> bitmap \<times> fs) option" where
  "bitmap_read b fp s =
     (if bit_cnt b > 0 then do {
        let sz = i32 (int (byte_cnt (bit_cnt b)));
        (bs, s) \<leftarrow> file_read_at fp sz 0 s;
        let b = b\<lparr>bits := bytes_elems (bs @ drop (length bs) (elems_bytes (bits b)))\<rparr>;
        b \<leftarrow> upd_elem (elem_cnt (bit_cnt b) - 1) (\<lambda>w. w AND last_mask b) b;
        Some (int (length bs) = sz, b, s) }
      else Some (True, b, s))"

definition bitmap_write :: "bitmap \<Rightarrow> nat \<Rightarrow> fs \<Rightarrow> (bool \<times> fs) option" where
  "bitmap_write b fp s = do {
     let sz = i32 (int (byte_cnt (bit_cnt b)));
     (n, s) \<leftarrow> file_write_at fp (elems_bytes (bits b)) sz 0 s;
     Some (n = sz, s) }"

section \<open>The free map\<close>

definition FREE_MAP_SECTOR :: nat where "FREE_MAP_SECTOR = 0"
definition ROOT_DIR_SECTOR :: nat where "ROOT_DIR_SECTOR = 1"

text \<open>The memory that \<open>bitmap_create\<close> obtains is an argument, as whatever it held is kept past the last bit.\<close>

definition free_map_init :: "32 word list \<Rightarrow> fs \<Rightarrow> fs option" where
  "free_map_init junk s = do {
     let (hdr, s) = try_alloc s;
     let (blk, s) = (if hdr then try_alloc s else (False, s));
     m \<leftarrow> bitmap_create (block_device_size (fs_device s)) hdr (if blk then Some junk else None);
     fm \<leftarrow> m;
     fm \<leftarrow> bitmap_mark fm FREE_MAP_SECTOR;
     fm \<leftarrow> bitmap_mark fm ROOT_DIR_SECTOR;
     Some (s\<lparr>free_map := fm\<rparr>) }"

definition free_map_allocate :: "nat \<Rightarrow> fs \<Rightarrow> (nat option \<times> fs) option" where
  "free_map_allocate cnt s = do {
     (sector, fm) \<leftarrow> bitmap_scan_and_flip (free_map s) 0 cnt False;
     let s = s\<lparr>free_map := fm\<rparr>;
     if sector \<noteq> BITMAP_ERROR \<and> free_map_file s \<noteq> 0 then do {
       (ok, s) \<leftarrow> bitmap_write (free_map s) (free_map_file s) s;
       if ok then Some (Some sector, s)
       else do {
         fm \<leftarrow> bitmap_set_multiple (free_map s) sector cnt False;
         Some (None, s\<lparr>free_map := fm\<rparr>) } }
     else Some (if sector \<noteq> BITMAP_ERROR then Some sector else None, s) }"

definition free_map_release :: "nat \<Rightarrow> nat \<Rightarrow> fs \<Rightarrow> fs option" where
  "free_map_release sector cnt s = do {
     all \<leftarrow> bitmap_all (free_map s) sector cnt;
     _ \<leftarrow> ASSERT all;
     fm \<leftarrow> bitmap_set_multiple (free_map s) sector cnt False;
     (_, s) \<leftarrow> bitmap_write fm (free_map_file s) (s\<lparr>free_map := fm\<rparr>);
     Some s }"

section \<open>Inodes\<close>

definition inode_init :: "fs \<Rightarrow> fs" where
  "inode_init s = s\<lparr>open_inodes := []\<rparr>"

definition inode_sector_bytes :: "inode_disk \<Rightarrow> byte list" where
  "inode_sector_bytes d = le32 (start d) @ le32 (nat (i_length d mod 2 ^ 32)) @ le32 (i_magic d) @ replicate 500 0"

definition read_inode_disk :: "byte list \<Rightarrow> inode_disk" where
  "read_inode_disk bs = \<lparr>start = of_le32 bs, i_length = i32 (int (of_le32 (drop 4 bs))), i_magic = of_le32 (drop 8 bs)\<rparr>"

fun zero_loop :: "nat \<Rightarrow> nat \<Rightarrow> block \<Rightarrow> block option" where
  "zero_loop 0 sec dv = Some dv"
| "zero_loop (Suc n) sec dv = do { dv \<leftarrow> block_write dv (sec mod 2 ^ 32) (replicate 512 0); zero_loop n (sec + 1) dv }"

definition inode_create :: "nat \<Rightarrow> int \<Rightarrow> fs \<Rightarrow> (bool \<times> fs) option" where
  "inode_create sector len s = do {
     _ \<leftarrow> ASSERT (len \<ge> 0);
     let (ok, s) = try_alloc s;
     if \<not> ok then Some (False, s)
     else do {
       let sectors = bytes_to_sectors len;
       (st, s) \<leftarrow> free_map_allocate sectors s;
       case st of None \<Rightarrow> Some (False, s)
       | Some st \<Rightarrow> do {
           dv \<leftarrow> block_write (fs_device s) sector (inode_sector_bytes \<lparr>start = st, i_length = len, i_magic = INODE_MAGIC\<rparr>);
           dv \<leftarrow> zero_loop sectors st dv;
           Some (True, s\<lparr>fs_device := dv\<rparr>) } } }"

definition inode_reopen :: "nat \<Rightarrow> fs \<Rightarrow> (nat \<times> fs) option" where
  "inode_reopen ip s =
     (if ip \<noteq> 0 then do {
        i \<leftarrow> inodes s ip;
        Some (ip, s\<lparr>inodes := (inodes s)(ip \<mapsto> i\<lparr>open_cnt := i32 (open_cnt i + 1)\<rparr>)\<rparr>) }
      else Some (ip, s))"

fun find_open :: "nat \<Rightarrow> nat list \<Rightarrow> fs \<Rightarrow> nat option option" where
  "find_open sector [] s = Some None"
| "find_open sector (ip # ips) s = do {
     i \<leftarrow> inodes s ip;
     if i_sector i = sector then Some (Some ip) else find_open sector ips s }"

definition inode_open :: "nat \<Rightarrow> fs \<Rightarrow> (nat \<times> fs) option" where
  "inode_open sector s = do {
     r \<leftarrow> find_open sector (open_inodes s) s;
     case r of Some ip \<Rightarrow> inode_reopen ip s
     | None \<Rightarrow> (let (ok, s) = try_alloc s in
         if \<not> ok then Some (0, s)
         else let (ip, s) = fresh_addr s; s = s\<lparr>open_inodes := ip # open_inodes s\<rparr> in do {
           (bs, dv) \<leftarrow> block_read (fs_device s) sector;
           Some (ip, s\<lparr>fs_device := dv, inodes := (inodes s)(ip \<mapsto>
             \<lparr>i_sector = sector, open_cnt = 1, removed = False, deny_write_cnt = 0, i_data = read_inode_disk bs\<rparr>)\<rparr>) }) }"

definition inode_get_inumber :: "nat \<Rightarrow> fs \<Rightarrow> nat option" where
  "inode_get_inumber ip s = do { i \<leftarrow> inodes s ip; Some (i_sector i) }"

definition inode_close :: "nat \<Rightarrow> fs \<Rightarrow> fs option" where
  "inode_close ip s =
     (if ip = 0 then Some s
      else do {
        i \<leftarrow> inodes s ip;
        let i = i\<lparr>open_cnt := i32 (open_cnt i - 1)\<rparr>;
        let s = s\<lparr>inodes := (inodes s)(ip \<mapsto> i)\<rparr>;
        if open_cnt i = 0 then do {
          let s = s\<lparr>open_inodes := remove1 ip (open_inodes s)\<rparr>;
          s \<leftarrow> (if removed i then do {
                 s \<leftarrow> free_map_release (i_sector i) 1 s;
                 free_map_release (start (i_data i)) (bytes_to_sectors (i_length (i_data i))) s }
               else Some s);
          Some (s\<lparr>inodes := (inodes s)(ip := None)\<rparr>) }
        else Some s })"

definition inode_remove :: "nat \<Rightarrow> fs \<Rightarrow> fs option" where
  "inode_remove ip s = do {
     _ \<leftarrow> ASSERT (ip \<noteq> 0);
     i \<leftarrow> inodes s ip;
     Some (s\<lparr>inodes := (inodes s)(ip \<mapsto> i\<lparr>removed := True\<rparr>)\<rparr>) }"

definition inode_deny_write :: "nat \<Rightarrow> fs \<Rightarrow> fs option" where
  "inode_deny_write ip s = do {
     i \<leftarrow> inodes s ip;
     let i = i\<lparr>deny_write_cnt := i32 (deny_write_cnt i + 1)\<rparr>;
     _ \<leftarrow> ASSERT (deny_write_cnt i \<le> open_cnt i);
     Some (s\<lparr>inodes := (inodes s)(ip \<mapsto> i)\<rparr>) }"

definition inode_allow_write :: "nat \<Rightarrow> fs \<Rightarrow> fs option" where
  "inode_allow_write ip s = do {
     i \<leftarrow> inodes s ip;
     _ \<leftarrow> ASSERT (deny_write_cnt i > 0);
     _ \<leftarrow> ASSERT (deny_write_cnt i \<le> open_cnt i);
     Some (s\<lparr>inodes := (inodes s)(ip \<mapsto> i\<lparr>deny_write_cnt := deny_write_cnt i - 1\<rparr>)\<rparr>) }"

section \<open>Files\<close>

definition file_open :: "nat \<Rightarrow> fs \<Rightarrow> (nat \<times> fs) option" where
  "file_open ip s =
     (let (ok, s) = try_alloc s in
      if ip \<noteq> 0 \<and> ok then
        let (fp, s) = fresh_addr s
        in Some (fp, s\<lparr>files := (files s)(fp \<mapsto> \<lparr>f_inode = ip, f_pos = 0, f_deny_write = False\<rparr>)\<rparr>)
      else do { s \<leftarrow> inode_close ip s; Some (0, s) })"

definition file_reopen :: "nat \<Rightarrow> fs \<Rightarrow> (nat \<times> fs) option" where
  "file_reopen fp s = do { f \<leftarrow> files s fp; (ip, s) \<leftarrow> inode_reopen (f_inode f) s; file_open ip s }"

definition file_deny_write :: "nat \<Rightarrow> fs \<Rightarrow> fs option" where
  "file_deny_write fp s = do {
     _ \<leftarrow> ASSERT (fp \<noteq> 0);
     f \<leftarrow> files s fp;
     if \<not> f_deny_write f then inode_deny_write (f_inode f) (s\<lparr>files := (files s)(fp \<mapsto> f\<lparr>f_deny_write := True\<rparr>)\<rparr>)
     else Some s }"

definition file_allow_write :: "nat \<Rightarrow> fs \<Rightarrow> fs option" where
  "file_allow_write fp s = do {
     _ \<leftarrow> ASSERT (fp \<noteq> 0);
     f \<leftarrow> files s fp;
     if f_deny_write f then inode_allow_write (f_inode f) (s\<lparr>files := (files s)(fp \<mapsto> f\<lparr>f_deny_write := False\<rparr>)\<rparr>)
     else Some s }"

definition file_close :: "nat \<Rightarrow> fs \<Rightarrow> fs option" where
  "file_close fp s =
     (if fp \<noteq> 0 then do {
        s \<leftarrow> file_allow_write fp s;
        f \<leftarrow> files s fp;
        s \<leftarrow> inode_close (f_inode f) s;
        Some (s\<lparr>files := (files s)(fp := None)\<rparr>) }
      else Some s)"

definition file_get_inode :: "nat \<Rightarrow> fs \<Rightarrow> nat option" where
  "file_get_inode fp s = do { f \<leftarrow> files s fp; Some (f_inode f) }"

definition file_read :: "nat \<Rightarrow> int \<Rightarrow> fs \<Rightarrow> (byte list \<times> fs) option" where
  "file_read fp sz s = do {
     f \<leftarrow> files s fp;
     (bs, s) \<leftarrow> inode_read_at (f_inode f) sz (f_pos f) s;
     Some (bs, s\<lparr>files := (files s)(fp \<mapsto> f\<lparr>f_pos := i32 (f_pos f + int (length bs))\<rparr>)\<rparr>) }"

definition file_write :: "nat \<Rightarrow> byte list \<Rightarrow> int \<Rightarrow> fs \<Rightarrow> (int \<times> fs) option" where
  "file_write fp buf sz s = do {
     f \<leftarrow> files s fp;
     (n, s) \<leftarrow> inode_write_at (f_inode f) buf sz (f_pos f) s;
     Some (n, s\<lparr>files := (files s)(fp \<mapsto> f\<lparr>f_pos := i32 (f_pos f + n)\<rparr>)\<rparr>) }"

definition file_length :: "nat \<Rightarrow> fs \<Rightarrow> int option" where
  "file_length fp s = do { _ \<leftarrow> ASSERT (fp \<noteq> 0); f \<leftarrow> files s fp; inode_length (f_inode f) s }"

definition file_seek :: "nat \<Rightarrow> int \<Rightarrow> fs \<Rightarrow> fs option" where
  "file_seek fp new_pos s = do {
     _ \<leftarrow> ASSERT (fp \<noteq> 0);
     _ \<leftarrow> ASSERT (new_pos \<ge> 0);
     f \<leftarrow> files s fp;
     Some (s\<lparr>files := (files s)(fp \<mapsto> f\<lparr>f_pos := new_pos\<rparr>)\<rparr>) }"

definition file_tell :: "nat \<Rightarrow> fs \<Rightarrow> int option" where
  "file_tell fp s = do { _ \<leftarrow> ASSERT (fp \<noteq> 0); f \<leftarrow> files s fp; Some (f_pos f) }"

section \<open>The free map file\<close>

definition free_map_open :: "fs \<Rightarrow> fs option" where
  "free_map_open s = do {
     (ip, s) \<leftarrow> inode_open FREE_MAP_SECTOR s;
     (fp, s) \<leftarrow> file_open ip s;
     let s = s\<lparr>free_map_file := fp\<rparr>;
     _ \<leftarrow> ASSERT (fp \<noteq> 0);
     (ok, fm, s) \<leftarrow> bitmap_read (free_map s) fp s;
     _ \<leftarrow> ASSERT ok;
     Some (s\<lparr>free_map := fm\<rparr>) }"

definition free_map_close :: "fs \<Rightarrow> fs option" where
  "free_map_close s = file_close (free_map_file s) s"

definition free_map_create :: "fs \<Rightarrow> fs option" where
  "free_map_create s = do {
     (ok, s) \<leftarrow> inode_create FREE_MAP_SECTOR (i32 (int (bitmap_file_size (free_map s)))) s;
     _ \<leftarrow> ASSERT ok;
     (ip, s) \<leftarrow> inode_open FREE_MAP_SECTOR s;
     (fp, s) \<leftarrow> file_open ip s;
     let s = s\<lparr>free_map_file := fp\<rparr>;
     _ \<leftarrow> ASSERT (fp \<noteq> 0);
     (ok, s) \<leftarrow> bitmap_write (free_map s) fp s;
     _ \<leftarrow> ASSERT ok;
     Some s }"

end
