(* ===== verification/Directory.thy ===== *)
theory Directory
  imports File_Ops
begin

text \<open>
  \<open>filesys/directory.c\<close> and \<open>filesys/filesys.c\<close>: the root directory, an array of 20-byte
  entries in a file, and the operations on named files. A name is the bytes of a C string without
  its terminator. An entry is kept as its 20 bytes (\<open>struct dir_entry\<close>: sector, 15 bytes of
  name, in-use flag), because code copies such buffers whole.
\<close>

section \<open>Directory entries\<close>

definition NAME_MAX :: nat where "NAME_MAX = 14"
definition ENTRY_SIZE :: nat where "ENTRY_SIZE = 20"

definition de_sector :: "byte list \<Rightarrow> nat" where "de_sector e = of_le32 e"
definition de_name :: "byte list \<Rightarrow> byte list" where "de_name e = take (NAME_MAX + 1) (drop 4 e)"
definition de_in_use :: "byte list \<Rightarrow> bool" where "de_in_use e \<longleftrightarrow> e ! 19 \<noteq> 0"

text \<open>\<open>strcmp (name, e.name)\<close> is 0; \<open>strlcpy (e.name, name, 15)\<close>; the whole assignment of an entry.\<close>

definition name_is :: "byte list \<Rightarrow> byte list \<Rightarrow> bool" where
  "name_is name e \<longleftrightarrow> take (length name + 1) (drop 4 e) = name @ [0]"

definition strlcpy_name :: "byte list \<Rightarrow> byte list \<Rightarrow> byte list" where
  "strlcpy_name name old = take NAME_MAX name @ [0] @ drop (min (length name) NAME_MAX + 1) old"

definition fill_entry :: "byte list \<Rightarrow> byte list \<Rightarrow> nat \<Rightarrow> byte list" where
  "fill_entry e name sector = le32 sector @ strlcpy_name name (de_name e) @ [1]"

section \<open>Opening and closing\<close>

definition dir_create :: "nat \<Rightarrow> nat \<Rightarrow> fs \<Rightarrow> (bool \<times> fs) option" where
  "dir_create sector entry_cnt s = inode_create sector (i32 (int (entry_cnt * ENTRY_SIZE))) s"

definition dir_open :: "nat \<Rightarrow> fs \<Rightarrow> (nat \<times> fs) option" where
  "dir_open ip s =
     (let (ok, s) = try_alloc s in
      if ip \<noteq> 0 \<and> ok then
        let (dp, s) = fresh_addr s in Some (dp, s\<lparr>dirs := (dirs s)(dp \<mapsto> \<lparr>d_inode = ip, d_pos = 0\<rparr>)\<rparr>)
      else do { s \<leftarrow> inode_close ip s; Some (0, s) })"

definition dir_open_root :: "fs \<Rightarrow> (nat \<times> fs) option" where
  "dir_open_root s = do { (ip, s) \<leftarrow> inode_open ROOT_DIR_SECTOR s; dir_open ip s }"

definition dir_reopen :: "nat \<Rightarrow> fs \<Rightarrow> (nat \<times> fs) option" where
  "dir_reopen dp s = do { d \<leftarrow> dirs s dp; (ip, s) \<leftarrow> inode_reopen (d_inode d) s; dir_open ip s }"

definition dir_close :: "nat \<Rightarrow> fs \<Rightarrow> fs option" where
  "dir_close dp s =
     (if dp \<noteq> 0 then do {
        d \<leftarrow> dirs s dp;
        s \<leftarrow> inode_close (d_inode d) s;
        Some (s\<lparr>dirs := (dirs s)(dp := None)\<rparr>) }
      else Some s)"

definition dir_get_inode :: "nat \<Rightarrow> fs \<Rightarrow> nat option" where
  "dir_get_inode dp s = do { d \<leftarrow> dirs s dp; Some (d_inode d) }"

section \<open>Searching\<close>

partial_function (option) lookup_loop :: "nat \<Rightarrow> byte list \<Rightarrow> nat \<Rightarrow> fs \<Rightarrow> ((byte list \<times> nat) option \<times> fs) option" where
  "lookup_loop ip name ofs s = do {
     (e, s) \<leftarrow> inode_read_at ip (int ENTRY_SIZE) (i32 (int ofs)) s;
     if length e = ENTRY_SIZE then
       if de_in_use e \<and> name_is name e then Some (Some (e, ofs), s)
       else lookup_loop ip name ((ofs + ENTRY_SIZE) mod 2 ^ 32) s
     else Some (None, s) }"

definition lookup :: "nat \<Rightarrow> byte list \<Rightarrow> fs \<Rightarrow> ((byte list \<times> nat) option \<times> fs) option" where
  "lookup dp name s = do {
     _ \<leftarrow> ASSERT (dp \<noteq> 0);
     d \<leftarrow> dirs s dp;
     lookup_loop (d_inode d) name 0 s }"

definition dir_lookup :: "nat \<Rightarrow> byte list \<Rightarrow> fs \<Rightarrow> (nat \<times> fs) option" where
  "dir_lookup dp name s = do {
     (r, s) \<leftarrow> lookup dp name s;
     case r of Some (e, _) \<Rightarrow> inode_open (de_sector e) s | None \<Rightarrow> Some (0, s) }"

section \<open>Adding and removing\<close>

text \<open>The buffer \<open>e\<close> keeps what earlier reads left in it.\<close>

partial_function (option) slot_loop :: "nat \<Rightarrow> byte list \<Rightarrow> int \<Rightarrow> fs \<Rightarrow> (byte list \<times> int \<times> fs) option" where
  "slot_loop ip e ofs s = do {
     (bs, s) \<leftarrow> inode_read_at ip (int ENTRY_SIZE) ofs s;
     let e = bs @ drop (length bs) e;
     if length bs = ENTRY_SIZE then
       if \<not> de_in_use e then Some (e, ofs, s) else slot_loop ip e (i32 (ofs + int ENTRY_SIZE)) s
     else Some (e, ofs, s) }"

text \<open>\<open>e0\<close> is the uninitialised local variable.\<close>

definition dir_add :: "byte list \<Rightarrow> nat \<Rightarrow> byte list \<Rightarrow> nat \<Rightarrow> fs \<Rightarrow> (bool \<times> fs) option" where
  "dir_add e0 dp name inode_sector s = do {
     _ \<leftarrow> ASSERT (dp \<noteq> 0);
     if name = [] \<or> length name > NAME_MAX then Some (False, s)
     else do {
       (r, s) \<leftarrow> lookup dp name s;
       if r \<noteq> None then Some (False, s)
       else do {
         d \<leftarrow> dirs s dp;
         (e, ofs, s) \<leftarrow> slot_loop (d_inode d) e0 0 s;
         (n, s) \<leftarrow> inode_write_at (d_inode d) (fill_entry e name inode_sector) (int ENTRY_SIZE) ofs s;
         Some (n = int ENTRY_SIZE, s) } } }"

definition dir_remove :: "nat \<Rightarrow> byte list \<Rightarrow> fs \<Rightarrow> (bool \<times> fs) option" where
  "dir_remove dp name s = do {
     (r, s) \<leftarrow> lookup dp name s;
     case r of None \<Rightarrow> Some (False, s)
     | Some (e, ofs) \<Rightarrow> do {
         (ip, s) \<leftarrow> inode_open (de_sector e) s;
         if ip = 0 then Some (False, s)
         else do {
           d \<leftarrow> dirs s dp;
           (n, s) \<leftarrow> inode_write_at (d_inode d) (e[19 := 0]) (int ENTRY_SIZE) (i32 (int ofs)) s;
           (ok, s) \<leftarrow> (if n \<noteq> int ENTRY_SIZE then Some (False, s)
             else do { s \<leftarrow> inode_remove ip s; Some (True, s) });
           s \<leftarrow> inode_close ip s;
           Some (ok, s) } } }"

partial_function (option) readdir_loop :: "nat \<Rightarrow> fs \<Rightarrow> (byte list option \<times> fs) option" where
  "readdir_loop dp s = do {
     d \<leftarrow> dirs s dp;
     (e, s) \<leftarrow> inode_read_at (d_inode d) (int ENTRY_SIZE) (d_pos d) s;
     if length e = ENTRY_SIZE then do {
       let s = s\<lparr>dirs := (dirs s)(dp \<mapsto> d\<lparr>d_pos := i32 (d_pos d + int ENTRY_SIZE)\<rparr>)\<rparr>;
       if de_in_use e then Some (Some (takeWhile (\<lambda>b. b \<noteq> 0) (take NAME_MAX (de_name e))), s)
       else readdir_loop dp s }
     else Some (None, s) }"

definition dir_readdir :: "nat \<Rightarrow> fs \<Rightarrow> (byte list option \<times> fs) option" where
  "dir_readdir dp s = readdir_loop dp s"

section \<open>The file system\<close>

definition do_format :: "fs \<Rightarrow> fs option" where
  "do_format s = do {
     s \<leftarrow> free_map_create s;
     (ok, s) \<leftarrow> dir_create ROOT_DIR_SECTOR 16 s;
     _ \<leftarrow> ASSERT ok;
     free_map_close s }"

definition filesys_init :: "bool \<Rightarrow> 32 word list \<Rightarrow> block_table \<Rightarrow> fs \<Rightarrow> fs option" where
  "filesys_init format junk t s = do {
     b \<leftarrow> block_get_role BLOCK_FILESYS t;
     i \<leftarrow> b;
     s \<leftarrow> free_map_init junk (inode_init (s\<lparr>fs_device := all_blocks t ! i\<rparr>));
     s \<leftarrow> (if format then do_format s else Some s);
     free_map_open s }"

definition filesys_done :: "fs \<Rightarrow> fs option" where
  "filesys_done s = free_map_close s"

definition filesys_create :: "byte list \<Rightarrow> byte list \<Rightarrow> int \<Rightarrow> fs \<Rightarrow> (bool \<times> fs) option" where
  "filesys_create e0 name initial_size s = do {
     (dp, s) \<leftarrow> dir_open_root s;
     (success, inode_sector, s) \<leftarrow>
       (if dp = 0 then Some (False, 0, s)
        else do {
          (a, s) \<leftarrow> free_map_allocate 1 s;
          case a of None \<Rightarrow> Some (False, 0, s)
          | Some sec \<Rightarrow> do {
              (ok, s) \<leftarrow> inode_create sec initial_size s;
              if \<not> ok then Some (False, sec, s)
              else do { (ok, s) \<leftarrow> dir_add e0 dp name sec s; Some (ok, sec, s) } } });
     s \<leftarrow> (if \<not> success \<and> inode_sector \<noteq> 0 then free_map_release inode_sector 1 s else Some s);
     s \<leftarrow> dir_close dp s;
     Some (success, s) }"

definition filesys_open :: "byte list \<Rightarrow> fs \<Rightarrow> (nat \<times> fs) option" where
  "filesys_open name s = do {
     (dp, s) \<leftarrow> dir_open_root s;
     (ip, s) \<leftarrow> (if dp \<noteq> 0 then dir_lookup dp name s else Some (0, s));
     s \<leftarrow> dir_close dp s;
     file_open ip s }"

definition filesys_remove :: "byte list \<Rightarrow> fs \<Rightarrow> (bool \<times> fs) option" where
  "filesys_remove name s = do {
     (dp, s) \<leftarrow> dir_open_root s;
     (success, s) \<leftarrow> (if dp \<noteq> 0 then dir_remove dp name s else Some (False, s));
     s \<leftarrow> dir_close dp s;
     Some (success, s) }"

end
