(* ===== verification/Fs_Props.thy ===== *)
theory Fs_Props
  imports Directory
begin

text \<open>
  Correctness of the file system's parts: transfers against the bytes of a file, and the
  directory, an array of entries on disk, against a finite map from names to sectors.
\<close>

section \<open>Words in buffers\<close>

lemma length_le32 [simp]: "length (le32 n) = 4"
  by (simp add: le32_def)

lemma le32_list: "le32 n = [word_of_nat n, word_of_nat (n div 256), word_of_nat (n div 65536), word_of_nat (n div 16777216)]"
  by (simp add: le32_def upt_rec)

lemma sum4: "(\<Sum>k<4. f k) = f 0 + f 1 + f 2 + f (3::nat)" for f :: "nat \<Rightarrow> nat"
proof -
  have "{..<4} = {0, 1, 2, 3 :: nat}" by auto
  then show ?thesis by simp
qed

lemma of_le32_le32: "n < 2 ^ 32 \<Longrightarrow> of_le32 (le32 n @ xs) = n"
proof -
  assume n: "n < 2 ^ 32"
  have b: "unat (word_of_nat m :: byte) = m mod 256" for m by (simp add: unsigned_of_nat take_bit_eq_mod)
  have "of_le32 (le32 n @ xs) = n mod 256 + n div 256 mod 256 * 256 + n div 65536 mod 256 * 65536 + n div 16777216 mod 256 * 16777216"
    unfolding of_le32_def sum4 le32_list by (simp add: b numeral_3_eq_3 numeral_2_eq_2)
  also have "n div 16777216 mod 256 = n div 16777216" using n by (simp add: less_mult_imp_div_less)
  also have "n mod 256 + n div 256 mod 256 * 256 + n div 65536 mod 256 * 65536 + n div 16777216 * 16777216 = n"
  proof -
    have e: "n div 65536 = n div 256 div 256" "n div 16777216 = n div 256 div 256 div 256" by (simp_all add: div_mult2_eq [symmetric])
    have "n = n div 256 * 256 + n mod 256" "n div 256 = n div 256 div 256 * 256 + n div 256 mod 256"
      "n div 256 div 256 = n div 256 div 256 div 256 * 256 + n div 256 div 256 mod 256" by (simp_all only: div_mult_mod_eq)
    then show ?thesis unfolding e by linarith
  qed
  finally show ?thesis .
qed

section \<open>Directory contents\<close>

fun entries :: "byte list \<Rightarrow> byte list list" where
  "entries xs = (if 20 \<le> length xs then take 20 xs # entries (drop 20 xs) else [])"

declare entries.simps [simp del]

fun find_entry :: "byte list \<Rightarrow> byte list list \<Rightarrow> nat \<Rightarrow> (byte list \<times> nat) option" where
  "find_entry name [] ofs = None"
| "find_entry name (e # es) ofs = (if de_in_use e \<and> name_is name e then Some (e, ofs) else find_entry name es (ofs + 20))"

text \<open>The map from names to inode sectors that the entries stand for.\<close>

definition dir_map :: "byte list \<Rightarrow> byte list \<Rightarrow> nat option" where
  "dir_map xs name = (if 0 \<in> set name then None else map_option (\<lambda>(e, _). de_sector e) (find_entry name (entries xs) 0))"

lemma find_entry_shift: "find_entry name es (a + b) = map_option (\<lambda>(e, k). (e, a + k)) (find_entry name es b)"
  by (induction es arbitrary: b) (simp_all add: add.assoc)

text \<open>The file system is quiet: memory is available and the directory's inode is sound and writable.\<close>

definition dir_ok :: "nat \<Rightarrow> inode \<Rightarrow> fs \<Rightarrow> bool" where
  "dir_ok ip i s \<longleftrightarrow> inodes s ip = Some i \<and> deny_write_cnt i = 0 \<and> dev_ok (fs_device s) \<and> ino_ok (i_data i) (fs_device s) \<and>
     mem s = []"

lemma dir_ok_same: "dir_ok ip i s \<Longrightarrow> same_but_dev s s' \<Longrightarrow> dir_ok ip i s'"
  using same_but_devD [of s s'] by (simp add: dir_ok_def ino_ok_def)

lemma ibytes_data: "b_data dv' = b_data dv \<Longrightarrow> ibytes d dv' = ibytes d dv"
  by (simp add: ibytes_def dev.byte_at_def)

lemma int_less_pow31: "n < 2 ^ 31 \<Longrightarrow> int n < 2 ^ 31"
  by (metis of_nat_less_iff of_nat_numeral of_nat_power)

lemma read_entry:
  assumes s: "dir_ok ip i s" and o: "ofs < 2 ^ 31"
  shows "\<exists>s'. inode_read_at ip 20 (int ofs) s = Some (take 20 (drop ofs (ibytes (i_data i) (fs_device s))), s') \<and>
    same_but_dev s s' \<and> b_data (fs_device s') = b_data (fs_device s)"
proof -
  have "int ofs < 2 ^ 31" using o by (rule int_less_pow31)
  then show ?thesis using inode_read_ok [of s ip i "int ofs" 20] s by (auto simp: dir_ok_def)
qed

lemma lookup_loop_ok:
  assumes "dir_ok ip i s" and "drop ofs (ibytes (i_data i) (fs_device s)) = xs" and "ofs \<le> nat (i_length (i_data i))"
  shows "\<exists>s'. lookup_loop ip name ofs s = Some (find_entry name (entries xs) ofs, s') \<and> same_but_dev s s' \<and>
    b_data (fs_device s') = b_data (fs_device s)"
  using assms
proof (induction xs arbitrary: ofs s rule: entries.induct)
  case (1 xs)
  let ?L = "nat (i_length (i_data i))"
  have L: "?L < 2 ^ 31" using 1(2) by (auto simp: dir_ok_def ino_ok_def nat_less_iff)
  then have o: "ofs < 2 ^ 31" using 1(4) by simp
  then have oi: "i32 (int ofs) = int ofs" by (intro i32_id) (simp add: in_i32_def)
  obtain s1 where s1: "inode_read_at ip 20 (int ofs) s = Some (take 20 xs, s1)" "same_but_dev s s1"
    "b_data (fs_device s1) = b_data (fs_device s)" using read_entry [OF 1(2) o] 1(3) by auto
  have dv: "dev_ok (fs_device s)" using 1(2) by (simp add: dir_ok_def)
  show ?case
  proof (cases "20 \<le> length xs")
    case False
    then have "lookup_loop ip name ofs s = Some (None, s1)"
      using s1(1) by (subst lookup_loop.simps) (simp add: ENTRY_SIZE_def oi)
    then show ?thesis using False s1 by (subst entries.simps) simp
  next
    case True
    let ?e = "take 20 xs"
    have le: "ofs + 20 \<le> ?L" using True 1(3) by (auto simp: dest: arg_cong [of _ _ length])
    show ?thesis
    proof (cases "de_in_use ?e \<and> name_is name ?e")
      case found: True
      then have "lookup_loop ip name ofs s = Some (Some (?e, ofs), s1)"
        using s1(1) True by (subst lookup_loop.simps) (simp add: ENTRY_SIZE_def oi)
      then show ?thesis using True found s1 by (subst entries.simps) auto
    next
      case False
      have "dir_ok ip i s1" by (rule dir_ok_same [OF 1(2) s1(2)])
      moreover have "drop (ofs + 20) (ibytes (i_data i) (fs_device s1)) = drop 20 xs"
        unfolding 1(3) [symmetric] by (simp add: ibytes_data [OF s1(3)] add.commute)
      ultimately obtain s' where r: "lookup_loop ip name (ofs + 20) s1 = Some (find_entry name (entries (drop 20 xs)) (ofs + 20), s')"
        "same_but_dev s1 s'" "b_data (fs_device s') = b_data (fs_device s1)"
        using 1(1) [OF True, of s1 "ofs + 20"] le by auto
      have "(ofs + 20) mod 2 ^ 32 = ofs + 20" using le L by simp
      then have "lookup_loop ip name ofs s = Some (find_entry name (entries xs) ofs, s')"
        using s1(1) True False r(1) by (subst lookup_loop.simps, subst entries.simps) (auto simp: ENTRY_SIZE_def oi)
      then show ?thesis using r s1 same_but_dev_trans [OF s1(2) r(2)] by auto
    qed
  qed
qed

lemma entries_slices: "entries xs = map (\<lambda>j. take 20 (drop (20 * j) xs)) [0..<length xs div 20]"
proof (induction xs rule: entries.induct)
  case (1 xs)
  show ?case
  proof (cases "20 \<le> length xs")
    case True
    then obtain m where m: "length xs div 20 = Suc m" "(length xs - 20) div 20 = m"
      by (metis Suc_eq_plus1 add.commute div_add_self1 le_add_diff_inverse zero_neq_numeral)
    have "[0..<Suc m] = 0 # map Suc [0..<m]" by (simp add: upt_conv_Cons map_Suc_upt)
    moreover have "entries xs = take 20 xs # entries (drop 20 xs)" using True by (subst entries.simps) simp
    ultimately show ?thesis using 1 [OF True] m by (simp add: comp_def add.commute)
  qed (simp add: entries.simps)
qed

lemma length_entries [simp]: "length (entries xs) = length xs div 20"
  by (simp add: entries_slices)

lemma nth_entries: "j < length xs div 20 \<Longrightarrow> entries xs ! j = take 20 (drop (20 * j) xs)"
  by (simp add: entries_slices)

lemma slice_patch:
  assumes "ofs + length bs \<le> length xs" and "a + n \<le> ofs \<or> ofs + length bs \<le> a" and "a + n \<le> length xs"
  shows "take n (drop a (patch xs ofs bs)) = take n (drop a xs)"
  by (rule nth_equalityI) (use assms in \<open>auto simp: nth_patch\<close>)

lemma slice_patch_self: "ofs + length bs \<le> length xs \<Longrightarrow> take (length bs) (drop ofs (patch xs ofs bs)) = bs"
  by (simp add: patch_def)

lemma entries_patch:
  assumes "j < length xs div 20" and "length e = 20"
  shows "entries (patch xs (20 * j) e) = (entries xs)[j := e]"
proof (rule nth_equalityI)
  have le: "20 * j + 20 \<le> length xs" using assms(1) by linarith
  have lp: "length (patch xs (20 * j) e) = length xs" using le assms(2) by simp
  then show "length (entries (patch xs (20 * j) e)) = length ((entries xs)[j := e])" by simp
  fix k assume "k < length (entries (patch xs (20 * j) e))"
  then have k: "k < length xs div 20" by (simp add: lp)
  then have kl: "20 * k + 20 \<le> length xs" by linarith
  show "entries (patch xs (20 * j) e) ! k = (entries xs)[j := e] ! k"
  proof (cases "k = j")
    case True
    then show ?thesis using slice_patch_self [of "20 * j" e xs] k le assms(2) by (simp add: nth_entries lp)
  next
    case False
    then have "20 * k + 20 \<le> 20 * j \<or> 20 * j + length e \<le> 20 * k" using assms(2) by linarith
    from slice_patch [OF _ this kl] show ?thesis using k le assms(2) False by (simp add: nth_entries lp)
  qed
qed

lemma entries_patch_tail:
  assumes "20 * (length xs div 20) \<le> ofs" and "ofs + length bs \<le> length xs"
  shows "entries (patch xs ofs bs) = entries xs"
proof (rule nth_equalityI)
  have lp: "length (patch xs ofs bs) = length xs" using assms(2) by simp
  then show "length (entries (patch xs ofs bs)) = length (entries xs)" by simp
  fix k assume "k < length (entries (patch xs ofs bs))"
  then have k: "k < length xs div 20" by (simp add: lp)
  then have kl: "20 * k + 20 \<le> length xs" "20 * k + 20 \<le> ofs" using assms(1) by linarith+
  then show "entries (patch xs ofs bs) ! k = entries xs ! k"
    using slice_patch [OF assms(2) disjI1 kl(1)] k by (simp add: nth_entries lp)
qed

section \<open>Adding an entry\<close>

fun find_slot :: "byte list list \<Rightarrow> nat \<Rightarrow> nat option" where
  "find_slot [] j = None"
| "find_slot (e # es) j = (if \<not> de_in_use e then Some j else find_slot es (j + 1))"

lemma find_slot_Some: "find_slot es j = Some k \<Longrightarrow> j \<le> k \<and> k - j < length es \<and> \<not> de_in_use (es ! (k - j))"
proof (induction es arbitrary: j)
  case (Cons e es)
  show ?case
  proof (cases "de_in_use e")
    case True
    with Cons.IH [of "j + 1"] Cons.prems have "j + 1 \<le> k" "k - (j + 1) < length es" "\<not> de_in_use (es ! (k - (j + 1)))" by auto
    moreover from this have "k - j = Suc (k - (j + 1))" by simp
    ultimately show ?thesis by simp
  qed (use Cons.prems in auto)
qed simp

lemma slot_loop_ok:
  assumes "dir_ok ip i s" and "drop (20 * j) (ibytes (i_data i) (fs_device s)) = xs" and "20 * j \<le> nat (i_length (i_data i))"
    and "length e = 20"
  shows "\<exists>e' s'. slot_loop ip e (int (20 * j)) s =
      Some (e', int (20 * (case find_slot (entries xs) j of Some k \<Rightarrow> k | None \<Rightarrow> j + length xs div 20)), s') \<and>
    length e' = 20 \<and> same_but_dev s s' \<and> b_data (fs_device s') = b_data (fs_device s)"
  using assms
proof (induction xs arbitrary: j s e rule: entries.induct)
  case (1 xs)
  let ?L = "nat (i_length (i_data i))"
  have L: "?L < 2 ^ 31" using 1(2) by (auto simp: dir_ok_def ino_ok_def nat_less_iff)
  then have o: "20 * j < 2 ^ 31" using 1(4) by simp
  obtain s1 where s1: "inode_read_at ip 20 (int (20 * j)) s = Some (take 20 xs, s1)" "same_but_dev s s1"
    "b_data (fs_device s1) = b_data (fs_device s)" using read_entry [OF 1(2) o] 1(3) by auto
  show ?case
  proof (cases "20 \<le> length xs")
    case False
    let ?e = "take 20 xs @ drop (length (take 20 xs)) e"
    have "slot_loop ip e (int (20 * j)) s = Some (?e, int (20 * j), s1)"
      using s1(1) False by (subst slot_loop.simps) (simp add: ENTRY_SIZE_def Let_def)
    moreover have "length ?e = 20" using 1(5) False by simp
    moreover have "find_slot (entries xs) j = None" using False by (subst entries.simps) simp
    ultimately show ?thesis using False s1(2,3) by simp
  next
    case True
    let ?e = "take 20 xs"
    have le: "20 * j + 20 \<le> ?L" using True 1(3) by (auto simp: dest: arg_cong [of _ _ length])
    have es: "entries xs = ?e # entries (drop 20 xs)" using True by (subst entries.simps) simp
    show ?thesis
    proof (cases "de_in_use ?e")
      case False
      then have "slot_loop ip e (int (20 * j)) s = Some (?e, int (20 * j), s1)"
        using s1(1) True 1(5) by (subst slot_loop.simps) (simp add: ENTRY_SIZE_def Let_def)
      then show ?thesis using True False s1 by (simp add: es)
    next
      case inuse: True
      have "dir_ok ip i s1" by (rule dir_ok_same [OF 1(2) s1(2)])
      moreover have "drop (20 * (j + 1)) (ibytes (i_data i) (fs_device s1)) = drop 20 xs"
        unfolding 1(3) [symmetric] by (simp add: ibytes_data [OF s1(3)] add.commute)
      moreover have "20 * (j + 1) \<le> ?L" "length ?e = 20" using le True by simp_all
      ultimately obtain e' s' where r: "slot_loop ip ?e (int (20 * (j + 1))) s1 =
          Some (e', int (20 * (case find_slot (entries (drop 20 xs)) (j + 1) of Some k \<Rightarrow> k | None \<Rightarrow> j + 1 + length (drop 20 xs) div 20)), s')"
        "length e' = 20" "same_but_dev s1 s'" "b_data (fs_device s') = b_data (fs_device s1)"
        using 1(1) [OF True] by blast
      have oi: "i32 (int (20 * j) + 20) = int (20 * (j + 1))" using le L by (subst i32_id) (simp_all add: in_i32_def)
      have d: "j + 1 + length (drop 20 xs) div 20 = j + length xs div 20" using True by (simp add: le_div_geq)
      have "slot_loop ip e (int (20 * j)) s = slot_loop ip ?e (int (20 * (j + 1))) s1"
        using s1(1) True inuse 1(5) oi by (subst slot_loop.simps) (simp add: ENTRY_SIZE_def Let_def)
      then show ?thesis using r s1 same_but_dev_trans [OF s1(2) r(3)] inuse unfolding d by (simp add: es)
    qed
  qed
qed

lemma name_prefix_iff:
  "(0::byte) \<notin> set n \<Longrightarrow> 0 \<notin> set m \<Longrightarrow> take (Suc (length n)) (m @ 0 # r) = n @ [0] \<longleftrightarrow> n = m"
proof (induction n arbitrary: m)
  case Nil
  then show ?case by (cases m) auto
next
  case (Cons c n)
  then show ?case by (cases m) auto
qed

lemma fill_entry_facts:
  assumes e: "length e = 20" and n: "length name \<le> 14" "0 \<notin> set name" and sec: "sec < 2 ^ 32"
  shows "length (fill_entry e name sec) = 20" "de_in_use (fill_entry e name sec)" "de_sector (fill_entry e name sec) = sec"
    "0 \<notin> set m \<Longrightarrow> name_is m (fill_entry e name sec) \<longleftrightarrow> m = name"
proof -
  have dn: "length (de_name e) = 15" using e by (simp add: de_name_def NAME_MAX_def)
  let ?r = "drop (length name + 1) (de_name e)"
  have f: "fill_entry e name sec = le32 sec @ name @ 0 # ?r @ [1]"
    using n by (simp add: fill_entry_def strlcpy_name_def NAME_MAX_def min_def)
  show "length (fill_entry e name sec) = 20" using f n dn by simp
  have "fill_entry e name sec = (le32 sec @ name @ 0 # ?r) @ [1]" "length (le32 sec @ name @ 0 # ?r) = 19" using f n dn by simp_all
  then have "fill_entry e name sec ! 19 = 1" by (metis nth_append_length)
  then show "de_in_use (fill_entry e name sec)" by (simp add: de_in_use_def)
  show "de_sector (fill_entry e name sec) = sec" unfolding de_sector_def f by (rule of_le32_le32 [OF sec])
  assume "0 \<notin> set m"
  then show "name_is m (fill_entry e name sec) \<longleftrightarrow> m = name"
    using name_prefix_iff [of m name "?r @ [1]"] n by (simp add: name_is_def f)
qed

lemma find_entry_update:
  "j < length es \<Longrightarrow> \<not> de_in_use (es ! j) \<Longrightarrow>
    find_entry n (es[j := e']) ofs = (if de_in_use e' \<and> name_is n e' \<and> find_entry n (take j es) ofs = None
      then Some (e', ofs + 20 * j) else find_entry n es ofs)"
proof (induction es arbitrary: j ofs)
  case (Cons e es)
  then show ?case by (cases j) auto
qed simp

lemma find_entry_take: "find_entry n es ofs = None \<Longrightarrow> find_entry n (take j es) ofs = None"
proof (induction es arbitrary: j ofs)
  case (Cons e es)
  then show ?case by (cases j) (auto split: if_splits)
qed simp

definition dir_full :: "byte list \<Rightarrow> bool" where
  "dir_full xs \<longleftrightarrow> find_slot (entries xs) 0 = None"

definition name_ok :: "byte list \<Rightarrow> bool" where
  "name_ok name \<longleftrightarrow> name \<noteq> [] \<and> length name \<le> NAME_MAX"

lemma dir_map_patch:
  assumes j: "find_slot (entries xs) 0 = Some j" and e: "length e = 20" and n: "length name \<le> 14" "0 \<notin> set name"
    and sec: "sec < 2 ^ 32" and none: "find_entry name (entries xs) 0 = None"
  shows "dir_map (patch xs (20 * j) (fill_entry e name sec)) = (dir_map xs)(name \<mapsto> sec)"
proof
  fix m
  note ff = fill_entry_facts [OF e n sec]
  from find_slot_Some [OF j] have jl: "j < length xs div 20" "\<not> de_in_use (entries xs ! j)" by simp_all
  have es: "entries (patch xs (20 * j) (fill_entry e name sec)) = (entries xs)[j := fill_entry e name sec]"
    by (rule entries_patch [OF jl(1) ff(1)])
  have "find_entry m (entries (patch xs (20 * j) (fill_entry e name sec))) 0 =
      (if m = name then Some (fill_entry e name sec, 20 * j) else find_entry m (entries xs) 0)" if "0 \<notin> set m"
    unfolding es using find_entry_update [of j "entries xs" m "fill_entry e name sec" 0] jl ff(2) ff(4) [OF that]
      find_entry_take [OF none] by auto
  then show "dir_map (patch xs (20 * j) (fill_entry e name sec)) m = ((dir_map xs)(name \<mapsto> sec)) m"
    using ff(3) n(2) by (auto simp: dir_map_def)
qed

lemma lookup_ok:
  assumes s: "dir_ok ip i s" and d: "dirs s dp = Some d" "d_inode d = ip" "dp \<noteq> 0"
  shows "\<exists>s'. lookup dp name s = Some (find_entry name (entries (ibytes (i_data i) (fs_device s))) 0, s') \<and> same_but_dev s s' \<and>
    b_data (fs_device s') = b_data (fs_device s)"
  using lookup_loop_ok [OF s, of 0 _ name] d by (simp add: lookup_def)

lemma dir_add_ok:
  assumes s: "dir_ok ip i s" and d: "dirs s dp = Some d" "d_inode d = ip" "dp \<noteq> 0"
    and n: "0 \<notin> set name" and sec: "sec < 2 ^ 32" and e0: "length e0 = 20"
  defines "xs \<equiv> ibytes (i_data i) (fs_device s)"
  shows "\<exists>s'. dir_add e0 dp name sec s = Some (name_ok name \<and> dir_map xs name = None \<and> \<not> dir_full xs, s') \<and>
    same_but_dev s s' \<and>
    dir_map (ibytes (i_data i) (fs_device s')) =
      (if name_ok name \<and> dir_map xs name = None \<and> \<not> dir_full xs then (dir_map xs)(name \<mapsto> sec) else dir_map xs) \<and>
    (\<forall>k. k \<notin> {512 * start (i_data i)..<512 * start (i_data i) + nat (i_length (i_data i))} \<longrightarrow>
       dev.byte_at (fs_device s') k = dev.byte_at (fs_device s) k)"
proof -
  have dv: "dev_ok (fs_device s)" using s by (simp add: dir_ok_def)
  show ?thesis
  proof (cases "name_ok name")
    case False
    then have "dir_add e0 dp name sec s = Some (False, s)" using d(3) by (auto simp: dir_add_def name_ok_def)
    then show ?thesis using False same_but_dev_refl [OF dv] by (auto simp: xs_def)
  next
    case True
    then have nl: "length name \<le> 14" "name \<noteq> []" by (simp_all add: name_ok_def NAME_MAX_def)
    obtain s1 where s1: "lookup dp name s = Some (find_entry name (entries xs) 0, s1)" "same_but_dev s s1"
      "b_data (fs_device s1) = b_data (fs_device s)" using lookup_ok [OF s d, of name] unfolding xs_def by blast
    have by1: "dev.byte_at (fs_device s1) = dev.byte_at (fs_device s)" using s1(3) by (simp add: dev.byte_at_def fun_eq_iff)
    have x1: "ibytes (i_data i) (fs_device s1) = xs" using ibytes_data [OF s1(3)] by (simp add: xs_def)
    show ?thesis
    proof (cases "find_entry name (entries xs) 0")
      case (Some r)
      then have "dir_add e0 dp name sec s = Some (False, s1)"
        using s1(1) nl d(3) by (simp add: dir_add_def NAME_MAX_def)
      moreover have "dir_map xs name \<noteq> None" using Some n by (cases r) (simp add: dir_map_def)
      ultimately show ?thesis using s1(2) x1 by1 by auto
    next
      case None
      then have nm: "dir_map xs name = None" by (simp add: dir_map_def)
      have ds1: "dirs s1 dp = Some d" using d(1) same_but_devD(9) [OF s1(2)] by simp
      have ok1: "dir_ok ip i s1" by (rule dir_ok_same [OF s s1(2)])
      let ?j = "case find_slot (entries xs) 0 of Some k \<Rightarrow> k | None \<Rightarrow> 0 + length xs div 20"
      obtain e s2 where s2: "slot_loop ip e0 0 s1 = Some (e, int (20 * ?j), s2)" "length e = 20" "same_but_dev s1 s2"
        "b_data (fs_device s2) = b_data (fs_device s1)"
        using slot_loop_ok [OF ok1 _ _ e0, of 0 xs] x1 by auto
      have ok2: "dir_ok ip i s2" by (rule dir_ok_same [OF ok1 s2(3)])
      have x2: "ibytes (i_data i) (fs_device s2) = xs" using ibytes_data [OF s2(4)] x1 by simp
      have by2: "dev.byte_at (fs_device s2) = dev.byte_at (fs_device s)"
        using s2(4) s1(3) by (simp add: dev.byte_at_def fun_eq_iff)
      have len: "length xs = nat (i_length (i_data i))" by (simp add: xs_def)
      have L: "length xs < 2 ^ 31" using s by (auto simp: len dir_ok_def ino_ok_def nat_less_iff)
      have jl: "20 * ?j \<le> length xs"
        using find_slot_Some [of "entries xs" 0] by (auto split: option.split)
      note ff = fill_entry_facts [OF s2(2) nl(1) n sec]
      have "20 * ?j < 2 ^ 31" by (rule le_less_trans [OF jl L])
      then have "int (20 * ?j) < 2 ^ 31" by (rule int_less_pow31)
      moreover have "inodes s2 ip = Some i" "deny_write_cnt i = 0" "dev_ok (fs_device s2)" "ino_ok (i_data i) (fs_device s2)"
        "mem s2 = []" using ok2 by (simp_all add: dir_ok_def)
      ultimately obtain k s3 where w: "inode_write_at ip (fill_entry e name sec) 20 (int (20 * ?j)) s2 = Some (int k, s3)"
        "k = min (nat 20) (nat (i_length (i_data i)) - nat (int (20 * ?j)))" "same_but_dev s2 s3"
        "ibytes (i_data i) (fs_device s3) = patch xs (nat (int (20 * ?j))) (take k (fill_entry e name sec))"
        "\<forall>k. k \<notin> {512 * start (i_data i)..<512 * start (i_data i) + nat (i_length (i_data i))} \<longrightarrow>
           dev.byte_at (fs_device s3) k = dev.byte_at (fs_device s2) k"
        using inode_write_ok [of s2 ip i "int (20 * ?j)" 20 "fill_entry e name sec"] ff(1) unfolding x2
        by (metis nat_numeral of_nat_0_le_iff order_refl)
      note w = w(1) w(2) [unfolded nat_int nat_numeral len [symmetric]] w(3) w(4) [unfolded nat_int] w(5)
      have add: "dir_add e0 dp name sec s = Some (k = 20, s3)"
        using s1(1) None nl d(2,3) ds1 s2(1) w(1) by (simp add: dir_add_def NAME_MAX_def ENTRY_SIZE_def)
      have sd: "same_but_dev s s3" using s1(2) s2(3) w(3) same_but_dev_trans by blast
      have out: "\<forall>k. k \<notin> {512 * start (i_data i)..<512 * start (i_data i) + nat (i_length (i_data i))} \<longrightarrow>
           dev.byte_at (fs_device s3) k = dev.byte_at (fs_device s) k" using w(5) by2 by simp
      show ?thesis
      proof (cases "find_slot (entries xs) 0")
        case full: None
        then have "20 * ?j = 20 * (length xs div 20)" by simp
        then have kl: "k < 20" "20 * ?j + k \<le> length xs" using w(2) jl by auto
        then have "20 * ?j + length (take k (fill_entry e name sec)) \<le> length xs" by simp
        then have "entries (ibytes (i_data i) (fs_device s3)) = entries xs"
          unfolding w(4) using full by (intro entries_patch_tail) simp_all
        then have "dir_map (ibytes (i_data i) (fs_device s3)) = dir_map xs" by (simp add: dir_map_def fun_eq_iff)
        then show ?thesis using add kl(1) full sd out by (auto simp: dir_full_def)
      next
        case (Some j)
        then have "j < length xs div 20" using find_slot_Some [of "entries xs" 0] by fastforce
        then have k: "k = 20" using Some w(2) by simp
        have "dir_map (ibytes (i_data i) (fs_device s3)) = (dir_map xs)(name \<mapsto> sec)"
          unfolding w(4) k using dir_map_patch [OF Some s2(2) nl(1) n sec None] Some ff(1) by simp
        then show ?thesis using add k Some nm True sd out by (auto simp: dir_full_def)
      qed
    qed
  qed
qed

section \<open>Properties\<close>

lemma patch_slice_eof:
  assumes "n = min m (length xs - ofs)" and "m \<le> length buf"
  shows "take m (drop ofs (patch xs ofs (take n buf))) = take n buf"
proof (cases "ofs \<le> length xs")
  case True
  then have "length (take n buf) = n" "drop ofs (patch xs ofs (take n buf)) = take n buf @ drop (ofs + n) xs"
    using assms by (simp_all add: patch_def)
  then show ?thesis using assms True by (cases "m \<le> length xs - ofs") simp_all
qed (use assms in \<open>simp add: patch_def\<close>)

text \<open>C25. Transfers treat an inode as an array of its length in bytes, whatever sectors a transfer
  crosses: a write with memory available and writes not denied stores the part of the buffer that
  fits before the end of the file and returns how much that is, a read of the same range returns
  exactly those bytes, and reading any other inode whose sectors do not overlap gives what it gave
  before.\<close>

theorem inode_write_read:
  assumes i: "inodes s ip = Some i" "deny_write_cnt i = 0" and s: "dev_ok (fs_device s)" "mem s = []"
    and d: "ino_ok (i_data i) (fs_device s)" and ofs: "0 \<le> offset" "offset < 2 ^ 31" and buf: "nat sz \<le> length buf"
    and i': "inodes s ip' = Some i'" "ino_ok (i_data i') (fs_device s)" and ofs': "0 \<le> offset'" "offset' < 2 ^ 31"
    and dis: "{512 * start (i_data i)..<512 * start (i_data i) + nat (i_length (i_data i))} \<inter>
       {512 * start (i_data i')..<512 * start (i_data i') + nat (i_length (i_data i'))} = {}"
  shows "\<exists>n s' s''. n = min (nat sz) (nat (i_length (i_data i)) - nat offset) \<and>
    inode_write_at ip buf sz offset s = Some (int n, s') \<and> inode_read_at ip sz offset s' = Some (take n buf, s'') \<and>
    map_option fst (inode_read_at ip' sz' offset' s') = map_option fst (inode_read_at ip' sz' offset' s)"
proof -
  let ?L = "ibytes (i_data i) (fs_device s)"
  obtain n s' where w: "inode_write_at ip buf sz offset s = Some (int n, s')"
    "n = min (nat sz) (nat (i_length (i_data i)) - nat offset)" "same_but_dev s s'"
    "ibytes (i_data i) (fs_device s') = patch ?L (nat offset) (take n buf)"
    "\<forall>k. k \<notin> {512 * start (i_data i)..<512 * start (i_data i) + nat (i_length (i_data i))} \<longrightarrow>
       dev.byte_at (fs_device s') k = dev.byte_at (fs_device s) k"
    using inode_write_ok [OF i s(1) d ofs buf] s(2) by blast
  note sd = same_but_devD [OF w(3)]
  have dev': "inodes s' ip = Some i" "mem s' = []" "ino_ok (i_data i) (fs_device s')" "inodes s' ip' = Some i'"
    "ino_ok (i_data i') (fs_device s')" using i i' d s(2) sd by (simp_all add: ino_ok_def)
  obtain m s'' where r: "inode_read_at ip sz offset s' = Some (take m (drop (nat offset) (ibytes (i_data i) (fs_device s'))), s'')"
    "m = nat sz" using inode_read_ok [OF dev'(1) sd(1) dev'(3) ofs, of sz] dev'(2) by blast
  have "take m (drop (nat offset) (ibytes (i_data i) (fs_device s'))) = take n buf"
    unfolding w(4) by (rule patch_slice_eof) (use r(2) w(2) buf in simp_all)
  moreover have "ibytes (i_data i') (fs_device s') = ibytes (i_data i') (fs_device s)" by (rule ibytes_other [OF w(5) dis])
  then have "map_option fst (inode_read_at ip' sz' offset' s') = map_option fst (inode_read_at ip' sz' offset' s)"
    using inode_read_ok [OF dev'(4) sd(1) dev'(5) ofs', of sz'] inode_read_ok [OF i'(1) s(1) i'(2) ofs', of sz'] dev'(2) s(2)
    by auto
  ultimately show ?thesis using w(1,2) r(1) by auto
qed

definition sample_fs :: fs where
  "sample_fs = \<lparr>fs_device = \<lparr>b_name = ''hda1'', b_type = BLOCK_FILESYS, b_size = 8, b_data = (\<lambda>_. replicate 512 0), read_cnt = 0, write_cnt = 0\<rparr>,
     free_map = \<lparr>bit_cnt = 8, bits = [0xff]\<rparr>, free_map_file = 0, open_inodes = [1, 2],
     inodes = [1 \<mapsto> \<lparr>i_sector = 2, open_cnt = 1, removed = False, deny_write_cnt = 0, i_data = \<lparr>start = 4, i_length = 1000, i_magic = INODE_MAGIC\<rparr>\<rparr>,
       2 \<mapsto> \<lparr>i_sector = 3, open_cnt = 1, removed = False, deny_write_cnt = 0, i_data = \<lparr>start = 6, i_length = 40, i_magic = INODE_MAGIC\<rparr>\<rparr>],
     files = Map.empty, dirs = [3 \<mapsto> \<lparr>d_inode = 2, d_pos = 0\<rparr>], mem = [], next_addr = 4\<rparr>"

lemma inode_write_read_witness:
  "\<exists>s' s''. inode_write_at 1 [1, 2, 3, 4] 4 510 sample_fs = Some (4, s') \<and> inode_read_at 1 4 510 s' = Some ([1, 2, 3, 4], s'') \<and>
    map_option fst (inode_read_at 2 40 0 s') = map_option fst (inode_read_at 2 40 0 sample_fs)"
proof -
  obtain i i' where i: "inodes sample_fs 1 = Some i" "deny_write_cnt i = 0" "start (i_data i) = 4" "i_length (i_data i) = 1000"
    and i': "inodes sample_fs 2 = Some i'" "start (i_data i') = 6" "i_length (i_data i') = 40"
    by (simp add: sample_fs_def)
  have "dev_ok (fs_device sample_fs)" "mem sample_fs = []" "ino_ok (i_data i) (fs_device sample_fs)" "ino_ok (i_data i') (fs_device sample_fs)"
    using i i' by (simp_all add: sample_fs_def dev_ok_def ino_ok_def)
  with inode_write_read [of sample_fs 1 i 510 4 "[1, 2, 3, 4]" 2 i' 0 40] i i' show ?thesis by simp
qed

text \<open>C26. The root directory refines a finite map from names to inode sectors: with memory
  available, looking a name up finds an entry exactly when the map has the name, and the entry holds
  the map's sector; adding a name succeeds exactly when the name has 1 to 14 bytes, is not in the map
  and an entry is free, then it updates the map at that name and nowhere else; a failed add leaves
  the map as it was, and no byte outside the directory's own data is written.\<close>

theorem dir_refines_map:
  assumes s: "dir_ok ip i s" and d: "dirs s dp = Some d" "d_inode d = ip" "dp \<noteq> 0"
    and n: "0 \<notin> set name" and sec: "sec < 2 ^ 32" and e0: "length e0 = 20"
  shows "\<exists>r s1 s2. lookup dp name s = Some (r, s1) \<and>
    map_option (\<lambda>(e, _). de_sector e) r = dir_map (ibytes (i_data i) (fs_device s)) name \<and>
    dir_add e0 dp name sec s = Some (name_ok name \<and> dir_map (ibytes (i_data i) (fs_device s)) name = None \<and>
      \<not> dir_full (ibytes (i_data i) (fs_device s)), s2) \<and>
    dir_map (ibytes (i_data i) (fs_device s2)) =
      (if name_ok name \<and> dir_map (ibytes (i_data i) (fs_device s)) name = None \<and> \<not> dir_full (ibytes (i_data i) (fs_device s))
       then (dir_map (ibytes (i_data i) (fs_device s)))(name \<mapsto> sec) else dir_map (ibytes (i_data i) (fs_device s))) \<and>
    (\<forall>k. k \<notin> {512 * start (i_data i)..<512 * start (i_data i) + nat (i_length (i_data i))} \<longrightarrow>
       dev.byte_at (fs_device s2) k = dev.byte_at (fs_device s) k)"
  using dir_add_ok [OF s d n sec e0] lookup_ok [OF s d, of name] n by (fastforce simp: dir_map_def)

lemma sample_dir: "dir_ok 2 (the (inodes sample_fs 2)) sample_fs" "dirs sample_fs 3 = Some \<lparr>d_inode = 2, d_pos = 0\<rparr>"
  by (simp_all add: sample_fs_def dir_ok_def dev_ok_def ino_ok_def)

lemma ibytes_zero: "(\<And>k. dev.byte_at dv k = 0) \<Longrightarrow> ibytes d dv = replicate (nat (i_length d)) 0"
  by (rule nth_equalityI) (simp_all add: ibytes_def)

lemma dir_refines_map_witness:
  "\<exists>s2. dir_add (replicate 20 0) 3 [97, 98] 5 sample_fs = Some (True, s2) \<and>
    dir_map (ibytes (i_data (the (inodes sample_fs 2))) (fs_device s2)) [97, 98] = Some 5"
proof -
  have b: "dev.byte_at (fs_device sample_fs) k = 0" for k by (simp add: dev.byte_at_def sample_fs_def)
  have x: "ibytes (i_data (the (inodes sample_fs 2))) (fs_device sample_fs) = replicate 40 0"
    by (subst ibytes_zero [OF b]) (simp add: sample_fs_def)
  have es: "entries (replicate 40 (0::byte)) = [replicate 20 0, replicate 20 0]"
    by (simp add: entries_slices upt_rec)
  have "dir_map (replicate 40 0) [97, 98] = None" "\<not> dir_full (replicate 40 0)" "name_ok [97, 98]"
    by (simp_all add: dir_map_def dir_full_def es de_in_use_def name_ok_def NAME_MAX_def)
  with dir_refines_map [OF sample_dir, of "[97, 98]" 5 "replicate 20 0"] show ?thesis unfolding x by auto
qed

text \<open>
  A short read is taken for the end of the directory, also when it comes from a refused allocation:
  with no memory for the bounce buffer every name looks absent.
\<close>

lemma lookup_low_memory:
  assumes "inodes s ip = Some i" and "0 < i_length (i_data i)" "i_length (i_data i) < 2 ^ 31" and "mem s = False # bs"
    and "dirs s dp = Some d" "d_inode d = ip" "dp \<noteq> 0"
  shows "lookup dp name s = Some (None, s\<lparr>mem := bs\<rparr>)"
proof -
  have c: "0 < chunk_of (i_data i) 20 0" "chunk_of (i_data i) 20 0 \<noteq> 512"
    using assms(2,3) by (simp_all add: chunk_of_def i32_id in_i32_def)
  have "read_loop (i_data i) False 20 0 s = Some ([], s\<lparr>mem := bs\<rparr>)"
    using c assms(4) by (subst read_loop.simps) (simp add: Let_def try_alloc_def)
  then have "inode_read_at ip 20 0 s = Some ([], s\<lparr>mem := bs\<rparr>)" using assms(1) by (simp add: inode_read_at_def)
  then have "lookup_loop ip name 0 s = Some (None, s\<lparr>mem := bs\<rparr>)"
    by (subst lookup_loop.simps) (simp add: ENTRY_SIZE_def)
  then show ?thesis using assms(5-7) by (simp add: lookup_def)
qed

end
