(* ===== verification/String_Ops.thy ===== *)
theory String_Ops
  imports Kernel_List
begin

text \<open>
  \<open>lib/string.c\<close> on a memory of bytes. Pointers are addresses, a null pointer is \<open>NULL\<close>, and
  objects do not wrap around the end of the address space. A loop that runs until it meets a byte
  of the memory is a \<open>partial_function\<close>: on a string without terminator it does not return.
\<close>

type_synonym ram = "addr \<Rightarrow> byte"

text \<open>The bytes of a string literal.\<close>

definition ascii :: "string \<Rightarrow> byte list" where "ascii s = map of_char s"

section \<open>Blocks of bytes\<close>

fun copy_forward :: "nat \<Rightarrow> addr \<Rightarrow> addr \<Rightarrow> ram \<Rightarrow> ram" where
  "copy_forward 0 dst src m = m"
| "copy_forward (Suc n) dst src m = copy_forward n (dst + 1) (src + 1) (m(dst := m src))"

fun copy_backward :: "nat \<Rightarrow> addr \<Rightarrow> addr \<Rightarrow> ram \<Rightarrow> ram" where
  "copy_backward 0 dst src m = m"
| "copy_backward (Suc n) dst src m = copy_backward n (dst - 1) (src - 1) (m(dst - 1 := m (src - 1)))"

definition memcpy :: "addr \<Rightarrow> addr \<Rightarrow> nat \<Rightarrow> ram \<Rightarrow> (addr \<times> ram) option" where
  "memcpy dst src sz m = do {
     _ \<leftarrow> ASSERT (dst \<noteq> NULL \<or> sz = 0);
     _ \<leftarrow> ASSERT (src \<noteq> NULL \<or> sz = 0);
     Some (dst, copy_forward sz dst src m) }"

text \<open>The forward loop advances \<open>dst\<close> itself, which is then the returned pointer.\<close>

definition memmove :: "addr \<Rightarrow> addr \<Rightarrow> nat \<Rightarrow> ram \<Rightarrow> (addr \<times> ram) option" where
  "memmove dst src sz m = do {
     _ \<leftarrow> ASSERT (dst \<noteq> NULL \<or> sz = 0);
     _ \<leftarrow> ASSERT (src \<noteq> NULL \<or> sz = 0);
     if dst < src then Some (dst + sz, copy_forward sz dst src m)
     else Some (dst, copy_backward sz (dst + sz) (src + sz) m) }"

fun memcmp_loop :: "nat \<Rightarrow> addr \<Rightarrow> addr \<Rightarrow> ram \<Rightarrow> int" where
  "memcmp_loop 0 a b m = 0"
| "memcmp_loop (Suc n) a b m = (if m a \<noteq> m b then (if m a > m b then 1 else -1) else memcmp_loop n (a + 1) (b + 1) m)"

definition memcmp :: "addr \<Rightarrow> addr \<Rightarrow> nat \<Rightarrow> ram \<Rightarrow> int option" where
  "memcmp a b sz m = do {
     _ \<leftarrow> ASSERT (a \<noteq> NULL \<or> sz = 0);
     _ \<leftarrow> ASSERT (b \<noteq> NULL \<or> sz = 0);
     Some (memcmp_loop sz a b m) }"

fun memchr_loop :: "nat \<Rightarrow> addr \<Rightarrow> byte \<Rightarrow> ram \<Rightarrow> addr" where
  "memchr_loop 0 p ch m = NULL"
| "memchr_loop (Suc n) p ch m = (if m p = ch then p else memchr_loop n (p + 1) ch m)"

definition memchr :: "addr \<Rightarrow> byte \<Rightarrow> nat \<Rightarrow> ram \<Rightarrow> addr option" where
  "memchr block ch sz m = do { _ \<leftarrow> ASSERT (block \<noteq> NULL \<or> sz = 0); Some (memchr_loop sz block ch m) }"

fun memset_loop :: "nat \<Rightarrow> addr \<Rightarrow> byte \<Rightarrow> ram \<Rightarrow> ram" where
  "memset_loop 0 dst v m = m"
| "memset_loop (Suc n) dst v m = memset_loop n (dst + 1) v (m(dst := v))"

definition memset :: "addr \<Rightarrow> byte \<Rightarrow> nat \<Rightarrow> ram \<Rightarrow> (addr \<times> ram) option" where
  "memset dst v sz m = do { _ \<leftarrow> ASSERT (dst \<noteq> NULL \<or> sz = 0); Some (dst, memset_loop sz dst v m) }"

section \<open>Strings\<close>

partial_function (option) strcmp_loop :: "addr \<Rightarrow> addr \<Rightarrow> ram \<Rightarrow> int option" where
  "strcmp_loop a b m =
     (if m a \<noteq> 0 \<and> m a = m b then strcmp_loop (a + 1) (b + 1) m
      else Some (if m a < m b then -1 else if m a > m b then 1 else 0))"

definition strcmp :: "addr \<Rightarrow> addr \<Rightarrow> ram \<Rightarrow> int option" where
  "strcmp a b m = do { _ \<leftarrow> ASSERT (a \<noteq> NULL); _ \<leftarrow> ASSERT (b \<noteq> NULL); strcmp_loop a b m }"

partial_function (option) strchr_loop :: "addr \<Rightarrow> byte \<Rightarrow> ram \<Rightarrow> addr option" where
  "strchr_loop p c m = (if m p = c then Some p else if m p = 0 then Some NULL else strchr_loop (p + 1) c m)"

definition strchr :: "addr \<Rightarrow> byte \<Rightarrow> ram \<Rightarrow> addr option" where
  "strchr str c m = do { _ \<leftarrow> ASSERT (str \<noteq> NULL); strchr_loop str c m }"

partial_function (option) strcspn_loop :: "addr \<Rightarrow> addr \<Rightarrow> nat \<Rightarrow> ram \<Rightarrow> nat option" where
  "strcspn_loop str stop n m =
     (if m (str + n) \<noteq> 0 then do {
        r \<leftarrow> strchr stop (m (str + n)) m;
        if r \<noteq> NULL then Some n else strcspn_loop str stop (n + 1) m }
      else Some n)"

definition strcspn :: "addr \<Rightarrow> addr \<Rightarrow> ram \<Rightarrow> nat option" where
  "strcspn str stop m = strcspn_loop str stop 0 m"

partial_function (option) strpbrk :: "addr \<Rightarrow> addr \<Rightarrow> ram \<Rightarrow> addr option" where
  "strpbrk str stop m =
     (if m str \<noteq> 0 then do {
        r \<leftarrow> strchr stop (m str) m;
        if r \<noteq> NULL then Some str else strpbrk (str + 1) stop m }
      else Some NULL)"

partial_function (option) strrchr_loop :: "addr \<Rightarrow> byte \<Rightarrow> addr \<Rightarrow> ram \<Rightarrow> addr option" where
  "strrchr_loop str c p m = (if m str \<noteq> 0 then strrchr_loop (str + 1) c (if m str = c then str else p) m else Some p)"

definition strrchr :: "addr \<Rightarrow> byte \<Rightarrow> ram \<Rightarrow> addr option" where
  "strrchr str c m = strrchr_loop str c NULL m"

partial_function (option) strspn_loop :: "addr \<Rightarrow> addr \<Rightarrow> nat \<Rightarrow> ram \<Rightarrow> nat option" where
  "strspn_loop str skip n m =
     (if m (str + n) \<noteq> 0 then do {
        r \<leftarrow> strchr skip (m (str + n)) m;
        if r = NULL then Some n else strspn_loop str skip (n + 1) m }
      else Some n)"

definition strspn :: "addr \<Rightarrow> addr \<Rightarrow> ram \<Rightarrow> nat option" where
  "strspn str skip m = strspn_loop str skip 0 m"

partial_function (option) strlen_loop :: "addr \<Rightarrow> ram \<Rightarrow> addr option" where
  "strlen_loop p m = (if m p \<noteq> 0 then strlen_loop (p + 1) m else Some p)"

definition strlen :: "addr \<Rightarrow> ram \<Rightarrow> nat option" where
  "strlen str m = do { _ \<leftarrow> ASSERT (str \<noteq> NULL); p \<leftarrow> strlen_loop str m; Some (p - str) }"

function strnlen_loop :: "addr \<Rightarrow> nat \<Rightarrow> nat \<Rightarrow> ram \<Rightarrow> nat" where
  "strnlen_loop str n maxlen m = (if m (str + n) \<noteq> 0 \<and> n < maxlen then strnlen_loop str (n + 1) maxlen m else n)"
  by pat_completeness auto
termination by (relation "measure (\<lambda>(str, n, maxlen, m). maxlen - n)") auto

declare strnlen_loop.simps [simp del]

definition strnlen :: "addr \<Rightarrow> nat \<Rightarrow> ram \<Rightarrow> nat" where
  "strnlen str maxlen m = strnlen_loop str 0 maxlen m"

function strstr_loop :: "addr \<Rightarrow> addr \<Rightarrow> nat \<Rightarrow> nat \<Rightarrow> nat \<Rightarrow> ram \<Rightarrow> addr option" where
  "strstr_loop hay needle needle_len i lst m =
     (if i \<le> lst then do {
        r \<leftarrow> memcmp (hay + i) needle needle_len m;
        if r = 0 then Some (hay + i) else strstr_loop hay needle needle_len (i + 1) lst m }
      else Some NULL)"
  by pat_completeness auto
termination by (relation "measure (\<lambda>(hay, needle, needle_len, i, lst, m). Suc lst - i)") auto

declare strstr_loop.simps [simp del]

definition strstr :: "addr \<Rightarrow> addr \<Rightarrow> ram \<Rightarrow> addr option" where
  "strstr haystack needle m = do {
     haystack_len \<leftarrow> strlen haystack m;
     needle_len \<leftarrow> strlen needle m;
     if haystack_len \<ge> needle_len then strstr_loop haystack needle needle_len 0 (haystack_len - needle_len) m
     else Some NULL }"

section \<open>Tokens\<close>

partial_function (option) skip_loop :: "addr \<Rightarrow> addr \<Rightarrow> ram \<Rightarrow> (bool \<times> addr) option" where
  "skip_loop delims s m = do {
     r \<leftarrow> strchr delims (m s) m;
     if r \<noteq> NULL then if m s = 0 then Some (False, s) else skip_loop delims (s + 1) m
     else Some (True, s) }"

partial_function (option) token_loop :: "addr \<Rightarrow> addr \<Rightarrow> ram \<Rightarrow> addr option" where
  "token_loop delims s m = do {
     r \<leftarrow> strchr delims (m s) m;
     if r = NULL then token_loop delims (s + 1) m else Some s }"

text \<open>Returns the token, the new \<open>*save_ptr\<close> and the memory.\<close>

definition strtok_r :: "addr \<Rightarrow> addr \<Rightarrow> addr \<Rightarrow> ram \<Rightarrow> (addr \<times> addr \<times> ram) option" where
  "strtok_r s delims save m = do {
     _ \<leftarrow> ASSERT (delims \<noteq> NULL);
     let s = (if s = NULL then save else s);
     _ \<leftarrow> ASSERT (s \<noteq> NULL);
     (found, s) \<leftarrow> skip_loop delims s m;
     if \<not> found then Some (NULL, s, m)
     else do {
       let token = s;
       s \<leftarrow> token_loop delims s m;
       if m s \<noteq> 0 then Some (token, s + 1, m(s := 0)) else Some (token, s, m) } }"

section \<open>Bounded copies\<close>

definition strlcpy :: "addr \<Rightarrow> addr \<Rightarrow> nat \<Rightarrow> ram \<Rightarrow> (nat \<times> ram) option" where
  "strlcpy dst src sz m = do {
     _ \<leftarrow> ASSERT (dst \<noteq> NULL);
     _ \<leftarrow> ASSERT (src \<noteq> NULL);
     src_len \<leftarrow> strlen src m;
     if sz > 0 then do {
       let dst_len = (if src_len < sz - 1 then src_len else sz - 1);
       (_, m) \<leftarrow> memcpy dst src dst_len m;
       Some (src_len, m(dst + dst_len := 0)) }
     else Some (src_len, m) }"

definition strlcat :: "addr \<Rightarrow> addr \<Rightarrow> nat \<Rightarrow> ram \<Rightarrow> (nat \<times> ram) option" where
  "strlcat dst src sz m = do {
     _ \<leftarrow> ASSERT (dst \<noteq> NULL);
     _ \<leftarrow> ASSERT (src \<noteq> NULL);
     src_len \<leftarrow> strlen src m;
     dst_len \<leftarrow> strlen dst m;
     if sz > 0 \<and> dst_len < sz then do {
       let copy_cnt = sz - dst_len - 1;
       let copy_cnt = (if src_len < copy_cnt then src_len else copy_cnt);
       (_, m) \<leftarrow> memcpy (dst + dst_len) src copy_cnt m;
       Some (src_len + dst_len, m(dst + dst_len + copy_cnt := 0)) }
     else Some (src_len + dst_len, m) }"

section \<open>Strings in memory\<close>

definition cstr :: "ram \<Rightarrow> addr \<Rightarrow> byte list \<Rightarrow> bool" where
  "cstr m p xs \<longleftrightarrow> 0 \<notin> set xs \<and> (\<forall>i<length xs. m (p + i) = xs ! i) \<and> m (p + length xs) = 0"

lemma cstr_Nil [simp]: "cstr m p [] \<longleftrightarrow> m p = 0"
  by (simp add: cstr_def)

lemma cstr_Cons [simp]: "cstr m p (x # xs) \<longleftrightarrow> m p = x \<and> x \<noteq> 0 \<and> cstr m (p + 1) xs"
  by (auto simp: cstr_def nth_Cons less_Suc_eq_0_disj split: nat.splits)

lemma cstr_append: "cstr m p (xs @ ys) \<longleftrightarrow> (0 \<notin> set xs \<and> (\<forall>i<length xs. m (p + i) = xs ! i)) \<and> cstr m (p + length xs) ys"
proof (induction xs arbitrary: p)
  case (Cons x xs)
  have "(\<forall>i<length (x # xs). m (p + i) = (x # xs) ! i) \<longleftrightarrow> m p = x \<and> (\<forall>i<length xs. m (p + 1 + i) = xs ! i)"
    by (auto simp: nth_Cons less_Suc_eq_0_disj split: nat.splits)
  with Cons show ?case by auto
qed simp

lemma cstr_cong: "\<forall>i\<le>length xs. m' (p + i) = m (p + i) \<Longrightarrow> cstr m' p xs = cstr m p xs"
  by (auto simp: cstr_def)

lemma strlen_loop_cstr: "cstr m p xs \<Longrightarrow> strlen_loop p m = Some (p + length xs)"
  by (induction xs arbitrary: p) (subst strlen_loop.simps; simp)+

lemma strlen_cstr: "cstr m p xs \<Longrightarrow> p \<noteq> NULL \<Longrightarrow> strlen p m = Some (length xs)"
  by (simp add: strlen_def strlen_loop_cstr)

lemma strchr_loop_cstr:
  "cstr m p xs \<Longrightarrow> strchr_loop p c m =
    Some (if c \<in> set xs then p + length (takeWhile (\<lambda>x. x \<noteq> c) xs) else if c = 0 then p + length xs else NULL)"
proof (induction xs arbitrary: p)
  case Nil
  then show ?case by (subst strchr_loop.simps) auto
next
  case (Cons x xs)
  then show ?case by (subst strchr_loop.simps) auto
qed

lemma strchr_cstr:
  assumes "cstr m p xs" and "p \<noteq> NULL"
  shows "\<exists>r. strchr p c m = Some r \<and> (r \<noteq> NULL \<longleftrightarrow> c \<in> set xs \<or> c = 0)"
  using strchr_loop_cstr [OF assms(1), of c] assms(2) by (auto simp: strchr_def NULL_def)

section \<open>Copies\<close>

lemma copy_forward_spec:
  assumes "dst \<le> src \<or> src + n \<le> dst"
  shows "copy_forward n dst src m = (\<lambda>a. if dst \<le> a \<and> a < dst + n then m (src + (a - dst)) else m a)"
  using assms
proof (induction n arbitrary: dst src m)
  case (Suc n)
  let ?m = "m(dst := m src)"
  have "copy_forward n (dst + 1) (src + 1) ?m =
      (\<lambda>a. if dst + 1 \<le> a \<and> a < dst + 1 + n then ?m (src + 1 + (a - (dst + 1))) else ?m a)"
    by (rule Suc.IH) (use Suc.prems in auto)
  moreover have "?m (src + 1 + (a - (dst + 1))) = m (src + (a - dst))" if "dst + 1 \<le> a" "a < dst + 1 + n" for a
  proof -
    have e: "src + 1 + (a - (dst + 1)) = src + (a - dst)" and ne: "src + (a - dst) \<noteq> dst" using that Suc.prems by linarith+
    show ?thesis unfolding e by (rule fun_upd_other [OF ne])
  qed
  ultimately show ?case by (auto simp: fun_eq_iff)
qed (auto simp: fun_eq_iff)

lemma copy_backward_spec:
  assumes "src \<le> dst"
  shows "copy_backward n (dst + n) (src + n) m = (\<lambda>a. if dst \<le> a \<and> a < dst + n then m (src + (a - dst)) else m a)"
proof (induction n arbitrary: m)
  case (Suc n)
  let ?m = "m(dst + n := m (src + n))"
  have "copy_backward (Suc n) (dst + Suc n) (src + Suc n) m = copy_backward n (dst + n) (src + n) ?m" by simp
  also have "\<dots> = (\<lambda>a. if dst \<le> a \<and> a < dst + n then ?m (src + (a - dst)) else ?m a)" by (rule Suc.IH)
  also have "\<dots> = (\<lambda>a. if dst \<le> a \<and> a < dst + Suc n then m (src + (a - dst)) else m a)"
  proof
    fix a
    have "?m (src + (a - dst)) = m (src + (a - dst))" if "dst \<le> a" "a < dst + n" using that assms by auto
    then show "(if dst \<le> a \<and> a < dst + n then ?m (src + (a - dst)) else ?m a) =
        (if dst \<le> a \<and> a < dst + Suc n then m (src + (a - dst)) else m a)" by (cases "a = dst + n") auto
  qed
  finally show ?case .
qed (auto simp: fun_eq_iff)

lemma memset_loop_spec: "memset_loop n dst v m = (\<lambda>a. if dst \<le> a \<and> a < dst + n then v else m a)"
  by (induction n arbitrary: dst m) (auto simp: fun_eq_iff)

section \<open>Comparisons\<close>

lemma strcmp_loop_cstr:
  "cstr m a xs \<Longrightarrow> cstr m b ys \<Longrightarrow>
    \<exists>r. strcmp_loop a b m = Some r \<and> (r = 0 \<longleftrightarrow> xs = ys) \<and> (r < 0 \<longleftrightarrow> ord_class.lexordp xs ys)"
proof (induction xs arbitrary: a b ys)
  case Nil
  then show ?case by (cases ys; subst strcmp_loop.simps) (auto simp: word_neq_0_conv)
next
  case (Cons x xs)
  show ?case
  proof (cases ys)
    case Nil
    then show ?thesis using Cons.prems by (subst strcmp_loop.simps) (auto simp: word_neq_0_conv dest: word_le_0_iff [THEN iffD1])
  next
    case (Cons y zs)
    then show ?thesis using Cons.prems Cons.IH [of "a + 1" "b + 1" zs]
      by (subst strcmp_loop.simps) auto
  qed
qed

lemma memcmp_loop_eq: "memcmp_loop n a b m = 0 \<longleftrightarrow> (\<forall>i<n. m (a + i) = m (b + i))"
proof (induction n arbitrary: a b)
  case (Suc n)
  have "(\<forall>i<Suc n. m (a + i) = m (b + i)) \<longleftrightarrow> m a = m b \<and> (\<forall>i<n. m (a + 1 + i) = m (b + 1 + i))"
    by (auto simp: less_Suc_eq_0_disj)
  with Suc show ?case by auto
qed simp

section \<open>Tokens\<close>

lemma skip_loop_cstr:
  assumes ds: "cstr m delims ds" "delims \<noteq> NULL"
  shows "cstr m s xs \<Longrightarrow> skip_loop delims s m =
    Some (dropWhile (\<lambda>c. c \<in> set ds) xs \<noteq> [], s + length (takeWhile (\<lambda>c. c \<in> set ds) xs))"
proof (induction xs arbitrary: s)
  case Nil
  obtain r where "strchr delims (m s) m = Some r" "r \<noteq> NULL" using strchr_cstr [OF ds, of "m s"] Nil by auto
  then show ?case using Nil by (subst skip_loop.simps) simp
next
  case (Cons x xs)
  obtain r where "strchr delims (m s) m = Some r" "r \<noteq> NULL \<longleftrightarrow> x \<in> set ds"
    using strchr_cstr [OF ds, of "m s"] Cons.prems by auto
  then show ?case using Cons by (subst skip_loop.simps) auto
qed

lemma token_loop_cstr:
  assumes ds: "cstr m delims ds" "delims \<noteq> NULL"
  shows "cstr m s xs \<Longrightarrow> token_loop delims s m = Some (s + length (takeWhile (\<lambda>c. c \<notin> set ds) xs))"
proof (induction xs arbitrary: s)
  case Nil
  obtain r where "strchr delims (m s) m = Some r" "r \<noteq> NULL" using strchr_cstr [OF ds, of "m s"] Nil by auto
  then show ?case by (subst token_loop.simps) simp
next
  case (Cons x xs)
  obtain r where "strchr delims (m s) m = Some r" "r \<noteq> NULL \<longleftrightarrow> x \<in> set ds"
    using strchr_cstr [OF ds, of "m s"] Cons.prems by auto
  then show ?case using Cons by (subst token_loop.simps) auto
qed

section \<open>Properties\<close>

lemma cstr_part:
  assumes "cstr m p (xs @ ys)"
  shows "cstr m (p + length xs) ys"
  using assms by (simp add: cstr_append)

lemma strtok_cstr:
  assumes ds: "cstr m delims ds" "delims \<noteq> NULL" and p: "p = (if s = NULL then save else s)" "p \<noteq> NULL" and xs: "cstr m p xs"
  defines "rest \<equiv> dropWhile (\<lambda>c. c \<in> set ds) xs"
  defines "tok \<equiv> takeWhile (\<lambda>c. c \<notin> set ds) rest"
  defines "t \<equiv> p + (length xs - length rest)"
  shows "strtok_r s delims save m = Some (if rest = [] then (NULL, p + length xs, m)
    else if tok = rest then (t, t + length tok, m) else (t, t + length tok + 1, m(t + length tok := 0)))"
    and "cstr m t rest"
proof -
  have lr: "length (takeWhile (\<lambda>c. c \<in> set ds) xs) = length xs - length rest"
    unfolding rest_def by (metis add_diff_cancel_right' length_append takeWhile_dropWhile_id)
  show rest: "cstr m t rest"
    using cstr_part [of m p "takeWhile (\<lambda>c. c \<in> set ds) xs" rest] xs lr by (simp add: rest_def t_def)
  have sk: "skip_loop delims p m = Some (rest \<noteq> [], t)"
    using skip_loop_cstr [OF ds xs] by (simp add: rest_def t_def lr [unfolded rest_def])
  have tk: "token_loop delims t m = Some (t + length tok)"
    using token_loop_cstr [OF ds rest] by (simp add: tok_def)
  have z: "m (t + length tok) = 0 \<longleftrightarrow> tok = rest"
  proof
    assume "tok = rest"
    then show "m (t + length tok) = 0" using rest by (simp add: cstr_def)
  next
    assume m0: "m (t + length tok) = 0"
    have "length tok \<le> length rest" by (simp add: tok_def length_takeWhile_le)
    moreover have "\<not> length tok < length rest" using rest m0 by (auto simp: cstr_def) (metis nth_mem)
    ultimately show "tok = rest" unfolding tok_def by (metis append_Nil2 append_eq_conv_conj le_antisym not_less takeWhile_dropWhile_id take_all)
  qed
  have "t = p + length xs" if "rest = []" using that by (simp add: t_def)
  then show "strtok_r s delims save m = Some (if rest = [] then (NULL, p + length xs, m)
    else if tok = rest then (t, t + length tok, m) else (t, t + length tok + 1, m(t + length tok := 0)))"
    using ds(2) p sk tk z by (auto simp: strtok_r_def Let_def)
qed

lemma strtok_step:
  assumes ds: "cstr m delims ds" "delims \<noteq> NULL" and p: "p = (if s = NULL then save else s)" "p \<noteq> NULL" and xs: "cstr m p xs"
  shows "\<exists>t save' m' skipped tok rest. strtok_r s delims save m = Some (t, save', m') \<and>
    xs = skipped @ tok @ rest \<and> set skipped \<subseteq> set ds \<and> set tok \<inter> set ds = {} \<and> (rest = [] \<or> hd rest \<in> set ds) \<and>
    (if tok = [] then t = NULL \<and> rest = [] \<and> m' = m \<and> cstr m' save' []
     else t = p + length skipped \<and> save' = t + length tok + (if rest = [] then 0 else 1) \<and>
       cstr m' t tok \<and> cstr m' save' (tl rest) \<and>
       m' = (if rest = [] then m else m(t + length tok := 0)))"
proof -
  define sk where "sk = takeWhile (\<lambda>c. c \<in> set ds) xs"
  define re where "re = dropWhile (\<lambda>c. c \<in> set ds) xs"
  define tok where "tok = takeWhile (\<lambda>c. c \<notin> set ds) re"
  define rest where "rest = dropWhile (\<lambda>c. c \<notin> set ds) re"
  define t where "t = p + length sk"
  have x: "xs = sk @ tok @ rest" "re = tok @ rest" by (simp_all add: sk_def re_def tok_def rest_def)
  have split: "set sk \<subseteq> set ds" "set tok \<inter> set ds = {}" "rest = [] \<or> hd rest \<in> set ds"
  proof -
    show "set sk \<subseteq> set ds" by (auto simp: sk_def dest: set_takeWhileD)
    show "set tok \<inter> set ds = {}" using set_takeWhileD by (fastforce simp: tok_def)
    show "rest = [] \<or> hd rest \<in> set ds" using hd_dropWhile [of "\<lambda>c. c \<notin> set ds" re] by (auto simp: rest_def)
  qed
  have lt: "p + (length xs - length re) = t" using x by (simp add: t_def)
  note st = strtok_cstr [OF ds p xs, folded re_def, folded tok_def, unfolded lt]
  have tn: "t \<noteq> NULL" using p(2) by (simp add: t_def NULL_def)
  show ?thesis
  proof (cases "re = []")
    case True
    then have "tok = []" "rest = []" "cstr m (p + length xs) []" using x xs by (simp_all add: cstr_def)
    then show ?thesis using st(1) True split x(1) by auto
  next
    case False
    have "hd re \<notin> set ds" using False hd_dropWhile [of "\<lambda>c. c \<in> set ds" xs] by (auto simp: re_def)
    then have ne: "tok \<noteq> []" using False unfolding tok_def by (cases re) simp_all
    have c: "0 \<notin> set tok \<and> (\<forall>i<length tok. m (t + i) = tok ! i)" "cstr m (t + length tok) rest"
      using st(2) unfolding x(2) cstr_append by blast+
    show ?thesis
    proof (cases rest)
      case Nil
      then have "strtok_r s delims save m = Some (t, t + length tok, m)" using st(1) False x(2) by simp
      moreover have "cstr m t tok" "cstr m (t + length tok) []" using st(2) c Nil x(2) by simp_all
      ultimately show ?thesis using split ne Nil x(1) t_def by auto
    next
      case (Cons y ys)
      then have "tok \<noteq> re" using x(2) by simp
      let ?m = "m(t + length tok := 0)"
      have "strtok_r s delims save m = Some (t, t + length tok + 1, ?m)" using st(1) False \<open>tok \<noteq> re\<close> by simp
      moreover have "cstr ?m t tok" using c(1) by (auto simp: cstr_def)
      moreover have "cstr m (t + length tok + 1) ys" using c(2) unfolding Cons by simp
      then have "cstr ?m (t + length tok + 1) (tl rest)" using cstr_cong [of ys ?m "t + length tok + 1" m] Cons by simp
      ultimately show ?thesis using split ne Cons x(1) t_def
        by (intro exI [of _ t] exI [of _ "t + length tok + 1"] exI [of _ ?m] exI [of _ sk] exI [of _ tok] exI [of _ rest]) simp
    qed
  qed
qed

text \<open>The maximal runs of non-delimiters.\<close>

function words :: "byte list \<Rightarrow> byte list \<Rightarrow> byte list list" where
  "words ds xs =
     (let rest = dropWhile (\<lambda>c. c \<in> set ds) xs
      in if rest = [] then [] else takeWhile (\<lambda>c. c \<notin> set ds) rest # words ds (dropWhile (\<lambda>c. c \<notin> set ds) rest))"
  by pat_completeness auto
termination
proof (relation "measure (\<lambda>(ds, xs). length xs)", goal_cases)
  case (2 ds xs rest)
  have "hd rest \<notin> set ds" using 2 hd_dropWhile [of "\<lambda>c. c \<in> set ds" xs] by simp
  then have "length (dropWhile (\<lambda>c. c \<notin> set ds) rest) < length rest"
    using 2(2) by (cases rest) (simp_all add: less_Suc_eq_le length_dropWhile_le)
  also have "\<dots> \<le> length xs" unfolding 2(1) by (rule length_dropWhile_le)
  finally show ?case by simp
qed simp

declare words.simps [simp del]

lemma words_skip: "set sk \<subseteq> set ds \<Longrightarrow> words ds (sk @ xs) = words ds xs"
  by (induction sk) (simp_all add: words.simps [of ds "_ # _"] words.simps [of ds "_ @ _"] words.simps [of ds xs])

lemma words_Nil [simp]: "words ds [] = []"
  by (subst words.simps) simp

lemma words_tok:
  assumes "tok \<noteq> []" and "set tok \<inter> set ds = {}" and "rest = [] \<or> hd rest \<in> set ds"
  shows "words ds (tok @ rest) = tok # words ds (tl rest)"
proof -
  have d: "dropWhile (\<lambda>c. c \<in> set ds) (tok @ rest) = tok @ rest" using assms(1,2) by (cases tok) auto
  have t: "takeWhile (\<lambda>c. c \<notin> set ds) (tok @ rest) = tok" "dropWhile (\<lambda>c. c \<notin> set ds) (tok @ rest) = rest"
    using assms(2,3) by (cases rest; subst takeWhile_append2 dropWhile_append2; auto)+
  have "words ds rest = words ds (tl rest)" using assms(3) words_skip [of "[hd rest]" ds "tl rest"] by (cases rest) simp_all
  then show ?thesis using assms(1) d t by (subst words.simps) simp
qed

text \<open>C30. strtok_r, called with a string or with its saved position, never panics and returns on
  terminated strings: it returns a null pointer, changing nothing, when only delimiters are left;
  otherwise it returns a pointer to the first maximal run of non-delimiters, now terminated, and saves
  a position where the rest of the string behind the delimiter is found; apart from that one
  delimiter no byte changes.\<close>

theorem strtok_r_correct:
  assumes ds: "cstr m delims ds" "delims \<noteq> NULL" and p: "p = (if s = NULL then save else s)" "p \<noteq> NULL" and xs: "cstr m p xs"
  shows "\<exists>t save' m' skipped tok rest. strtok_r s delims save m = Some (t, save', m') \<and>
    xs = skipped @ tok @ rest \<and> set skipped \<subseteq> set ds \<and> set tok \<inter> set ds = {} \<and> (rest = [] \<or> hd rest \<in> set ds) \<and>
    (if tok = [] then t = NULL \<and> rest = [] \<and> m' = m \<and> cstr m' save' []
     else t = p + length skipped \<and> cstr m' t tok \<and> cstr m' save' (tl rest) \<and>
       m' = (if rest = [] then m else m(t + length tok := 0)))"
proof -
  from strtok_step [OF assms] obtain t save' m' skipped tok rest where
    "strtok_r s delims save m = Some (t, save', m')" "xs = skipped @ tok @ rest" "set skipped \<subseteq> set ds" "set tok \<inter> set ds = {}"
    "rest = [] \<or> hd rest \<in> set ds"
    "if tok = [] then t = NULL \<and> rest = [] \<and> m' = m \<and> cstr m' save' []
     else t = p + length skipped \<and> save' = t + length tok + (if rest = [] then 0 else 1) \<and>
       cstr m' t tok \<and> cstr m' save' (tl rest) \<and> m' = (if rest = [] then m else m(t + length tok := 0))"
    by blast
  then show ?thesis
    by (rule_tac exI [of _ t], rule_tac exI [of _ save'], rule_tac exI [of _ m'], rule_tac exI [of _ skipped],
        rule_tac exI [of _ tok], rule_tac exI [of _ rest]) (simp split: if_splits)
qed

definition sample_ram :: ram where
  "sample_ram = (\<lambda>a. if a = 100 then 32 else if 101 \<le> a \<and> a < 104 then 97 else if a = 104 then 32 else if a = 105 then 98
     else if a = 200 then 32 else 0)"

lemma sample_ram_strings: "cstr sample_ram 100 [32, 97, 97, 97, 32, 98]" "cstr sample_ram 200 [32]"
  by (simp_all add: sample_ram_def)

lemma strtok_r_correct_witness:
  "\<exists>t save' m' skipped tok rest. strtok_r 100 200 0 sample_ram = Some (t, save', m') \<and>
    [32, 97, 97, 97, 32, 98] = skipped @ tok @ rest \<and> set skipped \<subseteq> {32} \<and> set tok \<inter> {32} = {} \<and> cstr m' save' (if tok = [] then [] else tl rest)"
proof -
  obtain t save' m' skipped tok rest where r: "strtok_r 100 200 0 sample_ram = Some (t, save', m')"
    "[32, 97, 97, 97, 32, 98] = skipped @ tok @ rest" "set skipped \<subseteq> set [32]" "set tok \<inter> set [32] = {}"
    "if tok = [] then t = NULL \<and> rest = [] \<and> m' = sample_ram \<and> cstr m' save' []
     else t = 100 + length skipped \<and> cstr m' t tok \<and> cstr m' save' (tl rest) \<and>
       m' = (if rest = [] then sample_ram else sample_ram(t + length tok := 0))"
    using strtok_r_correct [OF sample_ram_strings(2) _ _ _ sample_ram_strings(1), of 100 0] by (simp add: NULL_def) blast
  from r(5) have "cstr m' save' (if tok = [] then [] else tl rest)" by (metis (full_types))
  with r(1-4) show ?thesis unfolding list.set by blast
qed

text \<open>memmove copies as if through a buffer: for overlapping ranges too, every byte of the
  destination gets the byte the source held before the call and nothing else changes; the pointer
  it returns is the destination only when that does not lie before the source.\<close>

theorem memmove_correct:
  assumes "dst \<noteq> NULL" and "src \<noteq> NULL"
  shows "memmove dst src n m = Some (if dst < src then dst + n else dst,
    \<lambda>a. if dst \<le> a \<and> a < dst + n then m (src + (a - dst)) else m a)"
  using assms by (simp add: memmove_def copy_forward_spec copy_backward_spec)

lemma memmove_correct_witness: "\<exists>m. memmove 101 100 4 sample_ram = Some (101, m) \<and> m 101 = 32 \<and> m 104 = 97"
  using memmove_correct [of 101 100 4 sample_ram] by (simp add: NULL_def sample_ram_def)

text \<open>strcmp orders strings: on terminated strings it returns, zero exactly for equal strings
  and negative exactly when the first is lexicographically smaller as unsigned bytes.\<close>

theorem strcmp_correct:
  assumes "cstr m a xs" and "cstr m b ys" and "a \<noteq> NULL" and "b \<noteq> NULL"
  shows "\<exists>r. strcmp a b m = Some r \<and> (r = 0 \<longleftrightarrow> xs = ys) \<and> (r < 0 \<longleftrightarrow> ord_class.lexordp xs ys)"
  using strcmp_loop_cstr [OF assms(1,2)] assms(3,4) by (simp add: strcmp_def)

lemma strcmp_correct_witness: "\<exists>r. strcmp 101 100 sample_ram = Some r \<and> r \<noteq> 0"
proof -
  have "cstr sample_ram 101 [97, 97, 97, 32, 98]" by (simp add: sample_ram_def)
  from strcmp_correct [OF this sample_ram_strings(1)] show ?thesis by (auto simp: NULL_def)
qed

lemma memcpy_apart:
  assumes "dst \<noteq> NULL" and "src \<noteq> NULL" and "{dst..<dst + n} \<inter> {src..<src + n} = {}"
  shows "memcpy dst src n m = Some (dst, \<lambda>a. if dst \<le> a \<and> a < dst + n then m (src + (a - dst)) else m a)"
proof (cases "n = 0")
  case True
  then show ?thesis by (auto simp: memcpy_def fun_eq_iff)
next
  case False
  then have "dst \<in> {dst..<dst + n}" by simp
  with assms(3) have "dst \<notin> {src..<src + n}" by blast
  then have "dst \<le> src \<or> src + n \<le> dst" by auto
  from copy_forward_spec [OF this] show ?thesis using assms(1,2) by (simp add: memcpy_def)
qed

lemma cstr_copied:
  assumes "cstr m src xs" and "k \<le> length xs"
  shows "cstr ((\<lambda>a. if dst \<le> a \<and> a < dst + k then m (src + (a - dst)) else m a)(dst + k := 0)) dst (take k xs)"
  using assms by (auto simp: cstr_def dest: in_set_takeD)



text \<open>The length of the next token and the first occurrence of a substring, for completeness.\<close>

lemma strspn_loop_cstr:
  assumes "cstr m skip ds" "skip \<noteq> NULL"
  shows "cstr m (str + n) xs \<Longrightarrow> strspn_loop str skip n m = Some (n + length (takeWhile (\<lambda>c. c \<in> set ds) xs)) \<and>
    strcspn_loop str skip n m = Some (n + length (takeWhile (\<lambda>c. c \<notin> set ds) xs))"
proof (induction xs arbitrary: n)
  case Nil
  then show ?case by (subst strspn_loop.simps, subst strcspn_loop.simps) simp
next
  case (Cons x xs)
  obtain r where "strchr skip x m = Some r" "r \<noteq> NULL \<longleftrightarrow> x \<in> set ds"
    using strchr_cstr [OF assms, of x] Cons.prems by auto
  then show ?case using Cons by (subst strspn_loop.simps, subst strcspn_loop.simps) auto
qed

lemma strstr_loop_spec:
  assumes "hay \<noteq> NULL" and "needle \<noteq> NULL" and "i \<le> Suc lst"
  shows "\<exists>r. strstr_loop hay needle n i lst m = Some r \<and>
    (if r = NULL then \<forall>j. i \<le> j \<and> j \<le> lst \<longrightarrow> (\<exists>k<n. m (hay + j + k) \<noteq> m (needle + k))
     else \<exists>j. i \<le> j \<and> j \<le> lst \<and> r = hay + j \<and> (\<forall>k<n. m (hay + j + k) = m (needle + k)) \<and>
       (\<forall>j'. i \<le> j' \<and> j' < j \<longrightarrow> (\<exists>k<n. m (hay + j' + k) \<noteq> m (needle + k))))"
  using assms(3)
proof (induction "Suc lst - i" arbitrary: i)
  case 0
  then show ?case by (subst strstr_loop.simps) auto
next
  case (Suc d)
  then have i: "i \<le> lst" by simp
  have c: "memcmp (hay + i) needle n m = Some (memcmp_loop n (hay + i) needle m)"
    using assms(1,2) by (simp add: memcmp_def NULL_def)
  show ?case
  proof (cases "memcmp_loop n (hay + i) needle m = 0")
    case True
    then have "strstr_loop hay needle n i lst m = Some (hay + i)" using i c by (subst strstr_loop.simps) simp
    moreover have "hay + i \<noteq> NULL" using assms(1) by (simp add: NULL_def)
    ultimately show ?thesis using True i by (auto simp: memcmp_loop_eq)
  next
    case False
    then have "strstr_loop hay needle n i lst m = strstr_loop hay needle n (i + 1) lst m"
      using i c by (subst strstr_loop.simps) simp
    moreover have ne: "\<exists>k<n. m (hay + i + k) \<noteq> m (needle + k)" using False by (auto simp: memcmp_loop_eq)
    moreover have "d = Suc lst - (i + 1)" "i + 1 \<le> Suc lst" using Suc.hyps(2) i by simp_all
    note Suc.hyps(1) [OF this]
    moreover have "j = i \<or> i + 1 \<le> j" if "i \<le> j" for j using that by linarith
    ultimately show ?thesis by (metis Suc_eq_plus1 Suc_leD)
  qed
qed

end
