(* ===== verification/Hash_Table.thy ===== *)
theory Hash_Table
  imports String_Ops
begin

unbundle bit_operations_syntax

text \<open>
  \<open>lib/kernel/hash.c\<close>: a chained hash table whose number of buckets is a power of two that
  follows the number of elements. An element stands for a pointer to its \<open>struct hash_elem\<close>; a
  bucket is the list of its elements (\<open>list.c\<close> implements them). The answer of the allocator to
  a rehash is an argument. What the table needs of its two function pointers is a locale, in which
  the operations are proved to keep the table well formed and to act on its set of elements.
\<close>

section \<open>Hash functions\<close>

definition FNV_32_PRIME :: "32 word" where "FNV_32_PRIME = 16777619"
definition FNV_32_BASIS :: "32 word" where "FNV_32_BASIS = 2166136261"

fun hash_loop :: "nat \<Rightarrow> addr \<Rightarrow> ram \<Rightarrow> 32 word \<Rightarrow> 32 word" where
  "hash_loop 0 p m h = h"
| "hash_loop (Suc n) p m h = hash_loop n (p + 1) m ((h * FNV_32_PRIME) XOR ucast (m p))"

definition hash_bytes :: "addr \<Rightarrow> nat \<Rightarrow> ram \<Rightarrow> 32 word option" where
  "hash_bytes buf n m = do { _ \<leftarrow> ASSERT (buf \<noteq> NULL); Some (hash_loop n buf m FNV_32_BASIS) }"

partial_function (option) hash_string_loop :: "addr \<Rightarrow> ram \<Rightarrow> 32 word \<Rightarrow> 32 word option" where
  "hash_string_loop s m h = (if m s \<noteq> 0 then hash_string_loop (s + 1) m ((h * FNV_32_PRIME) XOR ucast (m s)) else Some h)"

definition hash_string :: "addr \<Rightarrow> ram \<Rightarrow> 32 word option" where
  "hash_string s m = do { _ \<leftarrow> ASSERT (s \<noteq> NULL); hash_string_loop s m FNV_32_BASIS }"

text \<open>The integer's own four bytes, little-endian, hashed in place.\<close>

definition hash_int :: "32 word \<Rightarrow> 32 word" where
  "hash_int i = hash_loop 4 1 (\<lambda>a. ucast (drop_bit (8 * (a - 1)) i)) FNV_32_BASIS"

section \<open>The table\<close>

record 'a hash =
  elem_cnt :: nat
  bucket_cnt :: nat
  buckets :: "'a list list"
  h_hash :: "'a \<Rightarrow> 32 word"
  h_less :: "'a \<Rightarrow> 'a \<Rightarrow> bool"

definition hash_clear :: "('a \<Rightarrow> 'b \<Rightarrow> 'b) option \<Rightarrow> 'a hash \<Rightarrow> 'b \<Rightarrow> 'a hash \<times> 'b" where
  "hash_clear destructor h st =
     (h\<lparr>buckets := map (\<lambda>_. []) (buckets h), elem_cnt := 0\<rparr>,
      case destructor of None \<Rightarrow> st | Some f \<Rightarrow> fold f (concat (buckets h)) st)"

definition hash_init :: "('a \<Rightarrow> 32 word) \<Rightarrow> ('a \<Rightarrow> 'a \<Rightarrow> bool) \<Rightarrow> bool \<Rightarrow> 'a hash option" where
  "hash_init hash_fn less_fn allocated =
     (let h = \<lparr>elem_cnt = 0, bucket_cnt = 4, buckets = replicate 4 [], h_hash = hash_fn, h_less = less_fn\<rparr>
      in if allocated then Some (fst (hash_clear None h ())) else None)"

definition hash_destroy :: "('a \<Rightarrow> 'b \<Rightarrow> 'b) option \<Rightarrow> 'a hash \<Rightarrow> 'b \<Rightarrow> 'b" where
  "hash_destroy destructor h st = (if destructor \<noteq> None then snd (hash_clear destructor h st) else st)"

definition find_bucket :: "'a hash \<Rightarrow> 'a \<Rightarrow> nat" where
  "find_bucket h e = unat (h_hash h e AND word_of_nat (bucket_cnt h - 1))"

fun find_elem :: "'a hash \<Rightarrow> 'a list \<Rightarrow> 'a \<Rightarrow> 'a option" where
  "find_elem h [] e = None"
| "find_elem h (hi # his) e = (if \<not> h_less h hi e \<and> \<not> h_less h e hi then Some hi else find_elem h his e)"

definition insert_elem :: "'a hash \<Rightarrow> nat \<Rightarrow> 'a \<Rightarrow> 'a hash" where
  "insert_elem h i e = h\<lparr>elem_cnt := (elem_cnt h + 1) mod 2 ^ 32, buckets := (buckets h)[i := e # buckets h ! i]\<rparr>"

definition remove_elem :: "'a hash \<Rightarrow> 'a \<Rightarrow> 'a hash" where
  "remove_elem h e = h\<lparr>elem_cnt := (elem_cnt h + 2 ^ 32 - 1) mod 2 ^ 32, buckets := map (remove1 e) (buckets h)\<rparr>"

section \<open>Rehashing\<close>

definition turn_off_least_1bit :: "nat \<Rightarrow> nat" where
  "turn_off_least_1bit x = x AND (x - 1)"

definition is_power_of_2 :: "nat \<Rightarrow> bool" where
  "is_power_of_2 x \<longleftrightarrow> x \<noteq> 0 \<and> turn_off_least_1bit x = 0"

partial_function (option) pow2_loop :: "nat \<Rightarrow> nat option" where
  "pow2_loop n = (if is_power_of_2 n then Some n else pow2_loop (turn_off_least_1bit n))"

fun move_elems :: "'a list \<Rightarrow> 'a hash \<Rightarrow> 'a hash" where
  "move_elems [] h = h"
| "move_elems (e # es) h = (let i = find_bucket h e in move_elems es (h\<lparr>buckets := (buckets h)[i := e # buckets h ! i]\<rparr>))"

definition rehash :: "bool \<Rightarrow> 'a hash \<Rightarrow> 'a hash option" where
  "rehash allocated h = do {
     let n = elem_cnt h div 2;
     n \<leftarrow> pow2_loop (if n < 4 then 4 else n);
     if n = bucket_cnt h then Some h
     else if \<not> allocated then Some h
     else Some (move_elems (concat (buckets h)) (h\<lparr>buckets := replicate n [], bucket_cnt := n\<rparr>)) }"

section \<open>Operations\<close>

definition hash_insert :: "bool \<Rightarrow> 'a hash \<Rightarrow> 'a \<Rightarrow> ('a option \<times> 'a hash) option" where
  "hash_insert allocated h new = do {
     let bucket = find_bucket h new;
     let old = find_elem h (buckets h ! bucket) new;
     let h = (if old = None then insert_elem h bucket new else h);
     h \<leftarrow> rehash allocated h;
     Some (old, h) }"

definition hash_replace :: "bool \<Rightarrow> 'a hash \<Rightarrow> 'a \<Rightarrow> ('a option \<times> 'a hash) option" where
  "hash_replace allocated h new = do {
     let bucket = find_bucket h new;
     let old = find_elem h (buckets h ! bucket) new;
     let h = (case old of Some e \<Rightarrow> remove_elem h e | None \<Rightarrow> h);
     let h = insert_elem h bucket new;
     h \<leftarrow> rehash allocated h;
     Some (old, h) }"

definition hash_find :: "'a hash \<Rightarrow> 'a \<Rightarrow> 'a option" where
  "hash_find h e = find_elem h (buckets h ! find_bucket h e) e"

definition hash_delete :: "bool \<Rightarrow> 'a hash \<Rightarrow> 'a \<Rightarrow> ('a option \<times> 'a hash) option" where
  "hash_delete allocated h e =
     (case hash_find h e of None \<Rightarrow> Some (None, h)
      | Some found \<Rightarrow> do { h \<leftarrow> rehash allocated (remove_elem h found); Some (Some found, h) })"

definition hash_apply :: "('a \<Rightarrow> 'b \<Rightarrow> 'b) \<Rightarrow> 'a hash \<Rightarrow> 'b \<Rightarrow> 'b" where
  "hash_apply action h st = fold action (concat (buckets h)) st"

definition hash_size :: "'a hash \<Rightarrow> nat" where "hash_size h = elem_cnt h"
definition hash_empty :: "'a hash \<Rightarrow> bool" where "hash_empty h \<longleftrightarrow> elem_cnt h = 0"

text \<open>
  An iterator is a bucket and a position in it, 0 for the list head that \<open>hash_first\<close> starts at
  and \<open>k + 1\<close> for the element number \<open>k\<close>; no position once it is past the last bucket.
\<close>

record hash_iterator =
  it_bucket :: nat
  it_pos :: "nat option"

definition hash_first :: "hash_iterator" where
  "hash_first = \<lparr>it_bucket = 0, it_pos = Some 0\<rparr>"

definition hash_cur :: "'a hash \<Rightarrow> hash_iterator \<Rightarrow> 'a option" where
  "hash_cur h i = (case it_pos i of Some (Suc k) \<Rightarrow> Some (buckets h ! it_bucket i ! k) | _ \<Rightarrow> None)"

function next_loop :: "'a hash \<Rightarrow> nat \<Rightarrow> nat \<Rightarrow> hash_iterator" where
  "next_loop h b pos =
     (if pos = length (buckets h ! b) + 1 then
        if b + 1 \<ge> bucket_cnt h then \<lparr>it_bucket = b + 1, it_pos = None\<rparr>
        else next_loop h (b + 1) 1
      else \<lparr>it_bucket = b, it_pos = Some pos\<rparr>)"
  by pat_completeness auto
termination by (relation "measure (\<lambda>(h, b, pos). bucket_cnt h - b)") auto

declare next_loop.simps [simp del]

definition hash_next :: "'a hash \<Rightarrow> hash_iterator \<Rightarrow> (hash_iterator \<times> 'a option) option" where
  "hash_next h i = do {
     pos \<leftarrow> it_pos i;
     let i = next_loop h (it_bucket i) (pos + 1);
     Some (i, hash_cur h i) }"

section \<open>The number of buckets\<close>

lemma bit_le: "bit (n::nat) k \<Longrightarrow> 2 ^ k \<le> n"
proof (rule ccontr)
  assume "bit n k" and "\<not> 2 ^ k \<le> n"
  then have "n div 2 ^ k = 0" by simp
  with \<open>bit n k\<close> show False by (simp add: bit_nat_def)
qed

lemma bit_top: "2 ^ k \<le> (n::nat) \<Longrightarrow> n < 2 ^ (k + 1) \<Longrightarrow> bit n k"
proof -
  assume "2 ^ k \<le> n" "n < 2 ^ (k + 1)"
  then have "n div 2 ^ k = 1" by (intro div_nat_eqI) simp_all
  then show ?thesis by (simp add: bit_nat_def)
qed

lemma and_le_nat: "(a::nat) AND b \<le> b"
proof -
  have "int (a AND b) \<le> int b" unfolding of_nat_and_eq by (rule AND_upper2) simp
  then show ?thesis by simp
qed

lemma turn_off_pow2: "turn_off_least_1bit (2 ^ k) = 0"
proof -
  have "turn_off_least_1bit (2 ^ k) = take_bit k (2 ^ k)"
    by (simp add: turn_off_least_1bit_def take_bit_eq_mask mask_eq_exp_minus_1)
  then show ?thesis by simp
qed

lemma turn_off_between:
  assumes "2 ^ k < n" and "n < 2 ^ (k + 1)"
  shows "2 ^ k \<le> turn_off_least_1bit n \<and> turn_off_least_1bit n < n"
proof -
  have "bit n k" "bit (n - 1) k" using assms by (intro bit_top; simp)+
  then have "bit (turn_off_least_1bit n) k" by (simp add: turn_off_least_1bit_def bit_and_iff)
  moreover have "turn_off_least_1bit n \<le> n - 1" unfolding turn_off_least_1bit_def by (rule and_le_nat)
  ultimately show ?thesis using assms bit_le by force
qed

lemma pow2_loop_ok: "2 ^ k \<le> n \<Longrightarrow> n < 2 ^ (k + 1) \<Longrightarrow> pow2_loop n = Some (2 ^ k)"
proof (induction n rule: less_induct)
  case (less n)
  show ?case
  proof (cases "n = 2 ^ k")
    case True
    then show ?thesis by (subst pow2_loop.simps) (simp add: is_power_of_2_def turn_off_pow2)
  next
    case False
    then have t: "2 ^ k \<le> turn_off_least_1bit n" "turn_off_least_1bit n < n" using turn_off_between [of k n] less.prems by auto
    then have "turn_off_least_1bit n \<noteq> 0" by (metis le_zero_eq power_not_zero zero_neq_numeral)
    then have "pow2_loop n = pow2_loop (turn_off_least_1bit n)" by (subst pow2_loop.simps) (simp add: is_power_of_2_def)
    then show ?thesis using less.IH [OF t(2,1)] t(2) less.prems(2) by simp
  qed
qed

lemma pow2_between: "0 < (n::nat) \<Longrightarrow> \<exists>k. 2 ^ k \<le> n \<and> n < 2 ^ (k + 1)"
proof (induction n)
  case (Suc n)
  show ?case
  proof (cases "n = 0")
    case True
    then show ?thesis by (intro exI [of _ 0]) simp
  next
    case False
    with Suc obtain k where k: "2 ^ k \<le> n" "n < 2 ^ (k + 1)" by auto
    show ?thesis
    proof (cases "Suc n = 2 ^ (k + 1)")
      case True
      then show ?thesis by (intro exI [of _ "k + 1"]) simp
    next
      case False
      with k show ?thesis by (intro exI [of _ k]) simp
    qed
  qed
qed simp

lemma find_elem_Some:
  "find_elem h es e = Some x \<Longrightarrow> x \<in> set es \<and> \<not> h_less h x e \<and> \<not> h_less h e x"
  by (induction es) (auto split: if_splits)

lemma find_elem_None: "find_elem h es e = None \<longleftrightarrow> (\<forall>x\<in>set es. h_less h x e \<or> h_less h e x)"
  by (induction es) auto

section \<open>What the table needs of its keys\<close>

definition same_key :: "('a \<Rightarrow> 'a \<Rightarrow> bool) \<Rightarrow> 'a \<Rightarrow> 'a \<Rightarrow> bool" where
  "same_key lss x y \<longleftrightarrow> \<not> lss x y \<and> \<not> lss y x"

definition elems :: "'a hash \<Rightarrow> 'a set" where
  "elems h = set (concat (buckets h))"

definition table_shape :: "('a \<Rightarrow> 32 word) \<Rightarrow> ('a \<Rightarrow> 'a \<Rightarrow> bool) \<Rightarrow> 'a hash \<Rightarrow> bool" where
  "table_shape hsh lss h \<longleftrightarrow> h_hash h = hsh \<and> h_less h = lss \<and> (\<exists>k\<le>31. bucket_cnt h = 2 ^ k) \<and>
     length (buckets h) = bucket_cnt h \<and> (\<forall>i<bucket_cnt h. \<forall>e\<in>set (buckets h ! i). find_bucket h e = i)"

definition table_ok :: "('a \<Rightarrow> 32 word) \<Rightarrow> ('a \<Rightarrow> 'a \<Rightarrow> bool) \<Rightarrow> 'a hash \<Rightarrow> bool" where
  "table_ok hsh lss h \<longleftrightarrow> table_shape hsh lss h \<and> elem_cnt h = length (concat (buckets h)) \<and> elem_cnt h < 2 ^ 32 - 1 \<and>
     distinct (concat (buckets h)) \<and> (\<forall>x\<in>elems h. \<forall>y\<in>elems h. same_key lss x y \<longrightarrow> x = y)"

locale hash_keys =
  fixes hsh :: "'a \<Rightarrow> 32 word" and lss :: "'a \<Rightarrow> 'a \<Rightarrow> bool"
  assumes irrefl: "\<not> lss x x"
    and eq_trans: "\<not> lss x y \<Longrightarrow> \<not> lss y x \<Longrightarrow> \<not> lss y z \<Longrightarrow> \<not> lss z y \<Longrightarrow> \<not> lss x z \<and> \<not> lss z x"
    and eq_hash: "\<not> lss x y \<Longrightarrow> \<not> lss y x \<Longrightarrow> hsh x = hsh y"
begin

abbreviation same :: "'a \<Rightarrow> 'a \<Rightarrow> bool" where "same \<equiv> same_key lss"
abbreviation shape :: "'a hash \<Rightarrow> bool" where "shape \<equiv> table_shape hsh lss"
abbreviation ok :: "'a hash \<Rightarrow> bool" where "ok \<equiv> table_ok hsh lss"

lemma okD:
  assumes "ok h"
  shows "shape h" "elem_cnt h = length (concat (buckets h))" "elem_cnt h < 2 ^ 32 - 1" "elem_cnt h < 2 ^ 32"
    "distinct (concat (buckets h))" "\<forall>x\<in>elems h. \<forall>y\<in>elems h. same x y \<longrightarrow> x = y"
proof -
  show "elem_cnt h < 2 ^ 32 - 1" using assms unfolding table_ok_def by blast
  then show "elem_cnt h < 2 ^ 32" by simp
qed (use assms in \<open>unfold table_ok_def, blast\<close>)+

lemma find_bucket_less:
  assumes "shape h"
  shows "find_bucket h e < bucket_cnt h"
proof -
  obtain k where k: "k \<le> 31" "bucket_cnt h = 2 ^ k" using assms by (auto simp: table_shape_def)
  have "(2::nat) ^ k \<le> 2 ^ 31" using k(1) by (intro power_increasing) simp_all
  then have b: "bucket_cnt h \<le> 2 ^ 31" "0 < bucket_cnt h" using k(2) by simp_all
  have "bucket_cnt h - 1 < 2 ^ 32" using b by simp
  then have "unat (word_of_nat (bucket_cnt h - 1) :: 32 word) = bucket_cnt h - 1"
    by (simp only: unsigned_of_nat len_num0 len_num1 len_bit0 take_bit_nat_eq_self) (simp add: take_bit_nat_eq_self)
  moreover have "unat (h_hash h e AND word_of_nat (bucket_cnt h - 1)) \<le> unat (word_of_nat (bucket_cnt h - 1) :: 32 word)"
    unfolding unsigned_and_eq by (rule and_le_nat)
  ultimately show ?thesis using b(2) unfolding find_bucket_def by linarith
qed

lemma find_bucket_cong: "h_hash h' = h_hash h \<Longrightarrow> bucket_cnt h' = bucket_cnt h \<Longrightarrow> find_bucket h' e = find_bucket h e"
  by (simp add: find_bucket_def)

lemma find_bucket_same: "shape h \<Longrightarrow> same x y \<Longrightarrow> find_bucket h x = find_bucket h y"
  using eq_hash [of x y] by (simp add: find_bucket_def table_shape_def same_key_def)

lemma elems_mem: "shape h \<Longrightarrow> x \<in> elems h \<longleftrightarrow> x \<in> set (buckets h ! find_bucket h x)"
  using find_bucket_less [of h x] by (auto simp: elems_def table_shape_def in_set_conv_nth) (metis nth_mem)+

lemma find_spec:
  assumes h: "shape h"
  shows "case hash_find h e of Some x \<Rightarrow> x \<in> elems h \<and> same x e | None \<Rightarrow> \<forall>x\<in>elems h. \<not> same x e"
proof (cases "hash_find h e")
  case (Some x)
  then have "x \<in> set (buckets h ! find_bucket h e)" "same x e"
    using find_elem_Some h by (fastforce simp: hash_find_def same_key_def table_shape_def)+
  then show ?thesis using Some find_bucket_less [OF h, of e] h by (auto simp: elems_def table_shape_def)
next
  case None
  then have n: "\<forall>x\<in>set (buckets h ! find_bucket h e). \<not> same x e"
    using h by (auto simp: hash_find_def find_elem_None same_key_def table_shape_def)
  have "\<not> same x e" if "x \<in> elems h" for x
    using that n elems_mem [OF h] find_bucket_same [OF h] by auto
  then show ?thesis using None by simp
qed

lemma concat_update_mset:
  "i < length xss \<Longrightarrow> mset (concat (xss[i := x # xss ! i])) = add_mset x (mset (concat xss))"
proof (induction xss arbitrary: i)
  case (Cons xs xss)
  then show ?case by (cases i) simp_all
qed simp

lemma shape_insert:
  assumes h: "shape h" and i: "i = find_bucket h e"
  shows "shape (h\<lparr>elem_cnt := c, buckets := (buckets h)[i := e # buckets h ! i]\<rparr>)"
    and "mset (concat ((buckets h)[i := e # buckets h ! i])) = add_mset e (mset (concat (buckets h)))"
proof -
  let ?h = "h\<lparr>elem_cnt := c, buckets := (buckets h)[i := e # buckets h ! i]\<rparr>"
  have fb: "find_bucket ?h x = find_bucket h x" for x by (rule find_bucket_cong) simp_all
  have "find_bucket ?h x = j" if j: "j < bucket_cnt h" and x: "x \<in> set (buckets ?h ! j)" for j x
  proof (cases "j = i")
    case True
    then have "x = e \<or> x \<in> set (buckets h ! i)" using x j h by (auto simp: table_shape_def)
    then show ?thesis using h i j True fb by (auto simp: table_shape_def)
  next
    case False
    then show ?thesis using x j h fb by (auto simp: table_shape_def)
  qed
  then show "shape ?h" using h by (simp add: table_shape_def)
  show "mset (concat ((buckets h)[i := e # buckets h ! i])) = add_mset e (mset (concat (buckets h)))"
    using find_bucket_less [OF h, of e] h i by (intro concat_update_mset) (simp add: table_shape_def)
qed

lemma move_elems_ok:
  "shape h \<Longrightarrow> shape (move_elems es h) \<and> mset (concat (buckets (move_elems es h))) = mset es + mset (concat (buckets h)) \<and>
    elem_cnt (move_elems es h) = elem_cnt h"
proof (induction es arbitrary: h)
  case (Cons e es)
  let ?h = "h\<lparr>buckets := (buckets h)[find_bucket h e := e # buckets h ! find_bucket h e]\<rparr>"
  have "?h = h\<lparr>elem_cnt := elem_cnt h, buckets := (buckets h)[find_bucket h e := e # buckets h ! find_bucket h e]\<rparr>" by simp
  then have s: "shape ?h" "mset (concat (buckets ?h)) = add_mset e (mset (concat (buckets h)))"
    using shape_insert(1) [OF Cons.prems refl, where c = "elem_cnt h" and e = e] shape_insert(2) [OF Cons.prems refl, of e] by simp_all
  show ?case using Cons.IH [OF s(1)] s(2) by (simp add: Let_def)
qed simp

lemma rehash_ok:
  assumes h: "shape h" and c: "elem_cnt h < 2 ^ 32"
  shows "\<exists>h'. rehash a h = Some h' \<and> shape h' \<and> mset (concat (buckets h')) = mset (concat (buckets h)) \<and> elem_cnt h' = elem_cnt h"
proof -
  let ?n = "if elem_cnt h div 2 < 4 then 4 else elem_cnt h div 2"
  have "0 < ?n" by simp
  then obtain k where k: "2 ^ k \<le> ?n" "?n < 2 ^ (k + 1)" using pow2_between [of ?n] by blast
  have "elem_cnt h div 2 < 2 ^ 31" using c by (simp add: div_less_iff_less_mult)
  then have "?n < 2 ^ 31" by simp
  then have "(2::nat) ^ k < 2 ^ 31" using k(1) by linarith
  then have k31: "k \<le> 31" using power_less_imp_less_exp [of "2::nat" k 31] by simp
  have p: "pow2_loop ?n = Some (2 ^ k)" by (rule pow2_loop_ok [OF k])
  let ?h = "h\<lparr>buckets := replicate (2 ^ k) [], bucket_cnt := 2 ^ k\<rparr>"
  have s: "shape ?h" using h k31 by (auto simp: table_shape_def)
  have "rehash a h = Some (if 2 ^ k = bucket_cnt h \<or> \<not> a then h else move_elems (concat (buckets h)) ?h)"
    using p by (simp add: rehash_def Let_def)
  then show ?thesis using move_elems_ok [OF s, of "concat (buckets h)"] h by auto
qed

lemma ok_from_mset:
  assumes "shape h'" and "mset (concat (buckets h')) = mset (concat (buckets h))" and "elem_cnt h' = elem_cnt h"
    and "elem_cnt h = length (concat (buckets h))" and "elem_cnt h < 2 ^ 32 - 1" and "distinct (concat (buckets h))"
    and "\<forall>x\<in>elems h. \<forall>y\<in>elems h. same x y \<longrightarrow> x = y"
  shows "ok h' \<and> elems h' = elems h"
proof -
  have "elems h' = elems h" unfolding elems_def by (metis assms(2) set_mset_mset)
  moreover have "length (concat (buckets h')) = length (concat (buckets h))" by (metis assms(2) size_mset)
  moreover have "distinct (concat (buckets h'))" by (metis assms(2,6) mset_eq_imp_distinct_iff)
  ultimately show ?thesis using assms by (simp add: table_ok_def)
qed

lemma insert_ok:
  assumes h: "ok h" and e: "\<forall>x\<in>elems h. \<not> same x e" and c: "elem_cnt h < 2 ^ 32 - 2"
  shows "\<exists>h'. rehash a (insert_elem h (find_bucket h e) e) = Some h' \<and> ok h' \<and> elems h' = insert e (elems h)"
proof -
  let ?h = "insert_elem h (find_bucket h e) e"
  have sh: "shape h" using h by (simp add: table_ok_def)
  have s: "shape ?h" "mset (concat (buckets ?h)) = add_mset e (mset (concat (buckets h)))"
    using shape_insert(1) [OF sh refl, where c = "(elem_cnt h + 1) mod 2 ^ 32" and e = e] shape_insert(2) [OF sh refl, of e] by (simp_all add: insert_elem_def)
  have cnt: "elem_cnt ?h = elem_cnt h + 1" using c by (simp add: insert_elem_def)
  have el: "elems ?h = insert e (elems h)"
  proof -
    have "set_mset (mset (concat (buckets ?h))) = insert e (set_mset (mset (concat (buckets h))))" unfolding s(2) by simp
    then show ?thesis by (simp only: elems_def set_mset_mset)
  qed
  have len: "length (concat (buckets ?h)) = Suc (length (concat (buckets h)))" using s(2) by (metis size_add_mset size_mset)
  have ne: "e \<notin> elems h" using e irrefl by (auto simp: same_key_def)
  have "distinct (e # concat (buckets h))" using h ne by (simp add: table_ok_def elems_def)
  then have di: "distinct (concat (buckets ?h))" by (metis s(2) mset.simps(2) mset_eq_imp_distinct_iff)
  have un: "\<forall>x\<in>elems ?h. \<forall>y\<in>elems ?h. same x y \<longrightarrow> x = y"
    using h e unfolding el by (auto simp: table_ok_def same_key_def)
  obtain h' where h': "rehash a ?h = Some h'" "shape h'" "mset (concat (buckets h')) = mset (concat (buckets ?h))"
    "elem_cnt h' = elem_cnt ?h" using rehash_ok [OF s(1), of a] cnt c by auto
  have "ok h' \<and> elems h' = elems ?h"
    by (rule ok_from_mset [OF h'(2-4) _ _ di un]) (use cnt len h c in \<open>auto simp: table_ok_def\<close>)
  then show ?thesis using h' el by blast
qed

lemma removeAll_concat: "concat (map (removeAll e) xss) = removeAll e (concat xss)"
  by (induction xss) simp_all

lemma remove_ok:
  assumes h: "ok h" and e: "e \<in> elems h"
  shows "ok (remove_elem h e)" "elems (remove_elem h e) = elems h - {e}" "elem_cnt (remove_elem h e) = elem_cnt h - 1"
    "find_bucket (remove_elem h e) x = find_bucket h x"
proof -
  let ?h = "remove_elem h e"
  have sh: "shape h" and d: "distinct (concat (buckets h))" using h by (simp_all add: table_ok_def)
  have "map (remove1 e) (buckets h) = map (removeAll e) (buckets h)"
    using d by (intro map_cong refl distinct_remove1_removeAll) (simp add: distinct_concat_iff)
  then have "concat (map (remove1 e) (buckets h)) = remove1 e (concat (buckets h))"
    by (simp only: removeAll_concat distinct_remove1_removeAll [OF d])
  then have bs: "mset (concat (buckets ?h)) = mset (concat (buckets h)) - {#e#}" by (simp add: remove_elem_def)
  show fb: "find_bucket ?h x = find_bucket h x" for x by (rule find_bucket_cong) (simp_all add: remove_elem_def)
  have s: "shape ?h" using sh fb by (auto simp: table_shape_def remove_elem_def dest: notin_set_remove1 [rotated] in_set_remove1 [THEN iffD1, rotated] set_remove1_subset [THEN subsetD])
  have mem: "e \<in># mset (concat (buckets h))" using e by (simp add: elems_def)
  have "mset (e # concat (buckets ?h)) = mset (concat (buckets h))" using mem by (simp add: bs)
  then have di: "distinct (e # concat (buckets ?h))" and len: "Suc (length (concat (buckets ?h))) = length (concat (buckets h))"
    and st: "insert e (elems ?h) = elems h"
    by (metis d mset_eq_imp_distinct_iff, metis length_Cons size_mset, metis elems_def list.simps(15) set_mset_mset)
  show el: "elems ?h = elems h - {e}" using st di by (auto simp: elems_def)
  have pos: "0 < elem_cnt h" "elem_cnt h < 2 ^ 32" using okD(2,4) [OF h] len by linarith+
  have wrap: "(c + 2 ^ 32 - 1) mod 2 ^ 32 = c - 1" if "0 < c" "c < 2 ^ 32" for c :: nat
    using that by (cases c) simp_all
  show cnt: "elem_cnt ?h = elem_cnt h - 1" unfolding remove_elem_def wrap [OF pos] by simp
  show "ok ?h" using s cnt len di h el by (auto simp: table_ok_def)
qed

lemma find_None_iff: "shape h \<Longrightarrow> hash_find h e = None \<longleftrightarrow> (\<forall>x\<in>elems h. \<not> same x e)"
  using find_spec [of h e] by (cases "hash_find h e") auto

lemma find_Some_only:
  assumes "ok h" and "hash_find h e = Some x"
  shows "x \<in> elems h" "\<forall>y\<in>elems h. same y e \<longleftrightarrow> y = x"
proof -
  have x: "x \<in> elems h" "same x e" using find_spec [OF okD(1) [OF assms(1)], of e] assms(2) by simp_all
  then show "x \<in> elems h" by simp
  have "y = x" if "y \<in> elems h" "same y e" for y
  proof -
    have "same y x" using eq_trans [of y e x] that(2) x(2) unfolding same_key_def by blast
    then show ?thesis using okD(6) [OF assms(1)] that(1) x(1) by blast
  qed
  then show "\<forall>y\<in>elems h. same y e \<longleftrightarrow> y = x" using x by blast
qed

lemma rehash_table:
  assumes "ok h"
  shows "\<exists>h'. rehash a h = Some h' \<and> ok h' \<and> elems h' = elems h"
proof -
  obtain h' where h': "rehash a h = Some h'" "shape h'" "mset (concat (buckets h')) = mset (concat (buckets h))" "elem_cnt h' = elem_cnt h"
    using rehash_ok [OF okD(1,4) [OF assms], of a] by blast
  have "ok h' \<and> elems h' = elems h"
    by (rule ok_from_mset [OF h'(2-4) okD(2,3,5,6) [OF assms]])
  then show ?thesis using h' by blast
qed

lemma hash_insert_ok:
  assumes h: "ok h" and c: "elem_cnt h < 2 ^ 32 - 2"
  shows "\<exists>h'. hash_insert a h e = Some (hash_find h e, h') \<and> ok h' \<and>
    elems h' = (if hash_find h e = None then insert e (elems h) else elems h)"
proof (cases "hash_find h e = None")
  case True
  then have "\<forall>x\<in>elems h. \<not> same x e" using find_None_iff [OF okD(1) [OF h]] by simp
  then show ?thesis using insert_ok [OF h _ c, of e a] True by (auto simp: hash_insert_def hash_find_def Let_def)
next
  case False
  then show ?thesis using rehash_table [OF h, of a] by (auto simp: hash_insert_def hash_find_def Let_def)
qed

lemma hash_replace_ok:
  assumes h: "ok h" and c: "elem_cnt h < 2 ^ 32 - 2"
  shows "\<exists>h'. hash_replace a h e = Some (hash_find h e, h') \<and> ok h' \<and> elems h' = insert e {x \<in> elems h. \<not> same x e}"
proof (cases "hash_find h e")
  case None
  then have n: "\<forall>x\<in>elems h. \<not> same x e" using find_None_iff [OF okD(1) [OF h]] by simp
  then have "{x \<in> elems h. \<not> same x e} = elems h" by auto
  then show ?thesis using insert_ok [OF h n c, of a] None by (auto simp: hash_replace_def hash_find_def Let_def)
next
  case (Some x)
  note x = find_Some_only [OF h Some]
  note r = remove_ok [OF h x(1)]
  have e: "\<forall>y\<in>elems (remove_elem h x). \<not> same y e" using x r(2) by auto
  have c': "elem_cnt (remove_elem h x) < 2 ^ 32 - 2" using c r(3) by linarith
  have "{y \<in> elems h. \<not> same y e} = elems (remove_elem h x)" using x r(2) by auto
  then obtain h' where "rehash a (insert_elem (remove_elem h x) (find_bucket h e) e) = Some h'" "ok h'"
    "elems h' = insert e {y \<in> elems h. \<not> same y e}"
    using insert_ok [OF r(1) e, of a] c' unfolding r(4) by auto
  then show ?thesis using Some by (simp add: hash_replace_def hash_find_def Let_def)
qed

lemma hash_delete_ok:
  assumes h: "ok h"
  shows "\<exists>h'. hash_delete a h e = Some (hash_find h e, h') \<and> ok h' \<and> elems h' = {x \<in> elems h. \<not> same x e}"
proof (cases "hash_find h e")
  case None
  then have "\<forall>x\<in>elems h. \<not> same x e" using find_None_iff [OF okD(1) [OF h]] by simp
  then have "{x \<in> elems h. \<not> same x e} = elems h" by auto
  then show ?thesis using None h by (auto simp: hash_delete_def)
next
  case (Some x)
  note x = find_Some_only [OF h Some]
  note r = remove_ok [OF h x(1)]
  have "{y \<in> elems h. \<not> same y e} = elems (remove_elem h x)" using x r(2) by auto
  then show ?thesis using rehash_table [OF r(1), of a] Some by (auto simp: hash_delete_def)
qed

end

interpretation int_keys: hash_keys hash_int "\<lambda>x y. x <s y"
  by unfold_locales (auto simp: word_sless_alt not_less dest!: antisym intro: arg_cong [of _ _ hash_int] simp: signed_word_eqI)

section \<open>Iteration\<close>

text \<open>The iteration idiom of the comment at \<open>hash_first\<close>, cut off after \<open>n\<close> steps.\<close>

fun hash_iterate :: "nat \<Rightarrow> 'a hash \<Rightarrow> hash_iterator \<Rightarrow> 'a list option" where
  "hash_iterate 0 h i = None"
| "hash_iterate (Suc n) h i = do {
     (i, e) \<leftarrow> hash_next h i;
     (case e of None \<Rightarrow> Some [] | Some x \<Rightarrow> do { xs \<leftarrow> hash_iterate n h i; Some (x # xs) }) }"

definition it_rest :: "'a hash \<Rightarrow> nat \<Rightarrow> nat \<Rightarrow> 'a list" where
  "it_rest h b k = drop k (buckets h ! b) @ concat (drop (Suc b) (buckets h))"

lemma it_rest_simps:
  "k < length (buckets h ! b) \<Longrightarrow> it_rest h b k = buckets h ! b ! k # it_rest h b (Suc k)"
  "Suc b < length (buckets h) \<Longrightarrow> it_rest h b (length (buckets h ! b)) = it_rest h (Suc b) 0"
  "Suc b \<ge> length (buckets h) \<Longrightarrow> it_rest h b (length (buckets h ! b)) = []"
  by (simp_all add: it_rest_def Cons_nth_drop_Suc [symmetric])

lemma next_loop_ok:
  assumes "bucket_cnt h = length (buckets h)" and "b < bucket_cnt h" and "k \<le> length (buckets h ! b)"
  shows "(it_rest h b k = [] \<and> it_pos (next_loop h b (Suc k)) = None) \<or>
    (\<exists>b' k'. next_loop h b (Suc k) = \<lparr>it_bucket = b', it_pos = Some (Suc k')\<rparr> \<and> b' < bucket_cnt h \<and>
      k' < length (buckets h ! b') \<and> it_rest h b k = it_rest h b' k')"
  using assms
proof (induction "bucket_cnt h - b" arbitrary: b k)
  case (Suc d)
  show ?case
  proof (cases "k = length (buckets h ! b)")
    case True
    show ?thesis
    proof (cases "Suc b < bucket_cnt h")
      case more: True
      have "next_loop h b (Suc k) = next_loop h (Suc b) (Suc 0)"
        using True more by (subst next_loop.simps) simp
      then show ?thesis using Suc.hyps(1) [of "Suc b" 0] Suc.hyps(2) Suc.prems more it_rest_simps(2) [of b h] True by simp
    next
      case False
      then have "next_loop h b (Suc k) = \<lparr>it_bucket = b + 1, it_pos = None\<rparr>"
        using True by (subst next_loop.simps) simp
      then show ?thesis using False True it_rest_simps(3) [of h b] Suc.prems(1) by simp
    qed
  next
    case False
    then have "next_loop h b (Suc k) = \<lparr>it_bucket = b, it_pos = Some (Suc k)\<rparr>" by (subst next_loop.simps) simp
    then show ?thesis using False Suc.prems by auto
  qed
qed simp

lemma hash_iterate_ok:
  assumes c: "bucket_cnt h = length (buckets h)" and "b < bucket_cnt h" and "k \<le> length (buckets h ! b)"
    and "length (it_rest h b k) < n"
  shows "hash_iterate n h \<lparr>it_bucket = b, it_pos = Some k\<rparr> = Some (it_rest h b k)"
  using assms(2-)
proof (induction n arbitrary: b k)
  case (Suc n)
  from next_loop_ok [OF c Suc.prems(1,2)] show ?case
  proof (elim disjE exE conjE)
    assume "it_rest h b k = []" "it_pos (next_loop h b (Suc k)) = None"
    then show ?thesis by (simp add: hash_next_def hash_cur_def)
  next
    fix b' k' assume n: "next_loop h b (Suc k) = \<lparr>it_bucket = b', it_pos = Some (Suc k')\<rparr>"
      and b: "b' < bucket_cnt h" and k: "k' < length (buckets h ! b')" and r: "it_rest h b k = it_rest h b' k'"
    have e: "it_rest h b k = buckets h ! b' ! k' # it_rest h b' (Suc k')" using r it_rest_simps(1) [OF k] by simp
    have "hash_iterate n h \<lparr>it_bucket = b', it_pos = Some (Suc k')\<rparr> = Some (it_rest h b' (Suc k'))"
      using Suc.IH [OF b, of "Suc k'"] k e Suc.prems(3) by simp
    then show ?thesis using n e by (simp add: hash_next_def hash_cur_def)
  qed
qed simp

section \<open>Properties\<close>

text \<open>
  C27. A hash table is the set of its elements, up to the equality that its two functions give:
  \<open>hash_find\<close> returns the element equal to its argument exactly when there is one, \<open>hash_insert\<close>
  adds the new element unless there is one, \<open>hash_replace\<close> puts the new one in its place and
  \<open>hash_delete\<close> takes it out, each returning the old one; the table stays well formed, whether
  or not the allocator gives memory to the rehash.
\<close>

theorem hash_refines_set:
  assumes "hash_keys hsh lss" and "table_ok hsh lss h" and "elem_cnt h < 2 ^ 32 - 2"
  shows "(case hash_find h e of Some x \<Rightarrow> x \<in> elems h \<and> same_key lss x e
      | None \<Rightarrow> {x \<in> elems h. same_key lss x e} = {}) \<and>
    (\<exists>h'. hash_insert a h e = Some (hash_find h e, h') \<and> table_ok hsh lss h' \<and>
      elems h' = (if hash_find h e = None then insert e (elems h) else elems h)) \<and>
    (\<exists>h'. hash_replace a h e = Some (hash_find h e, h') \<and> table_ok hsh lss h' \<and>
      elems h' = insert e {x \<in> elems h. \<not> same_key lss x e}) \<and>
    (\<exists>h'. hash_delete a h e = Some (hash_find h e, h') \<and> table_ok hsh lss h' \<and>
      elems h' = {x \<in> elems h. \<not> same_key lss x e})"
proof (intro conjI)
  have sh: "table_shape hsh lss h" using assms(2) by (simp add: table_ok_def)
  show "case hash_find h e of Some x \<Rightarrow> x \<in> elems h \<and> same_key lss x e
      | None \<Rightarrow> {x \<in> elems h. same_key lss x e} = {}"
    using hash_keys.find_spec [OF assms(1) sh, of e] by (auto split: option.splits)
qed (use hash_keys.hash_insert_ok [OF assms] hash_keys.hash_replace_ok [OF assms] hash_keys.hash_delete_ok [OF assms(1,2)] in \<open>blast+\<close>)

definition three_keys :: "32 word hash" where
  "three_keys = \<lparr>elem_cnt = 2, bucket_cnt = 4, buckets = [[], [1], [], [7]],
     h_hash = (\<lambda>i. i), h_less = (<)\<rparr>"

lemma three_keys_ok: "table_ok (\<lambda>i. i) (<) three_keys"
proof -
  have fb: "find_bucket three_keys e = unat (e AND 3)" for e by (simp add: find_bucket_def three_keys_def)
  have "\<forall>e\<in>set (buckets three_keys ! i). find_bucket three_keys e = i" if "i < 4" for i
  proof -
    have "i = 0 \<or> i = 1 \<or> i = 2 \<or> i = 3" using that by auto
    then show ?thesis unfolding fb by (elim disjE) (simp_all add: three_keys_def)
  qed
  moreover have "bucket_cnt three_keys = 4" "length (buckets three_keys) = 4" by (simp_all add: three_keys_def)
  moreover have "\<exists>k\<le>31. (4::nat) = 2 ^ k" by (rule exI [of _ 2]) simp
  ultimately have "table_shape (\<lambda>i. i) (<) three_keys"
    unfolding table_shape_def by (simp add: three_keys_def)
  moreover have "\<forall>x\<in>elems three_keys. \<forall>y\<in>elems three_keys. same_key (<) x y \<longrightarrow> x = y"
    by (auto simp: same_key_def)
  ultimately show ?thesis unfolding table_ok_def by (simp add: three_keys_def)
qed

lemma hash_refines_set_witness:
  "\<exists>h'. hash_replace True three_keys 7 = Some (Some 7, h') \<and> elems h' = {1, 7}"
proof -
  have k: "hash_keys (\<lambda>i::32 word. i) (<)" by unfold_locales auto
  have f: "hash_find three_keys 7 = Some 7" "elem_cnt three_keys < 2 ^ 32 - 2"
    by (simp_all add: hash_find_def find_bucket_def three_keys_def)
  have "insert 7 {x \<in> elems three_keys. \<not> same_key (<) x 7} = {1, 7}"
    by (auto simp: elems_def three_keys_def same_key_def)
  then show ?thesis using hash_refines_set [OF k three_keys_ok f(2), of 7 True] unfolding f(1) by auto
qed

text \<open>
  C28. The loop of \<open>rehash\<close> that clears low bits until one is left ends, for every number of
  elements, and gives the largest power of two that is not above it.
\<close>

theorem pow2_loop_returns:
  assumes "0 < n"
  shows "\<exists>k. pow2_loop n = Some (2 ^ k) \<and> 2 ^ k \<le> n \<and> n < 2 ^ (k + 1)"
  using pow2_between [OF assms] pow2_loop_ok by blast

lemma pow2_loop_returns_witness: "\<exists>k. pow2_loop 13 = Some (2 ^ k) \<and> 2 ^ k \<le> (13::nat) \<and> (13::nat) < 2 ^ (k + 1)"
  using pow2_loop_returns [of 13] by simp

text \<open>
  C29. The iteration idiom visits every element of the table exactly once, bucket after bucket,
  and then sees a null pointer.
\<close>

theorem hash_iterate_all:
  assumes "bucket_cnt h = length (buckets h)" and "0 < bucket_cnt h" and "length (concat (buckets h)) < n"
  shows "hash_iterate n h hash_first = Some (concat (buckets h))"
proof -
  have "it_rest h 0 0 = concat (buckets h)" using assms(1,2) by (cases "buckets h") (simp_all add: it_rest_def)
  then show ?thesis using hash_iterate_ok [OF assms(1,2), of 0 n] assms(3) by (simp add: hash_first_def)
qed

lemma hash_iterate_all_witness: "hash_iterate 3 three_keys hash_first = Some [1, 7]"
  using hash_iterate_all [of three_keys 3] by (simp add: three_keys_def)

end
