(* ===== verification/Stdlib_Ops.thy ===== *)
theory Stdlib_Ops
  imports String_Ops
begin

text \<open>
  \<open>lib/stdlib.c\<close>: the heap sort and the binary search over an array of \<open>cnt\<close> elements of
  \<open>size\<close> bytes, and \<open>atoi\<close>. An element is one HOL value, its \<open>size\<close> bytes, so an array
  is a list; the comparison function is an argument and \<open>aux\<close> is absorbed in it. Arrays lie in
  the kernel's gigabyte, so that \<open>2 * i + 1\<close> does not wrap around.
\<close>

section \<open>Sorting\<close>

definition do_swap :: "'a list \<Rightarrow> nat \<Rightarrow> nat \<Rightarrow> 'a list" where
  "do_swap xs a_idx b_idx = xs[a_idx - 1 := xs ! (b_idx - 1), b_idx - 1 := xs ! (a_idx - 1)]"

definition do_compare :: "('a \<Rightarrow> 'a \<Rightarrow> int) \<Rightarrow> 'a list \<Rightarrow> nat \<Rightarrow> nat \<Rightarrow> int" where
  "do_compare compare xs a_idx b_idx = compare (xs ! (a_idx - 1)) (xs ! (b_idx - 1))"

definition heap_max :: "('a \<Rightarrow> 'a \<Rightarrow> int) \<Rightarrow> 'a list \<Rightarrow> nat \<Rightarrow> nat \<Rightarrow> nat" where
  "heap_max compare xs i cnt =
     (let left = 2 * i;
          right = 2 * i + 1;
          mx = i;
          mx = (if left \<le> cnt \<and> do_compare compare xs left mx > 0 then left else mx);
          mx = (if right \<le> cnt \<and> do_compare compare xs right mx > 0 then right else mx)
      in mx)"

lemma heap_max_cases: "heap_max c xs i cnt \<noteq> i \<Longrightarrow> i < heap_max c xs i cnt \<and> heap_max c xs i cnt \<le> cnt"
  by (auto simp: heap_max_def Let_def split: if_splits)

function heapify :: "('a \<Rightarrow> 'a \<Rightarrow> int) \<Rightarrow> 'a list \<Rightarrow> nat \<Rightarrow> nat \<Rightarrow> 'a list" where
  "heapify compare xs i cnt =
     (let mx = heap_max compare xs i cnt
      in if mx = i then xs else heapify compare (do_swap xs i mx) mx cnt)"
  by pat_completeness auto
termination
  by (relation "measure (\<lambda>(c, xs, i, cnt). cnt - i)") (use heap_max_cases in \<open>fastforce+\<close>)

declare heapify.simps [simp del]

fun build_loop :: "('a \<Rightarrow> 'a \<Rightarrow> int) \<Rightarrow> 'a list \<Rightarrow> nat \<Rightarrow> nat \<Rightarrow> 'a list" where
  "build_loop compare xs cnt 0 = xs"
| "build_loop compare xs cnt (Suc i) = build_loop compare (heapify compare xs (Suc i) cnt) cnt i"

fun sort_loop :: "('a \<Rightarrow> 'a \<Rightarrow> int) \<Rightarrow> 'a list \<Rightarrow> nat \<Rightarrow> 'a list" where
  "sort_loop compare xs 0 = xs"
| "sort_loop compare xs (Suc i) =
     (if Suc i > 1 then sort_loop compare (heapify compare (do_swap xs 1 (Suc i)) 1 i) i else xs)"

definition sort_array :: "('a \<Rightarrow> 'a \<Rightarrow> int) \<Rightarrow> nat \<Rightarrow> 'a list \<Rightarrow> 'a list option" where
  "sort_array compare sz xs = do {
     _ \<leftarrow> ASSERT (sz > 0);
     let cnt = length xs;
     let xs = build_loop compare xs cnt (cnt div 2);
     Some (sort_loop compare xs cnt) }"

definition qsort :: "('a \<Rightarrow> 'a \<Rightarrow> int) \<Rightarrow> nat \<Rightarrow> 'a list \<Rightarrow> 'a list option" where
  "qsort compare sz xs = sort_array (\<lambda>a b. compare a b) sz xs"

section \<open>Searching\<close>

text \<open>The loop of \<open>binary_search\<close>, on indices; the result is the index of the element found.\<close>

function search_loop :: "('k \<Rightarrow> 'a \<Rightarrow> int) \<Rightarrow> 'k \<Rightarrow> 'a list \<Rightarrow> nat \<Rightarrow> nat \<Rightarrow> nat option" where
  "search_loop compare key xs fst_idx last_idx =
     (if fst_idx < last_idx then
        let range = last_idx - fst_idx;
            middle = fst_idx + range div 2;
            cmp = compare key (xs ! middle)
        in if cmp < 0 then search_loop compare key xs fst_idx middle
           else if cmp > 0 then search_loop compare key xs (middle + 1) last_idx
           else Some middle
      else None)"
  by pat_completeness auto
termination by (relation "measure (\<lambda>(c, k, xs, f, l). l - f)") auto

declare search_loop.simps [simp del]

definition binary_search :: "('k \<Rightarrow> 'a \<Rightarrow> int) \<Rightarrow> 'k \<Rightarrow> 'a list \<Rightarrow> nat option" where
  "binary_search compare key xs = search_loop compare key xs 0 (length xs)"

definition bsearch :: "('k \<Rightarrow> 'a \<Rightarrow> int) \<Rightarrow> 'k \<Rightarrow> 'a list \<Rightarrow> nat option" where
  "bsearch compare key xs = binary_search (\<lambda>a b. compare a b) key xs"

section \<open>Numbers\<close>

definition is_space :: "byte \<Rightarrow> bool" where
  "is_space c \<longleftrightarrow> c = 32 \<or> c = 12 \<or> c = 10 \<or> c = 13 \<or> c = 9 \<or> c = 11"

definition is_digit :: "byte \<Rightarrow> bool" where
  "is_digit c \<longleftrightarrow> c \<ge> 48 \<and> c \<le> 57"

partial_function (option) skip_space :: "addr \<Rightarrow> ram \<Rightarrow> addr option" where
  "skip_space s m = (if is_space (m s) then skip_space (s + 1) m else Some s)"

partial_function (option) digits_loop :: "addr \<Rightarrow> int \<Rightarrow> ram \<Rightarrow> int option" where
  "digits_loop s value m =
     (if is_digit (m s) then digits_loop (s + 1) (i32 (i32 (value * 10) - (uint (m s) - 48))) m else Some value)"

definition atoi :: "addr \<Rightarrow> ram \<Rightarrow> int option" where
  "atoi s m = do {
     _ \<leftarrow> ASSERT (s \<noteq> NULL);
     s \<leftarrow> skip_space s m;
     let negative = (m s = 45);
     let s = (if m s = 43 then s + 1 else if m s = 45 then s + 1 else s);
     value \<leftarrow> digits_loop s 0 m;
     Some (if \<not> negative then i32 (- value) else value) }"

lemma digits_loop_cstr:
  "cstr m s (ds @ rest) \<Longrightarrow> \<forall>d\<in>set ds. is_digit d \<Longrightarrow> (rest = [] \<or> \<not> is_digit (hd rest)) \<Longrightarrow>
    digits_loop s v m = Some (fold (\<lambda>d v. i32 (i32 (v * 10) - (uint d - 48))) ds v)"
proof (induction ds arbitrary: s v)
  case Nil
  then have "\<not> is_digit (m s)" by (cases rest) (auto simp: is_digit_def)
  then show ?case by (subst digits_loop.simps) simp
next
  case (Cons d ds)
  then have "m s = d" "cstr m (s + 1) (ds @ rest)" by simp_all
  then show ?case using Cons by (subst digits_loop.simps) simp
qed

section \<open>Permutations and bounds\<close>

lemma do_swap_length [simp]: "length (do_swap xs a b) = length xs"
  by (simp add: do_swap_def)

lemma do_swap_mset: "1 \<le> a \<Longrightarrow> a \<le> length xs \<Longrightarrow> 1 \<le> b \<Longrightarrow> b \<le> length xs \<Longrightarrow> mset (do_swap xs a b) = mset xs"
  unfolding do_swap_def by (rule mset_swap) linarith+

lemma do_swap_nth:
  "1 \<le> a \<Longrightarrow> a \<le> length xs \<Longrightarrow> 1 \<le> b \<Longrightarrow> b \<le> length xs \<Longrightarrow> 1 \<le> j \<Longrightarrow> j \<le> length xs \<Longrightarrow>
    do_swap xs a b ! (j - 1) = (if j = a then xs ! (b - 1) else if j = b then xs ! (a - 1) else xs ! (j - 1))"
  by (auto simp: do_swap_def nth_list_update)

lemma do_swap_drop: "a \<le> n \<Longrightarrow> b \<le> n \<Longrightarrow> 1 \<le> a \<Longrightarrow> 1 \<le> b \<Longrightarrow> drop n (do_swap xs a b) = drop n xs"
  by (simp add: do_swap_def)

lemma heapify_stop: "heap_max c xs i cnt = i \<Longrightarrow> heapify c xs i cnt = xs"
  by (subst heapify.simps) simp

lemma heapify_down:
  "heap_max c xs i cnt \<noteq> i \<Longrightarrow> heapify c xs i cnt = heapify c (do_swap xs i (heap_max c xs i cnt)) (heap_max c xs i cnt) cnt"
  by (subst heapify.simps) (simp add: Let_def)

lemma heapify_frame:
  "1 \<le> i \<Longrightarrow> cnt \<le> length xs \<Longrightarrow>
    mset (heapify c xs i cnt) = mset xs \<and> drop cnt (heapify c xs i cnt) = drop cnt xs"
proof (induction c xs i cnt rule: heapify.induct)
  case (1 c xs i cnt)
  show ?case
  proof (cases "heap_max c xs i cnt = i")
    case True
    then show ?thesis by (simp add: heapify_stop)
  next
    case False
    note m = heap_max_cases [OF False]
    have "mset (do_swap xs i (heap_max c xs i cnt)) = mset xs"
      "drop cnt (do_swap xs i (heap_max c xs i cnt)) = drop cnt xs"
      using m "1.prems" by (auto intro!: do_swap_mset do_swap_drop)
    then show ?thesis using "1.IH" [OF refl False] m "1.prems" by (simp add: heapify_down [OF False])
  qed
qed

lemma heapify_length: "1 \<le> i \<Longrightarrow> cnt \<le> length xs \<Longrightarrow> length (heapify c xs i cnt) = length xs"
  using heapify_frame by (metis size_mset)

section \<open>What a comparison function promises\<close>

locale comparator =
  fixes compare :: "'a \<Rightarrow> 'a \<Rightarrow> int"
  assumes sign: "compare x y < 0 \<longleftrightarrow> compare y x > 0"
    and trans: "compare x y \<le> 0 \<Longrightarrow> compare y z \<le> 0 \<Longrightarrow> compare x z \<le> 0"
begin

lemma flip: "compare x y > 0 \<Longrightarrow> compare y x \<le> 0" and le_cases: "compare x y \<le> 0 \<or> compare y x \<le> 0"
  and compare_refl: "compare x x \<le> 0"
  using sign [of x y] sign [of y x] sign [of x x] by linarith+

text \<open>Every element with a parent at \<open>lo\<close> or after is not above it; \<open>k\<close>'s children may be.\<close>

definition heap :: "nat \<Rightarrow> nat \<Rightarrow> 'a list \<Rightarrow> bool" where
  "heap lo cnt xs \<longleftrightarrow> (\<forall>j. 2 \<le> j \<longrightarrow> j \<le> cnt \<longrightarrow> lo \<le> j div 2 \<longrightarrow> compare (xs ! (j - 1)) (xs ! (j div 2 - 1)) \<le> 0)"

definition heap_except :: "nat \<Rightarrow> nat \<Rightarrow> nat \<Rightarrow> 'a list \<Rightarrow> bool" where
  "heap_except lo k cnt xs \<longleftrightarrow>
     (\<forall>j. 2 \<le> j \<longrightarrow> j \<le> cnt \<longrightarrow> lo \<le> j div 2 \<longrightarrow> j div 2 \<noteq> k \<longrightarrow> compare (xs ! (j - 1)) (xs ! (j div 2 - 1)) \<le> 0) \<and>
     (lo \<le> k div 2 \<longrightarrow> (\<forall>j\<le>cnt. j div 2 = k \<longrightarrow> compare (xs ! (j - 1)) (xs ! (k div 2 - 1)) \<le> 0))"

lemma heap_max_upper:
  fixes xs :: "'a list" and k cnt :: nat
  defines "e \<equiv> \<lambda>j. xs ! (j - 1)" and "m \<equiv> heap_max compare xs k cnt"
  shows "compare (e k) (e m) \<le> 0" "2 * k \<le> cnt \<Longrightarrow> compare (e (2 * k)) (e m) \<le> 0"
    "2 * k + 1 \<le> cnt \<Longrightarrow> compare (e (2 * k + 1)) (e m) \<le> 0" "m = k \<or> m div 2 = k"
proof -
  define m1 where "m1 = (if 2 * k \<le> cnt \<and> compare (e (2 * k)) (e k) > 0 then 2 * k else k)"
  have m: "m = (if 2 * k + 1 \<le> cnt \<and> compare (e (2 * k + 1)) (e m1) > 0 then 2 * k + 1 else m1)"
    unfolding m_def heap_max_def do_compare_def m1_def e_def Let_def by (rule refl)
  have k: "compare (e k) (e m1) \<le> 0" unfolding m1_def using flip compare_refl by auto
  have l: "compare (e (2 * k)) (e m1) \<le> 0" if "2 * k \<le> cnt" unfolding m1_def using that compare_refl by auto
  have s: "compare (e m1) (e m) \<le> 0" unfolding m using flip compare_refl by auto
  show "compare (e k) (e m) \<le> 0" by (rule trans [OF k s])
  show "compare (e (2 * k)) (e m) \<le> 0" if "2 * k \<le> cnt" by (rule trans [OF l [OF that] s])
  show "compare (e (2 * k + 1)) (e m) \<le> 0" if "2 * k + 1 \<le> cnt" unfolding m using that compare_refl by auto
  show "m = k \<or> m div 2 = k" unfolding m m1_def by auto
qed

lemma heap_max_child:
  "j \<le> cnt \<Longrightarrow> j div 2 = k \<Longrightarrow> compare (xs ! (j - 1)) (xs ! (heap_max compare xs k cnt - 1)) \<le> 0"
proof -
  assume j: "j \<le> cnt" "j div 2 = k"
  then have "j = 2 * k \<or> j = 2 * k + 1" by auto
  then show ?thesis using heap_max_upper(2,3) [of k cnt xs] j(1) by blast
qed

lemma exceptD:
  "heap_except lo k cnt xs \<Longrightarrow> 2 \<le> j \<Longrightarrow> j \<le> cnt \<Longrightarrow> lo \<le> j div 2 \<Longrightarrow> j div 2 \<noteq> k \<Longrightarrow>
    compare (xs ! (j - 1)) (xs ! (j div 2 - 1)) \<le> 0"
  by (simp add: heap_except_def)

text \<open>One step down: the exception moves to the child that the element was exchanged with.\<close>

lemma sift_step:
  assumes h: "heap_except lo k cnt xs" and lo: "1 \<le> lo" "lo \<le> k" and cnt: "cnt \<le> length xs"
    and m: "m = heap_max compare xs k cnt" "m \<noteq> k"
  shows "heap_except lo m cnt (do_swap xs k m)"
proof -
  have mk: "k < m" "m \<le> cnt" "m div 2 = k"
    using m heap_max_cases [of compare xs k cnt] heap_max_upper(4) [of xs k cnt] by auto
  have e: "do_swap xs k m ! (j - 1) = (if j = k then xs ! (m - 1) else if j = m then xs ! (k - 1) else xs ! (j - 1))"
    if "1 \<le> j" "j \<le> cnt" for j
    using that lo mk cnt by (intro do_swap_nth) linarith+
  have "compare (do_swap xs k m ! (j - 1)) (do_swap xs k m ! (j div 2 - 1)) \<le> 0"
    if j: "2 \<le> j" "j \<le> cnt" "lo \<le> j div 2" "j div 2 \<noteq> m" for j
  proof -
    have r: "1 \<le> j" "1 \<le> j div 2" "j div 2 \<le> cnt" "j div 2 < j" using j by auto
    consider "j = k" | "j div 2 = k" "j = m" | "j div 2 = k" "j \<noteq> m" | "j \<noteq> k" "j \<noteq> m" "j div 2 \<noteq> k"
      using mk(3) by blast
    then show ?thesis
    proof cases
      case 1
      then show ?thesis using h j mk r unfolding heap_except_def e [OF r(1) j(2)] e [OF r(2,3)] by auto
    next
      case 2
      then show ?thesis using heap_max_upper(1) [of xs k cnt] mk m(1) unfolding e [OF r(1) j(2)] e [OF r(2,3)] by auto
    next
      case 3
      then show ?thesis using heap_max_child [OF j(2), of k xs] r m(1) unfolding e [OF r(1) j(2)] e [OF r(2,3)] by auto
    next
      case 4
      then show ?thesis using exceptD [OF h j(1-3)] j(4) unfolding e [OF r(1) j(2)] e [OF r(2,3)] by simp
    qed
  qed
  moreover have "compare (do_swap xs k m ! (j - 1)) (do_swap xs k m ! (m div 2 - 1)) \<le> 0"
    if j: "j \<le> cnt" "j div 2 = m" for j
  proof -
    have r: "1 \<le> j" "j \<noteq> k" "j \<noteq> m" "1 \<le> k" "k \<le> cnt" "2 \<le> j" using j mk lo by auto
    have "compare (xs ! (j - 1)) (xs ! (m - 1)) \<le> 0"
      using exceptD [OF h r(6) j(1)] j(2) mk(1) lo by simp
    then show ?thesis unfolding mk(3) e [OF r(1) j(1)] e [OF r(4,5)] using r by simp
  qed
  ultimately show ?thesis unfolding heap_except_def by blast
qed

lemma heapify_heap:
  "heap_except lo k cnt xs \<Longrightarrow> 1 \<le> lo \<Longrightarrow> lo \<le> k \<Longrightarrow> cnt \<le> length xs \<Longrightarrow> heap lo cnt (heapify compare xs k cnt)"
proof (induction "cnt - k" arbitrary: k xs rule: less_induct)
  case less
  let ?m = "heap_max compare xs k cnt"
  show ?case
  proof (cases "?m = k")
    case True
    have "compare (xs ! (j - 1)) (xs ! (j div 2 - 1)) \<le> 0" if "2 \<le> j" "j \<le> cnt" "lo \<le> j div 2" for j
      using that less.prems(1) heap_max_child [OF that(2), of k xs] True unfolding heap_except_def by auto
    then show ?thesis unfolding heapify_stop [OF True] heap_def by blast
  next
    case False
    note m = heap_max_cases [OF False]
    have "cnt - ?m < cnt - k" using m by linarith
    moreover have "lo \<le> ?m" using m less.prems by linarith
    ultimately show ?thesis unfolding heapify_down [OF False]
      using less.hyps [OF _ sift_step [OF less.prems refl False]] less.prems by simp
  qed
qed

lemma heap_build:
  "heap (Suc i) cnt xs \<Longrightarrow> cnt \<le> length xs \<Longrightarrow> heap 1 cnt (build_loop compare xs cnt i) \<and> mset (build_loop compare xs cnt i) = mset xs"
proof (induction i arbitrary: xs)
  case (Suc i)
  have "heap_except (Suc i) (Suc i) cnt xs" using Suc.prems(1) by (auto simp: heap_def heap_except_def)
  then have "heap (Suc i) cnt (heapify compare xs (Suc i) cnt)" using Suc.prems(2) by (intro heapify_heap) simp_all
  then show ?case using Suc.IH heapify_frame [of "Suc i" cnt xs compare] heapify_length [of "Suc i" cnt xs compare] Suc.prems(2) by simp
qed simp

lemma heap_root: "heap 1 n xs \<Longrightarrow> 1 \<le> j \<Longrightarrow> j \<le> n \<Longrightarrow> compare (xs ! (j - 1)) (xs ! 0) \<le> 0"
proof (induction j rule: less_induct)
  case (less j)
  show ?case
  proof (cases "j = 1")
    case True
    then show ?thesis using compare_refl by simp
  next
    case False
    then have j: "j div 2 < j" "1 \<le> j div 2" "j div 2 \<le> n" "2 \<le> j" using less.prems by auto
    then have "compare (xs ! (j - 1)) (xs ! (j div 2 - 1)) \<le> 0" using less.prems by (auto simp: heap_def)
    then show ?thesis using trans less.IH [OF j(1) less.prems(1) j(2,3)] by blast
  qed
qed

definition sort_inv :: "nat \<Rightarrow> 'a list \<Rightarrow> bool" where
  "sort_inv n xs \<longleftrightarrow> n \<le> length xs \<and> heap 1 n xs \<and> sorted_wrt (\<lambda>x y. compare x y \<le> 0) (drop n xs) \<and>
     (\<forall>x\<in>set (take n xs). \<forall>y\<in>set (drop n xs). compare x y \<le> 0)"

lemma set_take_eq: "mset xs = mset ys \<Longrightarrow> drop n xs = drop n ys \<Longrightarrow> set (take n xs) = set (take n ys)"
  by (metis add_right_cancel append_take_drop_id mset_append set_mset_mset)

lemma sort_step:
  assumes inv: "sort_inv (Suc i) xs" and i: "1 \<le> i"
  defines "zs \<equiv> heapify compare (do_swap xs 1 (Suc i)) 1 i"
  shows "sort_inv i zs \<and> mset zs = mset xs"
proof -
  let ?ys = "do_swap xs 1 (Suc i)"
  have len: "Suc i \<le> length xs" and h: "heap 1 (Suc i) xs" using inv by (simp_all add: sort_inv_def)
  have ne: "do_swap xs 1 (Suc i) ! (j - 1) = xs ! (j - 1)" if "2 \<le> j" "j \<le> i" for j
    using do_swap_nth [of 1 xs "Suc i" j] that len by simp
  have "heap_except 1 1 i ?ys"
    unfolding heap_except_def
  proof (intro conjI allI impI)
    fix j :: nat assume j: "2 \<le> j" "j \<le> i" "1 \<le> j div 2" "j div 2 \<noteq> 1"
    then have "2 \<le> j div 2" "j div 2 \<le> i" by auto
    then show "compare (?ys ! (j - 1)) (?ys ! (j div 2 - 1)) \<le> 0" using j h ne [of j] ne [of "j div 2"] by (simp add: heap_def)
  qed simp
  then have hz: "heap 1 i zs" unfolding zs_def using len by (intro heapify_heap) simp_all
  have my: "mset ?ys = mset xs" using len by (intro do_swap_mset) simp_all
  have z: "mset zs = mset ?ys" "drop i zs = drop i ?ys"
    unfolding zs_def using heapify_frame [of 1 i ?ys compare] len by simp_all
  have "drop (Suc i) ?ys = drop (Suc i) xs" using i by (intro do_swap_drop) simp_all
  moreover have "?ys ! i = xs ! 0" using do_swap_nth [of 1 xs "Suc i" "Suc i"] len i by simp
  ultimately have d: "drop i ?ys = xs ! 0 # drop (Suc i) xs" "set (take (Suc i) ?ys) = set (take (Suc i) xs)"
    using len Cons_nth_drop_Suc [of i ?ys] set_take_eq [OF my, of "Suc i"] by simp_all
  have sub: "set (take i zs) \<subseteq> set (take (Suc i) xs)"
    using set_take_eq [OF z] d(2) set_take_subset_set_take [of i "Suc i" ?ys] by simp
  have root: "compare x (xs ! 0) \<le> 0" if x: "x \<in> set (take (Suc i) xs)" for x
  proof -
    obtain k where "k < Suc i" "x = xs ! k" using x len by (auto simp: in_set_conv_nth)
    then show ?thesis using heap_root [OF h, of "Suc k"] by simp
  qed
  have "xs ! 0 \<in> set (take (Suc i) xs)" using len by (auto simp: in_set_conv_nth intro!: exI [of _ 0])
  then have "sorted_wrt (\<lambda>x y. compare x y \<le> 0) (drop i zs)" using inv unfolding z(2) d(1) by (simp add: sort_inv_def)
  moreover have "\<forall>x\<in>set (take i zs). \<forall>y\<in>set (drop i zs). compare x y \<le> 0"
    using sub root inv unfolding z(2) d(1) by (auto simp: sort_inv_def)
  moreover have "i \<le> length zs" using len mset_eq_length [OF z(1)] by simp
  ultimately show ?thesis using hz z(1) my by (simp add: sort_inv_def)
qed

lemma sort_loop_ok:
  "sort_inv n xs \<Longrightarrow> sorted_wrt (\<lambda>x y. compare x y \<le> 0) (sort_loop compare xs n) \<and> mset (sort_loop compare xs n) = mset xs"
proof (induction n arbitrary: xs)
  case 0
  then show ?case by (simp add: sort_inv_def)
next
  case (Suc i)
  show ?case
  proof (cases "1 \<le> i")
    case True
    then show ?thesis using Suc.IH sort_step [OF Suc.prems True] by simp
  next
    case False
    then have "i = 0" by simp
    then have "sorted_wrt (\<lambda>x y. compare x y \<le> 0) xs"
      using Suc.prems by (cases xs) (simp_all add: sort_inv_def)
    then show ?thesis using False by simp
  qed
qed

lemma sort_array_ok:
  assumes "0 < sz"
  shows "\<exists>ys. sort_array compare sz xs = Some ys \<and> mset ys = mset xs \<and> sorted_wrt (\<lambda>x y. compare x y \<le> 0) ys"
proof -
  have "heap (Suc (length xs div 2)) (length xs) xs" by (auto simp: heap_def)
  then have b: "heap 1 (length xs) (build_loop compare xs (length xs) (length xs div 2))"
    "mset (build_loop compare xs (length xs) (length xs div 2)) = mset xs"
    using heap_build by auto
  then have "length (build_loop compare xs (length xs) (length xs div 2)) = length xs" by (metis size_mset)
  then have "sort_inv (length xs) (build_loop compare xs (length xs) (length xs div 2))"
    using b by (simp add: sort_inv_def)
  then show ?thesis using sort_loop_ok assms b(2) by (simp add: sort_array_def Let_def)
qed

lemma search_loop_ok:
  assumes "sorted_wrt (\<lambda>x y. compare x y \<le> 0) xs" and "l \<le> length xs"
    and "\<forall>i<length xs. i < f \<or> l \<le> i \<longrightarrow> compare key (xs ! i) \<noteq> 0"
  shows "case search_loop compare key xs f l of Some i \<Rightarrow> i < length xs \<and> compare key (xs ! i) = 0
    | None \<Rightarrow> \<forall>x\<in>set xs. compare key x \<noteq> 0"
  using assms
proof (induction "l - f" arbitrary: f l rule: less_induct)
  case less
  show ?case
  proof (cases "f < l")
    case True
    define m where "m = f + (l - f) div 2"
    have m: "f \<le> m" "m < l" using True by (auto simp: m_def)
    have up: "compare (xs ! m) (xs ! i) \<le> 0" if "m \<le> i" "i < length xs" for i
      using that less.prems(1) compare_refl m less.prems(2) by (cases "m = i") (auto simp: sorted_wrt_iff_nth_less)
    have dn: "compare (xs ! i) (xs ! m) \<le> 0" if "i \<le> m" for i
      using that less.prems(1) compare_refl m less.prems(2) by (cases "m = i") (auto simp: sorted_wrt_iff_nth_less)
    consider "compare key (xs ! m) < 0" | "compare key (xs ! m) > 0" | "compare key (xs ! m) = 0" by linarith
    then show ?thesis
    proof cases
      case 1
      have "compare key (xs ! i) \<noteq> 0" if "m \<le> i" "i < length xs" for i
        using trans [OF up [OF that], of key] 1 sign [of key "xs ! m"] sign [of key "xs ! i"] sign [of "xs ! i" key] by force
      then have "\<forall>i<length xs. i < f \<or> m \<le> i \<longrightarrow> compare key (xs ! i) \<noteq> 0" using less.prems(3) by blast
      moreover have "m - f < l - f" "m \<le> length xs" using m less.prems(2) by linarith+
      ultimately have "case search_loop compare key xs f m of Some i \<Rightarrow> i < length xs \<and> compare key (xs ! i) = 0
        | None \<Rightarrow> \<forall>x\<in>set xs. compare key x \<noteq> 0" using less.hyps less.prems(1) by blast
      then show ?thesis using True 1 by (subst search_loop.simps) (simp add: m_def Let_def)
    next
      case 2
      have "compare key (xs ! i) \<noteq> 0" if "i \<le> m" for i
        using trans [OF _ dn [OF that], of key] 2 by force
      then have "\<forall>i<length xs. i < m + 1 \<or> l \<le> i \<longrightarrow> compare key (xs ! i) \<noteq> 0" using less.prems(3) by auto
      moreover have "l - (m + 1) < l - f" using m by linarith
      ultimately have "case search_loop compare key xs (m + 1) l of Some i \<Rightarrow> i < length xs \<and> compare key (xs ! i) = 0
        | None \<Rightarrow> \<forall>x\<in>set xs. compare key x \<noteq> 0" using less.hyps less.prems(1,2) by blast
      then show ?thesis using True 2 by (subst search_loop.simps) (simp add: m_def Let_def)
    next
      case 3
      then show ?thesis using True m less.prems(2) by (subst search_loop.simps) (simp add: m_def Let_def)
    qed
  next
    case False
    then have "\<forall>x\<in>set xs. compare key x \<noteq> 0" using less.prems(3) by (fastforce simp: in_set_conv_nth)
    then show ?thesis using False by (subst search_loop.simps) simp
  qed
qed

end

text \<open>The comparison function of \<open>tests/internal/stdlib.c\<close>.\<close>

definition compare_ints :: "int \<Rightarrow> int \<Rightarrow> int" where
  "compare_ints a b = (if a < b then -1 else if a > b then 1 else 0)"

interpretation ints: comparator compare_ints
  by unfold_locales (auto simp: compare_ints_def split: if_splits)

text \<open>
  C32. Sorting an array with any comparison function that is a total preorder returns a
  permutation of it in order, and in the sorted array a binary search finds an element equal to
  the key exactly when there is one.
\<close>

theorem sort_search_correct:
  assumes "comparator compare" and "0 < sz"
  shows "\<exists>ys. sort_array compare sz xs = Some ys \<and> mset ys = mset xs \<and> sorted_wrt (\<lambda>x y. compare x y \<le> 0) ys \<and>
    (case binary_search compare key ys of Some i \<Rightarrow> i < length ys \<and> compare key (ys ! i) = 0
      | None \<Rightarrow> {x \<in> set xs. compare key x = 0} = {})"
proof -
  obtain ys where ys: "sort_array compare sz xs = Some ys" "mset ys = mset xs" "sorted_wrt (\<lambda>x y. compare x y \<le> 0) ys"
    using comparator.sort_array_ok [OF assms] by blast
  have "set ys = set xs" using ys(2) by (rule mset_eq_setD)
  then show ?thesis using ys comparator.search_loop_ok [OF assms(1) ys(3), of "length ys" 0 key]
    by (auto simp: binary_search_def split: option.splits)
qed

lemma sort_search_correct_witness:
  "\<exists>ys. sort_array compare_ints 4 [3, 1, 2] = Some ys \<and> sorted_wrt (\<lambda>x y. compare_ints x y \<le> 0) ys \<and>
    binary_search compare_ints 2 ys \<noteq> None"
proof -
  obtain ys where "sort_array compare_ints 4 [3, 1, 2] = Some ys" "sorted_wrt (\<lambda>x y. compare_ints x y \<le> 0) ys"
    "case binary_search compare_ints 2 ys of Some i \<Rightarrow> i < length ys \<and> compare_ints 2 (ys ! i) = 0
      | None \<Rightarrow> {x \<in> set [3, 1, 2]. compare_ints 2 x = 0} = {}"
    using sort_search_correct [OF ints.comparator_axioms, of 4 "[3, 1, 2]" 2] by auto
  then show ?thesis by (cases "binary_search compare_ints 2 ys") (auto simp: compare_ints_def)
qed

end
