(* ===== verification/Random_Gen.thy ===== *)
theory Random_Gen
  imports Stdlib_Ops
begin

text \<open>
  \<open>lib/random.c\<close>: the RC4 generator. Its state array stays a permutation of the 256 bytes, so
  that each output byte is one of its entries.
\<close>

record rng =
  rs :: "byte list"
  s_i :: byte
  s_j :: byte
  inited :: bool

definition swap_byte :: "byte list \<Rightarrow> byte \<Rightarrow> byte \<Rightarrow> byte list" where
  "swap_byte s a b = s[unat a := s ! unat b, unat b := s ! unat a]"

definition seed_byte :: "32 word \<Rightarrow> nat \<Rightarrow> byte" where
  "seed_byte seed i = ucast (drop_bit (8 * (i mod 4)) seed)"

fun mix_loop :: "nat \<Rightarrow> nat \<Rightarrow> byte \<Rightarrow> 32 word \<Rightarrow> byte list \<Rightarrow> byte list" where
  "mix_loop 0 i j seed s = s"
| "mix_loop (Suc n) i j seed s =
     (let j = j + (s ! i + seed_byte seed i)
      in mix_loop n (i + 1) j seed (swap_byte s (word_of_nat i) j))"

definition random_init :: "32 word \<Rightarrow> rng \<Rightarrow> rng" where
  "random_init seed r = r\<lparr>rs := mix_loop 256 0 0 seed (map word_of_nat [0..<256]), s_i := 0, s_j := 0, inited := True\<rparr>"

definition random_byte :: "rng \<Rightarrow> byte \<times> rng" where
  "random_byte r =
     (let i = s_i r + 1;
          j = s_j r + rs r ! unat i;
          s = swap_byte (rs r) i j;
          k = s ! unat i + s ! unat j
      in (s ! unat k, r\<lparr>rs := s, s_i := i, s_j := j\<rparr>))"

fun bytes_loop :: "nat \<Rightarrow> rng \<Rightarrow> byte list \<times> rng" where
  "bytes_loop 0 r = ([], r)"
| "bytes_loop (Suc n) r = (let (b, r) = random_byte r; (bs, r) = bytes_loop n r in (b # bs, r))"

definition random_bytes :: "nat \<Rightarrow> rng \<Rightarrow> byte list \<times> rng" where
  "random_bytes n r = bytes_loop n (if \<not> inited r then random_init 0 r else r)"

definition random_ulong :: "rng \<Rightarrow> 32 word \<times> rng" where
  "random_ulong r = (let (bs, r) = random_bytes 4 r in (\<Sum>i<4. push_bit (8 * i) (ucast (bs ! i)), r))"

definition rng_ok :: "rng \<Rightarrow> bool" where
  "rng_ok r \<longleftrightarrow> mset (rs r) = mset (map word_of_nat [0..<256])"

lemma rng_ok_length: "rng_ok r \<Longrightarrow> length (rs r) = 256"
  unfolding rng_ok_def by (drule mset_eq_length) simp

lemma unat_byte: "unat (a::byte) < 256"
  using unsigned_less [where ?'a = nat and w = a] by simp

lemma swap_byte_mset: "length s = 256 \<Longrightarrow> mset (swap_byte s a b) = mset s"
  unfolding swap_byte_def using unat_byte [of a] unat_byte [of b] by (intro mset_swap) simp_all

lemma mix_loop_mset: "length s = 256 \<Longrightarrow> mset (mix_loop n i j seed s) = mset s"
proof (induction n arbitrary: i j s)
  case (Suc n)
  then show ?case using swap_byte_mset [OF Suc.prems] by (simp add: Let_def swap_byte_def)
qed simp

lemma random_init_ok: "rng_ok (random_init seed r)"
  by (simp add: random_init_def rng_ok_def mix_loop_mset)

lemma random_byte_ok: "rng_ok r \<Longrightarrow> rng_ok (snd (random_byte r)) \<and> inited (snd (random_byte r)) = inited r"
  using swap_byte_mset [OF rng_ok_length, of r] by (simp add: random_byte_def rng_ok_def Let_def)

lemma bytes_loop_ok:
  "rng_ok r \<Longrightarrow> length (fst (bytes_loop n r)) = n \<and> rng_ok (snd (bytes_loop n r)) \<and> inited (snd (bytes_loop n r)) = inited r"
  by (induction n arbitrary: r) (auto simp: Let_def split_beta dest: random_byte_ok)

text \<open>
  From the generator's initial state or any later one, \<open>random_bytes\<close> fills the whole buffer and
  leaves the state array a permutation of the 256 bytes.
\<close>

lemma random_bytes_ok:
  assumes "inited r \<longrightarrow> rng_ok r"
  shows "length (fst (random_bytes n r)) = n \<and> rng_ok (snd (random_bytes n r)) \<and> inited (snd (random_bytes n r))"
proof (cases "inited r")
  case True
  then show ?thesis using bytes_loop_ok [of r n] assms by (simp add: random_bytes_def)
next
  case False
  then show ?thesis using bytes_loop_ok [of "random_init 0 r" n] random_init_ok [of 0 r]
    by (simp add: random_bytes_def random_init_def)
qed

end
