(* ===== verification/Process_Calls.thy ===== *)
theory Process_Calls
  imports Kernel_Boot
begin

text \<open>
  The life of user processes: the child records of \<open>userprog/syscall.c\<close>, \<open>exit\<close>, \<open>wait\<close> and
  the part of \<open>exec\<close> after the load (\<open>userprog/syscall.c\<close>), \<open>process_exit\<close> and
  \<open>process_wait\<close> (\<open>userprog/process.c\<close>) and \<open>kill\<close> (\<open>userprog/exception.c\<close>), on the kernel
  state of theory \<open>Kernel_State\<close>. A record that was freed is not in \<open>procs\<close>, so that an access
  through a stale pointer is a panic.

  A busy-waiting loop is a function that evaluates its condition once: \<open>None\<close> inside the result
  says that it holds and the loop goes on.
\<close>

section \<open>Child records\<close>

definition ERROR :: int where "ERROR = -1"

definition LOADED_DEFAULT :: int where "LOADED_DEFAULT = 0"
definition SUCCESSFULLY_LOAD :: int where "SUCCESSFULLY_LOAD = 1"
definition LOADING_FAILED :: int where "LOADING_FAILED = 2"

definition upd_proc :: "addr \<Rightarrow> (process \<Rightarrow> process) \<Rightarrow> kernel \<Rightarrow> kernel option" where
  "upd_proc p f s = (case procs s p of None \<Rightarrow> None | Some r \<Rightarrow> Some (s\<lparr>procs := (procs s)(p \<mapsto> f r)\<rparr>))"

fun check_loop :: "int \<Rightarrow> addr list \<Rightarrow> kernel \<Rightarrow> addr option" where
  "check_loop n [] s = Some NULL"
| "check_loop n (p # ps) s = do { r \<leftarrow> procs s p; if n = pid r then Some p else check_loop n ps s }"

definition child_process_check :: "int \<Rightarrow> kernel \<Rightarrow> addr option" where
  "child_process_check n s = do { t \<leftarrow> thread_current s; check_loop n (child_list t) s }"

text \<open>\<open>list_remove\<close> takes the record off the list it is on, the running thread's.\<close>

definition remove_process_by :: "addr \<Rightarrow> kernel \<Rightarrow> kernel option" where
  "remove_process_by p s = do {
     _ \<leftarrow> procs s p;
     s \<leftarrow> upd_thread (cur s) (\<lambda>x. x\<lparr>child_list := remove1 p (child_list x)\<rparr>) s;
     Some (s\<lparr>procs := (procs s)(p := None)\<rparr>) }"

fun remove_loop :: "addr list \<Rightarrow> kernel \<Rightarrow> kernel option" where
  "remove_loop [] s = Some s"
| "remove_loop (p # ps) s = do { s \<leftarrow> remove_process_by p s; remove_loop ps s }"

definition remove_child_processes_all :: "kernel \<Rightarrow> kernel option" where
  "remove_child_processes_all s = do { t \<leftarrow> thread_current s; remove_loop (child_list t) s }"

section \<open>Waiting\<close>

text \<open>
  Up to the loop: the value to return at once, or the child to wait for; then one turn of the
  loop. A status that was never stored is \<open>None\<close>, whatever the memory held.
\<close>

definition process_wait :: "int \<Rightarrow> kernel \<Rightarrow> ((int + addr) \<times> kernel) option" where
  "process_wait child_tid s = do {
     child \<leftarrow> child_process_check child_tid s;
     if child = NULL then Some (Inl ERROR, s)
     else do {
       r \<leftarrow> procs s child;
       if p_wait r then Some (Inl ERROR, s)
       else do { s \<leftarrow> upd_proc child (\<lambda>r. r\<lparr>p_wait := True\<rparr>) s; Some (Inr child, s) } } }"

definition process_wait_poll :: "addr \<Rightarrow> kernel \<Rightarrow> (int option option \<times> kernel) option" where
  "process_wait_poll child s = do {
     r \<leftarrow> procs s child;
     if \<not> p_exit r then Some (None, s)
     else do { s \<leftarrow> remove_process_by child s; Some (Some (p_status r), s) } }"

text \<open>\<open>exec\<close> once \<open>process_execute\<close> has returned: find the record, then wait for the load.\<close>

definition exec_check :: "int \<Rightarrow> kernel \<Rightarrow> addr option" where
  "exec_check n s = do { c \<leftarrow> child_process_check n s; _ \<leftarrow> ASSERT (c \<noteq> NULL); Some c }"

definition exec_poll :: "int \<Rightarrow> addr \<Rightarrow> kernel \<Rightarrow> int option option" where
  "exec_poll n c s = do {
     r \<leftarrow> procs s c;
     Some (if load_state r = LOADED_DEFAULT then None
       else if load_state r = LOADING_FAILED then Some ERROR else Some n) }"

text \<open>The store of \<open>start_process\<close> after \<open>load\<close>.\<close>

definition loaded :: "bool \<Rightarrow> kernel \<Rightarrow> kernel option" where
  "loaded success s = do {
     t \<leftarrow> thread_current s;
     upd_proc (cp t) (\<lambda>r. r\<lparr>load_state := (if success then SUCCESSFULLY_LOAD else LOADING_FAILED)\<rparr>) s }"

section \<open>Exiting\<close>

text \<open>\<open>uint8_t status\<close>.\<close>

definition u8 :: "int \<Rightarrow> int" where "u8 n = n mod 256"

definition close_file_by_fd :: "int \<Rightarrow> kernel \<Rightarrow> kernel" where
  "close_file_by_fd fd s = s"

definition process_exit :: "kernel \<Rightarrow> kernel option" where
  "process_exit s = do {
     t \<leftarrow> thread_current s;
     let s = close_file_by_fd (-1) s;
     s \<leftarrow> remove_child_processes_all s;
     s \<leftarrow> (if is_alive (parent t) s then upd_proc (cp t) (\<lambda>r. r\<lparr>p_exit := True\<rparr>) s else Some s);
     if pagedir t \<noteq> NULL then upd_thread (cur s) (\<lambda>x. x\<lparr>pagedir := NULL\<rparr>) s else Some s }"

definition exit_status :: "int \<Rightarrow> kernel \<Rightarrow> kernel option" where
  "exit_status code s = do {
     t \<leftarrow> thread_current s;
     if is_alive (parent t) s then upd_proc (cp t) (\<lambda>r. r\<lparr>p_status := Some (u8 code)\<rparr>) s else Some s }"

text \<open>\<open>thread_exit\<close> of a user program's thread, and \<open>exit\<close>.\<close>

definition user_thread_exit :: "kernel \<Rightarrow> kernel option" where
  "user_thread_exit s = do {
     _ \<leftarrow> ASSERT (\<not> in_external_intr s);
     s \<leftarrow> process_exit s;
     thread_exit s }"

definition exit_process :: "int \<Rightarrow> kernel \<Rightarrow> kernel option" where
  "exit_process code s = do { s \<leftarrow> exit_status code s; user_thread_exit s }"

definition SEL_UCSEG :: nat where "SEL_UCSEG = 0x1b"
definition SEL_KCSEG :: nat where "SEL_KCSEG = 0x08"

definition kill :: "nat \<Rightarrow> kernel \<Rightarrow> kernel option" where
  "kill cs s =
     (if cs = SEL_UCSEG then exit_process (-1) s
      else if cs = SEL_KCSEG then None
      else user_thread_exit s)"

definition page_fault :: "nat \<Rightarrow> kernel \<Rightarrow> kernel option" where
  "page_fault cs s = do { s \<leftarrow> intr_enable s; kill cs s }"

section \<open>Open files\<close>

definition process_add_file :: "addr \<Rightarrow> bool \<Rightarrow> kernel \<Rightarrow> (int \<times> kernel) option" where
  "process_add_file f allocated s = do {
     _ \<leftarrow> ASSERT allocated;
     t \<leftarrow> thread_current s;
     s \<leftarrow> upd_thread (cur s) (\<lambda>x. x\<lparr>next_fd := i32 (next_fd x + 1), file_list := file_list x @ [(next_fd t, f)]\<rparr>) s;
     Some (next_fd t, s) }"

fun file_loop :: "int \<Rightarrow> (int \<times> addr) list \<Rightarrow> addr" where
  "file_loop fd [] = NULL"
| "file_loop fd ((n, f) # fs) = (if fd = n then f else file_loop fd fs)"

definition process_get_file :: "int \<Rightarrow> kernel \<Rightarrow> addr option" where
  "process_get_file fd s = do { t \<leftarrow> thread_current s; Some (file_loop fd (file_list t)) }"

section \<open>Processes as a transition system\<close>

text \<open>
  What a thread is doing: in \<open>start_process\<close> before the load is over, in its own code, in \<open>exec\<close>
  before and after the lookup of the record, in the loop of \<open>process_wait\<close>, or in \<open>thread_exit\<close>
  with the status it has stored, if any. \<open>ended\<close> is the history of exits.
\<close>

datatype activity =
    Starting | Running | Created int | Loading int addr | Waiting addr | Leaving "int option"

record psys =
  ks :: kernel
  act :: "addr \<Rightarrow> activity"
  ended :: "(int \<times> int option) list"

definition thd :: "kernel \<Rightarrow> addr \<Rightarrow> thread" where "thd k t = the (thr k t)"

text \<open>
  The scheduler hands the processor to any thread, between any two of the calls below;
  \<open>spawn\<close> is what \<open>thread_create\<close> does besides scheduling, \<open>leave\<close> is \<open>thread_exit\<close> up to
  \<open>schedule\<close>. The page of a dead thread may be used again.
\<close>

definition run_as :: "addr \<Rightarrow> kernel \<Rightarrow> kernel" where
  "run_as t k = k\<lparr>cur := t, thr := (\<lambda>a. map_option (\<lambda>x. if a = t then x\<lparr>status := THREAD_RUNNING\<rparr>
     else if status x = THREAD_RUNNING then x\<lparr>status := THREAD_READY\<rparr> else x) (thr k a))\<rparr>"

definition spawn :: "addr \<Rightarrow> addr \<Rightarrow> kernel \<Rightarrow> kernel option" where
  "spawn t p k = do {
     let n = next_tid k;
     k \<leftarrow> init_thread t PRI_DEFAULT k;
     k \<leftarrow> upd_thread t (\<lambda>x. x\<lparr>tid := n\<rparr>) (k\<lparr>next_tid := i32 (n + 1)\<rparr>);
     c \<leftarrow> thread_current k;
     k \<leftarrow> upd_thread t (\<lambda>x. x\<lparr>parent := tid c\<rparr>) k;
     k \<leftarrow> add_process_current_thread n p k;
     upd_thread t (\<lambda>x. x\<lparr>cp := p\<rparr>) k }"

definition leave :: "kernel \<Rightarrow> kernel option" where
  "leave k = do {
     _ \<leftarrow> thread_current k;
     upd_thread (cur k) (\<lambda>t. t\<lparr>status := THREAD_DYING\<rparr>) (k\<lparr>all_list := remove1 (cur k) (all_list k)\<rparr>) }"

lemma thread_exit_leave: "\<not> in_external_intr s \<Longrightarrow> thread_exit s = leave (intr_disable s) \<bind> schedule"
  by (cases "thread_current (intr_disable s)"; cases "thr s (cur s)")
    (simp_all add: thread_exit_def leave_def Let_def upd_thread_def intr_disable_def)

text \<open>The calls of the running thread; \<open>None\<close> is a panic.\<close>

inductive pcall :: "psys \<Rightarrow> psys option \<Rightarrow> bool" where
  create: "act S (cur (ks S)) = Running \<Longrightarrow> t \<noteq> NULL \<Longrightarrow> t \<notin> set (all_list (ks S)) \<Longrightarrow>
    procs (ks S) p = None \<Longrightarrow> p \<noteq> NULL \<Longrightarrow> next_tid (ks S) < 2 ^ 31 - 1 \<Longrightarrow>
    (a, b) = (Starting, Created (next_tid (ks S))) \<or> (a, b) = (Running, Running) \<Longrightarrow>
    pcall S (map_option (\<lambda>k. S\<lparr>ks := k, act := (act S)(cur (ks S) := b, t := a)\<rparr>) (spawn t p (ks S)))"
| check: "act S (cur (ks S)) = Created n \<Longrightarrow>
    pcall S (map_option (\<lambda>c. S\<lparr>act := (act S)(cur (ks S) := Loading n c)\<rparr>) (exec_check n (ks S)))"
| exec: "act S (cur (ks S)) = Loading n c \<Longrightarrow>
    pcall S (map_option (\<lambda>v. S\<lparr>act := (act S)(cur (ks S) := if v = None then Loading n c else Running)\<rparr>) (exec_poll n c (ks S)))"
| load: "act S (cur (ks S)) = Starting \<Longrightarrow>
    pcall S (map_option (\<lambda>k. S\<lparr>ks := k, act := (act S)(cur (ks S) := if b then Running else Leaving None)\<rparr>) (loaded b (ks S)))"
| wait: "act S (cur (ks S)) = Running \<Longrightarrow>
    pcall S (map_option (\<lambda>(v, k). S\<lparr>ks := k, act := (act S)(cur (ks S) := (case v of Inl _ \<Rightarrow> Running | Inr c \<Rightarrow> Waiting c))\<rparr>)
      (process_wait n (ks S)))"
| poll: "act S (cur (ks S)) = Waiting c \<Longrightarrow>
    pcall S (map_option (\<lambda>(v, k). S\<lparr>ks := k, act := (act S)(cur (ks S) := if v = None then Waiting c else Running)\<rparr>)
      (process_wait_poll c (ks S)))"
| exit: "act S (cur (ks S)) = Running \<Longrightarrow>
    pcall S (map_option (\<lambda>k. S\<lparr>ks := k, act := (act S)(cur (ks S) := Leaving (Some (u8 n)))\<rparr>) (exit_status n (ks S)))"
| die: "act S (cur (ks S)) = Running \<Longrightarrow> pcall S (Some (S\<lparr>act := (act S)(cur (ks S) := Leaving None)\<rparr>))"
| leave: "act S (cur (ks S)) = Leaving st \<Longrightarrow>
    pcall S (map_option (\<lambda>k. S\<lparr>ks := k, ended := (tid (thd (ks S) (cur (ks S))), st) # ended S\<rparr>)
      (process_exit (ks S) \<bind> leave))"

inductive preach :: "psys \<Rightarrow> bool" where
  boot: "preach \<lparr>ks = booted False, act = (\<lambda>_. Running), ended = []\<rparr>"
| switch: "preach S \<Longrightarrow> t \<in> set (all_list (ks S)) \<Longrightarrow> preach (S\<lparr>ks := run_as t (ks S)\<rparr>)"
| call: "preach S \<Longrightarrow> cur (ks S) \<in> set (all_list (ks S)) \<Longrightarrow> pcall S (Some S') \<Longrightarrow> preach S'"

section \<open>The invariant\<close>

definition child_ok :: "process \<Rightarrow> int \<Rightarrow> activity \<Rightarrow> bool" where
  "child_ok r n a \<longleftrightarrow> pid r = n \<and> \<not> p_exit r \<and> p_status r = (case a of Leaving st \<Rightarrow> st | _ \<Rightarrow> None) \<and>
     (a = Starting \<longrightarrow> load_state r = LOADED_DEFAULT)"

definition family ::
  "addr list \<Rightarrow> (addr \<Rightarrow> int) \<Rightarrow> (addr \<Rightarrow> int) \<Rightarrow> (addr \<Rightarrow> addr) \<Rightarrow> (addr \<Rightarrow> addr list) \<Rightarrow> (addr \<Rightarrow> process option) \<Rightarrow>
    int \<Rightarrow> (addr \<Rightarrow> activity) \<Rightarrow> (int \<times> int option) list \<Rightarrow> bool" where
  "family L tf pf cf kf R n ac E \<longleftrightarrow>
     distinct L \<and> inj_on tf (set L) \<and>
     (\<forall>t\<in>set L. 0 < tf t \<and> tf t < n \<and> pf t < tf t \<and> distinct (kf t) \<and> NULL \<notin> set (kf t)) \<and>
     (\<forall>t\<in>set L. \<forall>t'\<in>set L. t \<noteq> t' \<longrightarrow> set (kf t) \<inter> set (kf t') = {}) \<and>
     (\<forall>p r. R p = Some r \<longrightarrow> pid r < n \<and> (\<forall>p' r'. R p' = Some r' \<longrightarrow> pid r = pid r' \<longrightarrow> p = p')) \<and>
     (\<forall>t\<in>set L. \<forall>t'\<in>set L. tf t' = pf t \<longrightarrow> cf t \<in> set (kf t') \<and> (\<exists>r. R (cf t) = Some r \<and> child_ok r (tf t) (ac t))) \<and>
     (\<forall>t'\<in>set L. \<forall>p\<in>set (kf t'). \<exists>r. R p = Some r \<and>
        ((\<exists>t\<in>set L. tf t = pid r \<and> pf t = tf t' \<and> cf t = p) \<or> p_exit r \<and> (pid r, p_status r) \<in> set E)) \<and>
     (\<forall>t\<in>set L. case ac t of
        Starting \<Rightarrow> (\<exists>t'\<in>set L. tf t' = pf t \<and> (ac t' = Created (tf t) \<or> ac t' = Loading (tf t) (cf t)))
      | Created m \<Rightarrow> (\<exists>p\<in>set (kf t). \<exists>r. R p = Some r \<and> pid r = m)
      | Loading m c \<Rightarrow> c \<in> set (kf t)
      | Waiting c \<Rightarrow> c \<in> set (kf t)
      | _ \<Rightarrow> True) \<and>
     distinct (map fst E) \<and> (\<forall>(m, st)\<in>set E. m < n \<and> m \<notin> tf ` set L)"

definition pinv :: "psys \<Rightarrow> bool" where
  "pinv S \<longleftrightarrow> (\<forall>t\<in>set (all_list (ks S)). thr (ks S) t \<noteq> None) \<and> NULL \<notin> set (all_list (ks S)) \<and>
     (cur (ks S) \<in> set (all_list (ks S)) \<longrightarrow> status (thd (ks S) (cur (ks S))) = THREAD_RUNNING) \<and>
     family (all_list (ks S)) (\<lambda>t. tid (thd (ks S) t)) (\<lambda>t. parent (thd (ks S) t)) (\<lambda>t. cp (thd (ks S) t))
       (\<lambda>t. child_list (thd (ks S) t)) (procs (ks S)) (next_tid (ks S)) (act S) (ended S)"

lemma familyD:
  assumes "family L tf pf cf kf R n ac E"
  shows "distinct L" "inj_on tf (set L)"
    "t \<in> set L \<Longrightarrow> 0 < tf t" "t \<in> set L \<Longrightarrow> tf t < n" "t \<in> set L \<Longrightarrow> pf t < tf t"
    "t \<in> set L \<Longrightarrow> distinct (kf t)" "t \<in> set L \<Longrightarrow> NULL \<notin> set (kf t)"
    "t \<in> set L \<Longrightarrow> t' \<in> set L \<Longrightarrow> t \<noteq> t' \<Longrightarrow> set (kf t) \<inter> set (kf t') = {}"
    "R p = Some r \<Longrightarrow> pid r < n" "R p = Some r \<Longrightarrow> R p' = Some r' \<Longrightarrow> pid r = pid r' \<Longrightarrow> p = p'"
    "t \<in> set L \<Longrightarrow> t' \<in> set L \<Longrightarrow> tf t' = pf t \<Longrightarrow> cf t \<in> set (kf t')"
    "t \<in> set L \<Longrightarrow> t' \<in> set L \<Longrightarrow> tf t' = pf t \<Longrightarrow> \<exists>r. R (cf t) = Some r \<and> child_ok r (tf t) (ac t)"
    "t' \<in> set L \<Longrightarrow> p \<in> set (kf t') \<Longrightarrow> \<exists>r. R p = Some r \<and>
        ((\<exists>t\<in>set L. tf t = pid r \<and> pf t = tf t' \<and> cf t = p) \<or> p_exit r \<and> (pid r, p_status r) \<in> set E)"
    "t \<in> set L \<Longrightarrow> ac t = Starting \<Longrightarrow> \<exists>t'\<in>set L. tf t' = pf t \<and> (ac t' = Created (tf t) \<or> ac t' = Loading (tf t) (cf t))"
    "t \<in> set L \<Longrightarrow> ac t = Created m \<Longrightarrow> \<exists>p\<in>set (kf t). \<exists>r. R p = Some r \<and> pid r = m"
    "t \<in> set L \<Longrightarrow> ac t = Loading m c \<Longrightarrow> c \<in> set (kf t)"
    "t \<in> set L \<Longrightarrow> ac t = Waiting c \<Longrightarrow> c \<in> set (kf t)"
    "distinct (map fst E)" "(m, st) \<in> set E \<Longrightarrow> m < n" "(m, st) \<in> set E \<Longrightarrow> t \<in> set L \<Longrightarrow> tf t \<noteq> m"
proof -
  note f1 = assms [unfolded family_def]
  note f2 = f1 [THEN conjunct2] note f3 = f2 [THEN conjunct2] note f4 = f3 [THEN conjunct2]
  note f5 = f4 [THEN conjunct2] note f6 = f5 [THEN conjunct2] note f7 = f6 [THEN conjunct2]
  note f8 = f7 [THEN conjunct2] note f9 = f8 [THEN conjunct2] note f10 = f9 [THEN conjunct2]
  note c3 = f3 [THEN conjunct1] and c4 = f4 [THEN conjunct1] and c5 = f5 [THEN conjunct1] and c6 = f6 [THEN conjunct1]
    and c7 = f7 [THEN conjunct1] and c8 = f8 [THEN conjunct1, rule_format] and c10 = f10
  show "distinct L" "inj_on tf (set L)" "distinct (map fst E)"
    by (rule f1 [THEN conjunct1] f2 [THEN conjunct1] f9 [THEN conjunct1])+
  show "t \<in> set L \<Longrightarrow> 0 < tf t" "t \<in> set L \<Longrightarrow> tf t < n" "t \<in> set L \<Longrightarrow> pf t < tf t"
    "t \<in> set L \<Longrightarrow> distinct (kf t)" "t \<in> set L \<Longrightarrow> NULL \<notin> set (kf t)" using c3 by blast+
  show "t \<in> set L \<Longrightarrow> t' \<in> set L \<Longrightarrow> t \<noteq> t' \<Longrightarrow> set (kf t) \<inter> set (kf t') = {}" using c4 by blast
  show "R p = Some r \<Longrightarrow> pid r < n" "R p = Some r \<Longrightarrow> R p' = Some r' \<Longrightarrow> pid r = pid r' \<Longrightarrow> p = p'" using c5 by blast+
  show "(m, st) \<in> set E \<Longrightarrow> m < n" "(m, st) \<in> set E \<Longrightarrow> t \<in> set L \<Longrightarrow> tf t \<noteq> m" using c10 by auto
  show "t \<in> set L \<Longrightarrow> t' \<in> set L \<Longrightarrow> tf t' = pf t \<Longrightarrow> cf t \<in> set (kf t')"
    "t \<in> set L \<Longrightarrow> t' \<in> set L \<Longrightarrow> tf t' = pf t \<Longrightarrow> \<exists>r. R (cf t) = Some r \<and> child_ok r (tf t) (ac t)" using c6 by blast+
  show "t' \<in> set L \<Longrightarrow> p \<in> set (kf t') \<Longrightarrow> \<exists>r. R p = Some r \<and>
        ((\<exists>t\<in>set L. tf t = pid r \<and> pf t = tf t' \<and> cf t = p) \<or> p_exit r \<and> (pid r, p_status r) \<in> set E)" using c7 by blast
  show "t \<in> set L \<Longrightarrow> ac t = Starting \<Longrightarrow> \<exists>t'\<in>set L. tf t' = pf t \<and> (ac t' = Created (tf t) \<or> ac t' = Loading (tf t) (cf t))"
    "t \<in> set L \<Longrightarrow> ac t = Created m \<Longrightarrow> \<exists>p\<in>set (kf t). \<exists>r. R p = Some r \<and> pid r = m"
    "t \<in> set L \<Longrightarrow> ac t = Loading m c \<Longrightarrow> c \<in> set (kf t)"
    "t \<in> set L \<Longrightarrow> ac t = Waiting c \<Longrightarrow> c \<in> set (kf t)" using c8 [of t] by simp_all
qed

text \<open>A new child of the running thread.\<close>

lemma family_spawn:
  assumes f: "family L tf pf cf kf R n ac E" and c: "c \<in> set L" "ac c = Running" and t: "t \<notin> set L" and p: "p \<noteq> NULL" "R p = None"
    and ab: "(a, b) = (Starting, Created n) \<or> (a, b) = (Running, Running)"
    and r: "pid r = n" "\<not> p_exit r" "p_status r = None" "load_state r = LOADED_DEFAULT"
  shows "family (L @ [t]) (tf(t := n)) (pf(t := tf c)) (cf(t := p)) (kf(c := kf c @ [p], t := [])) (R(p \<mapsto> r)) (n + 1)
    (ac(c := b, t := a)) E"
proof -
  note D = familyD [OF f]
  have ct: "c \<noteq> t" using c t by blast
  have nop: "p \<notin> set (kf u)" if "u \<in> set L" for u using D(13) [OF that, of p] p by auto
  have old: "tf u \<noteq> n" if "u \<in> set L" for u using D(4) [OF that] by simp
  show ?thesis
    unfolding family_def
  proof (intro conjI)
    show "distinct (L @ [t])" using D(1) t by simp
    show "inj_on (tf(t := n)) (set (L @ [t]))" using D(2) old t by (auto simp: inj_on_def)
    show "\<forall>u\<in>set (L @ [t]). 0 < (tf(t := n)) u \<and> (tf(t := n)) u < n + 1 \<and> (pf(t := tf c)) u < (tf(t := n)) u \<and>
        distinct ((kf(c := kf c @ [p], t := [])) u) \<and> NULL \<notin> set ((kf(c := kf c @ [p], t := [])) u)"
    proof
      fix u assume "u \<in> set (L @ [t])"
      then consider "u = t" | "u = c" | "u \<in> set L" "u \<noteq> t" "u \<noteq> c" by auto
      then show "0 < (tf(t := n)) u \<and> (tf(t := n)) u < n + 1 \<and> (pf(t := tf c)) u < (tf(t := n)) u \<and>
        distinct ((kf(c := kf c @ [p], t := [])) u) \<and> NULL \<notin> set ((kf(c := kf c @ [p], t := [])) u)"
        using D(3-7) [OF c(1)] nop [OF c(1)] p ct D(3-7) [of u] by cases auto
    qed
    show "\<forall>u\<in>set (L @ [t]). \<forall>u'\<in>set (L @ [t]). u \<noteq> u' \<longrightarrow>
        set ((kf(c := kf c @ [p], t := [])) u) \<inter> set ((kf(c := kf c @ [p], t := [])) u') = {}"
      using D(8) c(1) t nop ct by (auto simp: fun_upd_def split: if_splits)
    show "\<forall>q s. (R(p \<mapsto> r)) q = Some s \<longrightarrow> pid s < n + 1 \<and>
        (\<forall>q' s'. (R(p \<mapsto> r)) q' = Some s' \<longrightarrow> pid s = pid s' \<longrightarrow> q = q')"
      using D(9,10) r(1) p(2) by (auto split: if_splits) (fastforce dest: D(9))+
  next
    have keep: "set (kf u) \<subseteq> set ((kf(c := kf c @ [p], t := [])) u)" if "u \<in> set L" for u
      using that t by auto
    show "\<forall>u\<in>set (L @ [t]). \<forall>u'\<in>set (L @ [t]). (tf(t := n)) u' = (pf(t := tf c)) u \<longrightarrow>
        (cf(t := p)) u \<in> set ((kf(c := kf c @ [p], t := [])) u') \<and>
        (\<exists>s. (R(p \<mapsto> r)) ((cf(t := p)) u) = Some s \<and> child_ok s ((tf(t := n)) u) ((ac(c := b, t := a)) u))"
    proof (intro ballI impI)
      fix u u' assume u: "u \<in> set (L @ [t])" "u' \<in> set (L @ [t])" and e: "(tf(t := n)) u' = (pf(t := tf c)) u"
      show "(cf(t := p)) u \<in> set ((kf(c := kf c @ [p], t := [])) u') \<and>
        (\<exists>s. (R(p \<mapsto> r)) ((cf(t := p)) u) = Some s \<and> child_ok s ((tf(t := n)) u) ((ac(c := b, t := a)) u))"
      proof (cases "u = t")
        case True
        then have "u' \<noteq> t" using e old [OF c(1)] by auto
        then have "u' = c" using e True u c(1) D(2) by (auto simp: inj_on_def)
        then show ?thesis using True ct r ab by (auto simp: child_ok_def)
      next
        case False
        then have uL: "u \<in> set L" using u by simp
        have "u' \<noteq> t" using e False D(4,5) [OF uL] by auto
        then have u'L: "u' \<in> set L" and e': "tf u' = pf u" using u e False by auto
        obtain s where s: "R (cf u) = Some s" "child_ok s (tf u) (ac u)" using D(12) [OF uL u'L e'] by blast
        have m: "cf u \<in> set (kf u')" "cf u \<noteq> p" using D(11) [OF uL u'L e'] nop [OF u'L] by auto
        have "child_ok s (tf u) ((ac(c := b)) u)" using s(2) c ab by (auto simp: child_ok_def)
        then show ?thesis using False \<open>u' \<noteq> t\<close> m s(1) by auto
      qed
    qed
    show "\<forall>u'\<in>set (L @ [t]). \<forall>q\<in>set ((kf(c := kf c @ [p], t := [])) u'). \<exists>s. (R(p \<mapsto> r)) q = Some s \<and>
        ((\<exists>u\<in>set (L @ [t]). (tf(t := n)) u = pid s \<and> (pf(t := tf c)) u = (tf(t := n)) u' \<and> (cf(t := p)) u = q) \<or>
          p_exit s \<and> (pid s, p_status s) \<in> set E)"
    proof (intro ballI)
      fix u' q assume u: "u' \<in> set (L @ [t])" and q: "q \<in> set ((kf(c := kf c @ [p], t := [])) u')"
      have u'L: "u' \<in> set L" "u' \<noteq> t" using q u by (auto split: if_splits)
      show "\<exists>s. (R(p \<mapsto> r)) q = Some s \<and>
        ((\<exists>u\<in>set (L @ [t]). (tf(t := n)) u = pid s \<and> (pf(t := tf c)) u = (tf(t := n)) u' \<and> (cf(t := p)) u = q) \<or>
          p_exit s \<and> (pid s, p_status s) \<in> set E)"
      proof (cases "q = p")
        case True
        then have "u' = c" using q u'L nop [OF u'L(1)] by (auto split: if_splits)
        then show ?thesis using True r ct by auto
      next
        case False
        then have "q \<in> set (kf u')" using q u'L by (auto split: if_splits)
        from D(13) [OF u'L(1) this] obtain s where s: "R q = Some s"
          "(\<exists>u\<in>set L. tf u = pid s \<and> pf u = tf u' \<and> cf u = q) \<or> p_exit s \<and> (pid s, p_status s) \<in> set E" by blast
        have "u \<noteq> t" if "u \<in> set L" for u using that t by auto
        then show ?thesis using s False u'L by (auto intro!: exI [of _ s])
      qed
    qed
    show "\<forall>u\<in>set (L @ [t]). case (ac(c := b, t := a)) u of
        Starting \<Rightarrow> (\<exists>u'\<in>set (L @ [t]). (tf(t := n)) u' = (pf(t := tf c)) u \<and>
          ((ac(c := b, t := a)) u' = Created ((tf(t := n)) u) \<or> (ac(c := b, t := a)) u' = Loading ((tf(t := n)) u) ((cf(t := p)) u)))
      | Created m \<Rightarrow> (\<exists>q\<in>set ((kf(c := kf c @ [p], t := [])) u). \<exists>s. (R(p \<mapsto> r)) q = Some s \<and> pid s = m)
      | Loading m q \<Rightarrow> q \<in> set ((kf(c := kf c @ [p], t := [])) u)
      | Waiting q \<Rightarrow> q \<in> set ((kf(c := kf c @ [p], t := [])) u)
      | _ \<Rightarrow> True" (is "\<forall>u\<in>_. ?A u")
    proof
      fix u assume u: "u \<in> set (L @ [t])"
      consider "u = t" | "u = c" | "u \<in> set L" "u \<noteq> t" "u \<noteq> c" using u by auto
      then show "?A u"
      proof cases
        case 1
        then show ?thesis using ab c(1) ct by auto
      next
        case 2
        then show ?thesis using ab ct r(1) by auto
      next
        case 3
        have tL: "x \<noteq> t" if "x \<in> set L" for x using that t by auto
        have "\<exists>x\<in>set L. tf x = pf u \<and> x \<noteq> c \<and> (ac x = Created (tf u) \<or> ac x = Loading (tf u) (cf u))" if "ac u = Starting"
          using D(14) [OF 3(1) that] c(2) by auto
        moreover have "\<exists>q\<in>set (kf u). q \<noteq> p \<and> (\<exists>s. R q = Some s \<and> pid s = m)" if "ac u = Created m" for m
        proof -
          obtain q where "q \<in> set (kf u)" "\<exists>s. R q = Some s \<and> pid s = m" using D(15) [OF 3(1) \<open>ac u = Created m\<close>] by blast
          then show ?thesis using nop [OF 3(1)] by (intro bexI [of _ q]) auto
        qed
        ultimately show ?thesis using 3 D(16,17) [OF 3(1)] tL by (auto split: activity.split)
      qed
    qed
    show "distinct (map fst E)" by (rule D(18))
    show "\<forall>(m, st)\<in>set E. m < n + 1 \<and> m \<notin> (tf(t := n)) ` set (L @ [t])"
      using D(19,20) t by (auto simp: less_imp_le) (force dest: D(19))+
  qed
qed

text \<open>A record of which pid, exit flag and final status stay, and a change of the running thread's activity.\<close>

definition act_ok ::
  "addr list \<Rightarrow> (addr \<Rightarrow> int) \<Rightarrow> (addr \<Rightarrow> int) \<Rightarrow> (addr \<Rightarrow> addr) \<Rightarrow> (addr \<Rightarrow> addr list) \<Rightarrow> (addr \<Rightarrow> process option) \<Rightarrow>
    (addr \<Rightarrow> activity) \<Rightarrow> addr \<Rightarrow> bool" where
  "act_ok L tf pf cf kf R ac t \<longleftrightarrow> (case ac t of
        Starting \<Rightarrow> (\<exists>t'\<in>set L. tf t' = pf t \<and> (ac t' = Created (tf t) \<or> ac t' = Loading (tf t) (cf t)))
      | Created m \<Rightarrow> (\<exists>p\<in>set (kf t). \<exists>r. R p = Some r \<and> pid r = m)
      | Loading m c \<Rightarrow> c \<in> set (kf t)
      | Waiting c \<Rightarrow> c \<in> set (kf t)
      | _ \<Rightarrow> True)"

lemma family_act_ok: "family L tf pf cf kf R n ac E \<Longrightarrow> t \<in> set L \<Longrightarrow> act_ok L tf pf cf kf R ac t"
  unfolding family_def act_ok_def by (elim conjE) blast

lemma family_frame:
  assumes f: "family L tf pf cf kf R n ac E" and c: "c \<in> set L"
    and rel: "\<And>p. (case R p of None \<Rightarrow> R' p = None | Some r \<Rightarrow> \<exists>r'. R' p = Some r' \<and> pid r' = pid r \<and> p_exit r' = p_exit r \<and>
       (p_exit r \<longrightarrow> p_status r' = p_status r) \<and> (pid r = tf c \<or> child_ok r' = child_ok r))"
    and ck: "\<And>t'. t' \<in> set L \<Longrightarrow> tf t' = pf c \<Longrightarrow> \<exists>s. R' (cf c) = Some s \<and> child_ok s (tf c) a"
    and ac: "\<And>t. t \<in> set L \<Longrightarrow> act_ok L tf pf cf kf R' (ac(c := a)) t"
  shows "family L tf pf cf kf R' n (ac(c := a)) E"
proof -
  note D = familyD [OF f]
  have new: "\<exists>r'. R' p = Some r' \<and> pid r' = pid r \<and> p_exit r' = p_exit r \<and>
       (p_exit r \<longrightarrow> p_status r' = p_status r) \<and> (pid r = tf c \<or> child_ok r' = child_ok r)" if "R p = Some r" for p r
    using rel [of p] that by simp
  have old: "\<exists>r. R p = Some r \<and> pid r' = pid r" if "R' p = Some r'" for p r'
    using rel [of p] that by (auto split: option.splits)
  show ?thesis
    unfolding family_def
  proof (intro conjI)
    show "distinct L" "inj_on tf (set L)" "distinct (map fst E)" by (rule D(1) D(2) D(18))+
    show "\<forall>t\<in>set L. 0 < tf t \<and> tf t < n \<and> pf t < tf t \<and> distinct (kf t) \<and> NULL \<notin> set (kf t)" using D(3-7) by blast
    show "\<forall>t\<in>set L. \<forall>t'\<in>set L. t \<noteq> t' \<longrightarrow> set (kf t) \<inter> set (kf t') = {}" using D(8) by blast
    show "\<forall>p s. R' p = Some s \<longrightarrow> pid s < n \<and> (\<forall>p' s'. R' p' = Some s' \<longrightarrow> pid s = pid s' \<longrightarrow> p = p')"
      using old D(9,10) by metis
    show "\<forall>t\<in>set L. \<forall>t'\<in>set L. tf t' = pf t \<longrightarrow> cf t \<in> set (kf t') \<and>
        (\<exists>s. R' (cf t) = Some s \<and> child_ok s (tf t) ((ac(c := a)) t))"
    proof (intro ballI impI conjI)
      fix t t' assume t: "t \<in> set L" "t' \<in> set L" "tf t' = pf t"
      show "cf t \<in> set (kf t')" by (rule D(11) [OF t])
      show "\<exists>s. R' (cf t) = Some s \<and> child_ok s (tf t) ((ac(c := a)) t)"
      proof (cases "t = c")
        case True
        then show ?thesis using ck [OF t(2)] t(3) by simp
      next
        case False
        obtain s where s: "R (cf t) = Some s" "child_ok s (tf t) (ac t)" using D(12) [OF t] by blast
        have "pid s \<noteq> tf c" using s(2) D(2) t(1) c False by (auto simp: child_ok_def inj_on_def)
        then obtain s' where "R' (cf t) = Some s'" "child_ok s' = child_ok s" using new [OF s(1)] by blast
        then show ?thesis using s(2) False by simp
      qed
    qed
    show "\<forall>t'\<in>set L. \<forall>p\<in>set (kf t'). \<exists>s. R' p = Some s \<and>
        ((\<exists>t\<in>set L. tf t = pid s \<and> pf t = tf t' \<and> cf t = p) \<or> p_exit s \<and> (pid s, p_status s) \<in> set E)"
    proof (intro ballI)
      fix t' p assume t: "t' \<in> set L" "p \<in> set (kf t')"
      obtain s where s: "R p = Some s"
        "(\<exists>t\<in>set L. tf t = pid s \<and> pf t = tf t' \<and> cf t = p) \<or> p_exit s \<and> (pid s, p_status s) \<in> set E"
        using D(13) [OF t] by blast
      obtain s' where s': "R' p = Some s'" "pid s' = pid s" "p_exit s' = p_exit s" "p_exit s \<longrightarrow> p_status s' = p_status s"
        using new [OF s(1)] by blast
      show "\<exists>s. R' p = Some s \<and>
        ((\<exists>t\<in>set L. tf t = pid s \<and> pf t = tf t' \<and> cf t = p) \<or> p_exit s \<and> (pid s, p_status s) \<in> set E)"
        using s(2) s'(2-4) by (intro exI [of _ s'] conjI s'(1)) auto
    qed
    show "\<forall>t\<in>set L. case (ac(c := a)) t of
        Starting \<Rightarrow> (\<exists>t'\<in>set L. tf t' = pf t \<and> ((ac(c := a)) t' = Created (tf t) \<or> (ac(c := a)) t' = Loading (tf t) (cf t)))
      | Created m \<Rightarrow> (\<exists>p\<in>set (kf t). \<exists>r. R' p = Some r \<and> pid r = m)
      | Loading m q \<Rightarrow> q \<in> set (kf t)
      | Waiting q \<Rightarrow> q \<in> set (kf t)
      | _ \<Rightarrow> True"
      using ac unfolding act_ok_def by (intro ballI)
    show "\<forall>(m, st)\<in>set E. m < n \<and> m \<notin> tf ` set L" using D(19,20) by blast
  qed
qed

text \<open>Records keep their pids, so the activities of the other threads stay consistent.\<close>

lemma act_ok_other:
  assumes o: "act_ok L tf pf cf kf R ac t" and ne: "t \<noteq> c"
    and rel: "\<And>p r. R p = Some r \<Longrightarrow> \<exists>r'. R' p = Some r' \<and> pid r' = pid r"
    and par: "ac t = Starting \<Longrightarrow> tf c = pf t \<Longrightarrow> ac c = Created (tf t) \<or> ac c = Loading (tf t) (cf t) \<Longrightarrow>
      a = Created (tf t) \<or> a = Loading (tf t) (cf t)"
  shows "act_ok L tf pf cf kf R' (ac(c := a)) t"
proof (cases "ac t")
  case Starting
  with o obtain t' where t': "t' \<in> set L" "tf t' = pf t" "ac t' = Created (tf t) \<or> ac t' = Loading (tf t) (cf t)"
    by (auto simp: act_ok_def)
  then have "(ac(c := a)) t' = Created (tf t) \<or> (ac(c := a)) t' = Loading (tf t) (cf t)"
    using par Starting by (cases "t' = c") auto
  then show ?thesis using t'(1,2) Starting ne by (auto simp: act_ok_def)
next
  case (Created m)
  with o obtain p r where "p \<in> set (kf t)" "R p = Some r" "pid r = m" by (auto simp: act_ok_def)
  then show ?thesis using rel Created ne by (fastforce simp: act_ok_def)
qed (use o ne in \<open>auto simp: act_ok_def\<close>)

text \<open>The parent takes the record of an ended child off its list.\<close>

lemma family_remove:
  assumes f: "family L tf pf cf kf R n ac E" and c: "c \<in> set L" "ac c = Waiting q" and q: "R q = Some r" "p_exit r"
  shows "family L tf pf cf (kf(c := remove1 q (kf c))) (R(q := None)) n (ac(c := Running)) E"
proof -
  note D = familyD [OF f]
  let ?k = "kf(c := remove1 q (kf c))"
  have qc: "q \<in> set (kf c)" by (rule D(17) [OF c])
  have k: "set (?k t) = set (kf t) - {q}" if "t \<in> set L" for t
    using D(6) [OF c(1)] D(8) [OF that c(1)] qc by auto
  have gone: "cf t \<noteq> q" if "t \<in> set L" "t' \<in> set L" "tf t' = pf t" for t t'
    using D(12) [OF that] q by (auto simp: child_ok_def)
  show ?thesis
    unfolding family_def
  proof (intro conjI)
    show "distinct L" "inj_on tf (set L)" "distinct (map fst E)" by (rule D(1) D(2) D(18))+
    show "\<forall>t\<in>set L. 0 < tf t \<and> tf t < n \<and> pf t < tf t \<and> distinct (?k t) \<and> NULL \<notin> set (?k t)"
      using D(3-7) k by (auto simp: distinct_remove1)
    show "\<forall>t\<in>set L. \<forall>t'\<in>set L. t \<noteq> t' \<longrightarrow> set (?k t) \<inter> set (?k t') = {}"
    proof (intro ballI impI)
      fix t t' assume t: "t \<in> set L" "t' \<in> set L" "t \<noteq> t'"
      show "set (?k t) \<inter> set (?k t') = {}" unfolding k [OF t(1)] k [OF t(2)] using D(8) [OF t] by blast
    qed
    show "\<forall>p s. (R(q := None)) p = Some s \<longrightarrow> pid s < n \<and> (\<forall>p' s'. (R(q := None)) p' = Some s' \<longrightarrow> pid s = pid s' \<longrightarrow> p = p')"
      using D(9,10) by (auto split: if_splits)
    show "\<forall>t\<in>set L. \<forall>t'\<in>set L. tf t' = pf t \<longrightarrow> cf t \<in> set (?k t') \<and>
        (\<exists>s. (R(q := None)) (cf t) = Some s \<and> child_ok s (tf t) ((ac(c := Running)) t))"
    proof (intro ballI impI)
      fix t t' assume t: "t \<in> set L" "t' \<in> set L" "tf t' = pf t"
      obtain s where s: "R (cf t) = Some s" "child_ok s (tf t) (ac t)" using D(12) [OF t] by blast
      have "child_ok s (tf t) ((ac(c := Running)) t)" using s(2) c(2) by (auto simp: child_ok_def)
      then show "cf t \<in> set (?k t') \<and> (\<exists>s. (R(q := None)) (cf t) = Some s \<and> child_ok s (tf t) ((ac(c := Running)) t))"
        unfolding k [OF t(2)] using gone [OF t] D(11) [OF t] s(1) by simp
    qed
    show "\<forall>t'\<in>set L. \<forall>p\<in>set (?k t'). \<exists>s. (R(q := None)) p = Some s \<and>
        ((\<exists>t\<in>set L. tf t = pid s \<and> pf t = tf t' \<and> cf t = p) \<or> p_exit s \<and> (pid s, p_status s) \<in> set E)"
    proof (intro ballI)
      fix t' p assume t: "t' \<in> set L" "p \<in> set (?k t')"
      then have "p \<in> set (kf t')" "p \<noteq> q" using k [OF t(1)] by auto
      then show "\<exists>s. (R(q := None)) p = Some s \<and>
        ((\<exists>t\<in>set L. tf t = pid s \<and> pf t = tf t' \<and> cf t = p) \<or> p_exit s \<and> (pid s, p_status s) \<in> set E)"
        using D(13) [OF t(1)] by simp
    qed
    show "\<forall>t\<in>set L. case (ac(c := Running)) t of
        Starting \<Rightarrow> (\<exists>t'\<in>set L. tf t' = pf t \<and>
          ((ac(c := Running)) t' = Created (tf t) \<or> (ac(c := Running)) t' = Loading (tf t) (cf t)))
      | Created m \<Rightarrow> (\<exists>p\<in>set (?k t). \<exists>r. (R(q := None)) p = Some r \<and> pid r = m)
      | Loading m q \<Rightarrow> q \<in> set (?k t)
      | Waiting q \<Rightarrow> q \<in> set (?k t)
      | _ \<Rightarrow> True" (is "\<forall>t\<in>_. ?A t")
    proof
      fix t assume t: "t \<in> set L"
      show "?A t"
      proof (cases "t = c")
        case False
        have nq: "q \<notin> set (kf t)" using D(8) [OF t c(1) False] qc by blast
        then have "R p = (R(q := None)) p" if "p \<in> set (kf t)" for p using that by auto
        moreover have "ac t' \<noteq> Created (tf t) \<and> ac t' \<noteq> Loading (tf t) (cf t) \<or> t' \<noteq> c" for t' using c(2) by auto
        ultimately show ?thesis
          using family_act_ok [OF f t] False by (fastforce simp: act_ok_def split: activity.splits)
      qed simp
    qed
    show "\<forall>(m, st)\<in>set E. m < n \<and> m \<notin> tf ` set L" using D(19,20) by blast
  qed
qed

text \<open>A thread ends: its children's records are freed, its own is marked if its parent lives.\<close>

lemma family_leave:
  assumes f: "family L tf pf cf kf R n ac E" and c: "c \<in> set L" "ac c = Leaving st"
    and R': "\<And>p. R' p = (if p \<in> set (kf c) then None else if pf c \<in> tf ` set L \<and> p = cf c then Some (r\<lparr>p_exit := True\<rparr>) else R p)"
    and r: "pf c \<in> tf ` set L \<Longrightarrow> R (cf c) = Some r"
    and kc: "\<And>t. t \<in> set L \<Longrightarrow> t \<noteq> c \<Longrightarrow> kf' t = kf t"
  shows "family (remove1 c L) tf pf cf kf' R' n ac ((tf c, st) # E)"
proof -
  note D = familyD [OF f]
  have L: "t \<in> set (remove1 c L) \<longleftrightarrow> t \<in> set L \<and> t \<noteq> c" for t using D(1) by simp
  have kk: "kf' t = kf t" "p \<in> set (kf t) \<Longrightarrow> p \<notin> set (kf c)" if "t \<in> set L" "t \<noteq> c" for t p
    using that kc D(8) [OF that(1) c(1) that(2)] by auto
  have own: "cf t \<noteq> cf c" if "t \<in> set L" "t \<noteq> c" "t' \<in> set L" "tf t' = pf t" "u \<in> set L" "tf u = pf c" for t t' u
    using D(12) [OF that(1,3,4)] D(12) [OF c(1) that(5,6)] D(2) that(1,2) c(1) by (auto simp: child_ok_def inj_on_def)
  have old: "\<exists>s. R p = Some s \<and> pid s' = pid s" if "R' p = Some s'" for p s'
    using that r R' [of p] by (auto split: if_splits)
  show ?thesis
    unfolding family_def
  proof (intro conjI)
    show "distinct (remove1 c L)" "inj_on tf (set (remove1 c L))"
      using D(1,2) by (auto simp: inj_on_def)
    show "\<forall>t\<in>set (remove1 c L). 0 < tf t \<and> tf t < n \<and> pf t < tf t \<and> distinct (kf' t) \<and> NULL \<notin> set (kf' t)"
      using D(3-7) kk L by auto
    show "\<forall>t\<in>set (remove1 c L). \<forall>t'\<in>set (remove1 c L). t \<noteq> t' \<longrightarrow> set (kf' t) \<inter> set (kf' t') = {}"
      using D(8) kk L by simp
    show "\<forall>p s. R' p = Some s \<longrightarrow> pid s < n \<and> (\<forall>p' s'. R' p' = Some s' \<longrightarrow> pid s = pid s' \<longrightarrow> p = p')"
      using old D(9,10) by metis
    show "\<forall>t\<in>set (remove1 c L). \<forall>t'\<in>set (remove1 c L). tf t' = pf t \<longrightarrow> cf t \<in> set (kf' t') \<and>
        (\<exists>s. R' (cf t) = Some s \<and> child_ok s (tf t) (ac t))"
    proof (intro ballI impI)
      fix t t' assume "t \<in> set (remove1 c L)" "t' \<in> set (remove1 c L)" and e: "tf t' = pf t"
      then have t: "t \<in> set L" "t \<noteq> c" "t' \<in> set L" "t' \<noteq> c" using L by auto
      have m: "cf t \<in> set (kf t')" by (rule D(11) [OF t(1,3) e])
      have "pf c \<notin> tf ` set L \<or> cf t \<noteq> cf c" using own [OF t(1-3) e] by force
      then have "R' (cf t) = R (cf t)" using R' [of "cf t"] kk(2) [OF t(3,4) m] by auto
      then show "cf t \<in> set (kf' t') \<and> (\<exists>s. R' (cf t) = Some s \<and> child_ok s (tf t) (ac t))"
        using m kk(1) [OF t(3,4)] D(12) [OF t(1,3) e] by simp
    qed
    show "\<forall>t'\<in>set (remove1 c L). \<forall>p\<in>set (kf' t'). \<exists>s. R' p = Some s \<and>
        ((\<exists>t\<in>set (remove1 c L). tf t = pid s \<and> pf t = tf t' \<and> cf t = p) \<or> p_exit s \<and> (pid s, p_status s) \<in> set ((tf c, st) # E))"
    proof (intro ballI)
      fix t' p assume "t' \<in> set (remove1 c L)" "p \<in> set (kf' t')"
      then have t: "t' \<in> set L" "t' \<noteq> c" "p \<in> set (kf t')" using L kk by auto
      have np: "p \<notin> set (kf c)" by (rule kk(2) [OF t])
      obtain s where s: "R p = Some s"
        "(\<exists>t\<in>set L. tf t = pid s \<and> pf t = tf t' \<and> cf t = p) \<or> p_exit s \<and> (pid s, p_status s) \<in> set E"
        using D(13) [OF t(1,3)] by blast
      show "\<exists>s. R' p = Some s \<and>
        ((\<exists>t\<in>set (remove1 c L). tf t = pid s \<and> pf t = tf t' \<and> cf t = p) \<or> p_exit s \<and> (pid s, p_status s) \<in> set ((tf c, st) # E))"
      proof (cases "pf c \<in> tf ` set L \<and> p = cf c")
        case True
        then obtain u where u: "u \<in> set L" "tf u = pf c" by auto
        obtain s' where s': "R (cf c) = Some s'" "child_ok s' (tf c) (ac c)" using D(12) [OF c(1) u] by blast
        then have "pid r = tf c" "p_status r = st" using r True c(2) by (auto simp: child_ok_def)
        moreover have "R' p = Some (r\<lparr>p_exit := True\<rparr>)" using R' [of p] np True by simp
        ultimately show ?thesis by simp
      next
        case False
        then have R: "R' p = Some s" using R' [of p] np s(1) by auto
        have "t \<noteq> c" if "t \<in> set L" "tf t = pid s" "pf t = tf t'" "cf t = p" for t using False that t(1) by auto
        then show ?thesis using s(2) R L by (auto intro!: exI [of _ s])
      qed
    qed
    show "\<forall>t\<in>set (remove1 c L). case ac t of
        Starting \<Rightarrow> (\<exists>t'\<in>set (remove1 c L). tf t' = pf t \<and> (ac t' = Created (tf t) \<or> ac t' = Loading (tf t) (cf t)))
      | Created m \<Rightarrow> (\<exists>p\<in>set (kf' t). \<exists>r. R' p = Some r \<and> pid r = m)
      | Loading m q \<Rightarrow> q \<in> set (kf' t)
      | Waiting q \<Rightarrow> q \<in> set (kf' t)
      | _ \<Rightarrow> True" (is "\<forall>t\<in>_. ?A t")
    proof
      fix t assume "t \<in> set (remove1 c L)"
      then have t: "t \<in> set L" "t \<noteq> c" using L by auto
      have "\<exists>s'. R' p = Some s' \<and> pid s' = pid s" if "p \<in> set (kf t)" "R p = Some s" for p s
        using R' [of p] kk(2) [OF t that(1)] that(2) r by auto
      then have "ac t = Created m \<Longrightarrow> \<exists>p\<in>set (kf t). \<exists>r. R' p = Some r \<and> pid r = m" for m using D(15) [OF t(1)] by blast
      moreover have "\<exists>t'\<in>set (remove1 c L). tf t' = pf t \<and> (ac t' = Created (tf t) \<or> ac t' = Loading (tf t) (cf t))"
        if st: "ac t = Starting"
      proof -
        obtain t' where t': "t' \<in> set L" "tf t' = pf t" "ac t' = Created (tf t) \<or> ac t' = Loading (tf t) (cf t)"
          using D(14) [OF t(1) st] by blast
        then have "t' \<noteq> c" using c(2) by auto
        then show ?thesis using t' L by blast
      qed
      ultimately show "?A t" using D(16,17) [OF t(1)] kk(1) [OF t] by (cases "ac t") simp_all
    qed
    have "tf c \<notin> fst ` set E"
    proof
      assume "tf c \<in> fst ` set E"
      then obtain st' where "(tf c, st') \<in> set E" by auto
      from D(20) [OF this c(1)] show False by simp
    qed
    then show "distinct (map fst ((tf c, st) # E))" using D(18) by simp
    show "\<forall>(m, st)\<in>set ((tf c, st) # E). m < n \<and> m \<notin> tf ` set (remove1 c L)"
    proof -
      have "tf c \<notin> tf ` set (remove1 c L)" using D(2) c(1) L by (auto simp: inj_on_def)
      moreover have "fst x < n \<and> fst x \<notin> tf ` set (remove1 c L)" if "x \<in> set E" for x
      proof
        have x: "(fst x, snd x) \<in> set E" using that by simp
        show "fst x < n" by (rule D(19) [OF x])
        show "fst x \<notin> tf ` set (remove1 c L)"
        proof
          assume "fst x \<in> tf ` set (remove1 c L)"
          then obtain t where "t \<in> set L" "fst x = tf t" using L by blast
          then show False using D(20) [OF x \<open>t \<in> set L\<close>] by simp
        qed
      qed
      ultimately show ?thesis using D(4) [OF c(1)] by (simp add: case_prod_beta)
    qed
  qed
qed

section \<open>The calls keep it\<close>

abbreviation fam :: "kernel \<Rightarrow> (addr \<Rightarrow> activity) \<Rightarrow> (int \<times> int option) list \<Rightarrow> bool" where
  "fam k ac E \<equiv> family (all_list k) (\<lambda>t. tid (thd k t)) (\<lambda>t. parent (thd k t)) (\<lambda>t. cp (thd k t))
       (\<lambda>t. child_list (thd k t)) (procs k) (next_tid k) ac E"

lemma pinvD:
  assumes "pinv S" and "cur (ks S) \<in> set (all_list (ks S))"
  shows "fam (ks S) (act S) (ended S)" "thread_current (ks S) = Some (thd (ks S) (cur (ks S)))"
    "thr (ks S) (cur (ks S)) = Some (thd (ks S) (cur (ks S)))"
proof -
  show "fam (ks S) (act S) (ended S)" using assms by (simp add: pinv_def)
  show t: "thr (ks S) (cur (ks S)) = Some (thd (ks S) (cur (ks S)))" using assms by (auto simp: pinv_def thd_def)
  have "cur (ks S) \<noteq> NULL" using assms by (auto simp: pinv_def)
  then show "thread_current (ks S) = Some (thd (ks S) (cur (ks S)))"
    using assms t by (simp add: pinv_def thread_current_def)
qed

lemma thd_upd: "thr k' = (thr k)(t \<mapsto> x) \<Longrightarrow> thd k' = (thd k)(t := x)"
  by (auto simp: thd_def fun_eq_iff)

lemma spawn_ok:
  assumes "thread_current k = Some x" and "t \<noteq> NULL" and "p \<noteq> NULL" and "t \<noteq> cur k" and "next_tid k < 2 ^ 31 - 1" and "0 < next_tid k"
  shows "\<exists>k' y r. spawn t p k = Some k' \<and> thd k' = (thd k)(t := y, cur k := x\<lparr>child_list := child_list x @ [p]\<rparr>) \<and>
    tid y = next_tid k \<and> parent y = tid x \<and> cp y = p \<and> child_list y = [] \<and>
    all_list k' = all_list k @ [t] \<and> cur k' = cur k \<and> next_tid k' = next_tid k + 1 \<and> procs k' = (procs k)(p \<mapsto> r) \<and>
    pid r = next_tid k \<and> \<not> p_exit r \<and> p_status r = None \<and> load_state r = LOADED_DEFAULT \<and>
    (\<forall>u. thr k u \<noteq> None \<longrightarrow> thr k' u \<noteq> None) \<and> thr k' t \<noteq> None"
proof -
  have c: "thr k (cur k) = Some x" "cur k \<noteq> NULL" "status x = THREAD_RUNNING"
    using assms(1) by (auto simp: thread_current_def ASSERT_def split: if_splits option.splits Option.bind_splits)
  have i: "i32 (next_tid k + 1) = next_tid k + 1" using assms(5,6) by (intro i32_id) (simp add: in_i32_def)
  show ?thesis
    using assms(2-4) c
    by (simp add: spawn_def Let_def init_thread_def PRI_MIN_def PRI_MAX_def PRI_DEFAULT_def upd_thread_def i
      thread_current_def add_process_current_thread_def thd_def LOADED_DEFAULT_def fun_eq_iff)
qed

lemma pinv_create:
  assumes p: "pinv S" "cur (ks S) \<in> set (all_list (ks S))" and ac: "act S (cur (ks S)) = Running"
    and t: "t \<noteq> NULL" "t \<notin> set (all_list (ks S))" and q: "procs (ks S) q = None" "q \<noteq> NULL" and n: "next_tid (ks S) < 2 ^ 31 - 1"
    and ab: "(a, b) = (Starting, Created (next_tid (ks S))) \<or> (a, b) = (Running, Running)"
  shows "\<exists>k. spawn t q (ks S) = Some k \<and> pinv (S\<lparr>ks := k, act := (act S)(cur (ks S) := b, t := a)\<rparr>)"
proof -
  let ?k = "ks S" and ?c = "cur (ks S)"
  note D = pinvD [OF p]
  have tc: "t \<noteq> ?c" using t p(2) by blast
  have "0 < next_tid ?k" using familyD(3,4) [OF D(1) p(2)] by linarith
  from spawn_ok [OF D(2) t(1) q(2) tc n this] obtain k y r where k: "spawn t q ?k = Some k"
    "thd k = (thd ?k)(t := y, ?c := (thd ?k ?c)\<lparr>child_list := child_list (thd ?k ?c) @ [q]\<rparr>)"
    "tid y = next_tid ?k" "parent y = tid (thd ?k ?c)" "cp y = q" "child_list y = []"
    "all_list k = all_list ?k @ [t]" "cur k = ?c" "next_tid k = next_tid ?k + 1" "procs k = (procs ?k)(q \<mapsto> r)"
    "pid r = next_tid ?k" "\<not> p_exit r" "p_status r = None" "load_state r = LOADED_DEFAULT"
    "\<forall>u. thr ?k u \<noteq> None \<longrightarrow> thr k u \<noteq> None" "thr k t \<noteq> None" by blast
  have v: "(\<lambda>u. tid (thd k u)) = (\<lambda>u. tid (thd ?k u))(t := next_tid ?k)"
    "(\<lambda>u. parent (thd k u)) = (\<lambda>u. parent (thd ?k u))(t := tid (thd ?k ?c))"
    "(\<lambda>u. cp (thd k u)) = (\<lambda>u. cp (thd ?k u))(t := q)"
    "(\<lambda>u. child_list (thd k u)) = (\<lambda>u. child_list (thd ?k u))(?c := child_list (thd ?k ?c) @ [q], t := [])"
    using k(2-6) tc by (auto simp: fun_eq_iff)
  have "fam k ((act S)(?c := b, t := a)) (ended S)"
    unfolding v k(7,9,10) by (rule family_spawn [OF D(1) p(2) ac t(2) q(2,1) ab k(11-14)])
  then show ?thesis using k(1,7,8,15,16) p t(1) tc k(2) by (auto simp: pinv_def)
qed

lemma pinv_procs:
  assumes "pinv S" and "fam ((ks S)\<lparr>procs := R\<rparr>) ac (ended S)"
  shows "pinv (S\<lparr>ks := (ks S)\<lparr>procs := R\<rparr>, act := ac\<rparr>)"
  using assms by (simp add: pinv_def thd_def)

lemma pinv_act: "pinv S \<Longrightarrow> fam (ks S) ac (ended S) \<Longrightarrow> pinv (S\<lparr>act := ac\<rparr>)"
  by (simp add: pinv_def)

lemma is_alive_iff:
  "\<forall>t\<in>set (all_list k). thr k t \<noteq> None \<Longrightarrow> is_alive p k \<longleftrightarrow> p \<in> (\<lambda>t. tid (thd k t)) ` set (all_list k)"
  by (force simp: is_alive_def list_ex_iff thd_def split: option.splits)

lemma pinv_alive: "pinv S \<Longrightarrow> is_alive p (ks S) \<longleftrightarrow> p \<in> (\<lambda>t. tid (thd (ks S) t)) ` set (all_list (ks S))"
  by (rule is_alive_iff) (simp add: pinv_def)

lemma check_loop_ok:
  "\<forall>p\<in>set ps. p \<noteq> NULL \<and> procs k p \<noteq> None \<Longrightarrow>
    \<exists>q. check_loop n ps k = Some q \<and> (q = NULL \<and> (\<forall>p\<in>set ps. \<forall>r. procs k p = Some r \<longrightarrow> pid r \<noteq> n) \<or>
      q \<in> set ps \<and> (\<exists>r. procs k q = Some r \<and> pid r = n))"
  by (induction ps) auto

lemma pinv_child_check:
  assumes p: "pinv S" "cur (ks S) \<in> set (all_list (ks S))"
  shows "\<exists>q. child_process_check n (ks S) = Some q \<and>
    (q = NULL \<and> (\<forall>p\<in>set (child_list (thd (ks S) (cur (ks S)))). \<forall>r. procs (ks S) p = Some r \<longrightarrow> pid r \<noteq> n) \<or>
     q \<noteq> NULL \<and> q \<in> set (child_list (thd (ks S) (cur (ks S)))) \<and> (\<exists>r. procs (ks S) q = Some r \<and> pid r = n))"
proof -
  note D = pinvD [OF p]
  have "\<forall>q\<in>set (child_list (thd (ks S) (cur (ks S)))). q \<noteq> NULL \<and> procs (ks S) q \<noteq> None"
    using familyD(7) [OF D(1) p(2)] familyD(13) [OF D(1) p(2)] by fastforce
  from check_loop_ok [OF this, of n] show ?thesis
    using D(2) familyD(7) [OF D(1) p(2)] by (auto simp: child_process_check_def)
qed

text \<open>The running thread's activity changes from one that no other thread's depends on.\<close>

lemma pinv_frame:
  assumes p: "pinv S" "cur (ks S) \<in> set (all_list (ks S))"
    and rel: "\<And>q. (case procs (ks S) q of None \<Rightarrow> R' q = None | Some r \<Rightarrow> \<exists>r'. R' q = Some r' \<and> pid r' = pid r \<and> p_exit r' = p_exit r \<and>
       (p_exit r \<longrightarrow> p_status r' = p_status r) \<and> (pid r = tid (thd (ks S) (cur (ks S))) \<or> child_ok r' = child_ok r))"
    and ck: "\<And>s. is_alive (parent (thd (ks S) (cur (ks S)))) (ks S) \<Longrightarrow> procs (ks S) (cp (thd (ks S) (cur (ks S)))) = Some s \<Longrightarrow>
      child_ok s (tid (thd (ks S) (cur (ks S)))) (act S (cur (ks S))) \<Longrightarrow>
      \<exists>s'. R' (cp (thd (ks S) (cur (ks S)))) = Some s' \<and> child_ok s' (tid (thd (ks S) (cur (ks S)))) a"
    and own: "act_ok (all_list (ks S)) (\<lambda>t. tid (thd (ks S) t)) (\<lambda>t. parent (thd (ks S) t)) (\<lambda>t. cp (thd (ks S) t))
       (\<lambda>t. child_list (thd (ks S) t)) R' ((act S)(cur (ks S) := a)) (cur (ks S))"
    and par: "\<And>t. t \<in> set (all_list (ks S)) \<Longrightarrow> act S t = Starting \<Longrightarrow> tid (thd (ks S) (cur (ks S))) = parent (thd (ks S) t) \<Longrightarrow>
      act S (cur (ks S)) = Created (tid (thd (ks S) t)) \<or> act S (cur (ks S)) = Loading (tid (thd (ks S) t)) (cp (thd (ks S) t)) \<Longrightarrow>
      a = Created (tid (thd (ks S) t)) \<or> a = Loading (tid (thd (ks S) t)) (cp (thd (ks S) t))"
  shows "pinv (S\<lparr>ks := (ks S)\<lparr>procs := R'\<rparr>, act := (act S)(cur (ks S) := a)\<rparr>)"
proof -
  let ?k = "ks S" and ?c = "cur (ks S)"
  note D = pinvD [OF p]
  have thd: "thd (?k\<lparr>procs := R'\<rparr>) = thd ?k" "all_list (?k\<lparr>procs := R'\<rparr>) = all_list ?k"
    "procs (?k\<lparr>procs := R'\<rparr>) = R'" "next_tid (?k\<lparr>procs := R'\<rparr>) = next_tid ?k"
    by (simp_all add: thd_def fun_eq_iff)
  have pid: "\<exists>r'. R' q = Some r' \<and> pid r' = pid r" if "procs ?k q = Some r" for q r using rel [of q] that by auto
  have "fam (?k\<lparr>procs := R'\<rparr>) ((act S)(?c := a)) (ended S)"
    unfolding thd
  proof (rule family_frame [OF D(1) p(2) rel])
    fix t' assume t': "t' \<in> set (all_list ?k)" "tid (thd ?k t') = parent (thd ?k ?c)"
    then have "is_alive (parent (thd ?k ?c)) ?k" unfolding pinv_alive [OF p(1)] by force
    then show "\<exists>s. R' (cp (thd ?k ?c)) = Some s \<and> child_ok s (tid (thd ?k ?c)) a"
      using ck familyD(12) [OF D(1) p(2) t'] by blast
  next
    fix t assume t: "t \<in> set (all_list ?k)"
    show "act_ok (all_list ?k) (\<lambda>t. tid (thd ?k t)) (\<lambda>t. parent (thd ?k t)) (\<lambda>t. cp (thd ?k t))
       (\<lambda>t. child_list (thd ?k t)) R' ((act S)(?c := a)) t"
    proof (cases "t = ?c")
      case True
      then show ?thesis using own by simp
    next
      case False
      show ?thesis by (rule act_ok_other [OF family_act_ok [OF D(1) t] False]) (fact pid, rule par [OF t])
    qed
  qed
  then show ?thesis by (rule pinv_procs [OF p(1)])
qed

lemma upd_proc_eq: "procs k q = Some r \<Longrightarrow> upd_proc q g k = Some (k\<lparr>procs := (procs k)(q \<mapsto> g r)\<rparr>)"
  by (simp add: upd_proc_def)

text \<open>No record changes, or one that is the running thread's own or in no way that counts.\<close>

lemma pinv_same:
  assumes p: "pinv S" "cur (ks S) \<in> set (all_list (ks S))"
    and st: "(case a of Leaving st \<Rightarrow> st | _ \<Rightarrow> None) = (case act S (cur (ks S)) of Leaving st \<Rightarrow> st | _ \<Rightarrow> None)" "a \<noteq> Starting"
    and own: "act_ok (all_list (ks S)) (\<lambda>t. tid (thd (ks S) t)) (\<lambda>t. parent (thd (ks S) t)) (\<lambda>t. cp (thd (ks S) t))
       (\<lambda>t. child_list (thd (ks S) t)) (procs (ks S)) ((act S)(cur (ks S) := a)) (cur (ks S))"
    and par: "\<And>t. t \<in> set (all_list (ks S)) \<Longrightarrow> act S t = Starting \<Longrightarrow> tid (thd (ks S) (cur (ks S))) = parent (thd (ks S) t) \<Longrightarrow>
      act S (cur (ks S)) = Created (tid (thd (ks S) t)) \<or> act S (cur (ks S)) = Loading (tid (thd (ks S) t)) (cp (thd (ks S) t)) \<Longrightarrow>
      a = Created (tid (thd (ks S) t)) \<or> a = Loading (tid (thd (ks S) t)) (cp (thd (ks S) t))"
  shows "pinv (S\<lparr>act := (act S)(cur (ks S) := a)\<rparr>)"
proof -
  have "pinv (S\<lparr>ks := (ks S)\<lparr>procs := procs (ks S)\<rparr>, act := (act S)(cur (ks S) := a)\<rparr>)"
    by (rule pinv_frame [OF p _ _ own par]) (use st in \<open>auto simp: child_ok_def split: option.split\<close>)
  then show ?thesis by simp
qed

lemma pinv_upd:
  assumes p: "pinv S" "cur (ks S) \<in> set (all_list (ks S))" and r: "procs (ks S) q = Some r"
    and g: "pid (g r) = pid r" "p_exit (g r) = p_exit r" "p_exit r \<longrightarrow> p_status (g r) = p_status r"
      "pid r = tid (thd (ks S) (cur (ks S))) \<or> child_ok (g r) = child_ok r"
    and ck: "\<And>s. procs (ks S) (cp (thd (ks S) (cur (ks S)))) = Some s \<Longrightarrow>
      child_ok s (tid (thd (ks S) (cur (ks S)))) (act S (cur (ks S))) \<Longrightarrow>
      child_ok (if cp (thd (ks S) (cur (ks S))) = q then g s else s) (tid (thd (ks S) (cur (ks S)))) a"
    and ac: "act S (cur (ks S)) = Starting \<or> act S (cur (ks S)) = Running"
    and own: "case a of Waiting c \<Rightarrow> c \<in> set (child_list (thd (ks S) (cur (ks S)))) | Leaving _ \<Rightarrow> True | Running \<Rightarrow> True | _ \<Rightarrow> False"
  shows "\<exists>k. upd_proc q g (ks S) = Some k \<and> pinv (S\<lparr>ks := k, act := (act S)(cur (ks S) := a)\<rparr>)"
proof -
  let ?R = "(procs (ks S))(q \<mapsto> g r)"
  have "pinv (S\<lparr>ks := (ks S)\<lparr>procs := ?R\<rparr>, act := (act S)(cur (ks S) := a)\<rparr>)"
  proof (rule pinv_frame [OF p])
    fix q'
    show "case procs (ks S) q' of None \<Rightarrow> ?R q' = None | Some r0 \<Rightarrow> \<exists>r'. ?R q' = Some r' \<and> pid r' = pid r0 \<and>
     p_exit r' = p_exit r0 \<and> (p_exit r0 \<longrightarrow> p_status r' = p_status r0) \<and>
     (pid r0 = tid (thd (ks S) (cur (ks S))) \<or> child_ok r' = child_ok r0)"
      using r g by (cases "q' = q"; cases "procs (ks S) q'") auto
  next
    fix s assume "procs (ks S) (cp (thd (ks S) (cur (ks S)))) = Some s"
      "child_ok s (tid (thd (ks S) (cur (ks S)))) (act S (cur (ks S)))"
    from ck [OF this] this(1)
    show "\<exists>s'. ?R (cp (thd (ks S) (cur (ks S)))) = Some s' \<and> child_ok s' (tid (thd (ks S) (cur (ks S)))) a"
      using r by (auto split: if_splits)
  qed (use ac own in \<open>auto simp: act_ok_def split: activity.splits\<close>)
  then show ?thesis using r by (simp add: upd_proc_eq)
qed

lemma pinv_check:
  assumes p: "pinv S" "cur (ks S) \<in> set (all_list (ks S))" and ac: "act S (cur (ks S)) = Created n"
  shows "\<exists>c. exec_check n (ks S) = Some c \<and> pinv (S\<lparr>act := (act S)(cur (ks S) := Loading n c)\<rparr>)"
proof -
  note D = pinvD [OF p]
  obtain q r0 where "q \<in> set (child_list (thd (ks S) (cur (ks S))))" "procs (ks S) q = Some r0" "pid r0 = n"
    using familyD(15) [OF D(1) p(2) ac] by blast
  then obtain c r where c: "child_process_check n (ks S) = Some c" "c \<noteq> NULL"
    "c \<in> set (child_list (thd (ks S) (cur (ks S))))" "procs (ks S) c = Some r" "pid r = n"
    using pinv_child_check [OF p, of n] by blast
  have "pinv (S\<lparr>act := (act S)(cur (ks S) := Loading n c)\<rparr>)"
  proof (rule pinv_same [OF p])
    fix t assume t: "t \<in> set (all_list (ks S))" "act S t = Starting" "tid (thd (ks S) (cur (ks S))) = parent (thd (ks S) t)"
      "act S (cur (ks S)) = Created (tid (thd (ks S) t)) \<or> act S (cur (ks S)) = Loading (tid (thd (ks S) t)) (cp (thd (ks S) t))"
    then have n: "n = tid (thd (ks S) t)" using ac by auto
    obtain s where "procs (ks S) (cp (thd (ks S) t)) = Some s" "child_ok s (tid (thd (ks S) t)) (act S t)"
      using familyD(12) [OF D(1) t(1) p(2) t(3)] by blast
    then have "cp (thd (ks S) t) = c" using familyD(10) [OF D(1) _ c(4)] c(5) n by (auto simp: child_ok_def)
    then show "Loading n c = Created (tid (thd (ks S) t)) \<or> Loading n c = Loading (tid (thd (ks S) t)) (cp (thd (ks S) t))"
      using n by simp
  qed (use c(3) ac in \<open>simp_all add: act_ok_def\<close>)
  then show ?thesis using c(1,2) by (simp add: exec_check_def)
qed

lemma pinv_exec:
  assumes p: "pinv S" "cur (ks S) \<in> set (all_list (ks S))" and ac: "act S (cur (ks S)) = Loading n c"
  shows "\<exists>v. exec_poll n c (ks S) = Some v \<and> pinv (S\<lparr>act := (act S)(cur (ks S) := if v = None then Loading n c else Running)\<rparr>)"
proof -
  note D = pinvD [OF p]
  have "c \<in> set (child_list (thd (ks S) (cur (ks S))))" by (rule familyD(16) [OF D(1) p(2) ac])
  then obtain r where r: "procs (ks S) c = Some r" using familyD(13) [OF D(1) p(2)] by blast
  show ?thesis
  proof (cases "load_state r = LOADED_DEFAULT")
    case True
    have "(act S)(cur (ks S) := Loading n c) = act S" using ac by (simp add: fun_upd_idem)
    then show ?thesis using r True p(1) by (simp add: exec_poll_def)
  next
    case False
    have "pinv (S\<lparr>act := (act S)(cur (ks S) := Running)\<rparr>)"
    proof (rule pinv_same [OF p])
      fix t assume t: "t \<in> set (all_list (ks S))" "act S t = Starting" "tid (thd (ks S) (cur (ks S))) = parent (thd (ks S) t)"
        "act S (cur (ks S)) = Created (tid (thd (ks S) t)) \<or> act S (cur (ks S)) = Loading (tid (thd (ks S) t)) (cp (thd (ks S) t))"
      then have "cp (thd (ks S) t) = c" using ac by auto
      then have "load_state r = LOADED_DEFAULT"
        using familyD(12) [OF D(1) t(1) p(2) t(3)] r t(2) by (auto simp: child_ok_def)
      with False show "Running = Created (tid (thd (ks S) t)) \<or> Running = Loading (tid (thd (ks S) t)) (cp (thd (ks S) t))" by blast
    qed (use ac in \<open>simp_all add: act_ok_def\<close>)
    then show ?thesis using r False by (simp add: exec_poll_def)
  qed
qed

lemma pinv_load:
  assumes p: "pinv S" "cur (ks S) \<in> set (all_list (ks S))" and ac: "act S (cur (ks S)) = Starting"
  shows "\<exists>k. loaded b (ks S) = Some k \<and> pinv (S\<lparr>ks := k, act := (act S)(cur (ks S) := if b then Running else Leaving None)\<rparr>)"
proof -
  note D = pinvD [OF p]
  let ?x = "thd (ks S) (cur (ks S))" and ?a = "if b then Running else Leaving None"
  let ?g = "\<lambda>r. r\<lparr>load_state := (if b then SUCCESSFULLY_LOAD else LOADING_FAILED)\<rparr>"
  obtain t' where "t' \<in> set (all_list (ks S))" "tid (thd (ks S) t') = parent ?x" using familyD(14) [OF D(1) p(2) ac] by blast
  then obtain r where r: "procs (ks S) (cp ?x) = Some r" "child_ok r (tid ?x) Starting"
    using familyD(12) [OF D(1) p(2)] ac by metis
  have "\<exists>k. upd_proc (cp ?x) ?g (ks S) = Some k \<and> pinv (S\<lparr>ks := k, act := (act S)(cur (ks S) := ?a)\<rparr>)"
    by (rule pinv_upd [OF p r(1)]) (use r(2) ac in \<open>auto simp: child_ok_def split: if_splits\<close>)
  then show ?thesis using D(2) by (simp add: loaded_def)
qed

lemma pinv_wait:
  assumes p: "pinv S" "cur (ks S) \<in> set (all_list (ks S))" and ac: "act S (cur (ks S)) = Running"
  shows "\<exists>v k. process_wait n (ks S) = Some (v, k) \<and>
    pinv (S\<lparr>ks := k, act := (act S)(cur (ks S) := (case v of Inl _ \<Rightarrow> Running | Inr c \<Rightarrow> Waiting c))\<rparr>)"
proof -
  note D = pinvD [OF p]
  have same: "S\<lparr>ks := ks S, act := (act S)(cur (ks S) := Running)\<rparr> = S" using ac by (simp add: fun_upd_idem)
  obtain c where c: "child_process_check n (ks S) = Some c"
    "c = NULL \<or> c \<noteq> NULL \<and> c \<in> set (child_list (thd (ks S) (cur (ks S)))) \<and> (\<exists>r. procs (ks S) c = Some r \<and> pid r = n)"
    using pinv_child_check [OF p, of n] by blast
  show ?thesis
  proof (cases "c = NULL")
    case True
    then show ?thesis using c(1) p(1) same by (auto simp: process_wait_def)
  next
    case False
    with c(2) obtain r where r: "procs (ks S) c = Some r" "c \<in> set (child_list (thd (ks S) (cur (ks S))))" by blast
    show ?thesis
    proof (cases "p_wait r")
      case True
      then show ?thesis using c(1) False r(1) p(1) same by (auto simp: process_wait_def)
    next
      case w: False
      have "\<exists>k. upd_proc c (\<lambda>r. r\<lparr>p_wait := True\<rparr>) (ks S) = Some k \<and> pinv (S\<lparr>ks := k, act := (act S)(cur (ks S) := Waiting c)\<rparr>)"
        by (rule pinv_upd [OF p r(1)]) (use r(2) ac in \<open>auto simp: child_ok_def fun_eq_iff\<close>)
      then show ?thesis using c(1) False r(1) w by (auto simp: process_wait_def)
    qed
  qed
qed

lemma pinv_poll:
  assumes p: "pinv S" "cur (ks S) \<in> set (all_list (ks S))" and ac: "act S (cur (ks S)) = Waiting c"
  shows "\<exists>v k. process_wait_poll c (ks S) = Some (v, k) \<and>
    pinv (S\<lparr>ks := k, act := (act S)(cur (ks S) := if v = None then Waiting c else Running)\<rparr>)"
proof -
  note D = pinvD [OF p]
  have "c \<in> set (child_list (thd (ks S) (cur (ks S))))" by (rule familyD(17) [OF D(1) p(2) ac])
  then obtain r where r: "procs (ks S) c = Some r" using familyD(13) [OF D(1) p(2)] by blast
  show ?thesis
  proof (cases "p_exit r")
    case False
    have "S\<lparr>ks := ks S, act := (act S)(cur (ks S) := Waiting c)\<rparr> = S" using ac by (simp add: fun_upd_idem)
    then show ?thesis using r False p(1) by (auto simp: process_wait_poll_def)
  next
    case True
    let ?x = "thd (ks S) (cur (ks S))"
    let ?k = "(ks S)\<lparr>thr := (thr (ks S))(cur (ks S) \<mapsto> ?x\<lparr>child_list := remove1 c (child_list ?x)\<rparr>), procs := (procs (ks S))(c := None)\<rparr>"
    have k: "remove_process_by c (ks S) = Some ?k" using r D(3) by (simp add: remove_process_by_def upd_thread_def)
    have t: "thd ?k = (thd (ks S))(cur (ks S) := ?x\<lparr>child_list := remove1 c (child_list ?x)\<rparr>)" by (rule thd_upd) simp
    have v: "(\<lambda>u. tid (thd ?k u)) = (\<lambda>u. tid (thd (ks S) u))" "(\<lambda>u. parent (thd ?k u)) = (\<lambda>u. parent (thd (ks S) u))"
      "(\<lambda>u. cp (thd ?k u)) = (\<lambda>u. cp (thd (ks S) u))"
      "(\<lambda>u. child_list (thd ?k u)) = (\<lambda>u. child_list (thd (ks S) u))(cur (ks S) := remove1 c (child_list ?x))"
      unfolding t by (auto simp: fun_eq_iff)
    have "fam ?k ((act S)(cur (ks S) := Running)) (ended S)"
      unfolding v using family_remove [OF D(1) p(2) ac r True] by simp
    then have "pinv (S\<lparr>ks := ?k, act := (act S)(cur (ks S) := Running)\<rparr>)"
      using p(1) by (auto simp: pinv_def t)
    then show ?thesis using k r True by (auto simp: process_wait_poll_def)
  qed
qed

lemma pinv_exit:
  assumes p: "pinv S" "cur (ks S) \<in> set (all_list (ks S))" and ac: "act S (cur (ks S)) = Running"
  shows "\<exists>k. exit_status n (ks S) = Some k \<and> pinv (S\<lparr>ks := k, act := (act S)(cur (ks S) := Leaving (Some (u8 n)))\<rparr>)"
proof -
  note D = pinvD [OF p]
  let ?x = "thd (ks S) (cur (ks S))"
  show ?thesis
  proof (cases "is_alive (parent ?x) (ks S)")
    case True
    then obtain t' where t': "t' \<in> set (all_list (ks S))" "tid (thd (ks S) t') = parent ?x" unfolding pinv_alive [OF p(1)] by auto
    obtain r where r: "procs (ks S) (cp ?x) = Some r" "child_ok r (tid ?x) Running"
      using familyD(12) [OF D(1) p(2) t'] ac by auto
    have "\<exists>k. upd_proc (cp ?x) (\<lambda>r. r\<lparr>p_status := Some (u8 n)\<rparr>) (ks S) = Some k \<and>
      pinv (S\<lparr>ks := k, act := (act S)(cur (ks S) := Leaving (Some (u8 n)))\<rparr>)"
      by (rule pinv_upd [OF p r(1)]) (use r(2) ac in \<open>auto simp: child_ok_def\<close>)
    then show ?thesis using D(2) True by (simp add: exit_status_def)
  next
    case False
    have "pinv (S\<lparr>ks := (ks S)\<lparr>procs := procs (ks S)\<rparr>, act := (act S)(cur (ks S) := Leaving (Some (u8 n)))\<rparr>)"
      by (rule pinv_frame [OF p]) (use False ac in \<open>auto simp: act_ok_def split: option.split\<close>)
    then show ?thesis using D(2) False by (simp add: exit_status_def)
  qed
qed

lemma remove_loop_ok:
  "distinct ps \<Longrightarrow> \<forall>p\<in>set ps. procs k p \<noteq> None \<Longrightarrow> thr k (cur k) = Some x \<Longrightarrow>
    \<exists>cl. remove_loop ps k = Some (k\<lparr>thr := (thr k)(cur k \<mapsto> x\<lparr>child_list := cl\<rparr>), procs := (\<lambda>p. if p \<in> set ps then None else procs k p)\<rparr>)"
proof (induction ps arbitrary: k x)
  case Nil
  then show ?case by (intro exI [of _ "child_list x"]) (simp add: fun_upd_idem)
next
  case (Cons p ps)
  let ?x = "x\<lparr>child_list := remove1 p (child_list x)\<rparr>"
  let ?k = "k\<lparr>thr := (thr k)(cur k \<mapsto> ?x), procs := (procs k)(p := None)\<rparr>"
  have r: "remove_process_by p k = Some ?k" using Cons.prems by (auto simp: remove_process_by_def upd_thread_def)
  have ih: "distinct ps" "\<forall>q\<in>set ps. procs ?k q \<noteq> None" "thr ?k (cur ?k) = Some ?x" using Cons.prems by auto
  from Cons.IH [OF ih] obtain cl where "remove_loop ps ?k = Some (?k\<lparr>thr := (thr ?k)(cur ?k \<mapsto> ?x\<lparr>child_list := cl\<rparr>),
      procs := (\<lambda>q. if q \<in> set ps then None else procs ?k q)\<rparr>)" by blast
  moreover have "?k\<lparr>thr := (thr ?k)(cur ?k \<mapsto> ?x\<lparr>child_list := cl\<rparr>), procs := (\<lambda>q. if q \<in> set ps then None else procs ?k q)\<rparr> =
      k\<lparr>thr := (thr k)(cur k \<mapsto> x\<lparr>child_list := cl\<rparr>), procs := (\<lambda>q. if q \<in> set (p # ps) then None else procs k q)\<rparr>"
    by (rule kernel.equality) (auto simp: fun_eq_iff)
  ultimately show ?case using r by (intro exI [of _ cl]) (simp only: remove_loop.simps Option.bind.simps)
qed

lemma process_exit_ok:
  assumes p: "pinv S" "cur (ks S) \<in> set (all_list (ks S))"
  defines "x \<equiv> thd (ks S) (cur (ks S))"
  shows "\<exists>k y. process_exit (ks S) = Some k \<and> thr k = (thr (ks S))(cur (ks S) \<mapsto> y) \<and> status y = THREAD_RUNNING \<and>
    tid y = tid x \<and> parent y = parent x \<and> cp y = cp x \<and> all_list k = all_list (ks S) \<and> cur k = cur (ks S) \<and> next_tid k = next_tid (ks S) \<and>
    procs k = (\<lambda>p. if p \<in> set (child_list x) then None
      else if is_alive (parent x) (ks S) \<and> p = cp x then map_option (\<lambda>r. r\<lparr>p_exit := True\<rparr>) (procs (ks S) p) else procs (ks S) p)"
proof -
  note D = pinvD [OF p]
  let ?k = "ks S" and ?c = "cur (ks S)"
  have "\<forall>p\<in>set (child_list x). procs ?k p \<noteq> None" using familyD(13) [OF D(1) p(2)] unfolding x_def by fastforce
  from remove_loop_ok [OF familyD(6) [OF D(1) p(2)] this [unfolded x_def] D(3)] obtain cl where
    cl: "remove_loop (child_list x) ?k = Some (?k\<lparr>thr := (thr ?k)(?c \<mapsto> x\<lparr>child_list := cl\<rparr>),
      procs := (\<lambda>p. if p \<in> set (child_list x) then None else procs ?k p)\<rparr>)" unfolding x_def by blast
  let ?k1 = "?k\<lparr>thr := (thr ?k)(?c \<mapsto> x\<lparr>child_list := cl\<rparr>), procs := (\<lambda>p. if p \<in> set (child_list x) then None else procs ?k p)\<rparr>"
  have "(case thr ?k1 t of None \<Rightarrow> False | Some y \<Rightarrow> tid y = q) = (case thr ?k t of None \<Rightarrow> False | Some y \<Rightarrow> tid y = q)" for t q
    using D(3) by (cases "t = ?c") (simp_all add: x_def)
  then have al: "is_alive q ?k1 = is_alive q ?k" for q unfolding is_alive_def by simp
  have run: "status x = THREAD_RUNNING" using p unfolding x_def by (simp add: pinv_def)
  have cur: "thread_current ?k = Some x" using D(2) by (simp add: x_def)
  have own: "procs ?k (cp x) \<noteq> None \<and> cp x \<notin> set (child_list x)" if a: "is_alive (parent x) ?k"
  proof -
    obtain t' where t': "t' \<in> set (all_list ?k)" "tid (thd ?k t') = parent x" using a unfolding pinv_alive [OF p(1)] by auto
    have "parent x < tid x" using familyD(5) [OF D(1) p(2)] by (simp add: x_def)
    then have "t' \<noteq> ?c" using t'(2) by (auto simp: x_def)
    then show ?thesis using familyD(11) [OF D(1) p(2) t'(1)] familyD(12) [OF D(1) p(2) t'(1)] familyD(8) [OF D(1) t'(1) p(2)] t'(2)
      by (fastforce simp: x_def)
  qed
  show ?thesis
  proof (cases "is_alive (parent x) ?k")
    case True
    let ?k2 = "?k1\<lparr>procs := (procs ?k1)(cp x \<mapsto> (the (procs ?k (cp x)))\<lparr>p_exit := True\<rparr>)\<rparr>"
    have u: "upd_proc (cp x) (\<lambda>r. r\<lparr>p_exit := True\<rparr>) ?k1 = Some ?k2" using own [OF True] by (auto simp: upd_proc_def)
    have pr: "procs ?k2 = (\<lambda>p. if p \<in> set (child_list x) then None
      else if is_alive (parent x) ?k \<and> p = cp x then map_option (\<lambda>r. r\<lparr>p_exit := True\<rparr>) (procs ?k p) else procs ?k p)"
      using own [OF True] True by (auto simp: fun_eq_iff)
    have pe: "process_exit ?k = (if pagedir x \<noteq> NULL then upd_thread (cur ?k2) (\<lambda>x. x\<lparr>pagedir := NULL\<rparr>) ?k2 else Some ?k2)"
      using cur cl al [of "parent x"] True u
      by (simp add: process_exit_def remove_child_processes_all_def close_file_by_fd_def Let_def)
    show ?thesis
    proof (cases "pagedir x = NULL")
      case t: True
      then have "process_exit ?k = Some ?k2" using pe by simp
      then show ?thesis
        by (intro exI [of _ ?k2] exI [of _ "x\<lparr>child_list := cl\<rparr>"] conjI pr) (use run in simp_all)
    next
      case False
      let ?k3 = "?k2\<lparr>thr := (thr ?k)(?c \<mapsto> x\<lparr>child_list := cl, pagedir := NULL\<rparr>)\<rparr>"
      have "process_exit ?k = Some ?k3" using pe False by (simp add: upd_thread_def)
      moreover have "procs ?k3 = procs ?k2" by simp
      ultimately show ?thesis
        by (intro exI [of _ ?k3] exI [of _ "x\<lparr>child_list := cl, pagedir := NULL\<rparr>"] conjI pr [folded \<open>procs ?k3 = procs ?k2\<close>])
          (use run in simp_all)
    qed
  next
    case False
    have pr: "procs ?k1 = (\<lambda>p. if p \<in> set (child_list x) then None
      else if is_alive (parent x) ?k \<and> p = cp x then map_option (\<lambda>r. r\<lparr>p_exit := True\<rparr>) (procs ?k p) else procs ?k p)"
      using False by (auto simp: fun_eq_iff)
    have pe: "process_exit ?k = (if pagedir x \<noteq> NULL then upd_thread (cur ?k1) (\<lambda>x. x\<lparr>pagedir := NULL\<rparr>) ?k1 else Some ?k1)"
      using cur cl al [of "parent x"] False
      by (simp add: process_exit_def remove_child_processes_all_def close_file_by_fd_def Let_def)
    show ?thesis
    proof (cases "pagedir x = NULL")
      case t: True
      then have "process_exit ?k = Some ?k1" using pe by simp
      then show ?thesis
        by (intro exI [of _ ?k1] exI [of _ "x\<lparr>child_list := cl\<rparr>"] conjI pr) (use run in simp_all)
    next
      case nz: False
      let ?k3 = "?k1\<lparr>thr := (thr ?k)(?c \<mapsto> x\<lparr>child_list := cl, pagedir := NULL\<rparr>)\<rparr>"
      have "process_exit ?k = Some ?k3" using pe nz by (simp add: upd_thread_def)
      moreover have "procs ?k3 = procs ?k1" by simp
      ultimately show ?thesis
        by (intro exI [of _ ?k3] exI [of _ "x\<lparr>child_list := cl, pagedir := NULL\<rparr>"] conjI pr [folded \<open>procs ?k3 = procs ?k1\<close>])
          (use run in simp_all)
    qed
  qed
qed

lemma pinv_leave:
  assumes p: "pinv S" "cur (ks S) \<in> set (all_list (ks S))" and ac: "act S (cur (ks S)) = Leaving st"
  shows "\<exists>k. process_exit (ks S) \<bind> leave = Some k \<and>
    pinv (S\<lparr>ks := k, ended := (tid (thd (ks S) (cur (ks S))), st) # ended S\<rparr>)"
proof -
  note D = pinvD [OF p]
  let ?k = "ks S" and ?c = "cur (ks S)" and ?x = "thd (ks S) (cur (ks S))"
  obtain k y where k: "process_exit ?k = Some k" "thr k = (thr ?k)(?c \<mapsto> y)" "status y = THREAD_RUNNING"
    "tid y = tid ?x" "parent y = parent ?x" "cp y = cp ?x" "all_list k = all_list ?k" "cur k = ?c" "next_tid k = next_tid ?k"
    "procs k = (\<lambda>p. if p \<in> set (child_list ?x) then None
      else if is_alive (parent ?x) ?k \<and> p = cp ?x then map_option (\<lambda>r. r\<lparr>p_exit := True\<rparr>) (procs ?k p) else procs ?k p)"
    using process_exit_ok [OF p] by blast
  have nn: "?c \<noteq> NULL" using p by (auto simp: pinv_def)
  let ?y = "y\<lparr>status := THREAD_DYING\<rparr>"
  let ?l = "k\<lparr>all_list := remove1 ?c (all_list ?k), thr := (thr k)(?c \<mapsto> ?y)\<rparr>"
  have l: "leave k = Some ?l" using k(2,3,7,8) nn by (simp add: leave_def thread_current_def upd_thread_def)
  have t: "thd ?l = (thd ?k)(?c := ?y)" using k(2) by (intro thd_upd) simp
  have v: "(\<lambda>u. tid (thd ?l u)) = (\<lambda>u. tid (thd ?k u))" "(\<lambda>u. parent (thd ?l u)) = (\<lambda>u. parent (thd ?k u))"
    "(\<lambda>u. cp (thd ?l u)) = (\<lambda>u. cp (thd ?k u))"
    unfolding t using k(4-6) by (auto simp: fun_eq_iff)
  have "fam ?l (act S) ((tid ?x, st) # ended S)"
    unfolding v kernel.select_convs
  proof -
    have "family (remove1 ?c (all_list ?k)) (\<lambda>t. tid (thd ?k t)) (\<lambda>t. parent (thd ?k t)) (\<lambda>t. cp (thd ?k t))
       (\<lambda>t. child_list (thd ?l t)) (procs k) (next_tid ?k) (act S) ((tid ?x, st) # ended S)"
    proof (rule family_leave [OF D(1) p(2) ac])
      fix q
      have "parent ?x \<in> (\<lambda>t. tid (thd ?k t)) ` set (all_list ?k) \<Longrightarrow> procs ?k (cp ?x) \<noteq> None"
        using familyD(12) [OF D(1) p(2)] by force
      then show "procs k q = (if q \<in> set (child_list ?x) then None
        else if parent ?x \<in> (\<lambda>t. tid (thd ?k t)) ` set (all_list ?k) \<and> q = cp ?x
          then Some ((the (procs ?k (cp ?x)))\<lparr>p_exit := True\<rparr>) else procs ?k q)"
        unfolding k(10) pinv_alive [OF p(1)] by auto
      show "parent ?x \<in> (\<lambda>t. tid (thd ?k t)) ` set (all_list ?k) \<Longrightarrow> procs ?k (cp ?x) = Some (the (procs ?k (cp ?x)))"
        using familyD(12) [OF D(1) p(2)] by force
    qed (simp add: t)
    then show "family (all_list ?l) (\<lambda>t. tid (thd ?k t)) (\<lambda>t. parent (thd ?k t)) (\<lambda>t. cp (thd ?k t))
       (\<lambda>t. child_list (thd ?l t)) (procs ?l) (next_tid ?l) (act S) ((tid ?x, st) # ended S)"
      by (simp add: k(9))
  qed
  moreover have "distinct (all_list ?k)" by (rule familyD(1) [OF D(1)])
  ultimately have "pinv (S\<lparr>ks := ?l, ended := (tid ?x, st) # ended S\<rparr>)"
    using p(1) k(2,8) by (auto simp: pinv_def)
  then show ?thesis using k(1) l by auto
qed

lemma run_as_thd: "thd (run_as t k) u = (if thr k u = None then thd k u
    else if u = t then (thd k u)\<lparr>status := THREAD_RUNNING\<rparr>
    else if status (thd k u) = THREAD_RUNNING then (thd k u)\<lparr>status := THREAD_READY\<rparr> else thd k u)"
  by (auto simp: run_as_def thd_def)

lemma pinv_switch:
  assumes "pinv S" and "t \<in> set (all_list (ks S))"
  shows "pinv (S\<lparr>ks := run_as t (ks S)\<rparr>)"
proof -
  let ?k = "run_as t (ks S)"
  have v: "(\<lambda>u. tid (thd ?k u)) = (\<lambda>u. tid (thd (ks S) u))" "(\<lambda>u. parent (thd ?k u)) = (\<lambda>u. parent (thd (ks S) u))"
    "(\<lambda>u. cp (thd ?k u)) = (\<lambda>u. cp (thd (ks S) u))" "(\<lambda>u. child_list (thd ?k u)) = (\<lambda>u. child_list (thd (ks S) u))"
    by (auto simp: run_as_thd fun_eq_iff)
  have f: "all_list ?k = all_list (ks S)" "procs ?k = procs (ks S)" "next_tid ?k = next_tid (ks S)" "cur ?k = t"
    "thr ?k u = None \<longleftrightarrow> thr (ks S) u = None" for u
    by (simp_all add: run_as_def)
  have "status (thd ?k t) = THREAD_RUNNING" using assms by (auto simp: run_as_thd pinv_def)
  then show ?thesis using assms by (simp add: pinv_def v f)
qed

lemma booted_thd: "thd (booted False) 100 = the (thr (booted False) 100)" "thd (booted False) 200 = the (thr (booted False) 200)"
  by (simp_all add: thd_def)

lemma pinv_boot: "pinv \<lparr>ks = booted False, act = (\<lambda>_. Running), ended = []\<rparr>"
  unfolding pinv_def family_def
  by (auto simp: booted_def thd_def child_ok_def NULL_def)

lemma pcall_ok:
  assumes "pcall S r" and "pinv S" and "cur (ks S) \<in> set (all_list (ks S))"
  shows "\<exists>S'. r = Some S' \<and> pinv S'"
  using assms
proof (induction rule: pcall.induct)
  case (create S t p a b)
  then show ?case using pinv_create [of S t p a b] by auto
next
  case (check S n)
  then show ?case using pinv_check [of S n] by auto
next
  case (exec S n c)
  then obtain v where "exec_poll n c (ks S) = Some v"
    "pinv (S\<lparr>act := (act S)(cur (ks S) := if v = None then Loading n c else Running)\<rparr>)" using pinv_exec [of S n c] by blast
  then show ?case by simp
next
  case (load S b)
  then show ?case using pinv_load [of S b] by auto
next
  case (wait S n)
  then show ?case using pinv_wait [of S n] by auto
next
  case (poll S c)
  then obtain v k where "process_wait_poll c (ks S) = Some (v, k)"
    "pinv (S\<lparr>ks := k, act := (act S)(cur (ks S) := if v = None then Waiting c else Running)\<rparr>)" using pinv_poll [of S c] by blast
  then show ?case by simp
next
  case (exit S n)
  then show ?case using pinv_exit [of S n] by auto
next
  case (die S)
  have "pinv (S\<lparr>act := (act S)(cur (ks S) := Leaving None)\<rparr>)"
    by (rule pinv_same) (use die in \<open>simp_all add: act_ok_def\<close>)
  then show ?case by simp
next
  case (leave S st)
  then show ?case using pinv_leave [of S st] by auto
qed

lemma preach_pinv: "preach S \<Longrightarrow> pinv S"
proof (induction rule: preach.induct)
  case boot
  then show ?case by (rule pinv_boot)
next
  case (switch S t)
  then show ?case using pinv_switch by blast
next
  case (call S S')
  then show ?case using pcall_ok [of S "Some S'"] by blast
qed


text \<open>The main thread creates a thread and waits for it.\<close>

definition parent_waits :: "psys option" where
  "parent_waits = do {
     k \<leftarrow> spawn 400 500 (booted False);
     (v, k) \<leftarrow> process_wait 3 k;
     Some \<lparr>ks = k, act = (\<lambda>_. Running)(100 := (case v of Inl _ \<Rightarrow> Running | Inr c \<Rightarrow> Waiting c)), ended = []\<rparr> }"

lemmas process_eval = spawn_def booted_def Let_def init_thread_def PRI_MIN_def PRI_MAX_def PRI_DEFAULT_def upd_thread_def
  thread_current_def add_process_current_thread_def NULL_def i32_def process_wait_def child_process_check_def upd_proc_def

lemma parent_waits_reach:
  obtains S where "parent_waits = Some S" and "preach S" and "cur (ks S) = 100" and "all_list (ks S) = [100, 200, 400]"
    and "act S 100 = Waiting 500" and "procs (ks S) 500 \<noteq> None"
proof -
  let ?S0 = "\<lparr>ks = booted False, act = (\<lambda>_. Running), ended = []\<rparr>"
  obtain k where k: "spawn 400 500 (booted False) = Some k" "cur k = 100" "all_list k = [100, 200, 400]"
    by (simp add: process_eval)
  obtain k' where k': "process_wait 3 k = Some (Inr 500, k')" "cur k' = 100" "all_list k' = [100, 200, 400]" "procs k' 500 \<noteq> None"
    using k(1) by (auto simp: process_eval)
  let ?S1 = "\<lparr>ks = k, act = (\<lambda>_. Running), ended = []\<rparr>"
  have idem: "(\<lambda>_. Running)(a := Running, b := Running) = (\<lambda>_. Running)" for a b :: addr by auto
  have b: "cur (booted False) = 100" "all_list (booted False) = [100, 200]" "procs (booted False) 500 = None" "next_tid (booted False) = 3"
    by (simp_all add: booted_def)
  have "pcall ?S0 (Some ?S1)"
    using pcall.create [of ?S0 400 500 Running Running] k(1) b by (simp add: NULL_def idem)
  then have 1: "preach ?S1" using preach.call [OF preach.boot] b by simp
  let ?S2 = "\<lparr>ks = k', act = (\<lambda>_. Running)(100 := Waiting 500), ended = []\<rparr>"
  have "pcall ?S1 (Some ?S2)" using pcall.wait [of ?S1 3] k'(1) k(2) by simp
  then have "preach ?S2" using preach.call [OF 1] k by simp
  moreover have "parent_waits = Some ?S2" using k k' by (simp add: parent_waits_def)
  ultimately show ?thesis using k' that [of ?S2] by simp
qed


end
