(* ===== verification/Pagedir.thy ===== *)
theory Pagedir
  imports Palloc String_Ops
begin

unbundle bit_operations_syntax

text \<open>
  \<open>userprog/pagedir.c\<close>: two-level page tables in pages of the page allocator. The directory and
  the tables are words of the allocator's memory, at kernel virtual addresses; the addresses are
  32-bit values in \<open>nat\<close>. \<open>cr3\<close> is the page directory base register; that loading it clears
  the translation lookaside buffer leaves no trace here.
\<close>

section \<open>Memory\<close>

record vm =
  pmem :: pages
  init_page_dir :: addr
  init_ram_pages :: nat
  cr3 :: nat

definition rd32 :: "addr \<Rightarrow> vm \<Rightarrow> nat" where
  "rd32 a s = unat (ram_word (ram (pmem s)) a)"

definition wr32 :: "addr \<Rightarrow> nat \<Rightarrow> vm \<Rightarrow> vm" where
  "wr32 a v s = s\<lparr>pmem := (pmem s)\<lparr>ram := (ram (pmem s))
     (a := word_of_nat v, a + 1 := word_of_nat (drop_bit 8 v),
      a + 2 := word_of_nat (drop_bit 16 v), a + 3 := word_of_nat (drop_bit 24 v))\<rparr>\<rparr>"

section \<open>Operations\<close>

definition pagedir_create :: "vm \<Rightarrow> (addr \<times> vm) option" where
  "pagedir_create s = do {
     (pd, m) \<leftarrow> palloc_get_page 0 (pmem s);
     if pd \<noteq> NULL then do {
       (_, r) \<leftarrow> memcpy pd (init_page_dir s) PGSIZE (ram m);
       Some (pd, s\<lparr>pmem := m\<lparr>ram := r\<rparr>\<rparr>) }
     else Some (pd, s\<lparr>pmem := m\<rparr>) }"

fun free_ptes :: "nat \<Rightarrow> addr \<Rightarrow> vm \<Rightarrow> vm option" where
  "free_ptes 0 pte s = Some s"
| "free_ptes (Suc n) pte s = do {
     s \<leftarrow> (if rd32 pte s AND PTE_P \<noteq> 0 then do {
         page \<leftarrow> pte_get_page (rd32 pte s);
         m \<leftarrow> palloc_free_page page (pmem s);
         Some (s\<lparr>pmem := m\<rparr>) }
       else Some s);
     free_ptes n (pte + 4) s }"

fun free_pdes :: "nat \<Rightarrow> addr \<Rightarrow> vm \<Rightarrow> vm option" where
  "free_pdes 0 pde s = Some s"
| "free_pdes (Suc n) pde s = do {
     s \<leftarrow> (if rd32 pde s AND PTE_P \<noteq> 0 then do {
         pt \<leftarrow> pde_get_pt (rd32 pde s);
         s \<leftarrow> free_ptes (PGSIZE div 4) pt s;
         m \<leftarrow> palloc_free_page pt (pmem s);
         Some (s\<lparr>pmem := m\<rparr>) }
       else Some s);
     free_pdes n (pde + 4) s }"

definition pagedir_destroy :: "addr \<Rightarrow> vm \<Rightarrow> vm option" where
  "pagedir_destroy pd s =
     (if pd = NULL then Some s
      else do {
        _ \<leftarrow> ASSERT (pd \<noteq> init_page_dir s);
        s \<leftarrow> free_pdes (pd_no PHYS_BASE) pd s;
        m \<leftarrow> palloc_free_page pd (pmem s);
        Some (s\<lparr>pmem := m\<rparr>) })"

definition lookup_page :: "addr \<Rightarrow> addr \<Rightarrow> bool \<Rightarrow> vm \<Rightarrow> (addr \<times> vm) option" where
  "lookup_page pd vaddr create s = do {
     _ \<leftarrow> ASSERT (pd \<noteq> NULL);
     _ \<leftarrow> ASSERT (\<not> create \<or> is_user_vaddr vaddr);
     let pde = pd + 4 * pd_no vaddr;
     (found, s) \<leftarrow>
       (if rd32 pde s = 0 then
          if create then do {
            (pt, m) \<leftarrow> palloc_get_page PAL_ZERO (pmem s);
            let s = s\<lparr>pmem := m\<rparr>;
            if pt = NULL then Some (False, s)
            else do { e \<leftarrow> pde_create pt; Some (True, wr32 pde e s) } }
          else Some (False, s)
        else Some (True, s));
     if found then do { pt \<leftarrow> pde_get_pt (rd32 pde s); Some (pt + 4 * pt_no vaddr, s) }
     else Some (NULL, s) }"

definition pagedir_set_page :: "addr \<Rightarrow> addr \<Rightarrow> addr \<Rightarrow> bool \<Rightarrow> vm \<Rightarrow> (bool \<times> vm) option" where
  "pagedir_set_page pd upage kpage writable s = do {
     _ \<leftarrow> ASSERT (pg_ofs upage = 0);
     _ \<leftarrow> ASSERT (pg_ofs kpage = 0);
     _ \<leftarrow> ASSERT (is_user_vaddr upage);
     p \<leftarrow> vtop kpage;
     _ \<leftarrow> ASSERT (drop_bit PTSHIFT p < init_ram_pages s);
     _ \<leftarrow> ASSERT (pd \<noteq> init_page_dir s);
     (pte, s) \<leftarrow> lookup_page pd upage True s;
     if pte \<noteq> NULL then do {
       _ \<leftarrow> ASSERT (rd32 pte s AND PTE_P = 0);
       e \<leftarrow> pte_create_user kpage writable;
       Some (True, wr32 pte e s) }
     else Some (False, s) }"

definition pagedir_get_page :: "addr \<Rightarrow> addr \<Rightarrow> vm \<Rightarrow> (addr \<times> vm) option" where
  "pagedir_get_page pd uaddr s = do {
     _ \<leftarrow> ASSERT (is_user_vaddr uaddr);
     (pte, s) \<leftarrow> lookup_page pd uaddr False s;
     if pte \<noteq> NULL \<and> rd32 pte s AND PTE_P \<noteq> 0 then do {
       page \<leftarrow> pte_get_page (rd32 pte s);
       Some (page + pg_ofs uaddr, s) }
     else Some (NULL, s) }"

text \<open>The base register: a null pointer stands for the initial directory.\<close>

definition pagedir_activate :: "addr \<Rightarrow> vm \<Rightarrow> vm option" where
  "pagedir_activate pd s = do {
     let pd = (if pd = NULL then init_page_dir s else pd);
     p \<leftarrow> vtop pd;
     Some (s\<lparr>cr3 := p\<rparr>) }"

definition active_pd :: "vm \<Rightarrow> addr option" where
  "active_pd s = ptov (cr3 s)"

definition invalidate_pagedir :: "addr \<Rightarrow> vm \<Rightarrow> vm option" where
  "invalidate_pagedir pd s = do {
     a \<leftarrow> active_pd s;
     if a = pd then pagedir_activate pd s else Some s }"

definition pagedir_clear_page :: "addr \<Rightarrow> addr \<Rightarrow> vm \<Rightarrow> vm option" where
  "pagedir_clear_page pd upage s = do {
     _ \<leftarrow> ASSERT (pg_ofs upage = 0);
     _ \<leftarrow> ASSERT (is_user_vaddr upage);
     (pte, s) \<leftarrow> lookup_page pd upage False s;
     if pte \<noteq> NULL \<and> rd32 pte s AND PTE_P \<noteq> 0
     then invalidate_pagedir pd (wr32 pte (rd32 pte s AND not32 PTE_P) s)
     else Some s }"

definition pagedir_is_dirty :: "addr \<Rightarrow> addr \<Rightarrow> vm \<Rightarrow> bool option" where
  "pagedir_is_dirty pd vpage s = do {
     (pte, s) \<leftarrow> lookup_page pd vpage False s;
     Some (pte \<noteq> NULL \<and> rd32 pte s AND PTE_D \<noteq> 0) }"

definition pagedir_set_dirty :: "addr \<Rightarrow> addr \<Rightarrow> bool \<Rightarrow> vm \<Rightarrow> vm option" where
  "pagedir_set_dirty pd vpage dirty s = do {
     (pte, s) \<leftarrow> lookup_page pd vpage False s;
     if pte \<noteq> NULL then
       if dirty then Some (wr32 pte (rd32 pte s OR PTE_D) s)
       else invalidate_pagedir pd (wr32 pte (rd32 pte s AND not32 PTE_D) s)
     else Some s }"

definition pagedir_is_accessed :: "addr \<Rightarrow> addr \<Rightarrow> vm \<Rightarrow> bool option" where
  "pagedir_is_accessed pd vpage s = do {
     (pte, s) \<leftarrow> lookup_page pd vpage False s;
     Some (pte \<noteq> NULL \<and> rd32 pte s AND PTE_A \<noteq> 0) }"

definition pagedir_set_accessed :: "addr \<Rightarrow> addr \<Rightarrow> bool \<Rightarrow> vm \<Rightarrow> vm option" where
  "pagedir_set_accessed pd vpage accessed s = do {
     (pte, s) \<leftarrow> lookup_page pd vpage False s;
     if pte \<noteq> NULL then
       if accessed then Some (wr32 pte (rd32 pte s OR PTE_A) s)
       else invalidate_pagedir pd (wr32 pte (rd32 pte s AND not32 PTE_A) s)
     else Some s }"

section \<open>Words in memory\<close>

lemma byte_bit_high: "8 \<le> j \<Longrightarrow> \<not> bit (b :: byte) j"
  using bit_imp_le_length [of b j] by auto

lemma ram_word_bit: "bit (ram_word m a) n \<longleftrightarrow> n < 32 \<and> bit (m (a + n div 8)) (n mod 8)"
proof (cases "n < 32")
  case True
  define q r where "q = n div 8" and "r = n mod 8"
  then have n: "n = 8 * q + r" "r < 8" and "q < 4" using True by simp_all
  then have "q = 0 \<or> q = 1 \<or> q = 2 \<or> q = 3" by auto
  then have "bit (ram_word m a) (8 * q + r) \<longleftrightarrow> bit (m (a + q)) r"
    using n(2) by (elim disjE) (simp_all add: ram_word_def bit_or_iff bit_push_bit_iff bit_ucast_iff byte_bit_high)
  then show ?thesis using True by (simp add: n(1) [symmetric] q_def [symmetric] r_def [symmetric])
next
  case False
  then show ?thesis using bit_imp_le_length [of "ram_word m a" n] by auto
qed

lemma rd32_less: "rd32 a s < 2 ^ 32"
  using unsigned_less [where ?'a = nat and w = "ram_word (ram (pmem s)) a"] by (simp add: rd32_def)

lemma rd32_wr32_same:
  assumes "v < 2 ^ 32"
  shows "rd32 a (wr32 a v s) = v"
proof -
  let ?m = "ram (pmem (wr32 a v s))"
  have m: "?m (a + k) = word_of_nat (drop_bit (8 * k) v)" if "k < 4" for k
  proof -
    have "k = 0 \<or> k = 1 \<or> k = 2 \<or> k = 3" using that by auto
    then show ?thesis by (elim disjE) (simp_all add: wr32_def)
  qed
  have "ram_word ?m a = word_of_nat v"
  proof (rule bit_word_eqI)
    fix n assume "n < LENGTH(32)"
    then have n: "n < 32" "n div 8 < 4" "8 * (n div 8) + n mod 8 = n" by simp_all
    show "bit (ram_word ?m a) n = bit (word_of_nat v :: 32 word) n"
      unfolding ram_word_bit m [OF n(2)] using n(1,3) by (simp add: bit_of_nat_iff possible_bit_word bit_drop_bit_eq)
  qed
  then show ?thesis using assms by (simp add: rd32_def unsigned_of_nat take_bit_nat_eq_self)
qed

lemma ram_word_cong: "(\<And>k. k < 4 \<Longrightarrow> m (a + k) = m' (a + k)) \<Longrightarrow> ram_word m a = ram_word m' a"
  by (rule bit_word_eqI) (simp add: ram_word_bit)

lemma rd32_wr32_other:
  assumes "a mod 4 = 0" and "b mod 4 = 0" and "a \<noteq> b"
  shows "rd32 b (wr32 a v s) = rd32 b s"
proof -
  have "a + 4 \<le> b \<or> b + 4 \<le> a" using assms by presburger
  then have "ram_word (ram (pmem (wr32 a v s))) b = ram_word (ram (pmem s)) b"
    by (intro ram_word_cong) (auto simp: wr32_def)
  then show ?thesis by (simp add: rd32_def)
qed

section \<open>Entries\<close>

lemma PTE_P_odd: "e AND PTE_P \<noteq> 0 \<longleftrightarrow> odd e"
  by (simp add: PTE_P_def and_one_eq odd_iff_mod_2_eq_one)

lemma PTE_ADDR_div: "e < 2 ^ 32 \<Longrightarrow> e AND PTE_ADDR = e div 4096 * 4096"
proof -
  have "PTE_ADDR = not32 PGMASK" by (simp add: PTE_ADDR_def not32_def PGMASK_def BITMASK_def PGBITS_def)
  then show "e < 2 ^ 32 \<Longrightarrow> ?thesis" using and_page_mask [of e] by simp
qed

lemma or_page: "p mod 4096 = 0 \<Longrightarrow> c < 4096 \<Longrightarrow> p OR c = p + (c::nat)"
proof -
  assume p: "p mod 4096 = 0" and c: "c < 4096"
  have "take_bit 12 p = 0" "take_bit 12 c = c" using p c by (simp_all add: take_bit_eq_mod)
  then have "\<not> bit p n \<or> \<not> bit c n" for n by (metis bit_0_eq bit_take_bit_iff bot_apply bot_bool_def)
  then show ?thesis by (intro disjunctive_add [symmetric]) blast
qed

definition table_of :: "nat \<Rightarrow> addr" where
  "table_of e = e div 4096 * 4096 + PHYS_BASE"

lemma table_of_mod [simp]: "table_of e mod 4096 = 0"
proof -
  have "table_of e = (e div 4096 + 786432) * 4096" by (simp add: table_of_def PHYS_BASE_def)
  then show ?thesis by (metis mod_mult_self2_is_0)
qed

lemma ptov_entry: "e < 2 ^ 32 \<Longrightarrow> table_of e < 2 ^ 32 \<Longrightarrow> ptov (e AND PTE_ADDR) = Some (table_of e)"
  by (simp add: ptov_def PTE_ADDR_div table_of_def PHYS_BASE_def)

lemma pde_get_pt_odd: "e < 2 ^ 32 \<Longrightarrow> odd e \<Longrightarrow> table_of e < 2 ^ 32 \<Longrightarrow> pde_get_pt e = Some (table_of e)"
  using PTE_P_odd [of e] by (simp add: pde_get_pt_def ptov_entry)

lemma page_entry:
  assumes "p mod 4096 = 0" and "PHYS_BASE \<le> p" and "p < 2 ^ 32" and "c < 4096"
  shows "(p - PHYS_BASE) OR c = p - PHYS_BASE + c" "p - PHYS_BASE + c < 2 ^ 32" "table_of (p - PHYS_BASE + c) = p"
proof -
  obtain k where k: "p = 4096 * k" using assms(1) by auto
  then have d: "p - PHYS_BASE = 4096 * (k - 786432)" by (simp add: PHYS_BASE_def)
  show "(p - PHYS_BASE) OR c = p - PHYS_BASE + c" using assms(4) d by (intro or_page) simp_all
  show "p - PHYS_BASE + c < 2 ^ 32" using assms(2-4) by (simp add: PHYS_BASE_def)
  have "(4096 * (k - 786432) + c) div 4096 = k - 786432" using assms(4) by (intro div_nat_eqI) simp_all
  then show "table_of (p - PHYS_BASE + c) = p"
    unfolding d table_of_def using k assms(2) by (simp add: PHYS_BASE_def)
qed

lemma pde_create_page:
  assumes "p mod 4096 = 0" and "PHYS_BASE \<le> p" and "p < 2 ^ 32"
  shows "pde_create p = Some (p - PHYS_BASE + 7)"
proof -
  have "(p - PHYS_BASE) OR PTE_U OR PTE_P OR PTE_W = (p - PHYS_BASE) OR 7"
    by (simp add: PTE_U_def PTE_P_def PTE_W_def or.assoc)
  then show ?thesis using assms page_entry(1) [OF assms, of 7] by (simp add: pde_create_def pg_ofs_mod vtop_def is_kernel_vaddr_def)
qed

lemma pte_create_user_page:
  assumes "p mod 4096 = 0" and "PHYS_BASE \<le> p" and "p < 2 ^ 32"
  shows "pte_create_user p w = Some (p - PHYS_BASE + (if w then 7 else 5))"
proof -
  have "((p - PHYS_BASE) OR PTE_P OR (if w then PTE_W else 0)) OR PTE_U = (p - PHYS_BASE) OR (if w then 7 else 5)"
    by (simp add: PTE_U_def PTE_P_def PTE_W_def or.assoc)
  then show ?thesis using assms page_entry(1) [OF assms, of "if w then 7 else 5"]
    by (cases w) (simp_all add: pte_create_user_def pte_create_kernel_def pg_ofs_mod vtop_def is_kernel_vaddr_def)
qed

section \<open>Well-formed directories\<close>

definition dir_entry :: "addr \<Rightarrow> vm \<Rightarrow> nat \<Rightarrow> nat" where
  "dir_entry pd s i = rd32 (pd + 4 * i) s"

text \<open>The user part of a directory: 768 entries, each zero or for a table of its own.\<close>

definition pd_ok :: "addr \<Rightarrow> vm \<Rightarrow> bool" where
  "pd_ok pd s \<longleftrightarrow> pages_ok (pmem s) \<and>
     pool_range (kernel_pool (pmem s)) \<union> pool_range (user_pool (pmem s)) \<subseteq> {PHYS_BASE..<2 ^ 32} \<and>
     pd mod 4096 = 0 \<and> pd \<noteq> NULL \<and> extent pd 1 \<subseteq> in_use (pmem s) \<and>
     (\<forall>i<768. dir_entry pd s i \<noteq> 0 \<longrightarrow> odd (dir_entry pd s i) \<and> table_of (dir_entry pd s i) \<noteq> pd \<and>
        extent (table_of (dir_entry pd s i)) 1 \<subseteq> in_use (pmem s)) \<and>
     (\<forall>i<768. \<forall>j<768. i \<noteq> j \<longrightarrow> dir_entry pd s i \<noteq> 0 \<longrightarrow> dir_entry pd s j \<noteq> 0 \<longrightarrow>
        table_of (dir_entry pd s i) \<noteq> table_of (dir_entry pd s j))"

text \<open>The page table entry of a user page, by its number; zero where there is no table.\<close>

definition entry :: "addr \<Rightarrow> vm \<Rightarrow> nat \<Rightarrow> nat" where
  "entry pd s p = (let e = dir_entry pd s (p div 1024) in if e = 0 then 0 else rd32 (table_of e + 4 * (p mod 1024)) s)"

lemma wr32_frame [simp]:
  "kernel_pool (pmem (wr32 a v s)) = kernel_pool (pmem s)" "user_pool (pmem (wr32 a v s)) = user_pool (pmem s)"
  "init_page_dir (wr32 a v s) = init_page_dir s" "init_ram_pages (wr32 a v s) = init_ram_pages s" "cr3 (wr32 a v s) = cr3 s"
  "pages_ok (pmem (wr32 a v s)) = pages_ok (pmem s)" "in_use (pmem (wr32 a v s)) = in_use (pmem s)"
  by (simp_all add: wr32_def pages_ok_def in_use_def)

lemma pd_okD:
  assumes "pd_ok pd s"
  shows "pages_ok (pmem s)" "pd mod 4096 = 0" "pd \<noteq> NULL" "extent pd 1 \<subseteq> in_use (pmem s)"
    "i < 768 \<Longrightarrow> dir_entry pd s i \<noteq> 0 \<Longrightarrow> odd (dir_entry pd s i)"
    "i < 768 \<Longrightarrow> dir_entry pd s i \<noteq> 0 \<Longrightarrow> table_of (dir_entry pd s i) \<noteq> pd"
    "i < 768 \<Longrightarrow> dir_entry pd s i \<noteq> 0 \<Longrightarrow> extent (table_of (dir_entry pd s i)) 1 \<subseteq> in_use (pmem s)"
    "i < 768 \<Longrightarrow> j < 768 \<Longrightarrow> i \<noteq> j \<Longrightarrow> dir_entry pd s i \<noteq> 0 \<Longrightarrow> dir_entry pd s j \<noteq> 0 \<Longrightarrow>
      table_of (dir_entry pd s i) \<noteq> table_of (dir_entry pd s j)"
    "in_use (pmem s) \<subseteq> {PHYS_BASE..<2 ^ 32}"
  using assms in_use_range [of "pmem s"] unfolding pd_ok_def by blast+

lemma in_use_page:
  assumes "pd_ok pd s" and "extent a 1 \<subseteq> in_use (pmem s)"
  shows "PHYS_BASE \<le> a" "a < 2 ^ 32"
proof -
  have "a \<in> extent a 1" by simp
  then have "a \<in> {PHYS_BASE..<2 ^ 32}" using assms(2) pd_okD(9) [OF assms(1)] by blast
  then show "PHYS_BASE \<le> a" "a < 2 ^ 32" by simp_all
qed

lemma pages_apart:
  assumes "a mod 4096 = 0" and "b mod 4096 = 0" and "a \<noteq> (b::nat)" and "i < 1024" and "j < 1024"
  shows "a + 4 * i \<noteq> b + 4 * j"
proof
  assume e: "a + 4 * i = b + 4 * j"
  obtain k l where k: "a = 4096 * k" "b = 4096 * l" using assms(1,2) by (metis mod_0_imp_dvd dvdE)
  have "(a + 4 * i) div 4096 = k" "(b + 4 * j) div 4096 = l"
    using assms(4,5) k by (intro div_nat_eqI; simp)+
  then show False using e k assms(3) by simp
qed

lemma mod4: "a mod 4096 = 0 \<Longrightarrow> (a + 4 * i) mod 4 = (0::nat)"
  using mod_mod_cancel [of 4 4096 a] by (simp add: mod_add_eq [symmetric, of a])

lemma user_page:
  assumes "is_user_vaddr va"
  shows "pd_no va < 768" "pt_no va < 1024" "va div 4096 div 1024 = pd_no va" "va div 4096 mod 1024 = pt_no va"
  using assms by (auto simp: pd_no_div pt_no_div is_user_vaddr_def PHYS_BASE_def div_mult2_eq)

lemma lookup_present:
  assumes ok: "pd_ok pd s" and va: "is_user_vaddr va" and e: "dir_entry pd s (pd_no va) \<noteq> 0"
  shows "lookup_page pd va c s = Some (table_of (dir_entry pd s (pd_no va)) + 4 * pt_no va, s)"
proof -
  note u = user_page [OF va]
  have "pde_get_pt (dir_entry pd s (pd_no va)) = Some (table_of (dir_entry pd s (pd_no va)))"
    using pd_okD(5,7) [OF ok u(1) e] in_use_page [OF ok] rd32_less [of _ s] by (intro pde_get_pt_odd) (simp_all add: dir_entry_def)
  then show ?thesis using pd_okD(3) [OF ok] va e by (simp add: lookup_page_def Let_def dir_entry_def)
qed

lemma lookup_absent:
  assumes "pd_ok pd s" and "dir_entry pd s (pd_no va) = 0"
  shows "lookup_page pd va False s = Some (NULL, s)"
  using assms pd_okD(3) [OF assms(1)] by (simp add: lookup_page_def Let_def dir_entry_def)

lemma entry_present:
  "is_user_vaddr va \<Longrightarrow> dir_entry pd s (pd_no va) \<noteq> 0 \<Longrightarrow>
    rd32 (table_of (dir_entry pd s (pd_no va)) + 4 * pt_no va) s = entry pd s (va div 4096)"
  by (simp add: entry_def Let_def user_page)

lemma entry_absent: "is_user_vaddr va \<Longrightarrow> dir_entry pd s (pd_no va) = 0 \<Longrightarrow> entry pd s (va div 4096) = 0"
  by (simp add: entry_def Let_def user_page)

text \<open>
  The pages of a directory and its tables, and what the operations on a directory leave alone:
  whatever is outside them and was not a free page of the kernel pool.
\<close>

definition pt_pages :: "addr \<Rightarrow> vm \<Rightarrow> addr set" where
  "pt_pages pd s = extent pd 1 \<union> \<Union> {extent (table_of (dir_entry pd s i)) 1 | i. i < 768 \<and> dir_entry pd s i \<noteq> 0}"

definition kept :: "addr \<Rightarrow> vm \<Rightarrow> vm \<Rightarrow> bool" where
  "kept pd s s' \<longleftrightarrow> in_use (pmem s) \<subseteq> in_use (pmem s') \<and> user_pool (pmem s') = user_pool (pmem s) \<and>
     pool_range (kernel_pool (pmem s')) = pool_range (kernel_pool (pmem s)) \<and>
     init_page_dir s' = init_page_dir s \<and> init_ram_pages s' = init_ram_pages s \<and> cr3 s' = cr3 s \<and>
     pt_pages pd s' \<subseteq> pt_pages pd s \<union> (pool_range (kernel_pool (pmem s)) - in_use (pmem s)) \<and>
     (\<forall>a. a \<in> in_use (pmem s) \<or> a \<notin> pool_range (kernel_pool (pmem s)) \<longrightarrow> a \<notin> pt_pages pd s \<longrightarrow>
        ram (pmem s') a = ram (pmem s) a)"

lemma keptD:
  assumes "kept pd s s'"
  shows "in_use (pmem s) \<subseteq> in_use (pmem s')" "user_pool (pmem s') = user_pool (pmem s)"
    "pool_range (kernel_pool (pmem s')) = pool_range (kernel_pool (pmem s))"
    "init_page_dir s' = init_page_dir s" "init_ram_pages s' = init_ram_pages s" "cr3 s' = cr3 s"
    "a \<in> pt_pages pd s' \<Longrightarrow> a \<in> pt_pages pd s \<or> a \<in> pool_range (kernel_pool (pmem s)) \<and> a \<notin> in_use (pmem s)"
    "a \<in> in_use (pmem s) \<or> a \<notin> pool_range (kernel_pool (pmem s)) \<Longrightarrow> a \<notin> pt_pages pd s \<Longrightarrow> ram (pmem s') a = ram (pmem s) a"
  using assms unfolding kept_def by blast+

lemma kept_refl: "kept pd s s"
  by (simp add: kept_def)

lemma kept_trans:
  assumes "kept pd s s'" and "kept pd s' s''"
  shows "kept pd s s''"
proof -
  note A = keptD [OF assms(1)] and B = keptD [OF assms(2)]
  have "a \<in> pt_pages pd s \<union> (pool_range (kernel_pool (pmem s)) - in_use (pmem s))" if "a \<in> pt_pages pd s''" for a
    using B(7) [OF that] A(1,3) A(7) [of a] by blast
  moreover have "ram (pmem s'') a = ram (pmem s) a"
    if "a \<in> in_use (pmem s) \<or> a \<notin> pool_range (kernel_pool (pmem s))" "a \<notin> pt_pages pd s" for a
    using A(1,3) A(7,8) [of a] B(8) [of a] that by auto
  ultimately show ?thesis using A(1-6) B(1-6) unfolding kept_def by (auto simp del: atLeastLessThan_iff)
qed

lemma in_pt_pages: "a \<in> extent pd 1 \<Longrightarrow> a \<in> pt_pages pd s"
  "i < 768 \<Longrightarrow> dir_entry pd s i \<noteq> 0 \<Longrightarrow> a \<in> extent (table_of (dir_entry pd s i)) 1 \<Longrightarrow> a \<in> pt_pages pd s"
  unfolding pt_pages_def by blast+

lemma in_pt_pagesE:
  assumes "a \<in> pt_pages pd s" and "a \<in> extent pd 1 \<Longrightarrow> P"
    and "\<And>i. i < 768 \<Longrightarrow> dir_entry pd s i \<noteq> 0 \<Longrightarrow> a \<in> extent (table_of (dir_entry pd s i)) 1 \<Longrightarrow> P"
  shows P
  using assms by (auto simp: pt_pages_def simp del: atLeastLessThan_iff)

lemma wr32_ram: "a \<notin> extent t 1 \<Longrightarrow> i < 1024 \<Longrightarrow> ram (pmem (wr32 (t + 4 * i) v s)) a = ram (pmem s) a"
  by (auto simp: wr32_def)

text \<open>A write to an entry of a table changes that entry and nothing else.\<close>

lemma write_entry:
  assumes ok: "pd_ok pd s" and va: "is_user_vaddr va" and e: "dir_entry pd s (pd_no va) \<noteq> 0" and v: "v < 2 ^ 32"
  defines "s' \<equiv> wr32 (table_of (dir_entry pd s (pd_no va)) + 4 * pt_no va) v s"
  shows "pd_ok pd s'" "p < 768 * 1024 \<Longrightarrow> entry pd s' p = (if p = va div 4096 then v else entry pd s p)" "kept pd s s'"
proof -
  note u = user_page [OF va]
  let ?t = "table_of (dir_entry pd s (pd_no va))"
  have d: "dir_entry pd s' i = dir_entry pd s i" if "i < 768" for i
    unfolding dir_entry_def s'_def
    using pages_apart [of ?t pd "pt_no va" i] pd_okD(2,6) [OF ok] u(1,2) e that mod4 [of pd i] mod4 [of ?t "pt_no va"]
    by (intro rd32_wr32_other) (simp_all add: dir_entry_def)
  show "pd_ok pd s'"
    using ok d unfolding pd_ok_def by (simp add: s'_def)
  have "pt_pages pd s' = pt_pages pd s" unfolding pt_pages_def using d by (metis (no_types, lifting))
  moreover have "ram (pmem s') a = ram (pmem s) a" if "a \<notin> pt_pages pd s" for a
    unfolding s'_def using that in_pt_pages(2) [OF u(1) e] u(2) by (intro wr32_ram) blast+
  ultimately show "kept pd s s'" unfolding kept_def by (simp add: s'_def)
  show "entry pd s' p = (if p = va div 4096 then v else entry pd s p)" if p: "p < 768 * 1024"
  proof -
    have i: "p div 1024 < 768" "p mod 1024 < 1024" using p by auto
    let ?q = "table_of (dir_entry pd s (p div 1024))"
    show ?thesis
    proof (cases "p = va div 4096")
      case True
      then show ?thesis using u e d [OF u(1)] rd32_wr32_same [OF v] by (simp add: entry_def Let_def s'_def)
    next
      case False
      then have ne: "p div 1024 \<noteq> pd_no va \<or> p mod 1024 \<noteq> pt_no va"
        using u(3,4) by (metis div_mult_mod_eq)
      show ?thesis
      proof (cases "dir_entry pd s (p div 1024) = 0")
        case True
        then show ?thesis using d [OF i(1)] False by (simp add: entry_def Let_def)
      next
        case nz: False
        have "?t + 4 * pt_no va \<noteq> ?q + 4 * (p mod 1024)"
        proof (cases "p div 1024 = pd_no va")
          case True
          then show ?thesis using ne by simp
        next
          case False
          then show ?thesis using pages_apart [of ?t ?q] pd_okD(8) [OF ok u(1) i(1)] e nz u(2) i(2) by simp
        qed
        then have "rd32 (?q + 4 * (p mod 1024)) s' = rd32 (?q + 4 * (p mod 1024)) s"
          unfolding s'_def by (intro rd32_wr32_other mod4) simp_all
        then show ?thesis using d [OF i(1)] False nz by (simp add: entry_def Let_def)
      qed
    qed
  qed
qed

text \<open>A new table: the zeroed page that the allocator returned, entered in the directory.\<close>

lemma new_table:
  assumes ok: "pd_ok pd s" and i0: "i0 < 768" "dir_entry pd s i0 = 0" and g: "got PAL_ZERO 1 (pmem s) pt m"
  defines "s' \<equiv> wr32 (pd + 4 * i0) (pt - PHYS_BASE + 7) (s\<lparr>pmem := m\<rparr>)"
  shows "pd_ok pd s'" "dir_entry pd s' i0 \<noteq> 0" "table_of (dir_entry pd s' i0) = pt"
    "p < 768 * 1024 \<Longrightarrow> entry pd s' p = entry pd s p" "pde_create pt = Some (pt - PHYS_BASE + 7)" "kept pd s s'"
proof -
  have z: "PAL_ZERO AND PAL_USER = 0" "PAL_ZERO AND PAL_ZERO \<noteq> 0" by (simp_all add: PAL_ZERO_def PAL_USER_def)
  have pt: "pt mod 4096 = 0" "extent pt 1 \<inter> in_use (pmem s) = {}" "in_use m = in_use (pmem s) \<union> extent pt 1"
    "ram m = (\<lambda>x. if x \<in> extent pt 1 then 0 else ram (pmem s) x)" "pages_ok m"
    "pool_range (kernel_pool m) \<union> pool_range (user_pool m) = pool_range (kernel_pool (pmem s)) \<union> pool_range (user_pool (pmem s))"
    "extent pt 1 \<subseteq> pool_range (kernel_pool (pmem s))"
    using g z unfolding got_def by auto
  have rng: "pool_range (kernel_pool (pmem s)) \<union> pool_range (user_pool (pmem s)) \<subseteq> {PHYS_BASE..<2 ^ 32}"
    using ok by (simp add: pd_ok_def)
  have "pt \<in> extent pt 1" by simp
  then have pb: "PHYS_BASE \<le> pt" "pt < 2 ^ 32" using pt(7) rng by (auto dest!: subsetD)
  show "pde_create pt = Some (pt - PHYS_BASE + 7)" by (rule pde_create_page [OF pt(1) pb])
  let ?e = "pt - PHYS_BASE + 7"
  have e: "?e < 2 ^ 32" "table_of ?e = pt" using page_entry [OF pt(1) pb, of 7] by simp_all
  have "odd ?e"
  proof -
    obtain k where "pt = 4096 * k" using pt(1) by auto
    then show ?thesis using pb(1) by (simp add: PHYS_BASE_def)
  qed
  have old: "rd32 (a + 4 * i) (s\<lparr>pmem := m\<rparr>) = rd32 (a + 4 * i) s" if "extent a 1 \<subseteq> in_use (pmem s)" "i < 1024" for a i
  proof -
    have "a + 4 * i + k \<notin> extent pt 1" if "k < 4" for k
    proof -
      have "a + 4 * i + k \<in> extent a 1" using \<open>i < 1024\<close> that by simp
      then show ?thesis using \<open>extent a 1 \<subseteq> in_use (pmem s)\<close> pt(2) by blast
    qed
    then have "ram_word (ram m) (a + 4 * i) = ram_word (ram (pmem s)) (a + 4 * i)"
      unfolding pt(4) by (intro ram_word_cong) (simp del: atLeastLessThan_iff)
    then show ?thesis by (simp add: rd32_def)
  qed
  have zero: "rd32 (pt + 4 * j) (s\<lparr>pmem := m\<rparr>) = 0" if "j < 1024" for j
  proof -
    have "ram_word (ram m) (pt + 4 * j) = 0"
    proof (rule bit_word_eqI)
      fix n assume "n < LENGTH(32)"
      then have "n div 8 < 4" by simp
      then have "4 * j + n div 8 < 4096" using that by linarith
      then show "bit (ram_word (ram m) (pt + 4 * j)) n = bit (0 :: 32 word) n"
        unfolding ram_word_bit pt(4) by simp
    qed
    then show ?thesis by (simp add: rd32_def)
  qed
  have "pd \<in> extent pd 1" by simp
  then have ne: "pt \<noteq> pd" using pd_okD(4) [OF ok] pt(2) by blast
  have d: "dir_entry pd s' i = (if i = i0 then ?e else dir_entry pd s i)" if "i < 768" for i
  proof (cases "i = i0")
    case True
    then show ?thesis using rd32_wr32_same [OF e(1)] by (simp add: dir_entry_def s'_def)
  next
    case False
    have "rd32 (pd + 4 * i) s' = rd32 (pd + 4 * i) (s\<lparr>pmem := m\<rparr>)"
      unfolding s'_def using False pd_okD(2) [OF ok] by (intro rd32_wr32_other mod4) simp_all
    then show ?thesis using old [OF pd_okD(4) [OF ok], of i] that False by (simp add: dir_entry_def)
  qed
  show "dir_entry pd s' i0 \<noteq> 0" "table_of (dir_entry pd s' i0) = pt" using d [OF i0(1)] e(2) by simp_all
  have "a \<in> pt_pages pd s \<union> (pool_range (kernel_pool (pmem s)) - in_use (pmem s))" if m: "a \<in> pt_pages pd s'" for a
  proof (cases "a \<in> extent pd 1")
    case True
    then show ?thesis using in_pt_pages(1) by blast
  next
    case False
    then obtain i where i: "i < 768" "dir_entry pd s' i \<noteq> 0" "a \<in> extent (table_of (dir_entry pd s' i)) 1"
      using False by (rule_tac in_pt_pagesE [OF m]) (simp_all del: atLeastLessThan_iff)
    show ?thesis
    proof (cases "i = i0")
      case True
      then have "a \<in> extent pt 1" using i(3) d [OF i(1)] e(2) by simp
      then show ?thesis using pt(2,7) by blast
    next
      case False
      then have "dir_entry pd s' i = dir_entry pd s i" using d [OF i(1)] by simp
      then show ?thesis using in_pt_pages(2) [OF i(1), of pd s a] i(2,3) by simp
    qed
  qed
  moreover have "ram (pmem s') a = ram (pmem s) a"
    if "a \<in> in_use (pmem s) \<or> a \<notin> pool_range (kernel_pool (pmem s))" "a \<notin> pt_pages pd s" for a
  proof -
    have "a \<notin> extent pd 1" "a \<notin> extent pt 1" using that in_pt_pages(1) pt(2,7) by blast+
    moreover have "i0 < 1024" using i0(1) by simp
    ultimately show ?thesis using wr32_ram [of a pd i0 "pt - PHYS_BASE + 7" "s\<lparr>pmem := m\<rparr>"] pt(4) by (simp add: s'_def del: atLeastLessThan_iff)
  qed
  moreover have "user_pool m = user_pool (pmem s)" "pool_range (kernel_pool m) = pool_range (kernel_pool (pmem s))"
    using g z unfolding got_def by auto
  ultimately show "kept pd s s'" unfolding kept_def using pt(3) by (simp add: s'_def subset_iff)
  have tn: "table_of (dir_entry pd s i) \<noteq> pt" if "i < 768" "dir_entry pd s i \<noteq> 0" for i
    
  proof
    assume "table_of (dir_entry pd s i) = pt"
    then have "extent pt 1 \<subseteq> in_use (pmem s)" using pd_okD(7) [OF ok that] by simp
    then show False using pt(2) \<open>pt \<in> extent pt 1\<close> by blast
  qed
  have use: "in_use (pmem s') = in_use (pmem s) \<union> extent pt 1" by (simp add: s'_def pt(3))
  show "pd_ok pd s'"
    unfolding pd_ok_def
  proof (intro conjI allI impI)
    show "pages_ok (pmem s')" "pd mod 4096 = 0" "pd \<noteq> NULL" "extent pd 1 \<subseteq> in_use (pmem s')"
      using pt(5) pd_okD(2-4) [OF ok] use by (auto simp: s'_def)
    show "pool_range (kernel_pool (pmem s')) \<union> pool_range (user_pool (pmem s')) \<subseteq> {PHYS_BASE..<2 ^ 32}"
      using rng pt(6) by (simp add: s'_def)
    fix i assume i: "i < 768" "dir_entry pd s' i \<noteq> 0"
    show "odd (dir_entry pd s' i)" "table_of (dir_entry pd s' i) \<noteq> pd" "extent (table_of (dir_entry pd s' i)) 1 \<subseteq> in_use (pmem s')"
      using d [OF i(1)] i \<open>odd ?e\<close> e(2) ne use pd_okD(5-7) [OF ok i(1)] by (auto split: if_splits)
    fix j assume j: "j < 768" "i \<noteq> j" "dir_entry pd s' j \<noteq> 0"
    show "table_of (dir_entry pd s' i) \<noteq> table_of (dir_entry pd s' j)"
      using d [OF i(1)] d [OF j(1)] i j e(2) tn [OF i(1)] tn [OF j(1)] pd_okD(8) [OF ok i(1) j(1,2)] by (auto split: if_splits)
  qed
  show "entry pd s' p = entry pd s p" if p: "p < 768 * 1024"
  proof -
    have i: "p div 1024 < 768" "p mod 1024 < 1024" using p by auto
    have keep: "rd32 (t + 4 * (p mod 1024)) s' = rd32 (t + 4 * (p mod 1024)) (s\<lparr>pmem := m\<rparr>)"
      if "t mod 4096 = 0" "t \<noteq> pd" for t
      unfolding s'_def using pages_apart [of pd t i0 "p mod 1024"] pd_okD(2) [OF ok] that i0(1) i(2)
      by (intro rd32_wr32_other mod4) simp_all
    show ?thesis
    proof (cases "p div 1024 = i0")
      case True
      then show ?thesis using d [OF i(1)] i0(2) e(2) keep [OF pt(1) ne] zero [OF i(2)] by (simp add: entry_def Let_def)
    next
      case False
      show ?thesis
      proof (cases "dir_entry pd s (p div 1024) = 0")
        case True
        then show ?thesis using False d [OF i(1)] by (simp add: entry_def Let_def)
      next
        case nz: False
        then show ?thesis using False d [OF i(1)] keep [OF table_of_mod pd_okD(6) [OF ok i(1) nz]]
          old [OF pd_okD(7) [OF ok i(1) nz] i(2)] by (simp add: entry_def Let_def)
      qed
    qed
  qed
qed

lemma lookup_create:
  assumes ok: "pd_ok pd s" and va: "is_user_vaddr va" and e: "dir_entry pd s (pd_no va) = 0"
  shows "lookup_page pd va True s = Some (NULL, s) \<and> no_room 1 (kernel_pool (pmem s)) \<or>
    (\<exists>s'. lookup_page pd va True s = Some (table_of (dir_entry pd s' (pd_no va)) + 4 * pt_no va, s') \<and>
      pd_ok pd s' \<and> dir_entry pd s' (pd_no va) \<noteq> 0 \<and> init_page_dir s' = init_page_dir s \<and> kept pd s s' \<and>
      (\<forall>p<768 * 1024. entry pd s' p = entry pd s p))"
proof -
  have "PAL_ZERO AND PAL_ASSERT = 0" "PAL_ZERO AND PAL_USER = 0" by (simp_all add: PAL_ZERO_def PAL_ASSERT_def PAL_USER_def)
  then consider (none) "palloc_get_page PAL_ZERO (pmem s) = Some (NULL, pmem s)" "no_room 1 (kernel_pool (pmem s))"
    | (some) pt m where "palloc_get_page PAL_ZERO (pmem s) = Some (pt, m)" "got PAL_ZERO 1 (pmem s) pt m"
    using palloc_get_ok [OF pd_okD(1) [OF ok], of 1 PAL_ZERO] by (auto simp: palloc_get_page_def)
  then show ?thesis
  proof cases
    case none
    then show ?thesis using pd_okD(3) [OF ok] va e by (simp add: lookup_page_def Let_def dir_entry_def)
  next
    case some
    let ?s = "wr32 (pd + 4 * pd_no va) (pt - PHYS_BASE + 7) (s\<lparr>pmem := m\<rparr>)"
    note n = new_table [OF ok user_page(1) [OF va] e some(2)]
    have "pt \<noteq> NULL" using some(2) by (simp add: got_def)
    moreover have "pde_get_pt (rd32 (pd + 4 * pd_no va) ?s) = Some pt"
      using pde_get_pt_odd [of "dir_entry pd ?s (pd_no va)"] pd_okD(5,7) [OF n(1) user_page(1) [OF va] n(2)]
        in_use_page(2) [OF n(1)] rd32_less n(3) by (simp add: dir_entry_def)
    ultimately have "lookup_page pd va True s = Some (pt + 4 * pt_no va, ?s)"
      using some(1) n(5) pd_okD(3) [OF ok] va e by (simp add: lookup_page_def Let_def dir_entry_def)
    then show ?thesis using n by (intro disjI2 exI [of _ ?s]) simp
  qed
qed

section \<open>Mapping and unmapping\<close>

lemma get_page_ok:
  assumes ok: "pd_ok pd s" and va: "is_user_vaddr va"
    and t: "odd (entry pd s (va div 4096)) \<Longrightarrow> table_of (entry pd s (va div 4096)) < 2 ^ 32"
  shows "pagedir_get_page pd va s = Some (if odd (entry pd s (va div 4096))
    then table_of (entry pd s (va div 4096)) + va mod 4096 else NULL, s)"
proof (cases "dir_entry pd s (pd_no va) = 0")
  case True
  then show ?thesis using lookup_absent [OF ok True] entry_absent [OF va True] va
    by (simp add: pagedir_get_page_def)
next
  case False
  have "entry pd s (va div 4096) < 2 ^ 32" using entry_present [OF va False] rd32_less by metis
  moreover have "table_of (dir_entry pd s (pd_no va)) + 4 * pt_no va \<noteq> NULL"
    by (simp add: table_of_def NULL_def PHYS_BASE_def)
  ultimately show ?thesis
    using lookup_present [OF ok va False, of False] entry_present [OF va False] PTE_P_odd va ptov_entry t
    by (simp add: pagedir_get_page_def pte_get_page_def pg_ofs_mod)
qed

lemma set_page_ok:
  assumes ok: "pd_ok pd s" and u: "upage mod 4096 = 0" "is_user_vaddr upage"
    and k: "kpage mod 4096 = 0" "PHYS_BASE \<le> kpage" "kpage < 2 ^ 32" "(kpage - PHYS_BASE) div 4096 < init_ram_pages s"
    and pd: "pd \<noteq> init_page_dir s" and free: "even (entry pd s (upage div 4096))"
  shows "\<exists>b s'. pagedir_set_page pd upage kpage w s = Some (b, s') \<and> pd_ok pd s' \<and> kept pd s s' \<and>
    (b \<or> no_room 1 (kernel_pool (pmem s)) \<and> s' = s) \<and>
    (\<forall>p<768 * 1024. entry pd s' p = (if b \<and> p = upage div 4096 then kpage - PHYS_BASE + (if w then 7 else 5) else entry pd s p))"
proof -
  let ?v = "kpage - PHYS_BASE + (if w then 7 else 5)"
  have v: "?v < 2 ^ 32" "pte_create_user kpage w = Some ?v"
    using page_entry(2) [OF k(1-3), of "if w then 7 else 5"] pte_create_user_page [OF k(1-3)] by (cases w; simp)+
  have guards: "pg_ofs upage = 0" "pg_ofs kpage = 0" "vtop kpage = Some (kpage - PHYS_BASE)"
    "drop_bit PTSHIFT (kpage - PHYS_BASE) < init_ram_pages s"
    using u k by (simp_all add: pg_ofs_mod vtop_def is_kernel_vaddr_def drop_bit_eq_div PTSHIFT_def PGBITS_def)
  have stored: "\<exists>b s''. pagedir_set_page pd upage kpage w s = Some (b, s'') \<and> pd_ok pd s'' \<and> kept pd s s'' \<and>
      (b \<or> no_room 1 (kernel_pool (pmem s)) \<and> s'' = s) \<and>
      (\<forall>p<768 * 1024. entry pd s'' p = (if b \<and> p = upage div 4096 then ?v else entry pd s p))"
    if l: "lookup_page pd upage True s = Some (table_of (dir_entry pd s' (pd_no upage)) + 4 * pt_no upage, s')"
      and o: "pd_ok pd s'" and e: "dir_entry pd s' (pd_no upage) \<noteq> 0"
      and same: "\<forall>p<768 * 1024. entry pd s' p = entry pd s p" and kp: "kept pd s s'" for s'
  proof -
    note wr = write_entry [OF o u(2) e v(1)]
    have "upage div 4096 < 768 * 1024" using u(2) by (simp add: is_user_vaddr_def PHYS_BASE_def div_less_iff_less_mult)
    then have "even (rd32 (table_of (dir_entry pd s' (pd_no upage)) + 4 * pt_no upage) s')"
      using entry_present [OF u(2) e] same free by simp
    moreover have "table_of (dir_entry pd s' (pd_no upage)) + 4 * pt_no upage \<noteq> NULL"
      by (simp add: table_of_def NULL_def PHYS_BASE_def)
    ultimately show ?thesis
      using l guards u(2) pd v(2) wr(1,2) kept_trans [OF kp wr(3)] same PTE_P_odd
      by (intro exI [of _ True]) (auto simp: pagedir_set_page_def)
  qed
  show ?thesis
  proof (cases "dir_entry pd s (pd_no upage) = 0")
    case True
    from lookup_create [OF ok u(2) True] show ?thesis
    proof (elim disjE exE conjE)
      assume "lookup_page pd upage True s = Some (NULL, s)" "no_room 1 (kernel_pool (pmem s))"
      then show ?thesis using guards u(2) pd ok kept_refl by (auto simp: pagedir_set_page_def)
    qed (use stored in blast)
  next
    case False
    show ?thesis using stored [OF lookup_present [OF ok u(2) False] ok False _ kept_refl] by blast
  qed
qed

lemma same_mem:
  assumes m: "pmem s' = pmem s"
  shows "pd_ok pd s' = pd_ok pd s" "entry pd s' = entry pd s"
proof -
  have "rd32 a s' = rd32 a s" for a by (simp add: rd32_def m)
  then show "pd_ok pd s' = pd_ok pd s" and "entry pd s' = entry pd s"
    by (simp_all add: pd_ok_def dir_entry_def entry_def m fun_eq_iff Let_def)
qed

lemma clear_page_ok:
  assumes ok: "pd_ok pd s" and u: "upage mod 4096 = 0" "is_user_vaddr upage"
    and cr3: "ptov (cr3 s) = Some a" "a = pd \<longrightarrow> is_kernel_vaddr pd"
  shows "\<exists>s'. pagedir_clear_page pd upage s = Some s' \<and> pd_ok pd s' \<and>
    (\<forall>p<768 * 1024. entry pd s' p = (if p = upage div 4096 \<and> odd (entry pd s p) then entry pd s p - 1 else entry pd s p))"
proof (cases "dir_entry pd s (pd_no upage) = 0")
  case True
  have "even (entry pd s (upage div 4096))" using entry_absent [OF u(2) True] by simp
  then show ?thesis using lookup_absent [OF ok True] u ok by (auto simp: pagedir_clear_page_def pg_ofs_mod)
next
  case False
  let ?a = "table_of (dir_entry pd s (pd_no upage)) + 4 * pt_no upage"
  let ?e = "entry pd s (upage div 4096)"
  have e: "rd32 ?a s = ?e" "?e < 2 ^ 32" using entry_present [OF u(2) False] rd32_less [of ?a s] by simp_all
  have a: "?a \<noteq> NULL" by (simp add: table_of_def NULL_def PHYS_BASE_def)
  have l: "lookup_page pd upage False s = Some (?a, s)" by (rule lookup_present [OF ok u(2) False])
  show ?thesis
  proof (cases "odd ?e")
    case True
    have m: "?e AND not32 PTE_P = ?e - 1"
    proof (rule bit_eqI)
      fix n
      have "bit ?e n \<Longrightarrow> n < 32" using e(2) by (metis bit_take_bit_iff take_bit_nat_eq_self)
      moreover have "bit (not32 PTE_P) n \<longleftrightarrow> n < 32 \<and> n \<noteq> 0"
      proof -
        have "not32 PTE_P = push_bit 1 (mask 31)" by (simp add: not32_def PTE_P_def mask_eq_exp_minus_1)
        then have "bit (not32 PTE_P) n = bit (push_bit 1 (mask 31 :: nat)) n" by (rule arg_cong)
        then show ?thesis unfolding bit_push_bit_iff bit_mask_iff by auto
      qed
      moreover have "bit (?e - 1) n \<longleftrightarrow> bit ?e n \<and> n \<noteq> 0"
        using True by (elim oddE) (cases n; simp add: bit_0 bit_Suc)
      ultimately show "bit (?e AND not32 PTE_P) n = bit (?e - 1) n" by (auto simp: bit_and_iff)
    qed
    have w: "?e - 1 < 2 ^ 32" using e(2) by simp
    note wr = write_entry [OF ok u(2) False w]
    let ?s = "wr32 ?a (?e - 1) s"
    have "\<exists>s'. invalidate_pagedir pd ?s = Some s' \<and> pmem s' = pmem ?s"
      using cr3 pd_okD(3) [OF ok] by (auto simp: invalidate_pagedir_def active_pd_def pagedir_activate_def vtop_def)
    then obtain s' where s': "invalidate_pagedir pd ?s = Some s'" "pmem s' = pmem ?s" by blast
    have "pd_ok pd s'" "entry pd s' = entry pd ?s" using wr(1) same_mem [OF s'(2)] by simp_all
    moreover have "pagedir_clear_page pd upage s = Some s'"
      using l a e(1) True m s'(1) u PTE_P_odd [of ?e] by (simp add: pagedir_clear_page_def pg_ofs_mod)
    ultimately show ?thesis using wr(2) True by auto
  next
    case False
    then show ?thesis using l a e(1) u ok PTE_P_odd [of ?e] by (auto simp: pagedir_clear_page_def pg_ofs_mod)
  qed
qed

text \<open>The mapping of user pages to kernel pages that a directory stands for.\<close>

definition mapping :: "addr \<Rightarrow> vm \<Rightarrow> nat \<Rightarrow> addr option" where
  "mapping pd s p = (if p < 768 * 1024 \<and> odd (entry pd s p) then Some (table_of (entry pd s p)) else None)"

definition maps_ok :: "addr \<Rightarrow> vm \<Rightarrow> bool" where
  "maps_ok pd s \<longleftrightarrow> pd_ok pd s \<and> (\<forall>k\<in>ran (mapping pd s). k < 2 ^ 32)"

lemma user_page_no: "is_user_vaddr va \<Longrightarrow> va div 4096 < 768 * 1024"
  by (simp add: is_user_vaddr_def PHYS_BASE_def div_less_iff_less_mult)

lemma get_mapping:
  assumes "maps_ok pd s" and "is_user_vaddr va"
  shows "pagedir_get_page pd va s = Some (case mapping pd s (va div 4096) of None \<Rightarrow> NULL | Some k \<Rightarrow> k + va mod 4096, s)"
proof -
  have "table_of (entry pd s (va div 4096)) < 2 ^ 32" if "odd (entry pd s (va div 4096))"
  proof -
    have "mapping pd s (va div 4096) = Some (table_of (entry pd s (va div 4096)))"
      using that user_page_no [OF assms(2)] by (simp add: mapping_def)
    then have "table_of (entry pd s (va div 4096)) \<in> ran (mapping pd s)" by (rule ranI)
    then show ?thesis using assms(1) unfolding maps_ok_def by blast
  qed
  then show ?thesis using get_page_ok [of pd s va] assms user_page_no by (simp add: maps_ok_def mapping_def)
qed

lemma set_mapping:
  assumes ok: "maps_ok pd s" and u: "upage mod 4096 = 0" "is_user_vaddr upage"
    and k: "kpage mod 4096 = 0" "PHYS_BASE \<le> kpage" "kpage < 2 ^ 32" "(kpage - PHYS_BASE) div 4096 < init_ram_pages s"
    and pd: "pd \<noteq> init_page_dir s" and free: "mapping pd s (upage div 4096) = None"
  shows "\<exists>b s'. pagedir_set_page pd upage kpage w s = Some (b, s') \<and> maps_ok pd s' \<and>
    mapping pd s' = (if b then (mapping pd s)(upage div 4096 \<mapsto> kpage) else mapping pd s)"
proof -
  define v where "v = kpage - PHYS_BASE + (if w then 7 else 5)"
  have v: "odd v" "table_of v = kpage"
  proof -
    obtain n where "kpage = 4096 * n" using k(1) by auto
    then show "odd v" using k(2) by (simp add: PHYS_BASE_def v_def)
    show "table_of v = kpage" using page_entry(3) [OF k(1-3), of "if w then 7 else 5"] by (cases w) (simp_all add: v_def)
  qed
  have pdo: "pd_ok pd s" and rn: "\<forall>k\<in>ran (mapping pd s). k < 2 ^ 32" using ok by (simp_all add: maps_ok_def)
  have "even (entry pd s (upage div 4096))"
    using free user_page_no [OF u(2)] by (simp add: mapping_def split: if_splits)
  from set_page_ok [OF pdo u k pd this, of w] obtain b s' where s': "pagedir_set_page pd upage kpage w s = Some (b, s')" "pd_ok pd s'"
    and e: "\<forall>p<768 * 1024. entry pd s' p = (if b \<and> p = upage div 4096 then v else entry pd s p)"
    unfolding v_def by blast
  have m: "mapping pd s' = (if b then (mapping pd s)(upage div 4096 \<mapsto> kpage) else mapping pd s)"
  proof
    fix p
    show "mapping pd s' p = (if b then (mapping pd s)(upage div 4096 \<mapsto> kpage) else mapping pd s) p"
    proof (cases "p < 768 * 1024")
      case True
      with e have "entry pd s' p = (if b \<and> p = upage div 4096 then v else entry pd s p)" by blast
      then show ?thesis using True v by (cases "p = upage div 4096"; cases b) (simp_all add: mapping_def)
    next
      case False
      then have "p \<noteq> upage div 4096" using user_page_no [OF u(2)] by blast
      then show ?thesis using False by (simp add: mapping_def)
    qed
  qed
  have "ran (mapping pd s') \<subseteq> insert kpage (ran (mapping pd s))" unfolding m by (auto simp: ran_def)
  then have "maps_ok pd s'" using s'(2) rn k(3) unfolding maps_ok_def by blast
  then show ?thesis using s'(1) m by blast
qed

lemma clear_mapping:
  assumes ok: "maps_ok pd s" and u: "upage mod 4096 = 0" "is_user_vaddr upage" and cr3: "ptov (cr3 s) = Some act"
  shows "\<exists>s'. pagedir_clear_page pd upage s = Some s' \<and> maps_ok pd s' \<and> mapping pd s' = (mapping pd s)(upage div 4096 := None)"
proof -
  have pdo: "pd_ok pd s" and rn: "\<forall>k\<in>ran (mapping pd s). k < 2 ^ 32" using ok by (simp_all add: maps_ok_def)
  have "is_kernel_vaddr pd" using in_use_page(1) [OF pdo pd_okD(4) [OF pdo]] by (simp add: is_kernel_vaddr_def)
  then obtain s' where s': "pagedir_clear_page pd upage s = Some s'" "pd_ok pd s'"
    and e: "\<forall>p<768 * 1024. entry pd s' p = (if p = upage div 4096 \<and> odd (entry pd s p) then entry pd s p - 1 else entry pd s p)"
    using clear_page_ok [OF pdo u cr3] by blast
  have m: "mapping pd s' = (mapping pd s)(upage div 4096 := None)"
  proof
    fix p
    show "mapping pd s' p = ((mapping pd s)(upage div 4096 := None)) p"
    proof (cases "p < 768 * 1024")
      case True
      with e have "entry pd s' p = (if p = upage div 4096 \<and> odd (entry pd s p) then entry pd s p - 1 else entry pd s p)" by blast
      then show ?thesis by (cases "p = upage div 4096"; cases "odd (entry pd s p)") (simp_all add: mapping_def)
    qed (simp add: mapping_def)
  qed
  have "ran (mapping pd s') \<subseteq> ran (mapping pd s)" unfolding m by (auto simp: ran_def)
  then have "maps_ok pd s'" using s'(2) rn unfolding maps_ok_def by blast
  then show ?thesis using s'(1) m by blast
qed


definition sample_vm :: vm where
  "sample_vm = \<lparr>pmem = \<lparr>kernel_pool = \<lparr>used_map = \<lparr>bit_cnt = 10, bits = [1]\<rparr>, base = 0xc0100000\<rparr>,
     user_pool = \<lparr>used_map = \<lparr>bit_cnt = 5, bits = [0]\<rparr>, base = 0xc0200000\<rparr>, ram = (\<lambda>_. 0)\<rparr>,
     init_page_dir = 0xc0050000, init_ram_pages = 1024, cr3 = 0x50000\<rparr>"

lemma sample_vm_ok: "maps_ok 0xc0100000 sample_vm" "mapping 0xc0100000 sample_vm p = None"
proof -
  have z: "rd32 a sample_vm = 0" for a
  proof -
    have "ram_word (ram (pmem sample_vm)) a = 0" by (rule bit_word_eqI) (simp add: ram_word_bit sample_vm_def)
    then show ?thesis by (simp add: rd32_def)
  qed
  then show m: "mapping 0xc0100000 sample_vm p = None" for p by (simp add: mapping_def entry_def dir_entry_def)
  have "pages_ok (pmem sample_vm)"
    by (auto simp: sample_vm_def pages_ok_def pool_ok_def bitmap_ok_def pool_range_def)
  moreover have "0 \<in> bm.used (used_map (kernel_pool (pmem sample_vm)))"
    by (simp add: bm.used_def sample_vm_def nth_bits_of bit_at_def)
  then have "extent 0xc0100000 1 \<subseteq> in_use (pmem sample_vm)"
    by (force simp: in_use_def pool_used_def page_span_def sample_vm_def)
  moreover have "pool_range (kernel_pool (pmem sample_vm)) \<union> pool_range (user_pool (pmem sample_vm)) \<subseteq> {PHYS_BASE..<2 ^ 32}"
    by (simp add: pool_range_def sample_vm_def PHYS_BASE_def)
  ultimately have "pd_ok 0xc0100000 sample_vm"
    unfolding pd_ok_def dir_entry_def z by (simp add: NULL_def)
  then show "maps_ok 0xc0100000 sample_vm" using m by (simp add: maps_ok_def ran_def)
qed


end
