(* ===== verification/Loader.thy ===== *)
theory Loader
  imports Process_Calls Pagedir Fs_Props
begin

unbundle bit_operations_syntax

text \<open>
  The rest of \<open>userprog/process.c\<close>: \<open>process_execute\<close>, \<open>start_process\<close> and the ELF loader, on the
  kernel of theory \<open>Kernel_State\<close>, the memory and page tables of theory \<open>Pagedir\<close> and the file
  system. \<open>palloc\<close> is the model of theory \<open>Palloc\<close>; the blocks of \<open>malloc\<close> that \<open>setup_stack\<close> uses
  for its pointer array are a list and a capacity, and the answers of \<open>malloc\<close> are the field \<open>mem\<close> of the
  file system. Strings are in the kernel's memory; the constant \<open>" "\<close> is at the address \<open>delims\<close>.

  The kernel writes the user's stack at user addresses, through the active page directory:
  \<open>kaddr\<close> is what the processor does to an address, \<^term>\<open>None\<close> a page fault, which in kernel mode
  is a panic. The accessed and dirty bits that the processor sets are left out.
\<close>

section \<open>State and user memory\<close>

record proc =
  kern :: kernel
  vms :: vm
  fsys :: fs

definition rm :: "proc \<Rightarrow> addr \<Rightarrow> byte" where "rm s = ram (pmem (vms s))"

definition put_ram :: "(addr \<Rightarrow> byte) \<Rightarrow> proc \<Rightarrow> proc" where
  "put_ram m s = s\<lparr>vms := (vms s)\<lparr>pmem := (pmem (vms s))\<lparr>ram := m\<rparr>\<rparr>\<rparr>"

definition poke :: "addr \<Rightarrow> byte list \<Rightarrow> (addr \<Rightarrow> byte) \<Rightarrow> (addr \<Rightarrow> byte)" where
  "poke p bs m = (\<lambda>a. if p \<le> a \<and> a < p + length bs then bs ! (a - p) else m a)"

definition sub32 :: "addr \<Rightarrow> nat \<Rightarrow> addr" where
  "sub32 a n = (a + 2 ^ 32 - n) mod 2 ^ 32"

definition kaddr :: "bool \<Rightarrow> addr \<Rightarrow> proc \<Rightarrow> addr option" where
  "kaddr writing va s =
     (if is_user_vaddr va then do {
        pd \<leftarrow> active_pd (vms s);
        (pte, _) \<leftarrow> lookup_page pd va False (vms s);
        _ \<leftarrow> ASSERT (pte \<noteq> NULL);
        let e = rd32 pte (vms s);
        _ \<leftarrow> ASSERT (e AND PTE_P \<noteq> 0 \<and> (writing \<longrightarrow> e AND PTE_W \<noteq> 0));
        page \<leftarrow> pte_get_page e;
        Some (page + pg_ofs va) }
      else do { _ \<leftarrow> ASSERT (va < PHYS_BASE + PGSIZE * init_ram_pages (vms s)); Some va })"

definition store_byte :: "addr \<Rightarrow> byte \<Rightarrow> proc \<Rightarrow> proc option" where
  "store_byte va b s = do { k \<leftarrow> kaddr True va s; Some (put_ram ((rm s)(k := b)) s) }"

fun store_bytes :: "byte list \<Rightarrow> addr \<Rightarrow> proc \<Rightarrow> proc option" where
  "store_bytes [] va s = Some s"
| "store_bytes (b # bs) va s = do { s \<leftarrow> store_byte va b s; store_bytes bs (va + 1) s }"

fun copy_to_user :: "nat \<Rightarrow> addr \<Rightarrow> addr \<Rightarrow> proc \<Rightarrow> proc option" where
  "copy_to_user 0 dst src s = Some s"
| "copy_to_user (Suc n) dst src s = do { s \<leftarrow> store_byte dst (rm s src) s; copy_to_user n (dst + 1) (src + 1) s }"

fun read_user :: "nat \<Rightarrow> addr \<Rightarrow> proc \<Rightarrow> byte list option" where
  "read_user 0 va s = Some []"
| "read_user (Suc n) va s = do { k \<leftarrow> kaddr False va s; bs \<leftarrow> read_user n (va + 1) s; Some (rm s k # bs) }"

section \<open>The stack\<close>

definition WORD_SIZE :: nat where "WORD_SIZE = 5"
definition ARGV_COUNTER :: nat where "ARGV_COUNTER = 4"

definition install_page :: "addr \<Rightarrow> addr \<Rightarrow> bool \<Rightarrow> proc \<Rightarrow> (bool \<times> proc) option" where
  "install_page upage kpage writable s = do {
     t \<leftarrow> thread_current (kern s);
     (k, _) \<leftarrow> pagedir_get_page (pagedir t) upage (vms s);
     if k = NULL then do { (b, v) \<leftarrow> pagedir_set_page (pagedir t) upage kpage writable (vms s); Some (b, s\<lparr>vms := v\<rparr>) }
     else Some (False, s) }"

text \<open>
  The loop over the tokens. \<open>argv\<close> holds the pointers stored so far, \<open>argv_size\<close> the capacity of
  its block. A block that was not granted is a null pointer, and the next store through it faults.
\<close>

partial_function (option) args_loop ::
  "addr \<Rightarrow> addr \<Rightarrow> addr \<Rightarrow> addr \<Rightarrow> addr list \<Rightarrow> nat \<Rightarrow> proc \<Rightarrow> (addr \<times> addr list \<times> nat \<times> proc) option" where
  "args_loop delims token save esp argv argv_size s =
     (if token \<noteq> NULL then do {
        len \<leftarrow> strlen token (rm s);
        let esp = sub32 esp (len + 1);
        _ \<leftarrow> ASSERT (length argv < argv_size);
        let argv = argv @ [esp];
        let (ok, argv_size, s) =
          (if length argv \<ge> argv_size then let (ok, f) = try_alloc (fsys s) in (ok, argv_size * 2, s\<lparr>fsys := f\<rparr>)
           else (True, argv_size, s));
        _ \<leftarrow> ASSERT ok;
        s \<leftarrow> copy_to_user (len + 1) esp token s;
        (token, save, m) \<leftarrow> strtok_r NULL delims save (rm s);
        args_loop delims token save esp argv argv_size (put_ram m s) }
      else Some (esp, argv, argv_size, s))"

definition push_bytes :: "byte list \<Rightarrow> addr \<Rightarrow> proc \<Rightarrow> (addr \<times> proc) option" where
  "push_bytes bs esp s = (let esp = sub32 esp (length bs) in do { s \<leftarrow> store_bytes bs esp s; Some (esp, s) })"

fun push_ptrs :: "addr list \<Rightarrow> addr \<Rightarrow> proc \<Rightarrow> (addr \<times> proc) option" where
  "push_ptrs [] esp s = Some (esp, s)"
| "push_ptrs (p # ps) esp s = do { (esp, s) \<leftarrow> push_bytes (le32 p) esp s; push_ptrs ps esp s }"

text \<open>\<open>setup_stack\<close> after the page is installed, or was not available.\<close>

definition push_args :: "addr \<Rightarrow> addr \<Rightarrow> addr \<Rightarrow> addr \<Rightarrow> proc \<Rightarrow> (addr \<times> proc) option" where
  "push_args delims file_name save esp s = do {
     let (ok, f) = try_alloc (fsys s);
     _ \<leftarrow> ASSERT ok;
     (esp, argv, argv_size, s) \<leftarrow> args_loop delims file_name save esp [] ARGV_COUNTER (s\<lparr>fsys := f\<rparr>);
     _ \<leftarrow> ASSERT (length argv < argv_size);
     let argc = length argv;
     let argv = argv @ [0];
     let i = esp mod WORD_SIZE;
     (esp, s) \<leftarrow> (if i \<noteq> 0 then push_bytes (take i (le32 (argv ! argc))) esp s else Some (esp, s));
     (esp, s) \<leftarrow> push_ptrs (rev argv) esp s;
     let token = esp;
     (esp, s) \<leftarrow> push_bytes (le32 token) esp s;
     (esp, s) \<leftarrow> push_bytes (le32 argc) esp s;
     push_bytes (le32 (argv ! argc)) esp s }"

definition setup_stack :: "addr \<Rightarrow> addr \<Rightarrow> addr \<Rightarrow> addr \<Rightarrow> proc \<Rightarrow> (bool \<times> addr \<times> proc) option" where
  "setup_stack delims esp file_name save s = do {
     (kpage, m) \<leftarrow> palloc_get_page (PAL_USER OR PAL_ZERO) (pmem (vms s));
     let s = s\<lparr>vms := (vms s)\<lparr>pmem := m\<rparr>\<rparr>;
     if kpage \<noteq> NULL then do {
       (success, s) \<leftarrow> install_page (PHYS_BASE - PGSIZE) kpage True s;
       if success then do { (esp, s) \<leftarrow> push_args delims file_name save PHYS_BASE s; Some (True, esp, s) }
       else do {
         m \<leftarrow> palloc_free_page kpage (pmem (vms s));
         Some (False, esp, s\<lparr>vms := (vms s)\<lparr>pmem := m\<rparr>\<rparr>) } }
     else do { (esp, s) \<leftarrow> push_args delims file_name save esp s; Some (False, esp, s) } }"

section \<open>Loading an executable\<close>

definition of_le16 :: "byte list \<Rightarrow> nat" where
  "of_le16 bs = unat (bs ! 0) + 256 * unat (bs ! 1)"

record elf_ehdr =
  e_ident :: "byte list"
  e_type :: nat
  e_machine :: nat
  e_version :: nat
  e_entry :: nat
  e_phoff :: nat
  e_phentsize :: nat
  e_phnum :: nat

record elf_phdr =
  p_type :: nat
  p_offset :: nat
  p_vaddr :: nat
  p_filesz :: nat
  p_memsz :: nat
  p_flags :: nat

text \<open>The fields of the headers that the loader reads, at their offsets.\<close>

definition read_ehdr :: "byte list \<Rightarrow> elf_ehdr" where
  "read_ehdr bs = \<lparr>e_ident = take 16 bs, e_type = of_le16 (drop 16 bs), e_machine = of_le16 (drop 18 bs),
     e_version = of_le32 (drop 20 bs), e_entry = of_le32 (drop 24 bs), e_phoff = of_le32 (drop 28 bs),
     e_phentsize = of_le16 (drop 42 bs), e_phnum = of_le16 (drop 44 bs)\<rparr>"

definition read_phdr :: "byte list \<Rightarrow> elf_phdr" where
  "read_phdr bs = \<lparr>p_type = of_le32 bs, p_offset = of_le32 (drop 4 bs), p_vaddr = of_le32 (drop 8 bs),
     p_filesz = of_le32 (drop 16 bs), p_memsz = of_le32 (drop 20 bs), p_flags = of_le32 (drop 24 bs)\<rparr>"

definition PT_LOAD :: nat where "PT_LOAD = 1"
definition PT_DYNAMIC :: nat where "PT_DYNAMIC = 2"
definition PT_INTERP :: nat where "PT_INTERP = 3"
definition PT_SHLIB :: nat where "PT_SHLIB = 5"
definition PF_W :: nat where "PF_W = 2"

definition elf_magic :: "byte list" where "elf_magic = [0x7f, 0x45, 0x4c, 0x46, 1, 1, 1]"

definition ehdr_bad :: "byte list \<Rightarrow> bool" where
  "ehdr_bad bs \<longleftrightarrow> length bs \<noteq> 52 \<or>
     (let h = read_ehdr bs in take 7 (e_ident h) \<noteq> elf_magic \<or> e_type h \<noteq> 2 \<or> e_machine h \<noteq> 3 \<or> e_version h \<noteq> 1 \<or>
        e_phentsize h \<noteq> 32 \<or> e_phnum h > 1024)"

text \<open>The decision of \<open>validate_segment\<close> for a file of length \<open>len\<close>.\<close>

definition segment_ok :: "elf_phdr \<Rightarrow> int \<Rightarrow> bool" where
  "segment_ok h len =
     (if p_offset h AND PGMASK \<noteq> p_vaddr h AND PGMASK then False
      else if p_offset h > nat (len mod 2 ^ 32) then False
      else if p_memsz h < p_filesz h then False
      else if p_memsz h = 0 then False
      else if \<not> is_user_vaddr (p_vaddr h) then False
      else if \<not> is_user_vaddr (u32 (p_vaddr h + p_memsz h)) then False
      else if u32 (p_vaddr h + p_memsz h) < p_vaddr h then False
      else if p_vaddr h < PGSIZE then False
      else True)"

definition validate_segment :: "elf_phdr \<Rightarrow> nat \<Rightarrow> fs \<Rightarrow> bool option" where
  "validate_segment h fp s = do { len \<leftarrow> file_length fp s; Some (segment_ok h len) }"

text \<open>One page of a segment, at the kernel address \<open>kpage\<close>; then all of them.\<close>

definition fill_page :: "nat \<Rightarrow> addr \<Rightarrow> nat \<Rightarrow> proc \<Rightarrow> (bool \<times> proc) option" where
  "fill_page fp kpage n s = do {
     (bs, f) \<leftarrow> file_read fp (int n) (fsys s);
     let s = put_ram (poke kpage bs (rm s)) (s\<lparr>fsys := f\<rparr>);
     if length bs \<noteq> n then Some (False, s)
     else do { (_, m) \<leftarrow> memset (kpage + n) 0 (PGSIZE - n) (rm s); Some (True, put_ram m s) } }"

definition free_kpage :: "addr \<Rightarrow> proc \<Rightarrow> proc option" where
  "free_kpage kpage s = do { m \<leftarrow> palloc_free_page kpage (pmem (vms s)); Some (s\<lparr>vms := (vms s)\<lparr>pmem := m\<rparr>\<rparr>) }"

partial_function (option) segment_loop :: "nat \<Rightarrow> addr \<Rightarrow> nat \<Rightarrow> nat \<Rightarrow> bool \<Rightarrow> proc \<Rightarrow> (bool \<times> proc) option" where
  "segment_loop fp upage read_bytes zero_bytes writable s =
     (if read_bytes > 0 \<or> zero_bytes > 0 then do {
        let page_read_bytes = (if read_bytes < PGSIZE then read_bytes else PGSIZE);
        let page_zero_bytes = PGSIZE - page_read_bytes;
        (kpage, m) \<leftarrow> palloc_get_page PAL_USER (pmem (vms s));
        let s = s\<lparr>vms := (vms s)\<lparr>pmem := m\<rparr>\<rparr>;
        if kpage = NULL then Some (False, s)
        else do {
          (ok, s) \<leftarrow> fill_page fp kpage page_read_bytes s;
          if \<not> ok then do { s \<leftarrow> free_kpage kpage s; Some (False, s) }
          else do {
            (ok, s) \<leftarrow> install_page upage kpage writable s;
            if \<not> ok then do { s \<leftarrow> free_kpage kpage s; Some (False, s) }
            else segment_loop fp (u32 (upage + PGSIZE)) (sub32 read_bytes page_read_bytes) (sub32 zero_bytes page_zero_bytes)
              writable s } } }
      else Some (True, s))"

definition load_segment :: "nat \<Rightarrow> int \<Rightarrow> addr \<Rightarrow> nat \<Rightarrow> nat \<Rightarrow> bool \<Rightarrow> proc \<Rightarrow> (bool \<times> proc) option" where
  "load_segment fp ofs upage read_bytes zero_bytes writable s = do {
     _ \<leftarrow> ASSERT (u32 (read_bytes + zero_bytes) mod PGSIZE = 0);
     _ \<leftarrow> ASSERT (pg_ofs upage = 0);
     _ \<leftarrow> ASSERT (ofs mod int PGSIZE = 0);
     f \<leftarrow> file_seek fp ofs (fsys s);
     segment_loop fp upage read_bytes zero_bytes writable (s\<lparr>fsys := f\<rparr>) }"

definition round_up :: "nat \<Rightarrow> nat" where
  "round_up x = u32 (u32 (x + PGSIZE - 1) div PGSIZE * PGSIZE)"

text \<open>The arguments of \<open>load_segment\<close> for a header.\<close>

definition segment_bytes :: "elf_phdr \<Rightarrow> nat \<times> nat" where
  "segment_bytes h =
     (let page_offset = p_vaddr h AND PGMASK
      in if p_filesz h > 0 then
           let read_bytes = u32 (page_offset + p_filesz h)
           in (read_bytes, sub32 (round_up (u32 (page_offset + p_memsz h))) read_bytes)
         else (0, round_up (u32 (page_offset + p_memsz h))))"

definition load_phdr :: "nat \<Rightarrow> elf_phdr \<Rightarrow> proc \<Rightarrow> (bool \<times> proc) option" where
  "load_phdr fp h s =
     (if p_type h = PT_DYNAMIC \<or> p_type h = PT_INTERP \<or> p_type h = PT_SHLIB then Some (False, s)
      else if p_type h = PT_LOAD then do {
        ok \<leftarrow> validate_segment h fp (fsys s);
        if ok then
          let writable = (p_flags h AND PF_W \<noteq> 0);
              file_page = p_offset h AND not32 PGMASK;
              mem_page = p_vaddr h AND not32 PGMASK;
              (read_bytes, zero_bytes) = segment_bytes h
          in load_segment fp (i32 (int file_page)) mem_page read_bytes zero_bytes writable s
        else Some (False, s) }
      else Some (True, s))"

fun phdr_loop :: "nat \<Rightarrow> nat \<Rightarrow> int \<Rightarrow> proc \<Rightarrow> (bool \<times> proc) option" where
  "phdr_loop 0 fp file_ofs s = Some (True, s)"
| "phdr_loop (Suc n) fp file_ofs s = do {
     len \<leftarrow> file_length fp (fsys s);
     if file_ofs < 0 \<or> file_ofs > len then Some (False, s)
     else do {
       f \<leftarrow> file_seek fp file_ofs (fsys s);
       (bs, f) \<leftarrow> file_read fp 32 f;
       let s = s\<lparr>fsys := f\<rparr>;
       if length bs \<noteq> 32 then Some (False, s)
       else do {
         (ok, s) \<leftarrow> load_phdr fp (read_phdr bs) s;
         if ok then phdr_loop n fp (i32 (file_ofs + 32)) s else Some (False, s) } } }"

section \<open>Starting a process\<close>

definition process_activate :: "proc \<Rightarrow> proc option" where
  "process_activate s = do {
     t \<leftarrow> thread_current (kern s);
     v \<leftarrow> pagedir_activate (pagedir t) (vms s);
     Some (s\<lparr>vms := v\<rparr>) }"

definition mem_string :: "addr \<Rightarrow> (addr \<Rightarrow> byte) \<Rightarrow> byte list option" where
  "mem_string p m = do { n \<leftarrow> strlen p m; Some (map m [p..<p + n]) }"

text \<open>The part of \<open>load\<close> between opening the file and \<open>done\<close>: success, \<open>*eip\<close>, \<open>*esp\<close>.\<close>

definition load_file :: "addr \<Rightarrow> nat \<Rightarrow> addr \<Rightarrow> addr \<Rightarrow> addr \<Rightarrow> addr \<Rightarrow> proc \<Rightarrow> (bool \<times> addr \<times> addr \<times> proc) option" where
  "load_file delims fp file_name save eip esp s = do {
     (bs, f) \<leftarrow> file_read fp 52 (fsys s);
     let s = s\<lparr>fsys := f\<rparr>;
     if ehdr_bad bs then Some (False, eip, esp, s)
     else do {
       let h = read_ehdr bs;
       (ok, s) \<leftarrow> phdr_loop (e_phnum h) fp (i32 (int (e_phoff h))) s;
       if \<not> ok then Some (False, eip, esp, s)
       else do {
         (ok, esp, s) \<leftarrow> setup_stack delims esp file_name save s;
         Some (if ok then (True, e_entry h, esp, s) else (False, eip, esp, s)) } } }"

definition load :: "addr \<Rightarrow> addr \<Rightarrow> addr \<Rightarrow> addr \<Rightarrow> addr \<Rightarrow> proc \<Rightarrow> (bool \<times> addr \<times> addr \<times> proc) option" where
  "load delims file_name save eip esp s = do {
     _ \<leftarrow> thread_current (kern s);
     (pd, v) \<leftarrow> pagedir_create (vms s);
     k \<leftarrow> upd_thread (cur (kern s)) (\<lambda>t. t\<lparr>pagedir := pd\<rparr>) (kern s);
     let s = s\<lparr>vms := v, kern := k\<rparr>;
     if pd = NULL then Some (False, eip, esp, s)
     else do {
       s \<leftarrow> process_activate s;
       name \<leftarrow> mem_string file_name (rm s);
       (fp, f) \<leftarrow> filesys_open name (fsys s);
       let s = s\<lparr>fsys := f\<rparr>;
       (ok, eip, esp, s) \<leftarrow> (if fp = 0 then Some (False, eip, esp, s) else load_file delims fp file_name save eip esp s);
       f \<leftarrow> file_close fp (fsys s);
       Some (ok, eip, esp, s\<lparr>fsys := f\<rparr>) } }"

text \<open>
  \<open>start_process\<close>: the register frame with which the process enters user mode, or \<open>None\<close> when the
  thread exits instead. The record of the load's outcome is \<open>loaded\<close> of theory \<open>Process_Calls\<close>.
\<close>

record user_regs =
  seg :: nat
  code_seg :: nat
  eflags :: nat
  u_eip :: addr
  u_esp :: addr

definition SEL_UDSEG :: nat where "SEL_UDSEG = 0x23"
definition FLAG_IF :: nat where "FLAG_IF = 0x200"
definition FLAG_MBS :: nat where "FLAG_MBS = 2"

definition start_process :: "addr \<Rightarrow> addr \<Rightarrow> proc \<Rightarrow> (user_regs option \<times> proc) option" where
  "start_process delims file_name s = do {
     (file_name, save, m) \<leftarrow> strtok_r file_name delims NULL (rm s);
     let s = put_ram m s;
     (ok, eip, esp, s) \<leftarrow> load delims file_name save 0 0 s;
     k \<leftarrow> loaded ok (kern s);
     m \<leftarrow> palloc_free_page file_name (pmem (vms s));
     let s = s\<lparr>kern := k, vms := (vms s)\<lparr>pmem := m\<rparr>\<rparr>;
     Some (if ok then Some \<lparr>seg = SEL_UDSEG, code_seg = SEL_UCSEG, eflags = FLAG_IF OR FLAG_MBS, u_eip = eip, u_esp = esp\<rparr>
       else None, s) }"

text \<open>
  \<open>process_execute\<close> up to the call of \<open>thread_create\<close>, with the page for the copy and the name of the
  thread, and what is left after the call.
\<close>

definition TID_ERROR :: int where "TID_ERROR = -1"

definition process_execute :: "addr \<Rightarrow> addr \<Rightarrow> proc \<Rightarrow> ((int + addr \<times> addr) \<times> proc) option" where
  "process_execute delims file_name s = do {
     (fn_copy, m) \<leftarrow> palloc_get_page 0 (pmem (vms s));
     let s = s\<lparr>vms := (vms s)\<lparr>pmem := m\<rparr>\<rparr>;
     if fn_copy = NULL then Some (Inl TID_ERROR, s)
     else do {
       (_, m) \<leftarrow> strlcpy fn_copy file_name PGSIZE (rm s);
       (name, _, m) \<leftarrow> strtok_r file_name delims NULL m;
       Some (Inr (fn_copy, name), put_ram m s) } }"

definition process_execute_end :: "int \<Rightarrow> addr \<Rightarrow> proc \<Rightarrow> (int \<times> proc) option" where
  "process_execute_end n fn_copy s = do {
     s \<leftarrow> (if n = TID_ERROR then free_kpage fn_copy s else Some s);
     Some (n, s) }"

end
