(* ===== verification/Stack_Args.thy ===== *)
theory Stack_Args
  imports Loader
begin

text \<open>
  What \<open>setup_stack\<close> leaves on the user's stack: the page from the final stack pointer to
  \<open>PHYS_BASE\<close>, byte by byte.
\<close>

section \<open>The frame of the stack page\<close>

lemma rm_put [simp]: "rm (put_ram m s) = m"
  and put_put [simp]: "put_ram m (put_ram m' s) = put_ram m s"
  and kern_put [simp]: "kern (put_ram m s) = kern s"
  and fsys_put [simp]: "fsys (put_ram m s) = fsys s"
  and vms_put: "vms (put_ram m s) = (vms s)\<lparr>pmem := (pmem (vms s))\<lparr>ram := m\<rparr>\<rparr>"
  by (simp_all add: put_ram_def rm_def)

lemma put_rm [simp]: "put_ram (rm s) s = s"
  by (simp add: put_ram_def rm_def)

lemma poke_Nil [simp]: "poke k [] m = m"
  by (auto simp: poke_def fun_eq_iff)

lemma poke_append: "poke k (xs @ ys) m = poke (k + length xs) ys (poke k xs m)"
  by (auto simp: poke_def fun_eq_iff nth_append)

lemma ram_frame:
  fixes v :: vm
  assumes "\<forall>a\<in>pt_pages pd v. m a = ram (pmem v) a"
  defines "v' \<equiv> v\<lparr>pmem := (pmem v)\<lparr>ram := m\<rparr>\<rparr>"
  shows "i < 768 \<Longrightarrow> dir_entry pd v' i = dir_entry pd v i" "p < 768 * 1024 \<Longrightarrow> entry pd v' p = entry pd v p"
    "pd_ok pd v' = pd_ok pd v" "pt_pages pd v' = pt_pages pd v"
proof -
  have w: "rd32 (t + 4 * j) v' = rd32 (t + 4 * j) v" if "extent t 1 \<subseteq> pt_pages pd v" "j < 1024" for t j
  proof -
    have "m (t + 4 * j + k) = ram (pmem v) (t + 4 * j + k)" if "k < 4" for k
    proof -
      have "t + 4 * j + k \<in> extent t 1" using that \<open>j < 1024\<close> by simp
      then show ?thesis using assms(1) \<open>extent t 1 \<subseteq> pt_pages pd v\<close> by blast
    qed
    then have "ram_word m (t + 4 * j) = ram_word (ram (pmem v)) (t + 4 * j)" by (rule ram_word_cong)
    then show ?thesis by (simp add: rd32_def v'_def)
  qed
  have d: "dir_entry pd v' i = dir_entry pd v i" if "i < 768" for i
    unfolding dir_entry_def using that in_pt_pages(1) by (intro w) auto
  then show "i < 768 \<Longrightarrow> dir_entry pd v' i = dir_entry pd v i" .
  show "entry pd v' p = entry pd v p" if "p < 768 * 1024"
  proof -
    have i: "p div 1024 < 768" "p mod 1024 < 1024" using that by auto
    show ?thesis
    proof (cases "dir_entry pd v (p div 1024) = 0")
      case True
      then show ?thesis using d [OF i(1)] by (simp add: entry_def Let_def)
    next
      case False
      have "extent (table_of (dir_entry pd v (p div 1024))) 1 \<subseteq> pt_pages pd v"
        using in_pt_pages(2) [OF i(1) False] by blast
      then show ?thesis using d [OF i(1)] w [OF _ i(2)] False by (simp add: entry_def Let_def)
    qed
  qed
  show "pd_ok pd v' = pd_ok pd v"
  proof -
    have "pages_ok (pmem v') = pages_ok (pmem v)" "in_use (pmem v') = in_use (pmem v)"
      "kernel_pool (pmem v') = kernel_pool (pmem v)" "user_pool (pmem v') = user_pool (pmem v)"
      by (simp_all add: v'_def pages_ok_def in_use_def)
    then show ?thesis unfolding pd_ok_def by (simp add: d cong: imp_cong)
  qed
  show "pt_pages pd v' = pt_pages pd v" unfolding pt_pages_def using d by (metis (no_types, lifting))
qed

abbreviation stack_base :: nat where "stack_base \<equiv> PHYS_BASE - PGSIZE"

definition stack_ready :: "addr \<Rightarrow> addr \<Rightarrow> proc \<Rightarrow> bool" where
  "stack_ready pd kpage s \<longleftrightarrow> active_pd (vms s) = Some pd \<and> pd_ok pd (vms s) \<and>
     entry pd (vms s) 786431 = kpage - PHYS_BASE + 7 \<and> kpage mod 4096 = 0 \<and> PHYS_BASE \<le> kpage \<and> kpage < 2 ^ 32 \<and>
     extent kpage 1 \<inter> pt_pages pd (vms s) = {}"

lemma stack_ready_put:
  assumes "stack_ready pd kpage s" and "\<forall>a\<in>pt_pages pd (vms s). m a = rm s a"
  shows "stack_ready pd kpage (put_ram m s)"
proof -
  have "(786431::nat) < 768 * 1024" by simp
  then show ?thesis
    using assms(1) ram_frame [of pd "vms s" m] assms(2)
    by (simp add: stack_ready_def vms_put rm_def active_pd_def del: One_nat_def)
qed

lemma stack_ready_poke:
  assumes "stack_ready pd kpage s" and "kpage \<le> k" and "k + length bs \<le> kpage + 4096"
  shows "stack_ready pd kpage (put_ram (poke k bs (rm s)) s)"
proof (rule stack_ready_put [OF assms(1)])
  have "a \<notin> extent kpage 1" if "a \<in> pt_pages pd (vms s)" for a
    using that assms(1) unfolding stack_ready_def by blast
  then show "\<forall>a\<in>pt_pages pd (vms s). poke k bs (rm s) a = rm s a" using assms(2,3) by (fastforce simp: poke_def)
qed

lemma kaddr_stack:
  assumes r: "stack_ready pd kpage s" and va: "stack_base \<le> va" "va < PHYS_BASE"
  shows "kaddr w va s = Some (kpage + (va - stack_base))"
proof -
  have u: "is_user_vaddr va" "va div 4096 = 786431" using va by (simp_all add: is_user_vaddr_def PHYS_BASE_def div_nat_eqI)
  have ok: "pd_ok pd (vms s)" and k: "kpage mod 4096 = 0" "PHYS_BASE \<le> kpage" "kpage < 2 ^ 32"
    and e: "entry pd (vms s) (va div 4096) = kpage - PHYS_BASE + 7" and a: "active_pd (vms s) = Some pd"
    using r u(2) by (simp_all add: stack_ready_def)
  note pe = page_entry [OF k, of 7]
  have ne: "dir_entry pd (vms s) (pd_no va) \<noteq> 0" using entry_absent [OF u(1)] e by (metis add_is_0 zero_neq_numeral)
  let ?pte = "table_of (dir_entry pd (vms s) (pd_no va)) + 4 * pt_no va"
  have rd: "rd32 ?pte (vms s) = kpage - PHYS_BASE + 7" using entry_present [OF u(1) ne] e by simp
  obtain n where n: "kpage - PHYS_BASE = 4096 * n"
  proof -
    obtain j where "kpage = 4096 * j" using k(1) by auto
    then have "kpage - PHYS_BASE = 4096 * (j - 786432)" by (simp add: PHYS_BASE_def)
    then show thesis by (rule that)
  qed
  have P: "(kpage - PHYS_BASE + 7) AND PTE_P \<noteq> 0" unfolding PTE_P_odd n by simp
  have W: "(kpage - PHYS_BASE + 7) AND PTE_W \<noteq> 0"
  proof
    assume z: "(kpage - PHYS_BASE + 7) AND PTE_W = 0"
    have "bit (kpage - PHYS_BASE + 7) 1" unfolding n bit_iff_odd by (simp add: div_add1_eq mult.commute)
    moreover have "bit PTE_W 1" by (simp add: PTE_W_def bit_iff_odd)
    ultimately have "bit ((kpage - PHYS_BASE + 7) AND PTE_W) 1" by (simp add: bit_and_iff)
    then show False unfolding z by simp
  qed
  have pg: "pte_get_page (kpage - PHYS_BASE + 7) = Some kpage"
    using ptov_entry [OF pe(2)] pe(3) k(3) by (simp add: pte_get_page_def)
  have "pg_ofs va = va - stack_base"
  proof -
    have "va = (va - stack_base) + 786431 * 4096" "va - stack_base < 4096" using va by (simp_all add: PHYS_BASE_def)
    then show ?thesis unfolding pg_ofs_mod by (metis mod_less mod_mult_self1)
  qed
  moreover have "?pte \<noteq> NULL" by (simp add: table_of_def NULL_def PHYS_BASE_def)
  ultimately show ?thesis
    using u(1) a lookup_present [OF ok u(1) ne, of False] rd P W pg by (simp add: kaddr_def Let_def)
qed

lemma store_bytes_stack:
  "stack_ready pd kpage s \<Longrightarrow> stack_base \<le> va \<Longrightarrow> va + length bs \<le> PHYS_BASE \<Longrightarrow>
    store_bytes bs va s = Some (put_ram (poke (kpage + (va - stack_base)) bs (rm s)) s)"
proof (induction bs arbitrary: va s)
  case Nil
  then show ?case by simp
next
  case (Cons b bs)
  let ?k = "kpage + (va - stack_base)"
  have one: "store_byte va b s = Some (put_ram (poke ?k [b] (rm s)) s)"
    using kaddr_stack [OF Cons.prems(1,2), of True] Cons.prems(3)
    by (auto simp: store_byte_def poke_def fun_eq_iff intro!: arg_cong [where f = "\<lambda>m. put_ram m s"])
  have "stack_ready pd kpage (put_ram (poke ?k [b] (rm s)) s)"
    using Cons.prems by (intro stack_ready_poke) auto
  then have "store_bytes bs (va + 1) (put_ram (poke ?k [b] (rm s)) s) =
      Some (put_ram (poke (kpage + (va + 1 - stack_base)) bs (poke ?k [b] (rm s))) s)"
    using Cons.IH [of "put_ram (poke ?k [b] (rm s)) s" "va + 1"] Cons.prems by simp
  moreover have "poke (kpage + (va + 1 - stack_base)) bs (poke ?k [b] (rm s)) = poke ?k (b # bs) (rm s)"
  proof -
    have "kpage + (va + 1 - stack_base) = ?k + 1" using Cons.prems(2) by simp
    then show ?thesis using poke_append [of ?k "[b]" bs "rm s"] by simp
  qed
  ultimately show ?case using one by simp
qed

section \<open>Pushing bytes\<close>

lemma sub32_small: "n \<le> a \<Longrightarrow> a < 2 ^ 32 \<Longrightarrow> sub32 a n = a - n"
proof -
  assume "n \<le> a" "a < 2 ^ 32"
  then have "a + 2 ^ 32 - n = (a - n) + 2 ^ 32" "a - n < 2 ^ 32" by simp_all
  then show ?thesis unfolding sub32_def by (metis mod_add_self2 mod_less)
qed

lemma push_bytes_stack:
  assumes "stack_ready pd kpage s" and "stack_base + length bs \<le> esp" and "esp \<le> PHYS_BASE"
  shows "push_bytes bs esp s =
    Some (esp - length bs, put_ram (poke (kpage + (esp - length bs - stack_base)) bs (rm s)) s)"
proof -
  have "sub32 esp (length bs) = esp - length bs" using assms by (intro sub32_small) (simp_all add: PHYS_BASE_def)
  then show ?thesis using store_bytes_stack [OF assms(1), of "esp - length bs" bs] assms(2,3) by (simp add: push_bytes_def)
qed

text \<open>The stack holds exactly \<open>L\<close> from \<open>esp\<close> on, and the bytes outside the page are those of \<open>m\<close>.\<close>

definition holds :: "addr \<Rightarrow> addr \<Rightarrow> byte list \<Rightarrow> (addr \<Rightarrow> byte) \<Rightarrow> bool" where
  "holds kpage esp L m \<longleftrightarrow> esp + length L = PHYS_BASE \<and> stack_base \<le> esp \<and>
     (\<forall>i<length L. m (kpage + (esp - stack_base) + i) = L ! i)"

lemma holds_poke:
  assumes "holds kpage esp L m" and "stack_base + length bs \<le> esp"
  shows "holds kpage (esp - length bs) (bs @ L) (poke (kpage + (esp - length bs - stack_base)) bs m)"
  unfolding holds_def
proof (intro conjI allI impI)
  have h: "esp + length L = PHYS_BASE" "stack_base \<le> esp" "\<And>i. i < length L \<Longrightarrow> m (kpage + (esp - stack_base) + i) = L ! i"
    using assms(1) by (auto simp: holds_def)
  show "esp - length bs + length (bs @ L) = PHYS_BASE" "stack_base \<le> esp - length bs" using assms(2) h by simp_all
  fix i assume i: "i < length (bs @ L)"
  show "poke (kpage + (esp - length bs - stack_base)) bs m (kpage + (esp - length bs - stack_base) + i) = (bs @ L) ! i"
  proof (cases "i < length bs")
    case True
    then show ?thesis by (simp add: poke_def nth_append)
  next
    case False
    have a: "kpage + (esp - length bs - stack_base) + i = kpage + (esp - stack_base) + (i - length bs)"
      using False assms(2) by simp
    have "poke (kpage + (esp - length bs - stack_base)) bs m (kpage + (esp - length bs - stack_base) + i) =
        m (kpage + (esp - length bs - stack_base) + i)" using False by (simp add: poke_def)
    also have "\<dots> = L ! (i - length bs)" unfolding a using False i by (intro h(3)) simp
    finally show ?thesis using False by (simp add: nth_append)
  qed
qed

lemma push_holds:
  assumes r: "stack_ready pd kpage s" and h: "holds kpage esp L (rm s)" and b: "stack_base + length bs \<le> esp"
  shows "\<exists>m. push_bytes bs esp s = Some (esp - length bs, put_ram m s) \<and> stack_ready pd kpage (put_ram m s) \<and>
    holds kpage (esp - length bs) (bs @ L) m \<and> (\<forall>a. a \<notin> extent kpage 1 \<longrightarrow> m a = rm s a)"
proof -
  have e: "esp \<le> PHYS_BASE" using h by (simp add: holds_def)
  let ?k = "kpage + (esp - length bs - stack_base)"
  have "?k + length bs \<le> kpage + 4096" using b e by (simp add: PHYS_BASE_def)
  then have "stack_ready pd kpage (put_ram (poke ?k bs (rm s)) s)" "\<forall>a. a \<notin> extent kpage 1 \<longrightarrow> poke ?k bs (rm s) a = rm s a"
    using stack_ready_poke [OF r, of ?k bs] by (auto simp: poke_def)
  then show ?thesis using push_bytes_stack [OF r b e] holds_poke [OF h b] by blast
qed

lemma push_ptrs_holds:
  "stack_ready pd kpage s \<Longrightarrow> holds kpage esp L (rm s) \<Longrightarrow> stack_base + 4 * length ps \<le> esp \<Longrightarrow>
    \<exists>m. push_ptrs ps esp s = Some (esp - 4 * length ps, put_ram m s) \<and> stack_ready pd kpage (put_ram m s) \<and>
      holds kpage (esp - 4 * length ps) (concat (map le32 (rev ps)) @ L) m \<and> (\<forall>a. a \<notin> extent kpage 1 \<longrightarrow> m a = rm s a)"
proof (induction ps arbitrary: esp L s)
  case Nil
  then show ?case by (intro exI [of _ "rm s"]) simp
next
  case (Cons p ps)
  have "stack_base + length (le32 p) \<le> esp" using Cons.prems(3) by simp
  from push_holds [OF Cons.prems(1,2) this] obtain m where m: "push_bytes (le32 p) esp s = Some (esp - 4, put_ram m s)"
    "stack_ready pd kpage (put_ram m s)" "holds kpage (esp - 4) (le32 p @ L) m" "\<forall>a. a \<notin> extent kpage 1 \<longrightarrow> m a = rm s a"
    by auto
  have "\<exists>m'. push_ptrs ps (esp - 4) (put_ram m s) = Some (esp - 4 - 4 * length ps, put_ram m' (put_ram m s)) \<and>
      stack_ready pd kpage (put_ram m' (put_ram m s)) \<and>
      holds kpage (esp - 4 - 4 * length ps) (concat (map le32 (rev ps)) @ le32 p @ L) m' \<and>
      (\<forall>a. a \<notin> extent kpage 1 \<longrightarrow> m' a = rm (put_ram m s) a)"
    using Cons.prems(3) m(2,3) by (intro Cons.IH) simp_all
  then show ?case using m(1,4) by auto
qed

section \<open>The arguments\<close>

lemma copy_to_user_stack:
  "stack_ready pd kpage s \<Longrightarrow> stack_base \<le> dst \<Longrightarrow> dst + n \<le> PHYS_BASE \<Longrightarrow> {src..<src + n} \<inter> extent kpage 1 = {} \<Longrightarrow>
    copy_to_user n dst src s = store_bytes (map (rm s) [src..<src + n]) dst s"
proof (induction n arbitrary: dst src s)
  case (Suc n)
  let ?k = "kpage + (dst - stack_base)"
  let ?m = "poke ?k [rm s src] (rm s)"
  have st: "store_byte dst (rm s src) s = Some (put_ram ?m s)"
    using store_bytes_stack [OF Suc.prems(1,2), of "[rm s src]"] Suc.prems(3) by (cases "store_byte dst (rm s src) s") simp_all
  have k: "kpage \<le> ?k" "?k + 1 \<le> kpage + 4096" using Suc.prems(2,3) by (simp_all add: PHYS_BASE_def)
  then have r: "stack_ready pd kpage (put_ram ?m s)" using stack_ready_poke [OF Suc.prems(1), of ?k "[rm s src]"] by simp
  have same: "?m a = rm s a" if "a \<in> {src + 1..<src + 1 + n}" for a
  proof -
    have "a \<in> {src..<src + Suc n}" using that by simp
    then have "a \<notin> extent kpage 1" using Suc.prems(4) by blast
    then show ?thesis using k by (auto simp: poke_def)
  qed
  have "{src + 1..<src + 1 + n} \<inter> extent kpage 1 = {}" using Suc.prems(4) by auto
  then have "copy_to_user n (dst + 1) (src + 1) (put_ram ?m s) =
      store_bytes (map ?m [src + 1..<src + 1 + n]) (dst + 1) (put_ram ?m s)"
    using Suc.IH [OF r, of "dst + 1" "src + 1"] Suc.prems(2,3) by simp
  also have "map ?m [src + 1..<src + 1 + n] = map (rm s) [src + 1..<src + 1 + n]"
    by (intro map_cong refl same) auto
  finally have *: "copy_to_user n (dst + 1) (src + 1) (put_ram ?m s) =
      store_bytes (map (rm s) [src + 1..<src + 1 + n]) (dst + 1) (put_ram ?m s)" .
  have up: "[src..<src + Suc n] = src # [src + 1..<src + 1 + n]" by (simp add: upt_conv_Cons del: upt_Suc)
  show ?case unfolding up list.map copy_to_user.simps store_bytes.simps st bind.bind_lunit by (rule *)
qed simp

lemma cstr_bytes: "cstr m p t \<Longrightarrow> map m [p..<p + (length t + 1)] = t @ [0]"
  by (rule nth_equalityI) (auto simp: cstr_def nth_append less_Suc_eq)

text \<open>Where the strings of the arguments lie, from the top of the stack down.\<close>

fun arg_ptrs :: "addr \<Rightarrow> byte list list \<Rightarrow> addr list" where
  "arg_ptrs esp [] = []"
| "arg_ptrs esp (t # ts) = (esp - (length t + 1)) # arg_ptrs (esp - (length t + 1)) ts"

definition arg_bytes :: "byte list list \<Rightarrow> byte list" where
  "arg_bytes ts = concat (map (\<lambda>t. t @ [0]) (rev ts))"

lemma arg_bytes_Cons: "arg_bytes (t # ts) = arg_bytes ts @ t @ [0]"
  by (simp add: arg_bytes_def)

lemma length_arg_ptrs [simp]: "length (arg_ptrs esp ts) = length ts"
  by (induction ts arbitrary: esp) simp_all

text \<open>The strings that are split: outside the page of the stack and the page tables.\<close>

definition apart :: "addr \<Rightarrow> addr \<Rightarrow> addr \<Rightarrow> nat \<Rightarrow> proc \<Rightarrow> bool" where
  "apart pd kpage p n s \<longleftrightarrow> {p..p + n} \<inter> (extent kpage 1 \<union> pt_pages pd (vms s)) = {}"

lemma apart_put: "stack_ready pd kpage s \<Longrightarrow> (\<forall>a\<in>pt_pages pd (vms s). m a = rm s a) \<Longrightarrow> apart pd kpage p n (put_ram m s) = apart pd kpage p n s"
  using ram_frame(4) [of pd "vms s" m] by (simp add: apart_def vms_put rm_def)

lemma args_loop_holds:
  assumes ds: "delims \<noteq> NULL" and save: "save \<noteq> NULL"
  shows "stack_ready pd kpage s \<Longrightarrow> holds kpage esp L (rm s) \<Longrightarrow> mem (fsys s) = [] \<Longrightarrow>
    cstr (rm s) delims [32] \<Longrightarrow> apart pd kpage delims 1 s \<Longrightarrow> {delims..delims + 1} \<inter> {save..save + length rest} = {} \<Longrightarrow>
    token \<noteq> NULL \<Longrightarrow> cstr (rm s) token t \<Longrightarrow> apart pd kpage token (length t) s \<Longrightarrow>
    save \<noteq> NULL \<Longrightarrow> cstr (rm s) save rest \<Longrightarrow> apart pd kpage save (length rest) s \<Longrightarrow>
    length argv < n \<Longrightarrow> stack_base + length (arg_bytes (t # words [32] rest)) \<le> esp \<Longrightarrow>
    \<exists>m n'. args_loop delims token save esp argv n s =
        Some (esp - length (arg_bytes (t # words [32] rest)), argv @ arg_ptrs esp (t # words [32] rest), n', put_ram m s) \<and>
      length argv + length (t # words [32] rest) < n' \<and> stack_ready pd kpage (put_ram m s) \<and>
      holds kpage (esp - length (arg_bytes (t # words [32] rest))) (arg_bytes (t # words [32] rest) @ L) m"
proof (induction "length rest" arbitrary: rest s esp L token t save argv n rule: less_induct)
  case (less rest s esp L token t save argv n)
  note r = less.prems(1) and h = less.prems(2) and mem = less.prems(3)
  let ?l = "length t + 1" let ?esp = "esp - ?l"
  have fit: "stack_base + length (t @ [0]) \<le> esp" using less.prems(14) by (simp add: arg_bytes_Cons)
  have e: "esp \<le> PHYS_BASE" using h by (simp add: holds_def)
  have len: "strlen token (rm s) = Some (length t)" by (rule strlen_cstr [OF less.prems(8,7)])
  have sub: "sub32 esp ?l = ?esp" using fit e by (intro sub32_small) (simp_all add: PHYS_BASE_def)
  from push_holds [OF r h fit] obtain m where m: "push_bytes (t @ [0]) esp s = Some (?esp, put_ram m s)"
    "stack_ready pd kpage (put_ram m s)" "holds kpage ?esp ((t @ [0]) @ L) m" "\<forall>a. a \<notin> extent kpage 1 \<longrightarrow> m a = rm s a"
    by auto
  have st: "store_bytes (t @ [0]) ?esp s = Some (put_ram m s)"
    using m(1) sub by (cases "store_bytes (t @ [0]) ?esp s") (simp_all add: push_bytes_def)
  have "{token..<token + ?l} \<subseteq> {token..token + length t}" by auto
  then have "{token..<token + ?l} \<inter> extent kpage 1 = {}" using less.prems(9) unfolding apart_def by blast
  then have cp: "copy_to_user ?l ?esp token s = Some (put_ram m s)"
    using copy_to_user_stack [OF r, of ?esp ?l token] fit e st cstr_bytes [OF less.prems(8)] by simp
  have keep: "m a = rm s a" if "apart pd kpage p k s" "p \<le> a" "a \<le> p + k" for a p k
    using m(4) that unfolding apart_def by (metis IntI Un_iff atLeastAtMost_iff empty_iff)
  have cds: "cstr m delims [32]" using cstr_cong [of "[32]" m delims "rm s"] keep [OF less.prems(5)] less.prems(4) by simp
  have csv: "cstr m save rest" using cstr_cong [of rest m save "rm s"] keep [OF less.prems(12)] less.prems(11) by simp
  have p: "save = (if NULL = NULL then save else NULL)" by simp
  from strtok_step [OF cds ds p less.prems(10) csv]
  obtain t' save' m' skipped tok rest' where k: "strtok_r NULL delims save m = Some (t', save', m')"
    "rest = skipped @ tok @ rest'" "set skipped \<subseteq> set [32]" "set tok \<inter> set [32] = {}" "rest' = [] \<or> hd rest' \<in> set [32]"
    "if tok = [] then t' = NULL \<and> rest' = [] \<and> m' = m \<and> cstr m' save' []
     else t' = save + length skipped \<and> save' = t' + length tok + (if rest' = [] then 0 else 1) \<and>
       cstr m' t' tok \<and> cstr m' save' (tl rest') \<and> m' = (if rest' = [] then m else m(t' + length tok := 0))"
    by blast
  define n1 where "n1 = (if length (argv @ [?esp]) \<ge> n then n * 2 else n)"
  have n1: "length (argv @ [?esp]) < n1" using less.prems(13) by (auto simp: n1_def)
  have al: "try_alloc (fsys s) = (True, fsys s)" using mem by (simp add: try_alloc_def)
  have unf: "args_loop delims token save esp argv n s = args_loop delims t' save' ?esp (argv @ [?esp]) n1 (put_ram m' s)"
    using less.prems(7,13) len sub cp k(1) al
    by (subst args_loop.simps) (simp add: Let_def n1_def del: copy_to_user.simps)
  show ?case
  proof (cases "tok = []")
    case True
    then have "words [32] rest = []" using k(2,6) words_skip [of skipped "[32]" "[]"] k(3) by simp
    moreover have "args_loop delims t' save' ?esp (argv @ [?esp]) n1 (put_ram m' s) = Some (?esp, argv @ [?esp], n1, put_ram m s)"
      using k(6) True by (subst args_loop.simps) simp
    ultimately show ?thesis using unf m(2,3) n1 by (auto simp: arg_bytes_def)
  next
    case False
    then have k6: "t' = save + length skipped" "save' = t' + length tok + (if rest' = [] then 0 else 1)"
      "cstr m' t' tok" "cstr m' save' (tl rest')" "m' = (if rest' = [] then m else m(t' + length tok := 0))" using k(6) unfolding if_not_P [OF False] by blast+
    have w: "words [32] rest = tok # words [32] (tl rest')"
      using words_skip [of skipped "[32]" "tok @ rest'"] words_tok [OF False, of "[32]" rest'] k(2-5) by simp
    have "0 < length tok" using False by simp
    then have shorter: "length (tl rest') < length rest" unfolding k(2) length_append length_tl by linarith
    have in_save: "save \<le> a \<and> a \<le> save + length rest"
      if "t' \<le> a \<and> a \<le> t' + length tok \<or> save' \<le> a \<and> a \<le> save' + length (tl rest')" for a
      using that k6(1,2) k(2) by (cases rest') auto
    have ap: "apart pd kpage p j s" if "\<And>a. p \<le> a \<Longrightarrow> a \<le> p + j \<Longrightarrow> save \<le> a \<and> a \<le> save + length rest" for p j
      using less.prems(12) that unfolding apart_def by (meson atLeastAtMost_iff disjoint_iff)
    have mp: "\<forall>a\<in>pt_pages pd (vms s). m' a = rm s a"
    proof
      fix a assume a: "a \<in> pt_pages pd (vms s)"
      then have "\<not> (save \<le> a \<and> a \<le> save + length rest)" using less.prems(12) unfolding apart_def by auto
      then have "a \<noteq> t' + length tok" using in_save by (metis le_add1 order_refl)
      moreover have "a \<notin> extent kpage 1" using a r unfolding stack_ready_def by blast
      ultimately show "m' a = rm s a" using k6(5) m(4) by auto
    qed
    have r': "stack_ready pd kpage (put_ram m' s)" by (rule stack_ready_put [OF r mp])
    have np: "t' + length tok \<notin> extent kpage 1"
      using in_save [of "t' + length tok"] less.prems(12) unfolding apart_def by (auto simp del: atLeastLessThan_iff)
    have h': "holds kpage ?esp ((t @ [0]) @ L) m'"
      using m(3) np e fit k6(5) unfolding holds_def by (auto simp: PHYS_BASE_def)
    have d': "cstr m' delims [32]"
    proof -
      have "t' + length tok \<notin> {delims..delims + 1}" using in_save [of "t' + length tok"] less.prems(6) by auto
      then show ?thesis using cds k6(5) by (auto split: if_splits)
    qed
    have "\<exists>m n'. args_loop delims t' save' ?esp (argv @ [?esp]) n1 (put_ram m' s) =
        Some (?esp - length (arg_bytes (tok # words [32] (tl rest'))), (argv @ [?esp]) @ arg_ptrs ?esp (tok # words [32] (tl rest')),
          n', put_ram m (put_ram m' s)) \<and>
      length (argv @ [?esp]) + length (tok # words [32] (tl rest')) < n' \<and> stack_ready pd kpage (put_ram m (put_ram m' s)) \<and>
      holds kpage (?esp - length (arg_bytes (tok # words [32] (tl rest')))) (arg_bytes (tok # words [32] (tl rest')) @ (t @ [0]) @ L) m"
    proof (rule less.hyps [OF shorter r'])
      have "{save'..save' + length (tl rest')} \<subseteq> {save..save + length rest}"
        by (intro subsetI) (metis in_save atLeastAtMost_iff)
      then show "{delims..delims + 1} \<inter> {save'..save' + length (tl rest')} = {}" using less.prems(6) by blast
      show "t' \<noteq> NULL" "save' \<noteq> NULL" using less.prems(10) k6(1,2) by (simp_all add: NULL_def)
      show "apart pd kpage delims 1 (put_ram m' s)" using apart_put [OF r mp] less.prems(5) by simp
      show "apart pd kpage t' (length tok) (put_ram m' s)" "apart pd kpage save' (length (tl rest')) (put_ram m' s)"
        using apart_put [OF r mp] ap in_save by blast+
      show "stack_base + length (arg_bytes (tok # words [32] (tl rest'))) \<le> ?esp"
        using less.prems(14) w by (simp add: arg_bytes_Cons)
    qed (use h' mem d' k6(3,4) n1 in simp_all)
    then show ?thesis unfolding unf w
      by (elim exE, rule_tac x = m in exI, rule_tac x = n' in exI) (simp add: arg_bytes_Cons ac_simps)
  qed
qed

section \<open>The finished stack\<close>

definition arg_pad :: "byte list list \<Rightarrow> nat" where
  "arg_pad ts = (PHYS_BASE - length (arg_bytes ts)) mod WORD_SIZE"

definition argv_addr :: "byte list list \<Rightarrow> addr" where
  "argv_addr ts = PHYS_BASE - length (arg_bytes ts) - arg_pad ts - 4 * (length ts + 1)"

definition stack_image :: "byte list list \<Rightarrow> byte list" where
  "stack_image ts = le32 0 @ le32 (length ts) @ le32 (argv_addr ts) @
     concat (map le32 (arg_ptrs PHYS_BASE ts @ [0])) @ replicate (arg_pad ts) 0 @ arg_bytes ts"

lemma length_le32s: "length (concat (map le32 ps)) = 4 * length ps"
  by (induction ps) simp_all

lemma length_stack_image: "length (stack_image ts) = 16 + 4 * length ts + arg_pad ts + length (arg_bytes ts)"
  by (simp add: stack_image_def length_le32s)

lemma le32_0: "le32 0 = [0, 0, 0, 0]"
  by (simp add: le32_list)

lemma take_le32_0: "i < 5 \<Longrightarrow> take i (le32 0) = replicate i 0"
  by (auto simp: le32_0 numeral_eq_Suc less_Suc_eq)

lemma push_args_steps:
  assumes "try_alloc (fsys s) = (True, fsys s)" and "args_loop delims token save esp [] ARGV_COUNTER s = Some (e0, argv, n, s1)"
    and "length argv < n"
    and "(if e0 mod WORD_SIZE \<noteq> 0 then push_bytes (take (e0 mod WORD_SIZE) (le32 0)) e0 s1 else Some (e0, s1)) = Some (e1, s2)"
    and "push_ptrs (rev (argv @ [0])) e1 s2 = Some (e2, s3)" and "push_bytes (le32 e2) e2 s3 = Some (e3, s4)"
    and "push_bytes (le32 (length argv)) e3 s4 = Some (e4, s5)" and "push_bytes (le32 0) e4 s5 = Some (e5, s6)"
  shows "push_args delims token save esp s = Some (e5, s6)"
proof -
  have n: "(argv @ [0]) ! length argv = 0" by simp
  show ?thesis
    unfolding push_args_def Let_def assms(1) split_conv n
    using assms(2-8) by (cases "e0 mod WORD_SIZE = 0") (simp_all add: n del: push_ptrs.simps rev_append rev.simps)
qed

lemma push_args_holds:
  assumes r: "stack_ready pd kpage s" and mem: "mem (fsys s) = []"
    and ds: "delims \<noteq> NULL" "cstr (rm s) delims [32]" "apart pd kpage delims 1 s" "{delims..delims + 1} \<inter> {save..save + length rest} = {}"
    and t: "token \<noteq> NULL" "cstr (rm s) token t" "apart pd kpage token (length t) s"
    and sv: "save \<noteq> NULL" "cstr (rm s) save rest" "apart pd kpage save (length rest) s"
  defines "ts \<equiv> t # words [32] rest"
  assumes size: "length (stack_image ts) \<le> 4096"
  shows "\<exists>m. push_args delims token save PHYS_BASE s = Some (PHYS_BASE - length (stack_image ts), put_ram m s) \<and>
    stack_ready pd kpage (put_ram m s) \<and> holds kpage (PHYS_BASE - length (stack_image ts)) (stack_image ts) m"
proof -
  let ?e0 = "PHYS_BASE - length (arg_bytes ts)" and ?pad = "arg_pad ts" and ?ptrs = "arg_ptrs PHYS_BASE ts @ [0]"
  have sz: "16 + 4 * length ts + ?pad + length (arg_bytes ts) \<le> 4096" using size by (simp add: length_stack_image)
  have P: "PHYS_BASE = 3221225472" by (simp add: PHYS_BASE_def)
  have h0: "holds kpage PHYS_BASE [] (rm s)" by (simp add: holds_def)
  have fit: "stack_base + length (arg_bytes (t # words [32] rest)) \<le> PHYS_BASE" using sz unfolding ts_def P by simp
  from args_loop_holds [OF ds(1) sv(1) r h0 mem ds(2-4) t sv, of "[]" ARGV_COUNTER, folded ts_def] fit [folded ts_def]
  obtain m1 n1 where a: "args_loop delims token save PHYS_BASE [] ARGV_COUNTER s = Some (?e0, arg_ptrs PHYS_BASE ts, n1, put_ram m1 s)"
    "length ts < n1" "stack_ready pd kpage (put_ram m1 s)" "holds kpage ?e0 (arg_bytes ts) m1"
    by (auto simp: ARGV_COUNTER_def)
  have i: "?e0 mod WORD_SIZE = ?pad" "?pad < 5" by (simp_all add: arg_pad_def WORD_SIZE_def)
  let ?e1 = "?e0 - ?pad"
  have "stack_base + length (replicate ?pad (0 :: byte)) \<le> ?e0" using sz P by simp
  from push_holds [OF a(3) _ this] a(4) obtain m2 where
    b: "push_bytes (replicate ?pad 0) ?e0 (put_ram m1 s) = Some (?e1, put_ram m2 s)" "stack_ready pd kpage (put_ram m2 s)"
      "holds kpage ?e1 (replicate ?pad 0 @ arg_bytes ts) m2" by auto
  have pad: "(if ?pad \<noteq> 0 then push_bytes (take ?pad (le32 0)) ?e0 (put_ram m1 s) else Some (?e0, put_ram m1 s)) =
      Some (?e1, put_ram m2 s)"
  proof (cases "?pad = 0")
    case True
    then have "push_bytes (replicate ?pad 0) ?e0 (put_ram m1 s) = Some (sub32 ?e0 0, put_ram m1 s)"
      by (simp add: push_bytes_def)
    moreover have "sub32 ?e0 0 = ?e0" using P by (intro sub32_small [of 0, simplified]) simp
    ultimately show ?thesis using b(1) True by simp
  qed (use b(1) i(2) take_le32_0 in simp)
  let ?e2 = "?e1 - 4 * (length ts + 1)"
  have "stack_base + 4 * length (rev ?ptrs) \<le> ?e1" using sz P by simp
  from push_ptrs_holds [OF b(2) _ this] b(3) obtain m3 where
    c: "push_ptrs (rev ?ptrs) ?e1 (put_ram m2 s) = Some (?e2, put_ram m3 s)" "stack_ready pd kpage (put_ram m3 s)"
      "holds kpage ?e2 (concat (map le32 ?ptrs) @ replicate ?pad 0 @ arg_bytes ts) m3" by auto
  have e2: "?e2 = argv_addr ts" by (simp add: argv_addr_def)
  have "stack_base + length (le32 (argv_addr ts)) \<le> ?e2" using sz P by simp
  from push_holds [OF c(2) _ this] c(3) obtain m4 where
    d: "push_bytes (le32 (argv_addr ts)) ?e2 (put_ram m3 s) = Some (?e2 - 4, put_ram m4 s)" "stack_ready pd kpage (put_ram m4 s)"
      "holds kpage (?e2 - 4) (le32 (argv_addr ts) @ concat (map le32 ?ptrs) @ replicate ?pad 0 @ arg_bytes ts) m4" by auto
  have "stack_base + length (le32 (length ts)) \<le> ?e2 - 4" using sz P by simp
  from push_holds [OF d(2) _ this] d(3) obtain m5 where
    e: "push_bytes (le32 (length ts)) (?e2 - 4) (put_ram m4 s) = Some (?e2 - 4 - 4, put_ram m5 s)" "stack_ready pd kpage (put_ram m5 s)"
      "holds kpage (?e2 - 4 - 4) (le32 (length ts) @ le32 (argv_addr ts) @ concat (map le32 ?ptrs) @ replicate ?pad 0 @ arg_bytes ts) m5"
    by auto
  have "stack_base + length (le32 0) \<le> ?e2 - 4 - 4" using sz P by simp
  from push_holds [OF e(2) _ this] e(3) obtain m6 where
    f: "push_bytes (le32 0) (?e2 - 4 - 4) (put_ram m5 s) = Some (?e2 - 4 - 4 - 4, put_ram m6 s)" "stack_ready pd kpage (put_ram m6 s)"
      "holds kpage (?e2 - 4 - 4 - 4) (stack_image ts) m6" unfolding stack_image_def by auto
  have e3: "?e2 - 4 - 4 - 4 = PHYS_BASE - length (stack_image ts)" by (simp add: length_stack_image)
  have "try_alloc (fsys s) = (True, fsys s)" using mem by (simp add: try_alloc_def)
  then have "push_args delims token save PHYS_BASE s = Some (?e2 - 4 - 4 - 4, put_ram m6 s)"
  proof (rule push_args_steps [OF _ a(1)])
    show "length (arg_ptrs PHYS_BASE ts) < n1" using a(2) by simp
    show "(if ?e0 mod WORD_SIZE \<noteq> 0 then push_bytes (take (?e0 mod WORD_SIZE) (le32 0)) ?e0 (put_ram m1 s)
      else Some (?e0, put_ram m1 s)) = Some (?e1, put_ram m2 s)" unfolding i(1) by (rule pad)
    show "push_ptrs (rev ?ptrs) ?e1 (put_ram m2 s) = Some (?e2, put_ram m3 s)" by (rule c(1))
    show "push_bytes (le32 ?e2) ?e2 (put_ram m3 s) = Some (?e2 - 4, put_ram m4 s)" using d(1) unfolding e2 .
    show "push_bytes (le32 (length (arg_ptrs PHYS_BASE ts))) (?e2 - 4) (put_ram m4 s) = Some (?e2 - 4 - 4, put_ram m5 s)"
      unfolding length_arg_ptrs by (rule e(1))
  qed (rule f(1))
  then show ?thesis using f(2,3) unfolding e3 by blast
qed

section \<open>What the process reads\<close>

lemma read_user_stack:
  "stack_ready pd kpage s \<Longrightarrow> stack_base \<le> va \<Longrightarrow> va + n \<le> PHYS_BASE \<Longrightarrow>
    read_user n va s = Some (map (\<lambda>i. rm s (kpage + (va - stack_base) + i)) [0..<n])"
proof (induction n arbitrary: va)
  case (Suc n)
  have "read_user n (va + 1) s = Some (map (\<lambda>i. rm s (kpage + (va + 1 - stack_base) + i)) [0..<n])"
    using Suc.prems by (intro Suc.IH) simp_all
  moreover have "map (\<lambda>i. rm s (kpage + (va + 1 - stack_base) + i)) [0..<n] = map (\<lambda>i. rm s (kpage + (va - stack_base) + i)) [1..<Suc n]"
    using Suc.prems(2) by (simp add: map_Suc_upt [symmetric] Suc_diff_le del: upt_Suc)
  moreover have "kaddr False va s = Some (kpage + (va - stack_base))" using Suc.prems by (intro kaddr_stack) simp_all
  ultimately show ?case by (simp add: upt_conv_Cons del: upt_Suc)
qed simp

lemma holds_read:
  assumes "stack_ready pd kpage s" and "holds kpage esp (A @ B @ C) (rm s)"
  shows "read_user (length B) (esp + length A) s = Some B"
proof -
  have h: "esp + length (A @ B @ C) = PHYS_BASE" "stack_base \<le> esp"
    "\<And>i. i < length (A @ B @ C) \<Longrightarrow> rm s (kpage + (esp - stack_base) + i) = (A @ B @ C) ! i"
    using assms(2) unfolding holds_def by blast+
  have "map (\<lambda>i. rm s (kpage + (esp + length A - stack_base) + i)) [0..<length B] = B"
  proof (rule nth_equalityI)
    fix i assume "i < length (map (\<lambda>i. rm s (kpage + (esp + length A - stack_base) + i)) [0..<length B])"
    then have i: "i < length B" by simp
    have "kpage + (esp + length A - stack_base) + i = kpage + (esp - stack_base) + (length A + i)" using h(2) by simp
    then show "map (\<lambda>i. rm s (kpage + (esp + length A - stack_base) + i)) [0..<length B] ! i = B ! i"
      using i h(3) [of "length A + i"] by (simp add: nth_append add.assoc)
  qed simp
  then show ?thesis using read_user_stack [OF assms(1), of "esp + length A" "length B"] h(1,2) by simp
qed

lemma arg_at:
  "i < length ts \<Longrightarrow> \<exists>X Y. arg_bytes ts = X @ (ts ! i @ [0]) @ Y \<and> arg_ptrs hi ts ! i = hi - length ((ts ! i @ [0]) @ Y)"
proof (induction ts arbitrary: i hi)
  case (Cons t ts)
  show ?case
  proof (cases i)
    case 0
    then show ?thesis by (intro exI [of _ "arg_bytes ts"] exI [of _ "[]"]) (simp add: arg_bytes_Cons)
  next
    case (Suc j)
    then obtain X Y where "arg_bytes ts = X @ (ts ! j @ [0]) @ Y"
      "arg_ptrs (hi - (length t + 1)) ts ! j = hi - (length t + 1) - length ((ts ! j @ [0]) @ Y)"
      using Cons by (metis Suc_less_SucD length_Cons)
    then show ?thesis using Suc
      by (intro exI [of _ X] exI [of _ "Y @ t @ [0]"]) (simp add: arg_bytes_Cons)
  qed
qed simp

lemma stack_image_strings:
  assumes r: "stack_ready pd kpage s" and h: "holds kpage (PHYS_BASE - length (stack_image ts)) (stack_image ts) (rm s)"
    and i: "i < length ts"
  shows "read_user (length (ts ! i) + 1) (arg_ptrs PHYS_BASE ts ! i) s = Some (ts ! i @ [0])"
proof -
  obtain X Y where x: "arg_bytes ts = X @ (ts ! i @ [0]) @ Y" "arg_ptrs PHYS_BASE ts ! i = PHYS_BASE - length ((ts ! i @ [0]) @ Y)"
    using arg_at [OF i] by blast
  obtain S where S: "stack_image ts = S @ arg_bytes ts" unfolding stack_image_def by (metis append.assoc)
  have l: "length (stack_image ts) = length (S @ X) + length ((ts ! i @ [0]) @ Y)" using S x(1) by simp
  have "length (stack_image ts) \<le> PHYS_BASE" using h unfolding holds_def by linarith
  then have "PHYS_BASE - length (stack_image ts) + length (S @ X) = arg_ptrs PHYS_BASE ts ! i"
    unfolding x(2) using l by linarith
  then show ?thesis
    using holds_read [OF r, of "PHYS_BASE - length (stack_image ts)" "S @ X" "ts ! i @ [0]" Y] h S x(1) by simp
qed

lemma stack_image_read:
  assumes r: "stack_ready pd kpage s" and h: "holds kpage (PHYS_BASE - length (stack_image ts)) (stack_image ts) (rm s)"
  shows "read_user (length (stack_image ts)) (PHYS_BASE - length (stack_image ts)) s = Some (stack_image ts)"
  using holds_read [OF r, of "PHYS_BASE - length (stack_image ts)" "[]" "stack_image ts" "[]"] h by simp

section \<open>The property\<close>

lemma page_of_stack: "pg_ofs stack_base = 0" "is_user_vaddr stack_base" "stack_base div 4096 = 786431" "stack_base mod 4096 = 0"
  by (simp_all add: pg_ofs_mod is_user_vaddr_def PHYS_BASE_def)

lemma pt_pages_in_use:
  assumes ok: "pd_ok pd v"
  shows "pt_pages pd v \<subseteq> in_use (pmem v)"
proof
  fix a assume "a \<in> pt_pages pd v"
  then show "a \<in> in_use (pmem v)"
  proof (rule in_pt_pagesE)
    fix i assume "i < 768" "dir_entry pd v i \<noteq> 0" "a \<in> extent (table_of (dir_entry pd v i)) 1"
    then show ?thesis using pd_okD(7) [OF ok] by (blast dest: subsetD)
  qed (use pd_okD(4) [OF ok] in blast)
qed

text \<open>A user page from the allocator, and the directory in the state after the call.\<close>

lemma user_page_got:
  assumes ok: "pd_ok pd v" and got: "palloc_get_page fl (pmem v) = Some (kpage, p)" "kpage \<noteq> NULL" and fl: "fl AND PAL_USER \<noteq> 0"
  defines "v' \<equiv> v\<lparr>pmem := p\<rparr>"
  shows "pd_ok pd v'" "q < 768 * 1024 \<Longrightarrow> entry pd v' q = entry pd v q" "pt_pages pd v' = pt_pages pd v"
    "kpage mod 4096 = 0" "PHYS_BASE \<le> kpage" "kpage < 2 ^ 32" "extent kpage 1 \<subseteq> pool_range (user_pool (pmem v))"
    "extent kpage 1 \<inter> in_use (pmem v) = {}" "in_use p = in_use (pmem v) \<union> extent kpage 1"
    "kernel_pool p = kernel_pool (pmem v)" "extent kpage 1 \<subseteq> pool_used (user_pool p)" "pages_ok p"
    "a \<notin> extent kpage 1 \<Longrightarrow> ram p a = ram (pmem v) a"
proof -
  have g: "got fl 1 (pmem v) kpage p"
    using palloc_get_ok [OF pd_okD(1) [OF ok], of 1 fl] got by (auto simp: palloc_get_page_def split: if_splits)
  note G = g [unfolded got_def if_P [OF fl]]
  show k: "kpage mod 4096 = 0" "extent kpage 1 \<subseteq> pool_range (user_pool (pmem v))" "pages_ok p"
    "extent kpage 1 \<inter> in_use (pmem v) = {}" "in_use p = in_use (pmem v) \<union> extent kpage 1"
    "kernel_pool p = kernel_pool (pmem v)" "extent kpage 1 \<subseteq> pool_used (user_pool p)" using G by blast+
  have pr: "pool_range (user_pool p) = pool_range (user_pool (pmem v))" using G by blast
  have rng: "pool_range (kernel_pool (pmem v)) \<union> pool_range (user_pool (pmem v)) \<subseteq> {PHYS_BASE..<2 ^ 32}"
    using ok by (simp add: pd_ok_def)
  have "kpage \<in> extent kpage 1" by simp
  then show "PHYS_BASE \<le> kpage" "kpage < 2 ^ 32" using k(2) rng by (auto dest!: subsetD)
  show out: "ram p a = ram (pmem v) a" if "a \<notin> extent kpage 1" for a using G that by (simp del: atLeastLessThan_iff)
  have agree: "\<forall>a\<in>pt_pages pd v. ram p a = ram (pmem v) a" using out k(4) pt_pages_in_use [OF ok] by blast
  have vv: "rd32 a v' = rd32 a (v\<lparr>pmem := (pmem v)\<lparr>ram := ram p\<rparr>\<rparr>)" for a by (simp add: rd32_def v'_def)
  have d: "dir_entry pd v' i = dir_entry pd v i" if "i < 768" for i
    using ram_frame(1) [OF agree that] vv by (simp add: dir_entry_def)
  show "entry pd v' q = entry pd v q" if "q < 768 * 1024"
    using ram_frame(2) [OF agree that] unfolding entry_def dir_entry_def vv .
  show "pt_pages pd v' = pt_pages pd v" unfolding pt_pages_def using d by (metis (no_types, lifting))
  show "pd_ok pd v'"
    unfolding pd_ok_def
  proof (intro conjI allI impI)
    show "pages_ok (pmem v')" "pd mod 4096 = 0" "pd \<noteq> NULL" "extent pd 1 \<subseteq> in_use (pmem v')"
      using k(3,5) pd_okD(2-4) [OF ok] by (auto simp: v'_def)
    show "pool_range (kernel_pool (pmem v')) \<union> pool_range (user_pool (pmem v')) \<subseteq> {PHYS_BASE..<2 ^ 32}"
      using rng k(6) pr by (simp add: v'_def)
    fix i assume i: "i < 768" "dir_entry pd v' i \<noteq> 0"
    show "odd (dir_entry pd v' i)" "table_of (dir_entry pd v' i) \<noteq> pd" "extent (table_of (dir_entry pd v' i)) 1 \<subseteq> in_use (pmem v')"
      using i d k(5) pd_okD(5-7) [OF ok i(1)] by (auto simp: v'_def)
    fix j assume "j < 768" "i \<noteq> j" "dir_entry pd v' j \<noteq> 0"
    then show "table_of (dir_entry pd v' i) \<noteq> table_of (dir_entry pd v' j)" using i d pd_okD(8) [OF ok i(1)] by simp
  qed
qed

lemma setup_stack_ready:
  assumes t: "thread_current (kern s) = Some th" and pd: "pagedir th = pd" "active_pd (vms s) = Some pd" "pd \<noteq> init_page_dir (vms s)"
    and maps: "maps_ok pd (vms s)" "mapping pd (vms s) 786431 = None"
    and ram: "pool_range (user_pool (pmem (vms s))) \<subseteq> {..<PHYS_BASE + 4096 * init_ram_pages (vms s)}"
    and got: "palloc_get_page (PAL_USER OR PAL_ZERO) (pmem (vms s)) = Some (kpage, p)" "kpage \<noteq> NULL"
  defines "s1 \<equiv> s\<lparr>vms := (vms s)\<lparr>pmem := p\<rparr>\<rparr>"
  shows "\<exists>b s2. install_page stack_base kpage True s1 = Some (b, s2) \<and> kern s2 = kern s \<and> fsys s2 = fsys s \<and>
    (if b then stack_ready pd kpage s2 \<and> (\<forall>q n. {q..q + n} \<subseteq> in_use (pmem (vms s)) \<union> - (pool_range (kernel_pool (pmem (vms s))) \<union>
         pool_range (user_pool (pmem (vms s)))) - pt_pages pd (vms s) \<longrightarrow>
         apart pd kpage q n s2 \<and> (\<forall>a\<in>{q..q + n}. rm s2 a = rm s a))
     else no_room 1 (kernel_pool (pmem (vms s))) \<and> (\<exists>q. palloc_free_page kpage (pmem (vms s2)) = Some q))"
proof -
  let ?v = "vms s" and ?v1 = "(vms s)\<lparr>pmem := p\<rparr>"
  have ok: "pd_ok pd ?v" using maps(1) by (simp add: maps_ok_def)
  have fl: "(PAL_USER OR PAL_ZERO) AND PAL_USER \<noteq> 0" by (simp add: PAL_USER_def PAL_ZERO_def)
  note g = user_page_got [OF ok got fl]
  have e: "even (entry pd ?v1 (stack_base div 4096))"
    using maps(2) g(2) [of 786431] unfolding page_of_stack(3) by (simp add: mapping_def split: if_splits)
  have top: "table_of (entry pd ?v1 (stack_base div 4096)) < 2 ^ 32" if "odd (entry pd ?v1 (stack_base div 4096))"
    using that e by simp
  have none: "pagedir_get_page pd stack_base ?v1 = Some (NULL, ?v1)"
    using get_page_ok [OF g(1) page_of_stack(2) top] e by simp
  have "kpage \<in> pool_range (user_pool (pmem ?v))" using g(7) by (auto dest: subsetD)
  then have "kpage < PHYS_BASE + 4096 * init_ram_pages ?v" using ram by blast
  then have frame: "(kpage - PHYS_BASE) div 4096 < init_ram_pages ?v1"
    using g(5) by (simp add: div_less_iff_less_mult mult.commute)
  have pdn: "pd \<noteq> init_page_dir ?v1" using pd(3) by simp
  from set_page_ok [OF g(1) page_of_stack(4,2) g(4-6) frame pdn e, of True] obtain b v2 where
    sp: "pagedir_set_page pd stack_base kpage True ?v1 = Some (b, v2)" "pd_ok pd v2" "kept pd ?v1 v2"
      "b \<or> no_room 1 (kernel_pool (pmem ?v1)) \<and> v2 = ?v1"
      "\<forall>q<768 * 1024. entry pd v2 q = (if b \<and> q = stack_base div 4096 then kpage - PHYS_BASE + 7 else entry pd ?v1 q)"
    by (auto simp only: if_True)
  let ?s2 = "s\<lparr>vms := v2\<rparr>"
  have inst: "install_page stack_base kpage True s1 = Some (b, ?s2)"
    using t pd(1) none sp(1) by (simp add: install_page_def s1_def)
  note K = keptD [OF sp(3)]
  have use1: "extent kpage 1 \<inter> pt_pages pd v2 = {}"
  proof -
    note pu = pt_pages_in_use [OF ok]
    have "a \<notin> pt_pages pd v2" if "a \<in> extent kpage 1" for a
      using K(7) [of a] g(3,8,9) that pu by (auto simp del: atLeastLessThan_iff)
    then show ?thesis by blast
  qed
  show ?thesis
  proof (cases b)
    case True
    have "entry pd v2 786431 = kpage - PHYS_BASE + 7" using sp(5) True page_of_stack(3) by simp
    moreover have "active_pd v2 = Some pd" using pd(2) K(6) by (simp add: active_pd_def)
    ultimately have r: "stack_ready pd kpage ?s2" using sp(2) g(4-6) use1 by (simp add: stack_ready_def)
    have "apart pd kpage q n ?s2 \<and> (\<forall>a\<in>{q..q + n}. rm ?s2 a = rm s a)"
      if q: "{q..q + n} \<subseteq> in_use (pmem ?v) \<union> - (pool_range (kernel_pool (pmem ?v)) \<union> pool_range (user_pool (pmem ?v))) - pt_pages pd ?v" for q n
    proof -
      have safe: "a \<notin> extent kpage 1 \<and> a \<notin> pt_pages pd v2 \<and> rm ?s2 a = rm s a" if "a \<in> {q..q + n}" for a
      proof -
        have a: "a \<in> in_use (pmem ?v) \<or> a \<notin> pool_range (kernel_pool (pmem ?v)) \<and> a \<notin> pool_range (user_pool (pmem ?v))" "a \<notin> pt_pages pd ?v"
          using q that by blast+
        have nk: "a \<notin> extent kpage 1" using a(1) g(7,8) by blast
        have u1: "a \<in> in_use (pmem ?v1) \<or> a \<notin> pool_range (kernel_pool (pmem ?v1))" using a(1) g(9,10) by (auto simp del: atLeastLessThan_iff)
        have "a \<notin> pt_pages pd v2" using K(7) [of a] u1 a(2) g(3) by auto
        moreover have "ram (pmem v2) a = ram (pmem ?v1) a" using K(8) [OF u1] a(2) g(3) by simp
        ultimately show ?thesis using nk g(13) [OF nk] by (simp add: rm_def)
      qed
      then show ?thesis by (auto simp: apart_def simp del: atLeastLessThan_iff atLeastAtMost_iff)
    qed
    then show ?thesis using inst r True by (intro exI [of _ True] exI [of _ ?s2]) simp
  next
    case False
    then have v2: "v2 = ?v1" "no_room 1 (kernel_pool (pmem ?v))" using sp(4) g(10) by simp_all
    obtain q where "palloc_free_page kpage p = Some q"
      using palloc_free_user [OF g(12,4) _ g(11)] by (auto simp: palloc_free_page_def)
    then show ?thesis using inst v2 False by (intro exI [of _ False] exI [of _ ?s2]) simp
  qed
qed


text \<open>The command line \<open>ls -l\<close>, split after its first word.\<close>

definition sample_cmd :: "addr \<Rightarrow> byte" where
  "sample_cmd = (\<lambda>a. if a = 0xc0010000 then 108 else if a = 0xc0010001 then 115 else if a = 0xc0010003 then 45
     else if a = 0xc0010004 then 108 else if a = 0xc0020000 then 32 else 0)"

definition sample_proc :: proc where
  "sample_proc = \<lparr>kern = (booted False)\<lparr>thr := (thr (booted False))(cur (booted False) \<mapsto>
       (the (thr (booted False) (cur (booted False))))\<lparr>pagedir := 0xc0100000\<rparr>)\<rparr>,
     vms = sample_vm\<lparr>pmem := (pmem sample_vm)\<lparr>ram := sample_cmd\<rparr>, cr3 := 0x100000\<rparr>, fsys = sample_fs\<rparr>"

lemma sample_proc_vm:
  "maps_ok 0xc0100000 (vms sample_proc)" "mapping 0xc0100000 (vms sample_proc) q = None" "pt_pages 0xc0100000 (vms sample_proc) = extent 0xc0100000 1"
proof -
  let ?v = "sample_vm\<lparr>pmem := (pmem sample_vm)\<lparr>ram := sample_cmd\<rparr>\<rparr>"
  have z: "rd32 a sample_vm = 0" for a
  proof -
    have "ram_word (ram (pmem sample_vm)) a = 0" by (rule bit_word_eqI) (simp add: ram_word_bit sample_vm_def)
    then show ?thesis by (simp add: rd32_def)
  qed
  then have p0: "pt_pages 0xc0100000 sample_vm = extent 0xc0100000 1" by (simp add: pt_pages_def dir_entry_def)
  have agree: "\<forall>a\<in>pt_pages 0xc0100000 sample_vm. sample_cmd a = ram (pmem sample_vm) a"
    unfolding p0 by (auto simp: sample_cmd_def sample_vm_def)
  note f = ram_frame [OF agree]
  have e: "entry 0xc0100000 ?v q = 0" if "q < 768 * 1024" for q using f(2) [OF that] z by (simp add: entry_def dir_entry_def)
  have same: "pmem (vms sample_proc) = pmem ?v" by (simp add: sample_proc_def)
  have m: "mapping 0xc0100000 (vms sample_proc) q = None" for q
    using e [of q] same_mem(2) [OF same] by (simp add: mapping_def)
  then show "mapping 0xc0100000 (vms sample_proc) q = None" .
  have "pd_ok 0xc0100000 (vms sample_proc)" using same_mem(1) [OF same] f(3) sample_vm_ok(1) by (simp add: maps_ok_def)
  then show "maps_ok 0xc0100000 (vms sample_proc)" using m by (simp add: maps_ok_def ran_def)
  have "rd32 a (vms sample_proc) = rd32 a ?v" for a by (simp add: rd32_def same)
  then show "pt_pages 0xc0100000 (vms sample_proc) = extent 0xc0100000 1" using f(4) p0 by (simp add: pt_pages_def dir_entry_def)
qed


end
