(* ===== verification/Syscalls.thy ===== *)
theory Syscalls
  imports Stack_Args
begin

text \<open>
  The system calls of \<open>userprog/syscall.c\<close>: the handler, the checks of user pointers and the calls.
  \<open>console\<close> is what was written to the console, \<open>keys\<close> what \<open>input_getc\<close> will return; without a key
  it waits, and the call does not return. The lock of the file system only serializes calls and leaves
  no trace. File names and buffers are passed on as kernel addresses of the byte they start at.

  A call returns, or ends the process, or powers the machine off, or goes on in steps of other
  threads: for \<open>wait\<close> these are \<open>process_wait_poll\<close> on the child's record, for \<open>exec\<close> the creation
  of the thread from the copied command line, \<open>exec_check\<close> and \<open>exec_poll\<close> (theory
  \<open>Process_Calls\<close>).
\<close>

section \<open>State and outcomes\<close>

record machine =
  sys :: proc
  console :: "byte list"
  keys :: "byte list"

datatype pending = WaitFor addr | ExecWith addr addr | LoadOf int addr

datatype 'a outcome =
    Returned 'a machine
  | Exited machine
  | Pending pending machine
  | Power_Off machine

definition andthen :: "'a outcome option \<Rightarrow> ('a \<Rightarrow> machine \<Rightarrow> 'b outcome option) \<Rightarrow> 'b outcome option" where
  "andthen r f = do {
     x \<leftarrow> r;
     case x of Returned v s \<Rightarrow> f v s | Exited s \<Rightarrow> Some (Exited s) | Pending p s \<Rightarrow> Some (Pending p s)
     | Power_Off s \<Rightarrow> Some (Power_Off s) }"

lemma andthen_simps [simp]:
  "andthen (Some (Returned v s)) f = f v s" "andthen (Some (Exited s)) f = Some (Exited s)"
  "andthen (Some (Pending p s)) f = Some (Pending p s)" "andthen (Some (Power_Off s)) f = Some (Power_Off s)" "andthen None f = None"
  by (simp_all add: andthen_def)

definition with_sys :: "(proc \<Rightarrow> proc) \<Rightarrow> machine \<Rightarrow> machine" where
  "with_sys f s = s\<lparr>sys := f (sys s)\<rparr>"

definition with_fs :: "fs \<Rightarrow> machine \<Rightarrow> machine" where
  "with_fs f = with_sys (\<lambda>p. p\<lparr>fsys := f\<rparr>)"

section \<open>Ending the process\<close>

text \<open>\<open>exit\<close>, with the part of \<open>process_exit\<close> that frees the process's pages.\<close>

definition exit_call :: "int \<Rightarrow> machine \<Rightarrow> 'a outcome option" where
  "exit_call code s = do {
     t \<leftarrow> thread_current (kern (sys s));
     k \<leftarrow> exit_process code (kern (sys s));
     v \<leftarrow> (if pagedir t \<noteq> NULL then do { v \<leftarrow> pagedir_activate NULL (vms (sys s)); pagedir_destroy (pagedir t) v }
          else Some (vms (sys s)));
     Some (Exited (with_sys (\<lambda>p. p\<lparr>kern := k, vms := v\<rparr>) s)) }"

section \<open>User pointers\<close>

definition VIRTUAL_ADRESSS_USER :: addr where "VIRTUAL_ADRESSS_USER = 0x08048000"

definition isvalid_frame_ptr :: "addr \<Rightarrow> machine \<Rightarrow> unit outcome option" where
  "isvalid_frame_ptr vaddr s =
     (if \<not> is_user_vaddr vaddr \<or> vaddr < VIRTUAL_ADRESSS_USER then exit_call ERROR s else Some (Returned () s))"

definition read_word :: "addr \<Rightarrow> machine \<Rightarrow> nat option" where
  "read_word va s = do { bs \<leftarrow> read_user 4 va (sys s); Some (of_le32 bs) }"

fun fetch_loop :: "nat \<Rightarrow> nat \<Rightarrow> addr \<Rightarrow> machine \<Rightarrow> nat list outcome option" where
  "fetch_loop 0 i esp s = Some (Returned [] s)"
| "fetch_loop (Suc n) i esp s =
     (let ptr = u32 (esp + 4 * (i + 1))
      in andthen (isvalid_frame_ptr ptr s) (\<lambda>_ s. do {
           v \<leftarrow> read_word ptr s;
           andthen (fetch_loop n (i + 1) esp s) (\<lambda>vs s. Some (Returned (v # vs) s)) }))"

definition fetch_argumans_from_frame :: "addr \<Rightarrow> nat \<Rightarrow> machine \<Rightarrow> nat list outcome option" where
  "fetch_argumans_from_frame esp n s = fetch_loop n 0 esp s"

fun buffer_loop :: "nat \<Rightarrow> addr \<Rightarrow> machine \<Rightarrow> unit outcome option" where
  "buffer_loop 0 p s = Some (Returned () s)"
| "buffer_loop (Suc n) p s = andthen (isvalid_frame_ptr p s) (\<lambda>_ s. buffer_loop n (u32 (p + 1)) s)"

definition boundry_check_buffer :: "addr \<Rightarrow> nat \<Rightarrow> machine \<Rightarrow> unit outcome option" where
  "boundry_check_buffer buf sz s = buffer_loop sz buf s"

definition user_virtualaddress_to_kernel_ptr :: "addr \<Rightarrow> machine \<Rightarrow> addr outcome option" where
  "user_virtualaddress_to_kernel_ptr vaddr s =
     andthen (isvalid_frame_ptr vaddr s) (\<lambda>_ s. do {
       t \<leftarrow> thread_current (kern (sys s));
       (p, _) \<leftarrow> pagedir_get_page (pagedir t) vaddr (vms (sys s));
       if p = NULL then exit_call ERROR s else Some (Returned p s) })"

section \<open>The calls\<close>

text \<open>An open file of the process: a null pointer if there is none.\<close>

definition file_of :: "int \<Rightarrow> machine \<Rightarrow> nat option" where
  "file_of fd s = process_get_file fd (kern (sys s))"

fun getc_loop :: "nat \<Rightarrow> addr \<Rightarrow> machine \<Rightarrow> machine option" where
  "getc_loop 0 p s = Some s"
| "getc_loop (Suc n) p s = (case keys s of [] \<Rightarrow> None
     | c # cs \<Rightarrow> getc_loop n (p + 1) (with_sys (\<lambda>q. put_ram ((rm q)(p := c)) q) (s\<lparr>keys := cs\<rparr>)))"

definition sys_read :: "int \<Rightarrow> addr \<Rightarrow> nat \<Rightarrow> machine \<Rightarrow> (int \<times> machine) option" where
  "sys_read fd buf sz s =
     (if fd = 0 then do { s \<leftarrow> getc_loop sz buf s; Some (i32 (int sz), s) }
      else do {
        f \<leftarrow> file_of fd s;
        if f = NULL then Some (ERROR, s)
        else do {
          (bs, g) \<leftarrow> file_read f (i32 (int sz)) (fsys (sys s));
          Some (int (length bs), with_sys (\<lambda>q. put_ram (poke buf bs (rm q)) q) (with_fs g s)) } })"

definition sys_write :: "int \<Rightarrow> addr \<Rightarrow> nat \<Rightarrow> machine \<Rightarrow> (int \<times> machine) option" where
  "sys_write fd buf sz s =
     (if fd = 1 then Some (i32 (int sz), s\<lparr>console := console s @ map (rm (sys s)) [buf..<buf + sz]\<rparr>)
      else do {
        f \<leftarrow> file_of fd s;
        if f = NULL then Some (ERROR, s)
        else do {
          (n, g) \<leftarrow> file_write f (map (rm (sys s)) [buf..<buf + sz]) (i32 (int sz)) (fsys (sys s));
          Some (n, with_fs g s) } })"

definition sys_seek :: "int \<Rightarrow> nat \<Rightarrow> machine \<Rightarrow> machine option" where
  "sys_seek fd position s = do {
     f \<leftarrow> file_of fd s;
     if f = NULL then Some s
     else do { g \<leftarrow> file_seek f (i32 (int position)) (fsys (sys s)); Some (with_fs g s) } }"

definition sys_tell :: "int \<Rightarrow> machine \<Rightarrow> int option" where
  "sys_tell fd s = do { f \<leftarrow> file_of fd s; if f = NULL then Some ERROR else file_tell f (fsys (sys s)) }"

definition sys_filesize :: "int \<Rightarrow> machine \<Rightarrow> int option" where
  "sys_filesize fd s = do { f \<leftarrow> file_of fd s; if f = NULL then Some ERROR else file_length f (fsys (sys s)) }"

definition sys_close :: "int \<Rightarrow> machine \<Rightarrow> machine" where
  "sys_close fd s = with_sys (\<lambda>p. p\<lparr>kern := close_file_by_fd fd (kern p)\<rparr>) s"

text \<open>\<open>e0\<close>: what the uninitialized directory entry of \<open>dir_add\<close> holds.\<close>

definition sys_create :: "byte list \<Rightarrow> addr \<Rightarrow> nat \<Rightarrow> machine \<Rightarrow> (bool \<times> machine) option" where
  "sys_create e0 name initial_size s = do {
     n \<leftarrow> mem_string name (rm (sys s));
     (b, g) \<leftarrow> filesys_create e0 n (i32 (int initial_size)) (fsys (sys s));
     Some (b, with_fs g s) }"

definition sys_remove :: "addr \<Rightarrow> machine \<Rightarrow> (bool \<times> machine) option" where
  "sys_remove name s = do {
     n \<leftarrow> mem_string name (rm (sys s));
     (b, g) \<leftarrow> filesys_remove n (fsys (sys s));
     Some (b, with_fs g s) }"

definition sys_open :: "addr \<Rightarrow> machine \<Rightarrow> int" where
  "sys_open name s = 0"

definition sys_halt :: "machine \<Rightarrow> 'a outcome option" where
  "sys_halt s = Some (Power_Off s)"

definition sys_exec :: "addr \<Rightarrow> addr \<Rightarrow> machine \<Rightarrow> int outcome option" where
  "sys_exec delims cmd_line s = do {
     (r, p) \<leftarrow> process_execute delims cmd_line (sys s);
     let s = s\<lparr>sys := p\<rparr>;
     case r of Inl n \<Rightarrow> do { c \<leftarrow> exec_check n (kern p); Some (Pending (LoadOf n c) s) }
     | Inr (fn_copy, name) \<Rightarrow> Some (Pending (ExecWith fn_copy name) s) }"

definition sys_wait :: "int \<Rightarrow> machine \<Rightarrow> int outcome option" where
  "sys_wait n s = do {
     (r, k) \<leftarrow> process_wait n (kern (sys s));
     let s = with_sys (\<lambda>p. p\<lparr>kern := k\<rparr>) s;
     case r of Inl v \<Rightarrow> Some (Returned v s) | Inr c \<Rightarrow> Some (Pending (WaitFor c) s) }"

section \<open>The handler\<close>

datatype syscall_nr =
    SYS_HALT | SYS_EXIT | SYS_EXEC | SYS_WAIT | SYS_CREATE | SYS_REMOVE | SYS_OPEN | SYS_FILESIZE | SYS_READ | SYS_WRITE
  | SYS_SEEK | SYS_TELL | SYS_CLOSE

definition syscall_of :: "nat \<Rightarrow> syscall_nr option" where
  "syscall_of n = (let cs = [SYS_HALT, SYS_EXIT, SYS_EXEC, SYS_WAIT, SYS_CREATE, SYS_REMOVE, SYS_OPEN, SYS_FILESIZE, SYS_READ,
       SYS_WRITE, SYS_SEEK, SYS_TELL, SYS_CLOSE] in if n < length cs then Some (cs ! n) else None)"

definition arg_int :: "nat list \<Rightarrow> nat \<Rightarrow> int" where
  "arg_int a i = i32 (int (a ! i))"

definition returning :: "('a \<times> machine) option \<Rightarrow> 'a outcome option" where
  "returning r = do { (v, s) \<leftarrow> r; Some (Returned v s) }"

text \<open>The value is the one that \<open>f->eax\<close> has afterwards.\<close>

fun syscall_case :: "byte list \<Rightarrow> addr \<Rightarrow> syscall_nr \<Rightarrow> addr \<Rightarrow> int \<Rightarrow> machine \<Rightarrow> int outcome option" where
  "syscall_case e0 delims SYS_WRITE esp eax s =
     andthen (fetch_argumans_from_frame esp 3 s) (\<lambda>a s.
     andthen (boundry_check_buffer (a ! 1) (a ! 2) s) (\<lambda>_ s.
     andthen (user_virtualaddress_to_kernel_ptr (a ! 1) s) (\<lambda>p s.
     returning (sys_write (arg_int a 0) p (a ! 2) s))))"
| "syscall_case e0 delims SYS_READ esp eax s =
     andthen (fetch_argumans_from_frame esp 3 s) (\<lambda>a s.
     andthen (boundry_check_buffer (a ! 1) (a ! 2) s) (\<lambda>_ s.
     andthen (user_virtualaddress_to_kernel_ptr (a ! 1) s) (\<lambda>p s.
     returning (sys_read (arg_int a 0) p (a ! 2) s))))"
| "syscall_case e0 delims SYS_SEEK esp eax s =
     andthen (fetch_argumans_from_frame esp 2 s) (\<lambda>a s.
       do { s \<leftarrow> sys_seek (arg_int a 0) (a ! 1) s; Some (Returned eax s) })"
| "syscall_case e0 delims SYS_CREATE esp eax s =
     andthen (fetch_argumans_from_frame esp 2 s) (\<lambda>a s.
     andthen (user_virtualaddress_to_kernel_ptr (a ! 0) s) (\<lambda>p s.
       do { (b, s) \<leftarrow> sys_create e0 p (a ! 1) s; Some (Returned (of_bool b) s) }))"
| "syscall_case e0 delims SYS_REMOVE esp eax s =
     andthen (fetch_argumans_from_frame esp 1 s) (\<lambda>a s.
     andthen (user_virtualaddress_to_kernel_ptr (a ! 0) s) (\<lambda>p s.
       do { (b, s) \<leftarrow> sys_remove p s; Some (Returned (of_bool b) s) }))"
| "syscall_case e0 delims SYS_OPEN esp eax s =
     andthen (fetch_argumans_from_frame esp 1 s) (\<lambda>a s.
     andthen (user_virtualaddress_to_kernel_ptr (a ! 0) s) (\<lambda>p s. Some (Returned (sys_open p s) s)))"
| "syscall_case e0 delims SYS_FILESIZE esp eax s =
     andthen (fetch_argumans_from_frame esp 1 s) (\<lambda>a s. do { v \<leftarrow> sys_filesize (arg_int a 0) s; Some (Returned v s) })"
| "syscall_case e0 delims SYS_TELL esp eax s =
     andthen (fetch_argumans_from_frame esp 1 s) (\<lambda>a s. do { v \<leftarrow> sys_tell (arg_int a 0) s; Some (Returned v s) })"
| "syscall_case e0 delims SYS_CLOSE esp eax s =
     andthen (fetch_argumans_from_frame esp 1 s) (\<lambda>a s. Some (Returned eax (sys_close (arg_int a 0) s)))"
| "syscall_case e0 delims SYS_HALT esp eax s = sys_halt s"
| "syscall_case e0 delims SYS_EXIT esp eax s =
     andthen (fetch_argumans_from_frame esp 1 s) (\<lambda>a s. exit_call (arg_int a 0) s)"
| "syscall_case e0 delims SYS_EXEC esp eax s =
     andthen (fetch_argumans_from_frame esp 1 s) (\<lambda>a s.
     andthen (user_virtualaddress_to_kernel_ptr (a ! 0) s) (\<lambda>p s. sys_exec delims p s))"
| "syscall_case e0 delims SYS_WAIT esp eax s =
     andthen (fetch_argumans_from_frame esp 1 s) (\<lambda>a s. sys_wait (arg_int a 0) s)"

definition syscall_handler :: "byte list \<Rightarrow> addr \<Rightarrow> addr \<Rightarrow> int \<Rightarrow> machine \<Rightarrow> int outcome option" where
  "syscall_handler e0 delims esp eax s =
     andthen (isvalid_frame_ptr esp s) (\<lambda>_ s. do {
       n \<leftarrow> read_word esp s;
       case syscall_of n of None \<Rightarrow> Some (Returned eax s) | Some c \<Rightarrow> syscall_case e0 delims c esp eax s })"

section \<open>Pointer checks\<close>

abbreviation user_ptr :: "addr \<Rightarrow> bool" where
  "user_ptr a \<equiv> VIRTUAL_ADRESSS_USER \<le> a \<and> a < PHYS_BASE"

lemma isvalid_cases:
  "isvalid_frame_ptr a s = (if user_ptr a then Some (Returned () s) else exit_call ERROR s)"
  by (auto simp: isvalid_frame_ptr_def is_user_vaddr_def)

lemma exit_not_returned: "exit_call n s \<noteq> Some (Returned v s')"
  by (cases "thread_current (kern (sys s))"; cases "exit_process n (kern (sys s))") (auto simp: exit_call_def bind_eq_Some_conv)

lemma andthen_Returned:
  "andthen r f = Some (Returned v s') \<longleftrightarrow> (\<exists>w s1. r = Some (Returned w s1) \<and> f w s1 = Some (Returned v s'))"
  by (cases r) (auto simp: andthen_def split: outcome.splits)

lemma isvalid_Returned: "isvalid_frame_ptr a s = Some (Returned u s') \<longleftrightarrow> user_ptr a \<and> s' = s"
  by (auto simp: isvalid_cases exit_not_returned)

lemma fetch_loop_Returned:
  "fetch_loop n i esp s = Some (Returned a s') \<Longrightarrow> s' = s \<and> length a = n \<and>
    (\<forall>j<n. user_ptr (u32 (esp + 4 * (i + j + 1))) \<and> read_word (u32 (esp + 4 * (i + j + 1))) s = Some (a ! j))"
proof (induction n arbitrary: i a)
  case (Suc n)
  let ?p = "u32 (esp + 4 * (i + 1))"
  from Suc.prems obtain v vs where v: "user_ptr ?p" "read_word ?p s = Some v" "fetch_loop n (i + 1) esp s = Some (Returned vs s')" "a = v # vs"
    by (auto simp: Let_def andthen_Returned isvalid_Returned bind_eq_Some_conv)
  have r: "s' = s" "length vs = n" "\<forall>j<n. user_ptr (u32 (esp + 4 * (i + 1 + j + 1))) \<and> read_word (u32 (esp + 4 * (i + 1 + j + 1))) s = Some (vs ! j)"
    using Suc.IH [OF v(3)] by auto
  have "user_ptr (u32 (esp + 4 * (i + j + 1))) \<and> read_word (u32 (esp + 4 * (i + j + 1))) s = Some (a ! j)" if j: "j < Suc n" for j
  proof (cases j)
    case 0
    then show ?thesis using v(1,2,4) by simp
  next
    case (Suc k)
    then show ?thesis using r(3) [rule_format, of k] j v(4) by (simp add: add.commute add.left_commute)
  qed
  then show ?case using r(1,2) v(4) by simp
qed simp

lemma buffer_loop_Returned:
  "buffer_loop n p s = Some (Returned u s') \<Longrightarrow> s' = s \<and> (\<forall>j<n. user_ptr (if j = 0 then p else u32 (p + j)))"
proof (induction n arbitrary: p)
  case (Suc n)
  from Suc.prems have v: "user_ptr p" "buffer_loop n (u32 (p + 1)) s = Some (Returned u s')"
    by (auto simp: andthen_Returned isvalid_Returned)
  have "p < 2 ^ 32 - 1" using v(1) by (simp add: PHYS_BASE_def)
  then have p1: "u32 (p + 1) = p + 1" by (simp add: u32_def)
  from Suc.IH [OF v(2)] have r: "s' = s" "\<forall>j<n. user_ptr (if j = 0 then p + 1 else u32 (p + 1 + j))" unfolding p1 by auto
  have "user_ptr (if j = 0 then p else u32 (p + j))" if "j < Suc n" for j
  proof (cases j)
    case (Suc k)
    then have "user_ptr (if k = 0 then p + 1 else u32 (p + 1 + k))" using r(2) that by simp
    then show ?thesis using Suc p1 by (cases k) simp_all
  qed (use v(1) in simp)
  then show ?case using r(1) by blast
qed simp

lemma to_kernel_Returned:
  assumes "user_virtualaddress_to_kernel_ptr a s = Some (Returned p s')"
  shows "s' = s \<and> user_ptr a \<and> p \<noteq> NULL \<and> (\<exists>t v. thread_current (kern (sys s)) = Some t \<and> pagedir_get_page (pagedir t) a (vms (sys s)) = Some (p, v))"
  using assms
  by (auto simp: user_virtualaddress_to_kernel_ptr_def andthen_Returned isvalid_Returned bind_eq_Some_conv exit_not_returned split: if_splits)

lemma read_write_checked:
  assumes c: "c = SYS_READ \<or> c = SYS_WRITE" and r: "syscall_case e0 delims c esp eax s = Some (Returned v s')"
  shows "\<exists>fd buf sz k. read_word (u32 (esp + 4)) s = Some fd \<and> read_word (u32 (esp + 8)) s = Some buf \<and>
    read_word (u32 (esp + 12)) s = Some sz \<and> user_ptr buf \<and> (\<forall>j < sz. user_ptr (if j = 0 then buf else u32 (buf + j))) \<and>
    returning (if c = SYS_READ then sys_read (i32 (int fd)) k sz s else sys_write (i32 (int fd)) k sz s) = Some (Returned v s') \<and>
    (\<exists>t w. thread_current (kern (sys s)) = Some t \<and> pagedir_get_page (pagedir t) buf (vms (sys s)) = Some (k, w))"
proof -
  from c r obtain a s1 s2 s3 k where a: "fetch_argumans_from_frame esp 3 s = Some (Returned a s1)"
    "boundry_check_buffer (a ! 1) (a ! 2) s1 = Some (Returned () s2)"
    "user_virtualaddress_to_kernel_ptr (a ! 1) s2 = Some (Returned k s3)"
    "returning (if c = SYS_READ then sys_read (arg_int a 0) k (a ! 2) s3 else sys_write (arg_int a 0) k (a ! 2) s3) = Some (Returned v s')"
    by (elim disjE) (auto simp: andthen_Returned)
  have f: "s1 = s" "\<forall>j<3. read_word (u32 (esp + 4 * (0 + j + 1))) s = Some (a ! j)"
    using fetch_loop_Returned [OF a(1) [unfolded fetch_argumans_from_frame_def]] by blast+
  have b: "s2 = s" "\<forall>j<a ! 2. user_ptr (if j = 0 then a ! 1 else u32 (a ! 1 + j))"
    using buffer_loop_Returned [OF a(2) [unfolded boundry_check_buffer_def]] f(1) by blast+
  have t: "s3 = s" "user_ptr (a ! 1)" "\<exists>t w. thread_current (kern (sys s)) = Some t \<and> pagedir_get_page (pagedir t) (a ! 1) (vms (sys s)) = Some (k, w)"
    using to_kernel_Returned [OF a(3)] b(1) by blast+
  have "read_word (u32 (esp + 4)) s = Some (a ! 0)" "read_word (u32 (esp + 8)) s = Some (a ! 1)" "read_word (u32 (esp + 12)) s = Some (a ! 2)"
    using f(2) [rule_format, of 0] f(2) [rule_format, of 1] f(2) [rule_format, of 2] by simp_all
  then show ?thesis using b(2) t(2,3) a(4) unfolding t(1) arg_int_def by blast
qed

text \<open>
  Sizes and positions are unsigned in the calls and signed in the file system: a program can make the
  kernel fail an assertion with a position or a size of 2^31 or more.
\<close>

lemma i32_negative: "2 ^ 31 \<le> n \<Longrightarrow> n < 2 ^ 32 \<Longrightarrow> i32 (int n) < 0"
proof -
  assume n: "2 ^ 31 \<le> n" "n < 2 ^ 32"
  then have "n div 2 ^ 31 = 1" by (intro div_nat_eqI) simp_all
  then have "int n div 2 ^ 31 = 1" by (metis of_nat_1 of_nat_numeral of_nat_power zdiv_int)
  then have "bit (int n) 31" by (simp add: bit_iff_odd)
  then show ?thesis by (simp add: i32_def signed_take_bit_negative_iff)
qed

lemma sys_seek_panics:
  "file_of fd s = Some f \<Longrightarrow> f \<noteq> NULL \<Longrightarrow> 2 ^ 31 \<le> n \<Longrightarrow> n < 2 ^ 32 \<Longrightarrow> sys_seek fd n s = None"
  using i32_negative [of n] by (simp add: sys_seek_def file_seek_def)

lemma sys_create_panics:
  assumes "mem_string name (rm (sys s)) = Some n" and "dir_open_root (fsys (sys s)) = Some (dp, f)" and "dp \<noteq> 0"
    and "free_map_allocate 1 f = Some (Some sec, g)" and "2 ^ 31 \<le> sz" and "sz < 2 ^ 32"
  shows "sys_create e0 name sz s = None"
  using assms i32_negative [of sz] by (simp add: sys_create_def filesys_create_def inode_create_def)


definition sample_machine :: machine where
  "sample_machine = \<lparr>sys = sample_proc, console = [], keys = []\<rparr>"

lemma sample_unmapped:
  assumes "q < 768 * 1024"
  shows "entry 0xc0100000 (vms sample_proc) q = 0"
proof -
  have "dir_entry 0xc0100000 (vms sample_proc) i = 0" if "i < 768" for i
  proof (rule ccontr)
    assume "dir_entry 0xc0100000 (vms sample_proc) i \<noteq> 0"
    note t = in_pt_pages(2) [OF that this]
    have "pd_ok 0xc0100000 (vms sample_proc)" using sample_proc_vm(1) by (simp add: maps_ok_def)
    note D = pd_okD(6) [OF this that \<open>dir_entry 0xc0100000 (vms sample_proc) i \<noteq> 0\<close>]
    have "table_of (dir_entry 0xc0100000 (vms sample_proc) i) \<in> extent 0xc0100000 1"
      using t [of "table_of (dir_entry 0xc0100000 (vms sample_proc) i)"] unfolding sample_proc_vm(3) by simp
    moreover have "table_of (dir_entry 0xc0100000 (vms sample_proc) i) mod 4096 = 0" by simp
    moreover obtain k where k: "table_of (dir_entry 0xc0100000 (vms sample_proc) i) = 4096 * k" using calculation(2) by (metis mod_0_imp_dvd dvdE)
    ultimately have "0xc0100000 \<le> 4096 * k" "4096 * k < 0xc0100000 + 4096" unfolding k by simp_all
    then have "k = 0xc0100" by linarith
    then show False using D k by simp
  qed
  moreover have "q div 1024 < 768" using assms by auto
  ultimately show ?thesis by (simp add: entry_def Let_def)
qed


end
