(* ===== verification/Segment_Load.thy ===== *)
theory Segment_Load
  imports Stack_Args
begin

unbundle bit_operations_syntax

text \<open>
  What loading one program header does to the address space, whatever the header says: no assertion
  fails, and on success the process finds the bytes of the file and then zeros at the address the
  header names, with the protection it asks for.
\<close>

section \<open>Reading the file\<close>

text \<open>The open file \<open>fp\<close> has the contents \<open>B\<close> and the position \<open>pos\<close>.\<close>

definition file_ready :: "nat \<Rightarrow> byte list \<Rightarrow> nat \<Rightarrow> fs \<Rightarrow> bool" where
  "file_ready fp B pos f \<longleftrightarrow> fp \<noteq> 0 \<and> pos < 2 ^ 31 \<and> (\<exists>h i. files f fp = Some h \<and> f_pos h = int pos \<and>
     inodes f (f_inode h) = Some i \<and> dev_ok (fs_device f) \<and> ino_ok (i_data i) (fs_device f) \<and> ibytes (i_data i) (fs_device f) = B)"

lemma file_ready_length: "file_ready fp B pos f \<Longrightarrow> file_length fp f = Some (int (length B)) \<and> length B < 2 ^ 31"
  by (auto simp: file_ready_def file_length_def inode_length_def ino_ok_def nat_less_iff)

lemma file_seek_ready:
  "file_ready fp B pos f \<Longrightarrow> p < 2 ^ 31 \<Longrightarrow> \<exists>f'. file_seek fp (int p) f = Some f' \<and> file_ready fp B p f' \<and> mem f' = mem f"
  by (auto simp: file_ready_def file_seek_def)

lemma file_read_ready:
  assumes r: "file_ready fp B pos f"
  shows "\<exists>m f'. file_read fp (int n) f = Some (take m (drop pos B), f') \<and> m \<le> n \<and> (mem f = [] \<longrightarrow> m = n \<and> mem f' = []) \<and>
    file_ready fp B (pos + length (take m (drop pos B))) f'"
proof -
  obtain h i where h: "fp \<noteq> 0" "pos < 2 ^ 31" "files f fp = Some h" "f_pos h = int pos" "inodes f (f_inode h) = Some i" "dev_ok (fs_device f)"
    "ino_ok (i_data i) (fs_device f)" "ibytes (i_data i) (fs_device f) = B" using r by (auto simp: file_ready_def)
  have "int pos < 2 ^ 31" using h(2) by simp
  from inode_read_ok [OF h(5-7) _ this, of "int n"] obtain m f1 where
    m: "inode_read_at (f_inode h) (int n) (int pos) f = Some (take m (drop pos B), f1)" "m \<le> n" "mem f = [] \<longrightarrow> m = n"
      "same_but_dev f f1" "b_data (fs_device f1) = b_data (fs_device f)" using h(8) by auto
  note sd = same_but_devD [OF m(4)]
  let ?bs = "take m (drop pos B)"
  have lt: "pos + length ?bs < 2 ^ 31" using file_ready_length [OF r] h(2) by auto
  have "int (pos + length ?bs) < 2 ^ 31" using int_less_pow31 [OF lt] .
  then have "int pos + int (length ?bs) < 2 ^ 31" by (simp only: of_nat_add)
  then have i: "i32 (int pos + int (length ?bs)) = int (pos + length ?bs)"
    by (subst i32_id) (simp_all add: in_i32_def del: length_take length_drop)
  let ?f = "f1\<lparr>files := (files f1)(fp \<mapsto> h\<lparr>f_pos := int (pos + length ?bs)\<rparr>)\<rparr>"
  have read: "file_read fp (int n) f = Some (?bs, ?f)"
    using m(1) h(3,4) i by (simp add: file_read_def)
  have "ino_ok (i_data i) (fs_device f1)" "ibytes (i_data i) (fs_device f1) = B" using h(7,8) sd(2) ibytes_data [OF m(5)] by (simp_all add: ino_ok_def)
  then have "file_ready fp B (pos + length ?bs) ?f" using h(1,5) lt sd(1,7) by (auto simp: file_ready_def)
  then show ?thesis using read m(2,3) sd(3) by (intro exI [of _ m] exI [of _ ?f]) simp
qed

section \<open>What survives in an address space\<close>

definition survives :: "addr \<Rightarrow> vm \<Rightarrow> vm \<Rightarrow> bool" where
  "survives pd v v' \<longleftrightarrow> in_use (pmem v) \<subseteq> in_use (pmem v') \<and>
     pool_range (kernel_pool (pmem v')) = pool_range (kernel_pool (pmem v)) \<and>
     pool_range (user_pool (pmem v')) = pool_range (user_pool (pmem v)) \<and>
     init_page_dir v' = init_page_dir v \<and> init_ram_pages v' = init_ram_pages v \<and> cr3 v' = cr3 v \<and>
     (\<forall>q<768 * 1024. odd (entry pd v q) \<longrightarrow> entry pd v' q = entry pd v q) \<and>
     (\<forall>a\<in>in_use (pmem v). a \<notin> pt_pages pd v \<longrightarrow> a \<notin> pt_pages pd v' \<and> ram (pmem v') a = ram (pmem v) a)"

lemma survivesD:
  assumes "survives pd v v'"
  shows "in_use (pmem v) \<subseteq> in_use (pmem v')" "pool_range (kernel_pool (pmem v')) = pool_range (kernel_pool (pmem v))"
    "pool_range (user_pool (pmem v')) = pool_range (user_pool (pmem v))" "init_page_dir v' = init_page_dir v"
    "init_ram_pages v' = init_ram_pages v" "cr3 v' = cr3 v"
    "q < 768 * 1024 \<Longrightarrow> odd (entry pd v q) \<Longrightarrow> entry pd v' q = entry pd v q"
    "a \<in> in_use (pmem v) \<Longrightarrow> a \<notin> pt_pages pd v \<Longrightarrow> a \<notin> pt_pages pd v'"
    "a \<in> in_use (pmem v) \<Longrightarrow> a \<notin> pt_pages pd v \<Longrightarrow> ram (pmem v') a = ram (pmem v) a"
  using assms unfolding survives_def by blast+

lemma survives_refl: "survives pd v v"
  by (simp add: survives_def)

lemma survives_trans:
  assumes "survives pd v v'" and "survives pd v' v''"
  shows "survives pd v v''"
proof -
  note A = survivesD [OF assms(1)] and B = survivesD [OF assms(2)]
  have "entry pd v'' q = entry pd v q" if "q < 768 * 1024" "odd (entry pd v q)" for q
    using A(7) [OF that] B(7) [of q] that by simp
  moreover have "a \<notin> pt_pages pd v''" "ram (pmem v'') a = ram (pmem v) a" if "a \<in> in_use (pmem v)" "a \<notin> pt_pages pd v" for a
  proof -
    have "a \<in> in_use (pmem v')" "a \<notin> pt_pages pd v'" using A(1,8) that by blast+
    then show "a \<notin> pt_pages pd v''" "ram (pmem v'') a = ram (pmem v) a" using A(9) [OF that] B(8,9) by simp_all
  qed
  moreover have "in_use (pmem v) \<subseteq> in_use (pmem v'')" using A(1) B(1) by blast
  ultimately show ?thesis using A(2-6) B(2-6) unfolding survives_def by (intro conjI ballI allI impI) (simp_all only: simp_thms)
qed

lemma kept_survives:
  assumes k: "kept pd v v'"
    and e: "\<And>q. q < 768 * 1024 \<Longrightarrow> odd (entry pd v q) \<Longrightarrow> entry pd v' q = entry pd v q"
  shows "survives pd v v'"
proof -
  note K = keptD [OF k]
  have "a \<notin> pt_pages pd v' \<and> ram (pmem v') a = ram (pmem v) a" if "a \<in> in_use (pmem v)" "a \<notin> pt_pages pd v" for a
    using K(7,8) [of a] that by blast
  then show ?thesis using K(1-6) e unfolding survives_def by simp
qed

text \<open>A page from the user pool whose contents were written, in the state that results.\<close>

lemma page_filled:
  assumes ok: "maps_ok pd v" and got: "palloc_get_page fl (pmem v) = Some (kpage, p)" "kpage \<noteq> NULL" and fl: "fl AND PAL_USER \<noteq> 0"
    and m: "\<And>a. a \<notin> extent kpage 1 \<Longrightarrow> m a = ram p a"
  defines "v' \<equiv> v\<lparr>pmem := p\<lparr>ram := m\<rparr>\<rparr>"
  shows "maps_ok pd v'" "survives pd v v'" "\<forall>q<768 * 1024. entry pd v' q = entry pd v q" "kpage mod 4096 = 0" "PHYS_BASE \<le> kpage" "kpage < 2 ^ 32"
    "extent kpage 1 \<subseteq> pool_range (user_pool (pmem v'))" "extent kpage 1 \<subseteq> in_use (pmem v')" "extent kpage 1 \<inter> pt_pages pd v' = {}"
    "kernel_pool (pmem v') = kernel_pool (pmem v)" "extent kpage 1 \<subseteq> pool_used (user_pool (pmem v'))" "pages_ok (pmem v')"
proof -
  have pdo: "pd_ok pd v" using ok by (simp add: maps_ok_def)
  note g = user_page_got [OF pdo got fl]
  let ?v1 = "v\<lparr>pmem := p\<rparr>"
  have dis: "extent kpage 1 \<inter> pt_pages pd v = {}" using g(8) pt_pages_in_use [OF pdo] by blast
  have agree: "\<forall>a\<in>pt_pages pd ?v1. m a = ram (pmem ?v1) a"
  proof
    fix a assume "a \<in> pt_pages pd ?v1"
    then have "a \<notin> extent kpage 1" using dis unfolding g(3) by blast
    then show "m a = ram (pmem ?v1) a" using m by simp
  qed
  have vv: "v' = ?v1\<lparr>pmem := (pmem ?v1)\<lparr>ram := m\<rparr>\<rparr>" by (simp add: v'_def)
  note f = ram_frame [OF agree, folded vv]
  show e: "\<forall>q<768 * 1024. entry pd v' q = entry pd v q" using f(2) g(2) by simp
  show "kpage mod 4096 = 0" "PHYS_BASE \<le> kpage" "kpage < 2 ^ 32" by (rule g(4) g(5) g(6))+
  have rng: "pool_range (user_pool p) = pool_range (user_pool (pmem v))"
    using palloc_get_ok [OF pd_okD(1) [OF pdo], of 1 fl] got fl by (auto simp: palloc_get_page_def got_def split: if_splits)
  show "extent kpage 1 \<subseteq> pool_range (user_pool (pmem v'))" using g(7) rng by (simp add: v'_def)
  have u: "in_use (pmem v') = in_use (pmem v) \<union> extent kpage 1" using g(9) by (simp add: v'_def in_use_def)
  then show "extent kpage 1 \<subseteq> in_use (pmem v')" by blast
  have pt: "pt_pages pd v' = pt_pages pd v" using f(4) g(3) by simp
  then show "extent kpage 1 \<inter> pt_pages pd v' = {}" using dis by simp
  show kp: "kernel_pool (pmem v') = kernel_pool (pmem v)" using g(10) by (simp add: v'_def)
  show "extent kpage 1 \<subseteq> pool_used (user_pool (pmem v'))" using g(11) by (simp add: v'_def)
  show "pages_ok (pmem v')" using g(12) by (simp add: v'_def pages_ok_def)
  have "mapping pd v' = mapping pd v" using e by (auto simp: mapping_def fun_eq_iff)
  then show "maps_ok pd v'" using f(3) g(1) ok by (simp add: maps_ok_def)
  have "ram (pmem v') a = ram (pmem v) a" if "a \<in> in_use (pmem v)" for a
  proof -
    have "a \<notin> extent kpage 1" using that g(8) by blast
    then show ?thesis using m g(13) by (simp add: v'_def)
  qed
  then show "survives pd v v'" using u rng kp pt e unfolding survives_def by (simp add: v'_def)
qed

section \<open>One page of a segment\<close>

text \<open>The user page \<open>q\<close> is mapped, with the protection \<open>w\<close>, to a page of its own that holds \<open>bs\<close>.\<close>

definition page_has :: "addr \<Rightarrow> nat \<Rightarrow> bool \<Rightarrow> byte list \<Rightarrow> vm \<Rightarrow> bool" where
  "page_has pd q w bs v \<longleftrightarrow> (\<exists>k. entry pd v q = k - PHYS_BASE + (if w then 7 else 5) \<and> k mod 4096 = 0 \<and> PHYS_BASE \<le> k \<and> k < 2 ^ 32 \<and>
     extent k 1 \<subseteq> in_use (pmem v) \<and> extent k 1 \<inter> pt_pages pd v = {} \<and> length bs = 4096 \<and> (\<forall>i<4096. ram (pmem v) (k + i) = bs ! i))"

lemma page_entry_odd: "k mod 4096 = 0 \<Longrightarrow> odd (k - PHYS_BASE + (if w then 7 else 5))"
proof -
  assume "k mod 4096 = 0"
  then obtain n where "k = 4096 * n" by auto
  then have "k - PHYS_BASE = 4096 * (n - 786432)" by (simp add: PHYS_BASE_def)
  then show ?thesis by simp
qed

lemma page_has_survives:
  assumes "page_has pd q w bs v" and s: "survives pd v v'" and q: "q < 768 * 1024"
  shows "page_has pd q w bs v'"
proof -
  obtain k where k: "entry pd v q = k - PHYS_BASE + (if w then 7 else 5)" "k mod 4096 = 0" "PHYS_BASE \<le> k" "k < 2 ^ 32"
    "extent k 1 \<subseteq> in_use (pmem v)" "extent k 1 \<inter> pt_pages pd v = {}" "length bs = 4096" "\<forall>i<4096. ram (pmem v) (k + i) = bs ! i"
    using assms(1) unfolding page_has_def by (elim exE conjE) (rule that, assumption+)
  note S = survivesD [OF s]
  have safe: "a \<in> in_use (pmem v) \<and> a \<notin> pt_pages pd v" if "a \<in> extent k 1" for a using that k(5,6) by blast
  have "odd (entry pd v q)" unfolding k(1) by (rule page_entry_odd [OF k(2)])
  then have "entry pd v' q = entry pd v q" by (rule S(7) [OF q])
  moreover have "extent k 1 \<subseteq> in_use (pmem v')" using k(5) S(1) by blast
  moreover have "extent k 1 \<inter> pt_pages pd v' = {}" using safe S(8) by blast
  moreover have "ram (pmem v') (k + i) = bs ! i" if "i < 4096" for i
  proof -
    have "k + i \<in> extent k 1" using that by simp
    then show ?thesis using safe S(9) k(8) that by metis
  qed
  ultimately show ?thesis using k(1-4,7) unfolding page_has_def by metis
qed

definition vm_ready :: "addr \<Rightarrow> proc \<Rightarrow> bool" where
  "vm_ready pd s \<longleftrightarrow> (\<exists>t. thread_current (kern s) = Some t \<and> pagedir t = pd) \<and> pd \<noteq> init_page_dir (vms s) \<and> maps_ok pd (vms s) \<and>
     pool_range (user_pool (pmem (vms s))) \<subseteq> {..<PHYS_BASE + 4096 * init_ram_pages (vms s)}"

lemma vm_ready_survives:
  assumes "vm_ready pd s" and "survives pd (vms s) (vms s')" and "kern s' = kern s" and "maps_ok pd (vms s')"
  shows "vm_ready pd s'"
  using assms survivesD(3-5) [OF assms(2)] by (simp add: vm_ready_def)

lemma even_entry: "mapping pd v q = None \<Longrightarrow> q < 768 * 1024 \<Longrightarrow> even (entry pd v q)"
  by (simp add: mapping_def split: if_splits)

text \<open>Installing a page that holds \<open>bs\<close>.\<close>

lemma install_page_ok:
  assumes r: "vm_ready pd s" and u: "u < 786432"
    and k: "k mod 4096 = 0" "PHYS_BASE \<le> k" "k < 2 ^ 32" "extent k 1 \<subseteq> pool_range (user_pool (pmem (vms s)))"
      "extent k 1 \<subseteq> in_use (pmem (vms s))" "extent k 1 \<inter> pt_pages pd (vms s) = {}"
    and bs: "length bs = 4096" "\<forall>i<4096. rm s (k + i) = bs ! i"
  shows "\<exists>b s'. install_page (4096 * u) k w s = Some (b, s') \<and> kern s' = kern s \<and> fsys s' = fsys s \<and> vm_ready pd s' \<and>
    survives pd (vms s) (vms s') \<and>
    (if b then page_has pd u w bs (vms s') \<and> (\<forall>q<768 * 1024. q \<noteq> u \<longrightarrow> entry pd (vms s') q = entry pd (vms s) q)
     else s' = s \<and> (mapping pd (vms s) u \<noteq> None \<or> no_room 1 (kernel_pool (pmem (vms s)))))"
proof -
  let ?v = "vms s"
  have maps: "maps_ok pd ?v" and pdn: "pd \<noteq> init_page_dir ?v" and lim: "pool_range (user_pool (pmem ?v)) \<subseteq> {..<PHYS_BASE + 4096 * init_ram_pages ?v}"
    using r by (simp_all add: vm_ready_def)
  obtain t where t: "thread_current (kern s) = Some t" "pagedir t = pd" using r by (auto simp: vm_ready_def)
  have va: "is_user_vaddr (4096 * u)" "(4096 * u) mod 4096 = 0" "4096 * u div 4096 = u" using u by (simp_all add: is_user_vaddr_def PHYS_BASE_def)
  have get: "pagedir_get_page pd (4096 * u) ?v = Some (case mapping pd ?v u of None \<Rightarrow> NULL | Some k \<Rightarrow> k, ?v)"
    using get_mapping [OF maps va(1)] unfolding va(2,3) by (simp split: option.splits)
  show ?thesis
  proof (cases "mapping pd ?v u")
    case (Some j)
    then have "j \<noteq> NULL" by (auto simp: mapping_def table_of_def NULL_def PHYS_BASE_def split: if_splits)
    then have "install_page (4096 * u) k w s = Some (False, s)" using t get Some by (simp add: install_page_def)
    then show ?thesis using Some r survives_refl by (intro exI [of _ False] exI [of _ s]) simp
  next
    case None
    have pdo: "pd_ok pd ?v" using maps by (simp add: maps_ok_def)
    have "k \<in> extent k 1" by simp
    then have "k < PHYS_BASE + 4096 * init_ram_pages ?v" using k(4) lim by blast
    then have fr: "(k - PHYS_BASE) div 4096 < init_ram_pages ?v" using k(2) by (simp add: div_less_iff_less_mult mult.commute)
    have e: "even (entry pd ?v (4096 * u div 4096))" unfolding va(3) using even_entry [OF None] u by simp
    from set_page_ok [OF pdo va(2,1) k(1-3) fr pdn e, of w] obtain b v2 where
      sp: "pagedir_set_page pd (4096 * u) k w ?v = Some (b, v2)" "pd_ok pd v2" "kept pd ?v v2"
        "b \<or> no_room 1 (kernel_pool (pmem ?v)) \<and> v2 = ?v"
        "\<forall>q<768 * 1024. entry pd v2 q = (if b \<and> q = u then k - PHYS_BASE + (if w then 7 else 5) else entry pd ?v q)"
      unfolding va(3) by blast
    let ?s2 = "s\<lparr>vms := v2\<rparr>"
    have inst: "install_page (4096 * u) k w s = Some (b, ?s2)" using t get None sp(1) by (simp add: install_page_def)
    have sv: "survives pd ?v v2"
      by (rule kept_survives [OF sp(3)]) (use sp(5) e va(3) in auto)
    have "maps_ok pd v2"
      using set_mapping [OF maps va(2,1) k(1-3) fr pdn, of w] None sp(1) va(3) by auto
    then have rd: "vm_ready pd ?s2" using vm_ready_survives [OF r, of ?s2] sv by simp
    show ?thesis
    proof (cases b)
      case True
      note S = survivesD [OF sv]
      have safe: "a \<in> in_use (pmem ?v) \<and> a \<notin> pt_pages pd ?v" if "a \<in> extent k 1" for a using that k(5,6) by blast
      have "ram (pmem v2) (k + i) = bs ! i" if "i < 4096" for i
      proof -
        have "k + i \<in> extent k 1" using that by simp
        then show ?thesis using safe S(9) bs(2) that unfolding rm_def by metis
      qed
      moreover have "extent k 1 \<subseteq> in_use (pmem v2)" "extent k 1 \<inter> pt_pages pd v2 = {}" using k(5) S(1) safe S(8) by blast+
      moreover have "entry pd v2 u = k - PHYS_BASE + (if w then 7 else 5)" using sp(5) True u by simp
      ultimately have "page_has pd u w bs v2" using k(1-3) bs(1) unfolding page_has_def by metis
      then show ?thesis using inst rd sv sp(5) True by (intro exI [of _ True] exI [of _ ?s2]) simp
    next
      case False
      then have "v2 = ?v" "no_room 1 (kernel_pool (pmem ?v))" using sp(4) by simp_all
      then show ?thesis using inst r survives_refl False by (intro exI [of _ False] exI [of _ s]) simp
    qed
  qed
qed

section \<open>The loop over the pages\<close>

text \<open>The bytes of a segment: \<open>r\<close> bytes of the file from \<open>pos\<close>, then \<open>z\<close> zeros.\<close>

definition segment_image :: "byte list \<Rightarrow> nat \<Rightarrow> nat \<Rightarrow> nat \<Rightarrow> byte list" where
  "segment_image B pos r z = take r (drop pos B) @ replicate z 0"

lemma segment_image_first:
  assumes r: "pr = min r 4096" and len: "length (take pr (drop pos B)) = pr" and z: "4096 \<le> r + z"
  shows "take 4096 (segment_image B pos r z) = take pr (drop pos B) @ replicate (4096 - pr) 0"
    and "drop 4096 (segment_image B pos r z) = segment_image B (pos + pr) (r - pr) (z - (4096 - pr))"
proof -
  have le: "pr \<le> length B - pos" using len by simp
  show "take 4096 (segment_image B pos r z) = take pr (drop pos B) @ replicate (4096 - pr) 0"
  proof (cases "r \<le> 4096")
    case True
    then show ?thesis using r le z by (simp add: segment_image_def min_absorb1 min_absorb2)
  next
    case False
    then show ?thesis using r le by (simp add: segment_image_def min_absorb1 min_absorb2)
  qed
  show "drop 4096 (segment_image B pos r z) = segment_image B (pos + pr) (r - pr) (z - (4096 - pr))"
  proof (cases "r \<le> 4096")
    case True
    then show ?thesis using r le z by (simp add: segment_image_def min_absorb1 min_absorb2)
  next
    case False
    then have "4096 \<le> length (take r (drop pos B))" using r le by simp
    then show ?thesis using r False by (simp add: segment_image_def drop_take add.commute)
  qed
qed

lemma fill_page_ok:
  assumes f: "file_ready fp B pos (fsys s)" and k: "k \<noteq> NULL" and n: "n \<le> 4096"
  shows "\<exists>ok m f'. fill_page fp k n s = Some (ok, put_ram m (s\<lparr>fsys := f'\<rparr>)) \<and> (\<forall>a. a \<notin> extent k 1 \<longrightarrow> m a = rm s a) \<and>
    (mem (fsys s) = [] \<longrightarrow> mem f' = []) \<and>
    (if ok then length (take n (drop pos B)) = n \<and> file_ready fp B (pos + n) f' \<and>
       (\<forall>i<4096. m (k + i) = (take n (drop pos B) @ replicate (4096 - n) 0) ! i)
     else mem (fsys s) \<noteq> [] \<or> length B < pos + n)"
proof -
  from file_read_ready [OF f] obtain j f' where
    j: "file_read fp (int n) (fsys s) = Some (take j (drop pos B), f')" "j \<le> n" "mem (fsys s) = [] \<longrightarrow> j = n \<and> mem f' = []"
      "file_ready fp B (pos + length (take j (drop pos B))) f'" by blast
  let ?bs = "take j (drop pos B)" and ?m = "poke k (take j (drop pos B)) (rm s)"
  have rm: "rm (s\<lparr>fsys := f'\<rparr>) = rm s" by (simp add: rm_def)
  have lb: "length ?bs \<le> 4096" using j(2) n by simp
  show ?thesis
  proof (cases "length ?bs = n")
    case False
    then have "fill_page fp k n s = Some (False, put_ram ?m (s\<lparr>fsys := f'\<rparr>))" using j(1) rm by (simp add: fill_page_def Let_def)
    moreover have "mem (fsys s) \<noteq> [] \<or> length B < pos + n" using j(3) False by auto
    moreover have "\<forall>a. a \<notin> extent k 1 \<longrightarrow> ?m a = rm s a" using lb by (auto simp: poke_def)
    ultimately show ?thesis using j(3) by (intro exI [of _ False] exI [of _ ?m] exI [of _ f']) simp
  next
    case True
    then have jn: "j = n" using j(2) by auto
    let ?m' = "\<lambda>a. if k + n \<le> a \<and> a < k + n + (4096 - n) then 0 else ?m a"
    have "fill_page fp k n s = Some (True, put_ram ?m' (s\<lparr>fsys := f'\<rparr>))"
      using j(1) rm True k by (simp add: fill_page_def Let_def memset_def memset_loop_spec NULL_def)
    moreover have "\<forall>a. a \<notin> extent k 1 \<longrightarrow> ?m' a = rm s a" using lb n by (auto simp: poke_def)
    moreover have "\<forall>i<4096. ?m' (k + i) = (?bs @ replicate (4096 - n) 0) ! i"
      using True n by (auto simp: poke_def nth_append)
    ultimately show ?thesis using j(3,4) True jn by (intro exI [of _ True] exI [of _ ?m'] exI [of _ f']) simp
  qed
qed

lemma free_kpage_ok:
  assumes "k mod 4096 = 0" and "extent k 1 \<subseteq> pool_used (user_pool (pmem (vms s)))" and "pages_ok (pmem (vms s))"
  shows "\<exists>s'. free_kpage k s = Some s' \<and> kernel_pool (pmem (vms s')) = kernel_pool (pmem (vms s))"
proof -
  obtain m where "palloc_free_multiple k 1 (pmem (vms s)) = Some m" "kernel_pool m = kernel_pool (pmem (vms s))"
    using palloc_free_user [OF assms(3,1) _ assms(2)] by auto
  then show ?thesis by (auto simp: free_kpage_def palloc_free_page_def)
qed

text \<open>
  Why loading may fail: a refused allocation, a short file, a page already mapped, or a pool with
  no page left, which for a single page was so from the start.
\<close>

definition no_pages :: "pages \<Rightarrow> bool" where
  "no_pages m \<longleftrightarrow> no_room 1 (user_pool m) \<or> no_room 1 (kernel_pool m)"

definition load_refused :: "addr \<Rightarrow> byte list \<Rightarrow> nat \<Rightarrow> nat \<Rightarrow> nat \<Rightarrow> proc \<Rightarrow> proc \<Rightarrow> bool" where
  "load_refused pd B end_pos u n s s' \<longleftrightarrow> mem (fsys s) \<noteq> [] \<or> length B < end_pos \<or> (\<exists>q\<in>{u..<u + n}. mapping pd (vms s) q \<noteq> None) \<or>
     no_pages (pmem (vms s')) \<and> (1 < n \<or> no_pages (pmem (vms s)))"

definition segment_loaded :: "addr \<Rightarrow> nat \<Rightarrow> nat \<Rightarrow> bool \<Rightarrow> byte list \<Rightarrow> vm \<Rightarrow> vm \<Rightarrow> bool" where
  "segment_loaded pd u n w img v v' \<longleftrightarrow> survives pd v v' \<and> length img = 4096 * n \<and>
     (\<forall>i<n. page_has pd (u + i) w (take 4096 (drop (4096 * i) img)) v') \<and>
     (\<forall>q<768 * 1024. q \<notin> {u..<u + n} \<longrightarrow> entry pd v' q = entry pd v q)"

lemma segment_loaded_Suc:
  assumes s1: "survives pd v v1" and p: "page_has pd u w (take 4096 img) v1"
    and e: "\<forall>q<768 * 1024. q \<noteq> u \<longrightarrow> entry pd v1 q = entry pd v q"
    and rest: "segment_loaded pd (Suc u) n w (drop 4096 img) v1 v'" and u: "u < 786432"
  shows "segment_loaded pd u (Suc n) w img v v'"
proof -
  note R = rest [unfolded segment_loaded_def]
  have sv: "survives pd v v'" using survives_trans [OF s1] R by blast
  have "length (take 4096 img) = 4096" using p unfolding page_has_def by blast
  then have "4096 \<le> length img" by simp
  moreover have "length (drop 4096 img) = 4096 * n" using R by blast
  ultimately have len: "length img = 4096 * Suc n" by simp
  have pages: "page_has pd (u + i) w (take 4096 (drop (4096 * i) img)) v'" if "i < Suc n" for i
  proof (cases i)
    case 0
    have "page_has pd u w (take 4096 img) v'" using page_has_survives [OF p] R u by simp
    then show ?thesis using 0 by simp
  next
    case (Suc j)
    then have "page_has pd (Suc u + j) w (take 4096 (drop (4096 * j) (drop 4096 img))) v'" using R that by blast
    then show ?thesis using Suc by (simp add: add.commute)
  qed
  have "entry pd v' q = entry pd v q" if "q < 768 * 1024" "q \<notin> {u..<u + Suc n}" for q
  proof -
    have "q \<notin> {Suc u..<Suc u + n}" "q \<noteq> u" using that(2) by auto
    then show ?thesis using R e that(1) by metis
  qed
  then show ?thesis using sv len pages unfolding segment_loaded_def by blast
qed

lemma segment_loop_ok:
  "vm_ready pd s \<Longrightarrow> file_ready fp B pos (fsys s) \<Longrightarrow> u + N \<le> 786432 \<Longrightarrow> r + z = 4096 * N \<Longrightarrow>
    \<exists>b s'. segment_loop fp (4096 * u) r z w s = Some (b, s') \<and>
      (if b then kern s' = kern s \<and> vm_ready pd s' \<and> segment_loaded pd u N w (segment_image B pos r z) (vms s) (vms s')
       else load_refused pd B (pos + r) u N s s')"
proof (induction N arbitrary: s pos u r z)
  case 0
  then have "r = 0" "z = 0" by simp_all
  then show ?case using 0 survives_refl
    by (intro exI [of _ True] exI [of _ s]) (subst segment_loop.simps, simp add: segment_loaded_def segment_image_def)
next
  case (Suc N)
  note rdy = Suc.prems(1) and f = Suc.prems(2)
  let ?v = "vms s" and ?pr = "min r 4096"
  have u: "u < 786432" "Suc u + N \<le> 786432" using Suc.prems(3) by simp_all
  have rz: "r > 0 \<or> z > 0" "4096 \<le> r + z" using Suc.prems(4) by auto
  have lt: "r < 2 ^ 32" "z < 2 ^ 32" using Suc.prems(3,4) by simp_all
  have zp: "4096 - ?pr \<le> z" using rz(2) by linarith
  have nx: "u32 (4096 * u + PGSIZE) = 4096 * Suc u" using u(1) by (simp add: u32_def PGSIZE_def PGBITS_def)
  have pr: "(if r < PGSIZE then r else PGSIZE) = ?pr" "PGSIZE = 4096" by (simp_all add: PGSIZE_def PGBITS_def min_def)
  have sub: "sub32 r ?pr = r - ?pr" "sub32 z (4096 - ?pr) = z - (4096 - ?pr)" using sub32_small lt zp by simp_all
  have maps: "maps_ok pd ?v" using rdy by (simp add: vm_ready_def)
  then have pgs: "pages_ok (pmem ?v)" by (simp add: maps_ok_def pd_ok_def)
  have fl: "PAL_USER AND PAL_USER \<noteq> 0" "PAL_USER AND PAL_ASSERT = 0" by (simp_all add: PAL_USER_def PAL_ASSERT_def)
  note unf = segment_loop.simps [of fp "4096 * u" r z w s, unfolded Let_def, unfolded pr(1) nx, unfolded pr(2)]
  obtain k p where g: "palloc_get_page PAL_USER (pmem ?v) = Some (k, p)" "k = NULL \<longrightarrow> p = pmem ?v \<and> no_room 1 (user_pool (pmem ?v))"
    using palloc_get_ok [OF pgs, of 1 PAL_USER] fl by (auto simp: palloc_get_page_def got_def)
  let ?s1 = "s\<lparr>vms := ?v\<lparr>pmem := p\<rparr>\<rparr>"
  show ?case
  proof (cases "k = NULL")
    case True
    then have "segment_loop fp (4096 * u) r z w s = Some (False, ?s1)" using g rz(1) by (subst unf) simp
    then show ?thesis using g True by (intro exI [of _ False] exI [of _ ?s1]) (simp add: load_refused_def no_pages_def)
  next
    case False
    have "?pr \<le> 4096" "file_ready fp B pos (fsys ?s1)" using f by simp_all
    from fill_page_ok [OF this(2) False this(1)] obtain ok m f' where
      fp: "fill_page fp k ?pr ?s1 = Some (ok, put_ram m (?s1\<lparr>fsys := f'\<rparr>))" "\<forall>a. a \<notin> extent k 1 \<longrightarrow> m a = rm ?s1 a"
        "mem (fsys ?s1) = [] \<longrightarrow> mem f' = []"
        "if ok then length (take ?pr (drop pos B)) = ?pr \<and> file_ready fp B (pos + ?pr) f' \<and>
           (\<forall>i<4096. m (k + i) = (take ?pr (drop pos B) @ replicate (4096 - ?pr) 0) ! i)
         else mem (fsys ?s1) \<noteq> [] \<or> length B < pos + ?pr" by (elim exE conjE) (rule that, assumption+)
    let ?s2 = "put_ram m (?s1\<lparr>fsys := f'\<rparr>)"
    have vm2: "vms ?s2 = ?v\<lparr>pmem := p\<lparr>ram := m\<rparr>\<rparr>" by (simp add: vms_put)
    have out: "m a = ram p a" if "a \<notin> extent k 1" for a using fp(2) that by (simp add: rm_def)
    note P = page_filled [OF maps g(1) False fl(1) out, folded vm2]
    have rdy2: "vm_ready pd ?s2" using vm_ready_survives [OF rdy P(2) _ P(1)] by simp
    show ?thesis
    proof (cases ok)
      case no: False
      obtain s3 where "free_kpage k ?s2 = Some s3" using free_kpage_ok [OF P(4,11,12)] by blast
      then have "segment_loop fp (4096 * u) r z w s = Some (False, s3)" using g(1) False rz(1) fp(1) no by (subst unf) simp
      moreover have "mem (fsys s) \<noteq> [] \<or> length B < pos + r" using fp(4) no by auto
      ultimately show ?thesis by (intro exI [of _ False] exI [of _ s3]) (auto simp: load_refused_def)
    next
      case True
      let ?bs = "take ?pr (drop pos B) @ replicate (4096 - ?pr) 0"
      have bs: "length ?bs = 4096" "\<forall>i<4096. rm ?s2 (k + i) = ?bs ! i" and f3: "file_ready fp B (pos + ?pr) (fsys ?s2)"
        and full: "length (take ?pr (drop pos B)) = ?pr" using fp(4) True by simp_all
      from install_page_ok [OF rdy2 u(1) P(4-9) bs, of w] obtain b s3 where
        i: "install_page (4096 * u) k w ?s2 = Some (b, s3)" "kern s3 = kern ?s2" "fsys s3 = fsys ?s2" "vm_ready pd s3" "survives pd (vms ?s2) (vms s3)"
          "if b then page_has pd u w ?bs (vms s3) \<and> (\<forall>q<768 * 1024. q \<noteq> u \<longrightarrow> entry pd (vms s3) q = entry pd (vms ?s2) q)
           else s3 = ?s2 \<and> (mapping pd (vms ?s2) u \<noteq> None \<or> no_room 1 (kernel_pool (pmem (vms ?s2))))" by blast
      have same_map: "mapping pd (vms ?s2) = mapping pd ?v" using P(3) by (auto simp: mapping_def fun_eq_iff)
      show ?thesis
      proof (cases b)
        case nob: False
        obtain s4 where s4: "free_kpage k ?s2 = Some s4" "kernel_pool (pmem (vms s4)) = kernel_pool (pmem (vms ?s2))"
          using free_kpage_ok [OF P(4,11,12)] by blast
        then have "segment_loop fp (4096 * u) r z w s = Some (False, s4)"
          using g(1) False rz(1) fp(1) True i(1,6) nob by (subst unf) simp
        moreover have "mapping pd ?v u \<noteq> None \<or> no_room 1 (kernel_pool (pmem (vms s4)))" "kernel_pool (pmem (vms s4)) = kernel_pool (pmem ?v)"
          using i(6) nob same_map s4(2) P(10) by simp_all
        ultimately show ?thesis by (intro exI [of _ False] exI [of _ s4]) (auto simp: load_refused_def no_pages_def)
      next
        case yes: True
        have img: "take 4096 (segment_image B pos r z) = ?bs"
          "drop 4096 (segment_image B pos r z) = segment_image B (pos + ?pr) (r - ?pr) (z - (4096 - ?pr))"
          using segment_image_first [OF HOL.refl full rz(2)] by blast+
        have sv3: "survives pd ?v (vms s3)" using survives_trans [OF P(2) i(5)] .
        have e3: "\<forall>q<768 * 1024. q \<noteq> u \<longrightarrow> entry pd (vms s3) q = entry pd ?v q" using i(6) yes P(3) by simp
        have ph: "page_has pd u w (take 4096 (segment_image B pos r z)) (vms s3)" using i(6) yes img(1) by simp
        have "r - ?pr + (z - (4096 - ?pr)) = 4096 * N" using Suc.prems(4) zp by simp
        from Suc.IH [OF i(4) _ u(2) this, of "pos + ?pr"] f3 i(3) obtain b' s' where
          l: "segment_loop fp (4096 * Suc u) (r - ?pr) (z - (4096 - ?pr)) w s3 = Some (b', s')"
            "if b' then kern s' = kern s3 \<and> vm_ready pd s' \<and>
               segment_loaded pd (Suc u) N w (segment_image B (pos + ?pr) (r - ?pr) (z - (4096 - ?pr))) (vms s3) (vms s')
             else load_refused pd B (pos + ?pr + (r - ?pr)) (Suc u) N s3 s'" by auto
        have run: "segment_loop fp (4096 * u) r z w s = Some (b', s')"
          using g(1) False rz(1) fp(1) True i(1) yes l(1) sub by (subst unf) simp
        show ?thesis
        proof (cases b')
          case ok: True
          have "segment_loaded pd u (Suc N) w (segment_image B pos r z) ?v (vms s')"
            by (rule segment_loaded_Suc [OF sv3 ph e3 _ u(1)]) (use l(2) ok img(2) in simp)
          then show ?thesis using run l(2) ok i(2) by (intro exI [of _ True] exI [of _ s']) simp
        next
          case no: False
          then have ref: "load_refused pd B (pos + r) (Suc u) N s3 s'" using l(2) by simp
          have "mapping pd (vms s3) q = mapping pd ?v q" if "q \<in> {Suc u..<Suc u + N}" for q
            using e3 that u(2) by (auto simp: mapping_def)
          moreover have "mem (fsys s3) \<noteq> [] \<Longrightarrow> mem (fsys s) \<noteq> []" using fp(3) i(3) by auto
          moreover have "N \<noteq> 0"
          proof
            assume "N = 0"
            then have "r - ?pr = 0" "z - (4096 - ?pr) = 0" using Suc.prems(4) zp by simp_all
            then show False using l(1) no by (subst (asm) segment_loop.simps) simp
          qed
          ultimately have "load_refused pd B (pos + r) u (Suc N) s s'" using ref unfolding load_refused_def by fastforce
          then show ?thesis using run no by (intro exI [of _ False] exI [of _ s']) simp
        qed
      qed
    qed
  qed
qed

section \<open>What the process sees\<close>

lemma kaddr_page:
  assumes ok: "pd_ok pd (vms s)" and a: "active_pd (vms s) = Some pd" and va: "is_user_vaddr va"
    and e: "entry pd (vms s) (va div 4096) = k - PHYS_BASE + (if w then 7 else 5)"
    and k: "k mod 4096 = 0" "PHYS_BASE \<le> k" "k < 2 ^ 32"
  shows "kaddr wr va s = (if wr \<and> \<not> w then None else Some (k + va mod 4096))"
proof -
  define v where "v = k - PHYS_BASE + (if w then 7 else 5)"
  note pe = page_entry [OF k, of "if w then 7 else 5"]
  have ne: "dir_entry pd (vms s) (pd_no va) \<noteq> 0" using entry_absent [OF va] e by (cases w) force+
  let ?pte = "table_of (dir_entry pd (vms s) (pd_no va)) + 4 * pt_no va"
  have rd: "rd32 ?pte (vms s) = v" using entry_present [OF va ne] e by (simp add: v_def)
  obtain n where n: "k - PHYS_BASE = 4096 * n"
  proof -
    obtain j where "k = 4096 * j" using k(1) by auto
    then have "k - PHYS_BASE = 4096 * (j - 786432)" by (simp add: PHYS_BASE_def)
    then show thesis by (rule that)
  qed
  have P: "v AND PTE_P \<noteq> 0" unfolding PTE_P_odd v_def n by simp
  have W: "(v AND PTE_W \<noteq> 0) = w"
  proof -
    have b: "bit v 1 = w" unfolding v_def n bit_iff_odd by (simp add: div_add1_eq mult.commute)
    have "v AND PTE_W = 0 \<longleftrightarrow> \<not> bit v 1"
      using and_exp_eq_0_iff_not_bit [of v 1] by (simp add: PTE_W_def)
    then show ?thesis unfolding b by simp
  qed
  have pg: "pte_get_page v = Some k"
  proof -
    have "v < 2 ^ 32" "table_of v = k" using pe by (cases w; simp add: v_def)+
    then show ?thesis using ptov_entry [of v] k(3) by (simp add: pte_get_page_def)
  qed
  have "?pte \<noteq> NULL" by (simp add: table_of_def NULL_def PHYS_BASE_def)
  then show ?thesis
    using va a lookup_present [OF ok va ne, of False] rd P W pg by (simp add: kaddr_def Let_def pg_ofs_mod)
qed

lemma segment_byte:
  assumes l: "segment_loaded pd u n w img v (vms s)" and r: "vm_ready pd s" and a: "active_pd (vms s) = Some pd"
    and u: "u + n \<le> 786432" and x: "x < 4096 * n"
  shows "\<exists>k. kaddr wr (4096 * u + x) s = (if wr \<and> \<not> w then None else Some k) \<and> rm s k = img ! x"
proof -
  let ?i = "x div 4096"
  have i: "?i < n" using x by (simp add: div_less_iff_less_mult mult.commute)
  have pdo: "pd_ok pd (vms s)" using r by (simp add: vm_ready_def maps_ok_def)
  have "page_has pd (u + ?i) w (take 4096 (drop (4096 * ?i) img)) (vms s)" "length img = 4096 * n"
    using l i unfolding segment_loaded_def by blast+
  then obtain k where k: "entry pd (vms s) (u + ?i) = k - PHYS_BASE + (if w then 7 else 5)" "k mod 4096 = 0" "PHYS_BASE \<le> k" "k < 2 ^ 32"
    "\<forall>j<4096. ram (pmem (vms s)) (k + j) = take 4096 (drop (4096 * ?i) img) ! j" and len: "length img = 4096 * n"
    unfolding page_has_def by (elim exE conjE) (rule that, assumption+)
  have va: "(4096 * u + x) div 4096 = u + ?i" "(4096 * u + x) mod 4096 = x mod 4096" by simp_all
  have "4096 * u + x < 4096 * 786432" using u x by simp
  then have "is_user_vaddr (4096 * u + x)" by (simp add: is_user_vaddr_def PHYS_BASE_def)
  then have "kaddr wr (4096 * u + x) s = (if wr \<and> \<not> w then None else Some (k + x mod 4096))"
    using kaddr_page [OF pdo a _ _ k(2-4), of "4096 * u + x" w wr] k(1) unfolding va by simp
  moreover have "4096 * ?i + x mod 4096 = x" by simp
  then have "rm s (k + x mod 4096) = img ! x" using k(5) x len by (simp add: rm_def)
  ultimately show ?thesis by blast
qed

lemma read_user_bytes:
  "(\<And>i. i < n \<Longrightarrow> \<exists>k. kaddr False (va + i) s = Some k \<and> rm s k = f i) \<Longrightarrow> read_user n va s = Some (map f [0..<n])"
proof (induction n arbitrary: va f)
  case (Suc n)
  obtain k where "kaddr False va s = Some k" "rm s k = f 0" using Suc.prems [of 0] by auto
  moreover have "read_user n (va + 1) s = Some (map (\<lambda>i. f (i + 1)) [0..<n])"
  proof (rule Suc.IH)
    fix i assume "i < n"
    then show "\<exists>k. kaddr False (va + 1 + i) s = Some k \<and> rm s k = f (i + 1)" using Suc.prems [of "i + 1"] by simp
  qed
  moreover have "map f [0..<Suc n] = f 0 # map (\<lambda>i. f (i + 1)) [0..<n]"
    by (simp add: upt_conv_Cons map_Suc_upt [symmetric] del: upt_Suc)
  ultimately show ?case by simp
qed simp

lemma segment_read:
  assumes l: "segment_loaded pd u n w img v (vms s)" and r: "vm_ready pd s" and a: "active_pd (vms s) = Some pd"
    and u: "u + n \<le> 786432" and x: "x + m \<le> 4096 * n"
  shows "read_user m (4096 * u + x) s = Some (take m (drop x img))"
proof -
  have "read_user m (4096 * u + x) s = Some (map (\<lambda>i. img ! (x + i)) [0..<m])"
  proof (rule read_user_bytes)
    fix i assume "i < m"
    then show "\<exists>k. kaddr False (4096 * u + x + i) s = Some k \<and> rm s k = img ! (x + i)"
      using segment_byte [OF l r a u, of "x + i" False] x by (auto simp: add.assoc)
  qed
  moreover have "length img = 4096 * n" using l by (simp add: segment_loaded_def)
  then have "map (\<lambda>i. img ! (x + i)) [0..<m] = take m (drop x img)" using x by (intro nth_equalityI) simp_all
  ultimately show ?thesis by simp
qed

section \<open>Program headers\<close>

lemma of_le32_less: "of_le32 bs < 2 ^ 32"
proof -
  have u: "unat b \<le> 255" for b :: byte using unsigned_less [where ?'a = nat and w = b] by simp
  have "of_le32 bs \<le> 255 + 255 * 256 + 255 * 65536 + 255 * 16777216"
    unfolding of_le32_def sum4 using u [of "bs ! 0"] u [of "bs ! 1"] u [of "bs ! 2"] u [of "bs ! 3"] by simp
  then show ?thesis by simp
qed

text \<open>The pages a header asks for: the first one and how many.\<close>

definition first_page :: "elf_phdr \<Rightarrow> nat" where "first_page h = p_vaddr h div 4096"
definition page_count :: "elf_phdr \<Rightarrow> nat" where "page_count h = (p_vaddr h mod 4096 + p_memsz h + 4095) div 4096"

lemma and_PGMASK: "a AND PGMASK = a mod 4096"
  using pg_ofs_mod [of a] by (simp add: pg_ofs_def)

lemma segment_okD:
  assumes ok: "segment_ok h (int len)" and len: "len < 2 ^ 31"
    and b: "p_offset h < 2 ^ 32" "p_vaddr h < 2 ^ 32" "p_memsz h < 2 ^ 32"
  shows "p_offset h mod 4096 = p_vaddr h mod 4096" "p_offset h \<le> len" "p_filesz h \<le> p_memsz h" "0 < p_memsz h"
    "p_vaddr h + p_memsz h < PHYS_BASE" "4096 \<le> p_vaddr h"
proof -
  note D = ok [unfolded segment_ok_def and_PGMASK]
  show "p_offset h mod 4096 = p_vaddr h mod 4096" "p_filesz h \<le> p_memsz h" "0 < p_memsz h" "4096 \<le> p_vaddr h"
    using D by (auto simp: PGSIZE_def PGBITS_def split: if_splits)
  have "nat (int len mod 2 ^ 32) = len" using len by (simp add: nat_mod_distrib)
  then show "p_offset h \<le> len" using D by (auto split: if_splits)
  have w: "u32 (p_vaddr h + p_memsz h) < PHYS_BASE" "p_vaddr h \<le> u32 (p_vaddr h + p_memsz h)" "p_vaddr h < PHYS_BASE"
    using D by (auto simp: is_user_vaddr_def split: if_splits)
  show "p_vaddr h + p_memsz h < PHYS_BASE"
  proof (cases "p_vaddr h + p_memsz h < 2 ^ 32")
    case True
    then show ?thesis using w(1) by (simp add: u32_def)
  next
    case False
    then have "u32 (p_vaddr h + p_memsz h) = p_vaddr h + p_memsz h - 2 ^ 32" using b(2,3) by (simp add: u32_def mod_if)
    then show ?thesis using w(2) b(3) False by linarith
  qed
qed

lemma segment_args:
  assumes v: "p_vaddr h + p_memsz h < PHYS_BASE" and fs: "p_filesz h \<le> p_memsz h" and m: "0 < p_memsz h"
  defines "r \<equiv> if p_filesz h > 0 then p_vaddr h mod 4096 + p_filesz h else 0"
  shows "segment_bytes h = (r, 4096 * page_count h - r)" "r \<le> 4096 * page_count h" "first_page h + page_count h \<le> 786432"
    "p_vaddr h mod 4096 + p_memsz h \<le> 4096 * page_count h"
proof -
  let ?po = "p_vaddr h mod 4096" and ?N = "page_count h"
  let ?T = "?po + p_memsz h"
  have e: "p_vaddr h = 4096 * first_page h + ?po" by (simp add: first_page_def)
  have T: "4096 * first_page h + ?T < 4096 * 786432" using v e by (simp add: PHYS_BASE_def)
  have N: "?N = (?T + 4095) div 4096" by (simp add: page_count_def)
  show up: "?T \<le> 4096 * ?N" unfolding N by linarith
  show "first_page h + ?N \<le> 786432" unfolding N using T by linarith
  show rT: "r \<le> 4096 * ?N" using up fs by (auto simp: r_def)
  have lo: "?T + 4096 < 2 ^ 32" using T by simp
  then have u: "u32 ?T = ?T" "u32 (?po + p_filesz h) = ?po + p_filesz h" using fs by (simp_all add: u32_def)
  have Nlt: "4096 * ?N < 2 ^ 32" unfolding N using lo by linarith
  have ru: "round_up ?T = 4096 * ?N"
  proof -
    have "u32 (?T + PGSIZE - 1) = ?T + 4095" using lo by (simp add: u32_def PGSIZE_def PGBITS_def)
    then show ?thesis using Nlt unfolding round_up_def N by (simp add: u32_def PGSIZE_def PGBITS_def mult.commute)
  qed
  show "segment_bytes h = (r, 4096 * ?N - r)"
    using u ru sub32_small [OF rT Nlt] by (auto simp: segment_bytes_def Let_def and_PGMASK r_def)
qed

lemma read_phdr_less: "p_offset (read_phdr bs) < 2 ^ 32" "p_vaddr (read_phdr bs) < 2 ^ 32" "p_memsz (read_phdr bs) < 2 ^ 32"
  using of_le32_less by (simp_all add: read_phdr_def)

lemma segment_slice:
  assumes len: "length (segment_image B pos r (4096 * n - r)) = 4096 * n" and r: "r \<le> 4096 * n" and m: "x + m \<le> 4096 * n"
    and f: "fs \<le> m" "r = (if fs > 0 then x + fs else 0)"
  shows "take m (drop x (segment_image B pos r (4096 * n - r))) = take fs (drop (pos + x) B) @ replicate (m - fs) 0"
proof (cases "fs > 0")
  case True
  have "length (take r (drop pos B)) = r" using len r unfolding segment_image_def by (simp only: length_append length_replicate)
  then have "drop x (segment_image B pos r (4096 * n - r)) = take fs (drop (pos + x) B) @ replicate (4096 * n - r) 0"
    "length (take fs (drop (pos + x) B)) = fs"
    using True f(2) by (simp_all add: segment_image_def drop_take add.commute)
  moreover have "m - fs \<le> 4096 * n - r" using m f True by simp
  ultimately show ?thesis using f(1) by (simp add: min_absorb1)
next
  case False
  then have "segment_image B pos r (4096 * n - r) = replicate (4096 * n) 0" "fs = 0" using f(2) by (simp_all add: segment_image_def)
  moreover have "m \<le> 4096 * n - x" using m by simp
  ultimately show ?thesis by (simp add: min_absorb1)
qed

text \<open>
  C37. No program header can make the loader panic or misplace a byte. For any 32 bytes read as a
  loadable header, \<open>load_phdr\<close> returns. When it succeeds the header was valid, and the process reads
  at the address it names exactly the bytes of the file it names followed by zeros up to its memory
  size; it can write there just when the header says so, and no page outside the segment is mapped
  or unmapped. It fails only for an invalid header, a refused allocation, a file that is too
  short, a page that is already mapped, or when a pool has no page left.
\<close>

theorem load_phdr_correct:
  assumes vm: "vm_ready pd s" and a: "active_pd (vms s) = Some pd" and f: "file_ready fp B pos (fsys s)"
    and h: "h = read_phdr bs" and t: "p_type h = PT_LOAD"
  shows "\<exists>b s'. load_phdr fp h s = Some (b, s') \<and>
    (if b then segment_ok h (int (length B)) \<and>
       read_user (p_memsz h) (p_vaddr h) s' = Some (take (p_filesz h) (drop (p_offset h) B) @ replicate (p_memsz h - p_filesz h) 0) \<and>
       (\<forall>x. x < p_memsz h \<longrightarrow> (kaddr True (p_vaddr h + x) s' \<noteq> None) = (p_flags h AND PF_W \<noteq> 0)) \<and>
       (\<forall>q. q \<notin> {first_page h..<first_page h + page_count h} \<longrightarrow> mapping pd (vms s') q = mapping pd (vms s) q)
     else \<not> segment_ok h (int (length B)) \<or> load_refused pd B (p_offset h + p_filesz h) (first_page h) (page_count h) s s')"
proof -
  have len: "file_length fp (fsys s) = Some (int (length B))" "length B < 2 ^ 31" using file_ready_length [OF f] by simp_all
  then have val: "validate_segment h fp (fsys s) = Some (segment_ok h (int (length B)))" by (simp add: validate_segment_def)
  have ty: "PT_LOAD \<noteq> PT_DYNAMIC" "PT_LOAD \<noteq> PT_INTERP" "PT_LOAD \<noteq> PT_SHLIB"
    by (simp_all add: PT_LOAD_def PT_DYNAMIC_def PT_INTERP_def PT_SHLIB_def)
  show ?thesis
  proof (cases "segment_ok h (int (length B))")
    case False
    then have "load_phdr fp h s = Some (False, s)" using t ty val by (simp add: load_phdr_def)
    then show ?thesis using False by (intro exI [of _ False] exI [of _ s]) simp
  next
    case True
    let ?w = "p_flags h AND PF_W \<noteq> 0" and ?po = "p_vaddr h mod 4096" and ?fo = "p_offset h div 4096" and ?N = "page_count h" and ?u = "first_page h"
    define r where "r = (if p_filesz h > 0 then ?po + p_filesz h else 0)"
    note lt = read_phdr_less [of bs, folded h]
    note D = segment_okD [OF True len(2) lt]
    note A = segment_args [OF D(5,3,4), folded r_def]
    have off: "4096 * ?fo + ?po = p_offset h" using D(1) by (metis div_mult_mod_eq mult.commute)
    have va: "4096 * ?u + ?po = p_vaddr h" by (simp add: first_page_def)
    have mask: "p_offset h AND not32 PGMASK = 4096 * ?fo" "p_vaddr h AND not32 PGMASK = 4096 * ?u"
      using and_page_mask lt(1,2) by (simp_all add: first_page_def mult.commute)
    have ol: "4096 * ?fo < 2 ^ 31" using D(2) len(2) off by simp
    then have oi: "i32 (int (4096 * ?fo)) = int (4096 * ?fo)" by (intro i32_id) (simp add: in_i32_def)
    obtain f1 where f1: "file_seek fp (int (4096 * ?fo)) (fsys s) = Some f1" "file_ready fp B (4096 * ?fo) f1" "mem f1 = mem (fsys s)"
      using file_seek_ready [OF f ol] by blast
    let ?s1 = "s\<lparr>fsys := f1\<rparr>"
    have vm1: "vm_ready pd ?s1" "file_ready fp B (4096 * ?fo) (fsys ?s1)" using vm f1(2) by (simp_all add: vm_ready_def)
    have rN: "r + (4096 * ?N - r) = 4096 * ?N" using A(2) by simp
    from segment_loop_ok [OF vm1 A(3) rN, of ?w] obtain b s' where
      l: "segment_loop fp (4096 * ?u) r (4096 * ?N - r) ?w ?s1 = Some (b, s')"
        "if b then kern s' = kern ?s1 \<and> vm_ready pd s' \<and> segment_loaded pd ?u ?N ?w (segment_image B (4096 * ?fo) r (4096 * ?N - r)) (vms ?s1) (vms s')
         else load_refused pd B (4096 * ?fo + r) ?u ?N ?s1 s'" by blast
    have run: "load_phdr fp h s = Some (b, s')"
    proof -
      have "u32 (r + (4096 * ?N - r)) mod PGSIZE = 0" unfolding rN by (simp add: u32_def PGSIZE_def PGBITS_def mod_mod_cancel)
      moreover have "pg_ofs (4096 * ?u) = 0" by (simp add: pg_ofs_mod)
      moreover have "int (4096 * ?fo) mod int PGSIZE = 0" by (simp add: PGSIZE_def PGBITS_def)
      ultimately have "load_segment fp (int (4096 * ?fo)) (4096 * ?u) r (4096 * ?N - r) ?w s = Some (b, s')"
        using f1(1) l(1) by (simp add: load_segment_def)
      then show ?thesis using t ty val True oi unfolding load_phdr_def mask A(1) by simp
    qed
    show ?thesis
    proof (cases b)
      case False
      then have "load_refused pd B (p_offset h + p_filesz h) ?u ?N s s'"
        using l(2) f1(3) off D(2) by (auto simp: load_refused_def r_def split: if_splits)
      then show ?thesis using run False by (intro exI [of _ False] exI [of _ s']) simp
    next
      case yes: True
      then have vm': "vm_ready pd s'" and ld: "segment_loaded pd ?u ?N ?w (segment_image B (4096 * ?fo) r (4096 * ?N - r)) (vms s) (vms s')"
        using l(2) by simp_all
      have act: "active_pd (vms s') = Some pd" using a survivesD(6) ld by (metis active_pd_def segment_loaded_def)
      have il: "length (segment_image B (4096 * ?fo) r (4096 * ?N - r)) = 4096 * ?N" using ld unfolding segment_loaded_def by blast
      have rd: "read_user (p_memsz h) (p_vaddr h) s' = Some (take (p_filesz h) (drop (p_offset h) B) @ replicate (p_memsz h - p_filesz h) 0)"
        using segment_read [OF ld vm' act A(3,4)] segment_slice [OF il A(2,4) D(3) r_def] unfolding va off by simp
      have wr: "(kaddr True (p_vaddr h + x) s' \<noteq> None) = ?w" if "x < p_memsz h" for x
      proof -
        have "?po + x < 4096 * ?N" using that A(4) by simp
        from segment_byte [OF ld vm' act A(3) this, of True] show ?thesis using va by (auto simp: add.assoc [symmetric] split: if_splits)
      qed
      have "mapping pd (vms s') q = mapping pd (vms s) q" if "q \<notin> {?u..<?u + ?N}" for q
      proof -
        have "q < 768 * 1024 \<Longrightarrow> entry pd (vms s') q = entry pd (vms s) q" using ld that unfolding segment_loaded_def by blast
        then show ?thesis by (cases "q < 768 * 1024") (simp_all add: mapping_def)
      qed
      then show ?thesis using run yes True rd wr by (intro exI [of _ True] exI [of _ s']) simp
    qed
  qed
qed

text \<open>A header for 16 bytes at \<open>0x8048010\<close>, 8 of them from the file, and an open file of zeros.\<close>

definition sample_phdr :: "byte list" where
  "sample_phdr = le32 1 @ le32 0x10 @ le32 0x8048010 @ le32 0 @ le32 8 @ le32 16 @ le32 2 @ le32 0"

definition sample_loading :: proc where
  "sample_loading = sample_proc\<lparr>fsys := sample_fs\<lparr>files := [7 \<mapsto> \<lparr>f_inode = 1, f_pos = 0, f_deny_write = False\<rparr>]\<rparr>\<rparr>"

lemma load_phdr_correct_witness:
  "\<exists>s'. load_phdr 7 (read_phdr sample_phdr) sample_loading = Some (True, s') \<and>
    read_user 16 0x8048010 s' = Some (replicate 16 0)"
proof -
  let ?s = sample_loading and ?h = "read_phdr sample_phdr" and ?B = "replicate 1000 (0 :: byte)"
  have h: "p_type ?h = 1" "p_offset ?h = 0x10" "p_vaddr ?h = 0x8048010" "p_filesz ?h = 8" "p_memsz ?h = 16" "p_flags ?h = 2"
    by (simp_all add: read_phdr_def sample_phdr_def of_le32_le32 drop_append)
  have v: "vms ?s = vms sample_proc" "kern ?s = kern sample_proc" by (simp_all add: sample_loading_def)
  have pools: "kernel_pool (pmem (vms sample_proc)) = kernel_pool (pmem sample_vm)" "user_pool (pmem (vms sample_proc)) = user_pool (pmem sample_vm)"
    by (simp_all add: sample_proc_def)
  have "pool_range (user_pool (pmem sample_vm)) = {0xc0200000..<0xc0205000}" by (simp add: pool_range_def sample_vm_def)
  then have rdy: "vm_ready 0xc0100000 ?s"
    using sample_proc_vm(1) unfolding vm_ready_def v pools
    by (auto simp: sample_proc_def booted_def thread_current_def sample_vm_def PHYS_BASE_def NULL_def)
  have a: "active_pd (vms ?s) = Some 0xc0100000" by (simp add: v sample_proc_def sample_vm_def active_pd_def ptov_def PHYS_BASE_def)
  obtain i where i: "inodes sample_fs 1 = Some i" "start (i_data i) = 4" "i_length (i_data i) = 1000" by (simp add: sample_fs_def)
  have "dev.byte_at (fs_device sample_fs) k = 0" for k by (simp add: dev.byte_at_def sample_fs_def)
  from ibytes_zero [OF this, of "i_data i"] have B: "ibytes (i_data i) (fs_device sample_fs) = ?B" using i(3) by simp
  have "dev_ok (fs_device sample_fs)" "ino_ok (i_data i) (fs_device sample_fs)" using i(2,3) by (simp_all add: sample_fs_def dev_ok_def ino_ok_def)
  then have f: "file_ready 7 ?B 0 (fsys ?s)" using i(1) B by (simp add: file_ready_def sample_loading_def)
  have pages: "first_page ?h = 0x8048" "page_count ?h = 1" by (simp_all add: first_page_def page_count_def h)
  have ok: "segment_ok ?h (int (length ?B))"
    unfolding segment_ok_def and_PGMASK by (simp add: h is_user_vaddr_def PHYS_BASE_def u32_def PGSIZE_def PGBITS_def)
  have e0: "rd32 a sample_vm = 0" for a
  proof -
    have "ram_word (ram (pmem sample_vm)) a = 0" by (rule bit_word_eqI) (simp add: ram_word_bit sample_vm_def)
    then show ?thesis by (simp add: rd32_def)
  qed
  have u0: "bm.used (used_map (user_pool (pmem sample_vm))) = {}" "bm.used (used_map (kernel_pool (pmem sample_vm))) = {0}"
    by (auto simp: bm.used_def sample_vm_def nth_bits_of bit_at_def bit_1_iff)
  have "\<not> no_room 1 (user_pool (pmem sample_vm))" "\<not> no_room 1 (kernel_pool (pmem sample_vm))"
    unfolding no_room_def pool_used_def page_span_def u0 by (auto simp: sample_vm_def intro: exI [of _ 0] exI [of _ 1])
  then have room: "\<not> no_pages (pmem (vms ?s))" unfolding v no_pages_def pools by blast
  have none: "mapping 0xc0100000 (vms ?s) q = None" for q unfolding v by (rule sample_proc_vm(2))
  have mem: "mem (fsys ?s) = []" by (simp add: sample_loading_def sample_fs_def)
  have not_refused: "\<not> load_refused 0xc0100000 ?B (0x10 + 8) 0x8048 1 ?s s'" for s'
    using mem none room by (simp add: load_refused_def)
  have ty: "p_type ?h = PT_LOAD" by (simp add: h PT_LOAD_def)
  from load_phdr_correct [OF rdy a f HOL.refl ty] obtain b s' where r: "load_phdr 7 ?h ?s = Some (b, s')"
    "if b then read_user 16 0x8048010 s' = Some (take 8 (drop 16 ?B) @ replicate (16 - 8) 0)
     else \<not> segment_ok ?h (int (length ?B)) \<or> load_refused 0xc0100000 ?B (0x10 + 8) 0x8048 1 ?s s'"
    unfolding pages h by (auto split: if_splits)
  then have "b" using not_refused ok by (cases b) auto
  then show ?thesis using r by (simp flip: replicate_add)
qed

end
