(* ===== verification/Printf.thy ===== *)
theory Printf
  imports Stdlib_Ops
begin

unbundle bit_operations_syntax

text \<open>
  \<open>lib/stdio.c\<close>: \<open>__vprintf\<close> and its helpers, and \<open>vsnprintf\<close>. A function
  pointer \<open>output\<close> and its \<open>aux\<close> are a function on a state that the definitions thread through.
  The variable arguments are the 32-bit words that the caller pushed, two for a 64-bit value;
  taking one that is not there is \<^term>\<open>None\<close>. The format and the strings are read from a memory
  that \<open>output\<close> does not change: C leaves overlapping arguments undefined.
\<close>

section \<open>Conversions\<close>

record conv_flags =
  fl_minus :: bool
  fl_plus :: bool
  fl_space :: bool
  fl_pound :: bool
  fl_zero :: bool
  fl_group :: bool

datatype conv_type = CHAR' | SHORT | INT' | INTMAX | LONG | LONGLONG | PTRDIFFT | SIZET

record printf_conversion =
  c_flags :: conv_flags
  c_width :: int
  c_precision :: int
  c_type :: conv_type

record integer_base =
  ib_base :: nat
  ib_digits :: "byte list"
  ib_x :: byte
  ib_group :: nat

definition base_d :: integer_base where "base_d = \<lparr>ib_base = 10, ib_digits = ascii ''0123456789'', ib_x = 0, ib_group = 3\<rparr>"
definition base_o :: integer_base where "base_o = \<lparr>ib_base = 8, ib_digits = ascii ''01234567'', ib_x = 0, ib_group = 3\<rparr>"
definition base_x :: integer_base where "base_x = \<lparr>ib_base = 16, ib_digits = ascii ''0123456789abcdef'', ib_x = 120, ib_group = 4\<rparr>"
definition base_X :: integer_base where "base_X = \<lparr>ib_base = 16, ib_digits = ascii ''0123456789ABCDEF'', ib_x = 88, ib_group = 4\<rparr>"

section \<open>Arguments\<close>

type_synonym va_list = "32 word list"

fun arg32 :: "va_list \<Rightarrow> (32 word \<times> va_list) option" where
  "arg32 [] = None"
| "arg32 (w # ws) = Some (w, ws)"

fun arg64 :: "va_list \<Rightarrow> (64 word \<times> va_list) option" where
  "arg64 (lo # hi # ws) = Some (ucast lo OR push_bit 32 (ucast hi), ws)"
| "arg64 _ = None"

text \<open>The argument of a signed conversion, as an \<open>intmax_t\<close>, and of an unsigned one, as a \<open>uintmax_t\<close>.\<close>

fun signed_arg :: "conv_type \<Rightarrow> va_list \<Rightarrow> (int \<times> va_list) option" where
  "signed_arg CHAR' args = do { (w, args) \<leftarrow> arg32 args; Some (sint (ucast w :: 8 word), args) }"
| "signed_arg SHORT args = do { (w, args) \<leftarrow> arg32 args; Some (sint (ucast w :: 16 word), args) }"
| "signed_arg INT' args = do { (w, args) \<leftarrow> arg32 args; Some (sint w, args) }"
| "signed_arg INTMAX args = do { (w, args) \<leftarrow> arg64 args; Some (sint w, args) }"
| "signed_arg LONG args = do { (w, args) \<leftarrow> arg32 args; Some (sint w, args) }"
| "signed_arg LONGLONG args = do { (w, args) \<leftarrow> arg64 args; Some (sint w, args) }"
| "signed_arg PTRDIFFT args = do { (w, args) \<leftarrow> arg32 args; Some (sint w, args) }"
| "signed_arg SIZET args = do {
     (w, args) \<leftarrow> arg32 args;
     let value = uint w;
     Some (if value > (2 ^ 32 - 1) div 2 then value - (2 ^ 32 - 1) - 1 else value, args) }"

fun unsigned_arg :: "conv_type \<Rightarrow> va_list \<Rightarrow> (nat \<times> va_list) option" where
  "unsigned_arg CHAR' args = do { (w, args) \<leftarrow> arg32 args; Some (unat (ucast w :: 8 word), args) }"
| "unsigned_arg SHORT args = do { (w, args) \<leftarrow> arg32 args; Some (unat (ucast w :: 16 word), args) }"
| "unsigned_arg INT' args = do { (w, args) \<leftarrow> arg32 args; Some (unat w, args) }"
| "unsigned_arg INTMAX args = do { (w, args) \<leftarrow> arg64 args; Some (unat w, args) }"
| "unsigned_arg LONG args = do { (w, args) \<leftarrow> arg32 args; Some (unat w, args) }"
| "unsigned_arg LONGLONG args = do { (w, args) \<leftarrow> arg64 args; Some (unat w, args) }"
| "unsigned_arg PTRDIFFT args = do {
     (w, args) \<leftarrow> arg32 args;
     Some (unat ((scast w :: 64 word) AND (push_bit 1 (2 ^ 31 - 1) OR 1)), args) }"
| "unsigned_arg SIZET args = do { (w, args) \<leftarrow> arg32 args; Some (unat w, args) }"

section \<open>Output of one conversion\<close>

primrec output_dup :: "byte \<Rightarrow> nat \<Rightarrow> (byte \<Rightarrow> 'a \<Rightarrow> 'a) \<Rightarrow> 'a \<Rightarrow> 'a" where
  "output_dup ch 0 output aux = aux"
| "output_dup ch (Suc cnt) output aux = output_dup ch cnt output (output ch aux)"

text \<open>The buffer \<open>buf\<close> of \<open>format_integer\<close> up to \<open>cp\<close>; storing past its 64 bytes is \<^term>\<open>None\<close>.\<close>

definition buf_put :: "byte list \<Rightarrow> byte \<Rightarrow> byte list option" where
  "buf_put cp c = do { _ \<leftarrow> ASSERT (length cp < 64); Some (cp @ [c]) }"

partial_function (option) int_digits :: "bool \<Rightarrow> integer_base \<Rightarrow> nat \<Rightarrow> nat \<Rightarrow> byte list \<Rightarrow> byte list option" where
  "int_digits grp b value digit_cnt cp =
     (if value > 0 then do {
        cp \<leftarrow> (if grp \<and> digit_cnt > 0 \<and> digit_cnt mod ib_group b = 0 then buf_put cp 44 else Some cp);
        cp \<leftarrow> buf_put cp (ib_digits b ! (value mod ib_base b));
        int_digits grp b (value div ib_base b) (digit_cnt + 1) cp }
      else Some cp)"

function zeros_loop :: "int \<Rightarrow> byte list \<Rightarrow> byte list" where
  "zeros_loop precision cp =
     (if int (length cp) < precision \<and> length cp < 63 then zeros_loop precision (cp @ [48]) else cp)"
  by pat_completeness auto
termination by (relation "measure (\<lambda>(p, cp). 63 - length cp)") auto

declare zeros_loop.simps [simp del]

definition sign_char :: "conv_flags \<Rightarrow> bool \<Rightarrow> bool \<Rightarrow> byte" where
  "sign_char f is_signed negative =
     (if is_signed then
        if fl_plus f then (if negative then 45 else 43)
        else if fl_space f then (if negative then 45 else 32)
        else if negative then 45 else 0
      else 0)"

definition format_integer ::
  "nat \<Rightarrow> bool \<Rightarrow> bool \<Rightarrow> integer_base \<Rightarrow> printf_conversion \<Rightarrow> (byte \<Rightarrow> 'a \<Rightarrow> 'a) \<Rightarrow> 'a \<Rightarrow> 'a option" where
  "format_integer value is_signed negative b c output aux = do {
     let f = c_flags c;
     let sign = sign_char f is_signed negative;
     let x = (if fl_pound f \<and> value \<noteq> 0 then ib_x b else 0);
     cp \<leftarrow> int_digits (fl_group f) b value 0 [];
     let precision = (if c_precision c < 0 then 1 else c_precision c);
     let cp = zeros_loop precision cp;
     cp \<leftarrow> (if fl_pound f \<and> ib_base b = 8 \<and> (cp = [] \<or> last cp \<noteq> 48) then buf_put cp 48 else Some cp);
     let pad_cnt = i32 (c_width c - int (length cp) - (if x \<noteq> 0 then 2 else 0) - (if sign \<noteq> 0 then 1 else 0));
     let pad_cnt = (if pad_cnt < 0 then 0 else nat pad_cnt);
     let aux = (if \<not> fl_minus f \<and> \<not> fl_zero f then output_dup 32 pad_cnt output aux else aux);
     let aux = (if sign \<noteq> 0 then output sign aux else aux);
     let aux = (if x \<noteq> 0 then output x (output 48 aux) else aux);
     let aux = (if fl_zero f then output_dup 48 pad_cnt output aux else aux);
     let aux = fold output (rev cp) aux;
     Some (if fl_minus f then output_dup 32 pad_cnt output aux else aux) }"

text \<open>The string is a function from indices; a negative length prints nothing.\<close>

definition format_string ::
  "(nat \<Rightarrow> byte) \<Rightarrow> int \<Rightarrow> printf_conversion \<Rightarrow> (byte \<Rightarrow> 'a \<Rightarrow> 'a) \<Rightarrow> 'a \<Rightarrow> 'a" where
  "format_string string len c output aux =
     (let pad_cnt = nat (i32 (c_width c - len) mod 2 ^ 32);
          aux = (if c_width c > len \<and> \<not> fl_minus (c_flags c) then output_dup 32 pad_cnt output aux else aux);
          aux = fold (\<lambda>i. output (string i)) [0..<nat len] aux
      in if c_width c > len \<and> fl_minus (c_flags c) then output_dup 32 pad_cnt output aux else aux)"

section \<open>Parsing a conversion\<close>

text \<open>The flag characters, as updates.\<close>

definition set_flag :: "byte \<Rightarrow> (conv_flags \<Rightarrow> conv_flags) option" where
  "set_flag ch =
     (if ch = 45 then Some (\<lambda>f. f\<lparr>fl_minus := True\<rparr>)
      else if ch = 43 then Some (\<lambda>f. f\<lparr>fl_plus := True\<rparr>)
      else if ch = 32 then Some (\<lambda>f. f\<lparr>fl_space := True\<rparr>)
      else if ch = 35 then Some (\<lambda>f. f\<lparr>fl_pound := True\<rparr>)
      else if ch = 48 then Some (\<lambda>f. f\<lparr>fl_zero := True\<rparr>)
      else if ch = 39 then Some (\<lambda>f. f\<lparr>fl_group := True\<rparr>)
      else None)"

partial_function (option) flags_loop :: "addr \<Rightarrow> conv_flags \<Rightarrow> ram \<Rightarrow> (addr \<times> conv_flags) option" where
  "flags_loop format f m =
     (case set_flag (m format) of Some g \<Rightarrow> flags_loop (format + 1) (g f) m | None \<Rightarrow> Some (format, f))"

partial_function (option) number_loop :: "addr \<Rightarrow> int \<Rightarrow> ram \<Rightarrow> (addr \<times> int) option" where
  "number_loop format n m =
     (if is_digit (m format) then number_loop (format + 1) (i32 (n * 10 + uint (m format) - 48)) m else Some (format, n))"

definition no_flags :: conv_flags where
  "no_flags = \<lparr>fl_minus = False, fl_plus = False, fl_space = False, fl_pound = False, fl_zero = False, fl_group = False\<rparr>"

definition parse_type :: "addr \<Rightarrow> ram \<Rightarrow> conv_type \<times> addr" where
  "parse_type format m =
     (if m format = 104 then if m (format + 1) = 104 then (CHAR', format + 2) else (SHORT, format + 1)
      else if m format = 106 then (INTMAX, format + 1)
      else if m format = 108 then if m (format + 1) = 108 then (LONGLONG, format + 2) else (LONG, format + 1)
      else if m format = 116 then (PTRDIFFT, format + 1)
      else if m format = 122 then (SIZET, format + 1)
      else (INT', format))"

definition parse_conversion :: "addr \<Rightarrow> va_list \<Rightarrow> ram \<Rightarrow> (addr \<times> printf_conversion \<times> va_list) option" where
  "parse_conversion format args m = do {
     (format, f) \<leftarrow> flags_loop format no_flags m;
     let f = (if fl_minus f then f\<lparr>fl_zero := False\<rparr> else f);
     let f = (if fl_plus f then f\<lparr>fl_space := False\<rparr> else f);
     (format, width, args) \<leftarrow>
       (if m format = 42 then do { (w, args) \<leftarrow> arg32 args; Some (format + 1, sint w, args) }
        else do { (format, n) \<leftarrow> number_loop format 0 m; Some (format, n, args) });
     let (width, f) = (if width < 0 then (i32 (- width), f\<lparr>fl_minus := True\<rparr>) else (width, f));
     (format, precision, args) \<leftarrow>
       (if m format = 46 then do {
          (format, n, args) \<leftarrow>
            (if m (format + 1) = 42 then do { (w, args) \<leftarrow> arg32 args; Some (format + 2, sint w, args) }
             else do { (format, n) \<leftarrow> number_loop (format + 1) 0 m; Some (format, n, args) });
          Some (format, if n < 0 then -1 else n, args) }
        else Some (format, -1, args));
     let f = (if precision \<ge> 0 then f\<lparr>fl_zero := False\<rparr> else f);
     let (t, format) = parse_type format m;
     Some (format, \<lparr>c_flags = f, c_width = width, c_precision = precision, c_type = t\<rparr>, args) }"

section \<open>Formatted printing\<close>

definition null_string :: ram where
  "null_string i = (if i < 6 then ascii ''(null)'' ! i else 0)"

text \<open>
  One conversion. The two messages are what the nested calls of \<open>__printf\<close> with \<open>%%\<close> and \<open>%c\<close>
  write (lemma \<open>no_conversion_text\<close>).
\<close>

definition do_conversion ::
  "byte \<Rightarrow> printf_conversion \<Rightarrow> va_list \<Rightarrow> (byte \<Rightarrow> 'a \<Rightarrow> 'a) \<Rightarrow> ram \<Rightarrow> 'a \<Rightarrow> (va_list \<times> 'a) option" where
  "do_conversion ch c args output m aux =
     (if ch = 100 \<or> ch = 105 then do {
        (value, args) \<leftarrow> signed_arg (c_type c) args;
        aux \<leftarrow> format_integer (nat (if value < 0 then - value else value)) True (value < 0) base_d c output aux;
        Some (args, aux) }
      else if ch = 111 \<or> ch = 117 \<or> ch = 120 \<or> ch = 88 then do {
        (value, args) \<leftarrow> unsigned_arg (c_type c) args;
        let b = (if ch = 111 then base_o else if ch = 117 then base_d else if ch = 120 then base_x else base_X);
        aux \<leftarrow> format_integer value False False b c output aux;
        Some (args, aux) }
      else if ch = 99 then do {
        (w, args) \<leftarrow> arg32 args;
        Some (args, format_string (\<lambda>_. ucast w) 1 c output aux) }
      else if ch = 115 then do {
        (w, args) \<leftarrow> arg32 args;
        let (s, ms) = (if unat w = NULL then (0, null_string) else (unat w, m));
        let len = i32 (int (strnlen s (nat (c_precision c mod 2 ^ 32)) ms));
        Some (args, format_string (\<lambda>i. ms (s + i)) len c output aux) }
      else if ch = 112 then do {
        (w, args) \<leftarrow> arg32 args;
        aux \<leftarrow> format_integer (unat w) False False base_x (c\<lparr>c_flags := no_flags\<lparr>fl_pound := True\<rparr>\<rparr>) output aux;
        Some (args, aux) }
      else if ch \<in> set (ascii ''feEgGn'') then
        Some (args, fold output (ascii ''<<no %'' @ [ch] @ ascii '' in kernel>>'') aux)
      else Some (args, fold output (ascii ''<<no %'' @ [ch] @ ascii '' conversion>>'') aux))"

partial_function (option) vprintf_to :: "addr \<Rightarrow> va_list \<Rightarrow> (byte \<Rightarrow> 'a \<Rightarrow> 'a) \<Rightarrow> ram \<Rightarrow> 'a \<Rightarrow> 'a option" where
  "vprintf_to format args output m aux =
     (if m format = 0 then Some aux
      else if m format \<noteq> 37 then vprintf_to (format + 1) args output m (output (m format) aux)
      else if m (format + 1) = 37 then vprintf_to (format + 2) args output m (output 37 aux)
      else do {
        (format, c, args) \<leftarrow> parse_conversion (format + 1) args m;
        (args, aux) \<leftarrow> do_conversion (m format) c args output m aux;
        vprintf_to (format + 1) args output m aux })"

declare int_digits.simps [code] flags_loop.simps [code] number_loop.simps [code] vprintf_to.simps [code]

section \<open>Printing into a buffer\<close>

record vsnprintf_aux =
  out_p :: addr
  out_length :: int
  max_length :: int
  out_ram :: ram

definition vsnprintf_helper :: "byte \<Rightarrow> vsnprintf_aux \<Rightarrow> vsnprintf_aux" where
  "vsnprintf_helper ch s =
     (let n = out_length s;
          s = s\<lparr>out_length := i32 (n + 1)\<rparr>
      in if n < max_length s then s\<lparr>out_ram := (out_ram s)(out_p s := ch), out_p := out_p s + 1\<rparr> else s)"

definition vsnprintf :: "addr \<Rightarrow> nat \<Rightarrow> addr \<Rightarrow> va_list \<Rightarrow> ram \<Rightarrow> (int \<times> ram) option" where
  "vsnprintf buffer buf_size format args m = do {
     s \<leftarrow> vprintf_to format args vsnprintf_helper m
       \<lparr>out_p = buffer, out_length = 0, max_length = (if buf_size > 0 then i32 (int (buf_size - 1)) else 0), out_ram = m\<rparr>;
     Some (out_length s, if buf_size > 0 then (out_ram s)(out_p s := 0) else out_ram s) }"

end
