(* ===== verification/Printf_Props.thy ===== *)
theory Printf_Props
  imports Printf
begin

text \<open>
  What formatted printing writes: every output function receives the same characters; an integer
  always fits the buffer of \<open>format_integer\<close> and is read back by \<open>atoi\<close>; \<open>vsnprintf\<close> stays in its
  buffer.
\<close>

section \<open>Digits\<close>

text \<open>The digits of a value, the lowest first, with the commas of the \<open>'\<close> flag.\<close>

function digit_list :: "bool \<Rightarrow> integer_base \<Rightarrow> nat \<Rightarrow> nat \<Rightarrow> byte list" where
  "digit_list grp b value cnt =
     (if value = 0 \<or> ib_base b < 2 then []
      else (if grp \<and> cnt > 0 \<and> cnt mod ib_group b = 0 then [44] else []) @
        ib_digits b ! (value mod ib_base b) # digit_list grp b (value div ib_base b) (cnt + 1))"
  by pat_completeness auto
termination by (relation "measure (\<lambda>(g, b, v, c). v)") auto

declare digit_list.simps [simp del]

lemma digit_list_length: "2 \<le> ib_base b \<Longrightarrow> v < ib_base b ^ k \<Longrightarrow> length (digit_list grp b v cnt) \<le> 2 * k"
proof (induction k arbitrary: v cnt)
  case 0
  then show ?case by (subst digit_list.simps) simp
next
  case (Suc k)
  have "v div ib_base b < ib_base b ^ k" using Suc.prems by (simp add: div_less_iff_less_mult mult.commute)
  then show ?case using Suc.IH [OF Suc.prems(1), of "v div ib_base b" "cnt + 1"] by (subst digit_list.simps) auto
qed

lemma int_digits_eq:
  "2 \<le> ib_base b \<Longrightarrow> length cp + length (digit_list grp b v cnt) \<le> 64 \<Longrightarrow>
    int_digits grp b v cnt cp = Some (cp @ digit_list grp b v cnt)"
proof (induction grp b v cnt arbitrary: cp rule: digit_list.induct)
  case (1 grp b v cnt)
  show ?case
  proof (cases "v = 0")
    case True
    then show ?thesis by (subst int_digits.simps, subst digit_list.simps) simp
  next
    case False
    let ?c = "if grp \<and> cnt > 0 \<and> cnt mod ib_group b = 0 then [44 :: byte] else []" and ?d = "ib_digits b ! (v mod ib_base b)"
    let ?rest = "digit_list grp b (v div ib_base b) (cnt + 1)"
    have eq: "digit_list grp b v cnt = ?c @ ?d # ?rest" using False 1(2) by (subst digit_list.simps) simp
    have len: "length cp + length ?c + 1 + length ?rest \<le> 64" using 1(3) unfolding eq length_append list.size by linarith
    then have "int_digits grp b (v div ib_base b) (cnt + 1) ((cp @ ?c) @ [?d]) = Some (((cp @ ?c) @ [?d]) @ ?rest)"
      using False 1(2) by (intro 1(1)) simp_all
    moreover have l: "length cp + length ?c < 64" using len by linarith
    then have "(if grp \<and> cnt > 0 \<and> cnt mod ib_group b = 0 then buf_put cp 44 else Some cp) = Some (cp @ ?c)"
      by (cases "grp \<and> cnt > 0 \<and> cnt mod ib_group b = 0") (simp_all add: buf_put_def)
    moreover have "buf_put (cp @ ?c) ?d = Some ((cp @ ?c) @ [?d])" using l unfolding buf_put_def length_append by simp
    ultimately show ?thesis unfolding eq using False by (subst int_digits.simps) simp
  qed
qed

lemma zeros_loop_eq: "zeros_loop p cp = cp @ replicate (nat (min p 63) - length cp) 48"
proof (induction p cp rule: zeros_loop.induct)
  case (1 p cp)
  show ?case
  proof (cases "int (length cp) < p \<and> length cp < 63")
    case True
    then have "nat (min p 63) - length cp = Suc (nat (min p 63) - Suc (length cp))" by linarith
    then show ?thesis using 1 True by (subst zeros_loop.simps) (simp add: replicate_append_same [symmetric])
  next
    case False
    then have "nat (min p 63) - length cp = 0" by linarith
    then show ?thesis using False by (subst zeros_loop.simps) (simp only: if_False replicate.simps append_Nil2)
  qed
qed

section \<open>The characters of a conversion\<close>

lemma output_dup_fold: "output_dup ch n output aux = fold output (replicate n ch) aux"
  by (induction n arbitrary: aux) simp_all

definition int_body :: "nat \<Rightarrow> integer_base \<Rightarrow> printf_conversion \<Rightarrow> byte list" where
  "int_body value b c =
     (let cp = zeros_loop (if c_precision c < 0 then 1 else c_precision c) (digit_list (fl_group (c_flags c)) b value 0)
      in rev (if fl_pound (c_flags c) \<and> ib_base b = 8 \<and> (cp = [] \<or> last cp \<noteq> 48) then cp @ [48] else cp))"

definition int_text :: "nat \<Rightarrow> bool \<Rightarrow> bool \<Rightarrow> integer_base \<Rightarrow> printf_conversion \<Rightarrow> byte list" where
  "int_text value is_signed negative b c =
     (let f = c_flags c; sign = sign_char f is_signed negative;
          x = (if fl_pound f \<and> value \<noteq> 0 then ib_x b else 0);
          body = int_body value b c;
          pad = nat (i32 (c_width c - int (length body) - (if x \<noteq> 0 then 2 else 0) - (if sign \<noteq> 0 then 1 else 0)))
      in (if \<not> fl_minus f \<and> \<not> fl_zero f then replicate pad 32 else []) @
         (if sign \<noteq> 0 then [sign] else []) @ (if x \<noteq> 0 then [48, x] else []) @
         (if fl_zero f then replicate pad 48 else []) @ body @
         (if fl_minus f then replicate pad 32 else []))"

definition known_base :: "integer_base \<Rightarrow> bool" where
  "known_base b \<longleftrightarrow> b \<in> {base_d, base_o, base_x, base_X}"

lemma known_base_digits:
  assumes "known_base b" and v: "v < 2 ^ 64"
  shows "2 \<le> ib_base b" "length (digit_list grp b v cnt) \<le> 44"
proof -
  have k: "ib_base b = 10 \<or> ib_base b = 8 \<or> ib_base b = 16"
    using assms(1) by (auto simp: known_base_def base_d_def base_o_def base_x_def base_X_def)
  then show b: "2 \<le> ib_base b" by auto
  have "(2 :: nat) ^ 64 \<le> 8 ^ 22" "(8 :: nat) ^ 22 \<le> 10 ^ 22" "(8 :: nat) ^ 22 \<le> 16 ^ 22" by simp_all
  then have "v < ib_base b ^ 22" using k v by (elim disjE) simp_all
  from digit_list_length [OF b this] show "length (digit_list grp b v cnt) \<le> 44" by simp
qed

lemma format_integer_text:
  assumes b: "known_base b" and v: "v < 2 ^ 64"
  shows "format_integer v is_signed negative b c output aux = Some (fold output (int_text v is_signed negative b c) aux)"
proof -
  let ?f = "c_flags c" and ?p = "if c_precision c < 0 then 1 else c_precision c"
  let ?ds = "digit_list (fl_group (c_flags c)) b v 0"
  note k = known_base_digits [OF b v]
  have d: "int_digits (fl_group ?f) b v 0 [] = Some ?ds"
    using int_digits_eq [of b "[]" "fl_group ?f" v 0] k(1) k(2) [of "fl_group ?f" 0] by simp
  define cp where "cp = zeros_loop ?p ?ds"
  have "nat (min ?p 63) \<le> 63" by simp
  then have "length cp \<le> 63" unfolding cp_def zeros_loop_eq length_append length_replicate using k(2) [of "fl_group ?f" 0] by linarith
  then have o: "(if fl_pound ?f \<and> ib_base b = 8 \<and> (cp = [] \<or> last cp \<noteq> 48) then buf_put cp 48 else Some cp) = Some (rev (int_body v b c))"
    by (simp add: buf_put_def int_body_def cp_def Let_def)
  have pos: "(if p < 0 then 0 else nat p) = nat p" for p :: int by simp
  define sign where "sign = sign_char ?f is_signed negative"
  define x where "x = (if fl_pound ?f \<and> v \<noteq> 0 then ib_x b else 0)"
  show ?thesis
    unfolding format_integer_def int_text_def Let_def d bind.bind_lunit
    unfolding cp_def [symmetric] sign_def [symmetric] x_def [symmetric] o bind.bind_lunit pos
    by (cases "sign = 0"; cases "x = 0"; simp add: output_dup_fold)
qed

definition string_text :: "(nat \<Rightarrow> byte) \<Rightarrow> int \<Rightarrow> printf_conversion \<Rightarrow> byte list" where
  "string_text string len c =
     (let pad = replicate (nat (i32 (c_width c - len) mod 2 ^ 32)) 32
      in (if c_width c > len \<and> \<not> fl_minus (c_flags c) then pad else []) @ map string [0..<nat len] @
         (if c_width c > len \<and> fl_minus (c_flags c) then pad else []))"

lemma format_string_text: "format_string string len c output aux = fold output (string_text string len c) aux"
  by (simp add: format_string_def string_text_def output_dup_fold Let_def fold_map comp_def)

text \<open>One conversion, and the whole format: \<open>vprintf_text\<close> is what \<open>vprintf_to\<close> sends to its output.\<close>

definition conv_text :: "byte \<Rightarrow> printf_conversion \<Rightarrow> va_list \<Rightarrow> ram \<Rightarrow> (va_list \<times> byte list) option" where
  "conv_text ch c args m = do_conversion ch c args (\<lambda>x xs. xs @ [x]) m []"

lemma fold_snoc: "fold (\<lambda>x xs. xs @ [x]) bs ys = ys @ bs"
  by (induction bs arbitrary: ys) simp_all

lemma sint_bound: "LENGTH('a) \<le> 64 \<Longrightarrow> \<bar>sint (w :: 'a::len word)\<bar> < 2 ^ 64"
proof -
  assume "LENGTH('a) \<le> 64"
  then have "(2 :: int) ^ (LENGTH('a) - 1) \<le> 2 ^ 63" by (intro power_increasing) auto
  then show ?thesis using sint_greater_eq [of w] sint_less [of w] by (simp add: abs_less_iff)
qed

lemma unat_bound: "LENGTH('a) \<le> 64 \<Longrightarrow> unat (w :: 'a::len word) < 2 ^ 64"
proof -
  assume "LENGTH('a) \<le> 64"
  then have "(2 :: nat) ^ LENGTH('a) \<le> 2 ^ 64" by (intro power_increasing) auto
  then show ?thesis using unsigned_less [where ?'a = nat and w = w] by linarith
qed

lemma signed_arg_bound: "signed_arg t args = Some (v, rest) \<Longrightarrow> \<bar>v\<bar> < 2 ^ 64"
proof -
  have u: "\<bar>if uint w > (2 ^ 32 - 1) div 2 then uint w - (2 ^ 32 - 1) - 1 else uint w\<bar> < 2 ^ 64" for w :: "32 word"
    using unsigned_less [where ?'a = int and w = w] unsigned_greater_eq [where ?'a = int and w = w] by (auto simp: abs_if)
  assume "signed_arg t args = Some (v, rest)"
  then show ?thesis
    using sint_bound [where 'a = 8] sint_bound [where 'a = 16] sint_bound [where 'a = 32] sint_bound [where 'a = 64] u
    by (cases t) (auto simp del: abs_less_iff simp: Let_def split: Option.bind_splits)
qed

lemma unsigned_arg_bound: "unsigned_arg t args = Some (v, rest) \<Longrightarrow> v < 2 ^ 64"
  using unat_bound [where 'a = 8] unat_bound [where 'a = 16] unat_bound [where 'a = 32] unat_bound [where 'a = 64]
  by (cases t) (auto split: Option.bind_splits)

lemma do_conversion_text:
  "do_conversion ch c args output m aux = map_option (\<lambda>(args, bs). (args, fold output bs aux)) (conv_text ch c args m)"
proof -
  have k: "known_base base_d" "known_base base_o" "known_base base_x" "known_base base_X" by (simp_all add: known_base_def)
  note ft = format_integer_text format_string_text fold_snoc
  consider "ch = 100 \<or> ch = 105" | "ch = 111 \<or> ch = 117 \<or> ch = 120 \<or> ch = 88" | "ch = 99" | "ch = 115" | "ch = 112"
    | "ch \<notin> {100, 105, 111, 117, 120, 88, 99, 115, 112}" by blast
  then show ?thesis
  proof cases
    case 1
    have b: "nat (if v < 0 then - v else v) < 2 ^ 64" if "signed_arg (c_type c) args = Some (v, rest)" for v rest
      using signed_arg_bound [OF that] by (simp add: nat_less_iff abs_if)
    show ?thesis
    proof (cases "signed_arg (c_type c) args")
      case (Some p)
      obtain v rest where p: "p = (v, rest)" by (cases p)
      show ?thesis using 1 Some b [of v rest] unfolding conv_text_def do_conversion_def p
        by (simp add: format_integer_text [OF k(1)] fold_snoc)
    qed (use 1 in \<open>simp add: conv_text_def do_conversion_def\<close>)
  next
    case 2
    show ?thesis
    proof (cases "unsigned_arg (c_type c) args")
      case (Some p)
      obtain v rest where p: "p = (v, rest)" by (cases p)
      have "v < 2 ^ 64" using unsigned_arg_bound Some p by blast
      then show ?thesis using 2 Some unfolding conv_text_def do_conversion_def p
        by (elim disjE) (simp_all add: format_integer_text k fold_snoc)
    qed (use 2 in \<open>auto simp add: conv_text_def do_conversion_def\<close>)
  next
    case 3
    then show ?thesis by (cases args) (simp_all add: conv_text_def do_conversion_def ft)
  next
    case 4
    then show ?thesis by (cases args) (simp_all add: conv_text_def do_conversion_def ft Let_def)
  next
    case 5
    then show ?thesis
    proof (cases args)
      case (Cons w ws)
      have "unat w < 2 ^ 64" by (rule unat_bound) simp
      then show ?thesis using 5 Cons by (simp add: conv_text_def do_conversion_def format_integer_text [OF k(3)] fold_snoc)
    qed (simp add: conv_text_def do_conversion_def)
  next
    case 6
    then show ?thesis by (simp add: conv_text_def do_conversion_def fold_snoc)
  qed
qed

partial_function (option) vprintf_text :: "addr \<Rightarrow> va_list \<Rightarrow> ram \<Rightarrow> byte list option" where
  "vprintf_text format args m =
     (if m format = 0 then Some []
      else if m format \<noteq> 37 then do { bs \<leftarrow> vprintf_text (format + 1) args m; Some (m format # bs) }
      else if m (format + 1) = 37 then do { bs \<leftarrow> vprintf_text (format + 2) args m; Some (37 # bs) }
      else do {
        (format, c, args) \<leftarrow> parse_conversion (format + 1) args m;
        (args, xs) \<leftarrow> conv_text (m format) c args m;
        bs \<leftarrow> vprintf_text (format + 1) args m;
        Some (xs @ bs) })"

lemma vprintf_to_Some: "vprintf_text format args m = Some bs \<Longrightarrow> vprintf_to format args output m aux = Some (fold output bs aux)"
proof (induction format args m bs arbitrary: aux rule: vprintf_text.raw_induct [rotated 1, consumes 1, case_names 1])
  case (1 vp format args m bs)
  note prem = 1(2) and IH = 1(1)
  show ?case
    using prem IH
    by (subst vprintf_to.simps) (auto simp: do_conversion_text split: if_splits Option.bind_splits)
qed

lemma vprintf_text_Some: "vprintf_to format args output m aux = Some r \<Longrightarrow> \<exists>bs. vprintf_text format args m = Some bs \<and> r = fold output bs aux"
proof (induction format args "output" m aux r rule: vprintf_to.raw_induct [rotated 1, consumes 1, case_names 1])
  case (1 vp format args out m aux r)
  note prem = 1(2) and IH = 1(1)
  show ?case
    using prem by (subst vprintf_text.simps) (auto simp: do_conversion_text split: if_splits Option.bind_splits dest!: IH)
qed

lemma vprintf_to_text: "vprintf_to format args output m aux = map_option (\<lambda>bs. fold output bs aux) (vprintf_text format args m)"
proof (cases "vprintf_text format args m")
  case None
  then show ?thesis using vprintf_text_Some [of format args "output" m aux] by (cases "vprintf_to format args output m aux") auto
qed (simp add: vprintf_to_Some)

section \<open>The buffer of vsnprintf\<close>

lemma helper_fold:
  "0 \<le> out_length s \<Longrightarrow> out_length s + int (length bs) < 2 ^ 31 \<Longrightarrow> k = min (length bs) (nat (max_length s - out_length s)) \<Longrightarrow>
    fold vsnprintf_helper bs s = s\<lparr>out_p := out_p s + k, out_length := out_length s + int (length bs),
      out_ram := (\<lambda>a. if out_p s \<le> a \<and> a < out_p s + k then bs ! (a - out_p s) else out_ram s a)\<rparr>"
proof (induction bs arbitrary: s k)
  case Nil
  then show ?case by (cases s) (auto simp: fun_eq_iff)
next
  case (Cons b bs)
  let ?s = "vsnprintf_helper b s"
  have i: "i32 (out_length s + 1) = out_length s + 1" using Cons.prems by (intro i32_id) (simp add: in_i32_def)
  show ?case
  proof (cases "out_length s < max_length s")
    case True
    then have h: "?s = s\<lparr>out_p := out_p s + 1, out_length := out_length s + 1, out_ram := (out_ram s)(out_p s := b)\<rparr>"
      using i by (cases s) (simp add: vsnprintf_helper_def Let_def)
    have k: "k = Suc (min (length bs) (nat (max_length s - (out_length s + 1))))" using True Cons.prems(3) by simp
    have "fold vsnprintf_helper bs ?s = ?s\<lparr>out_p := out_p ?s + (k - 1), out_length := out_length ?s + int (length bs),
        out_ram := (\<lambda>a. if out_p ?s \<le> a \<and> a < out_p ?s + (k - 1) then bs ! (a - out_p ?s) else out_ram ?s a)\<rparr>"
      by (rule Cons.IH) (use Cons.prems(1,2) k in \<open>simp_all add: h\<close>)
    then show ?thesis unfolding h fold_simps comp_apply using k by (cases s) (auto simp: fun_eq_iff nth_Cons' h)
  next
    case False
    then have h: "?s = s\<lparr>out_length := out_length s + 1\<rparr>" using i by (cases s) (simp add: vsnprintf_helper_def Let_def)
    have k: "k = 0" using False Cons.prems(3) by simp
    have "fold vsnprintf_helper bs ?s = ?s\<lparr>out_p := out_p ?s + 0, out_length := out_length ?s + int (length bs),
        out_ram := (\<lambda>a. if out_p ?s \<le> a \<and> a < out_p ?s + 0 then bs ! (a - out_p ?s) else out_ram ?s a)\<rparr>"
      by (rule Cons.IH) (use Cons.prems False in \<open>simp_all add: h\<close>)
    then show ?thesis unfolding h fold_simps comp_apply using k by (cases s) (auto simp: fun_eq_iff h)
  qed
qed

text \<open>
  C38. \<open>vsnprintf\<close> writes exactly the text that any other output function would be given, cut to the
  buffer: the first \<open>buf_size - 1\<close> characters and a terminator, nothing outside the buffer and
  nothing at all for size zero, and it returns the length of the whole text.
\<close>

theorem vsnprintf_correct:
  assumes "vprintf_to format args (\<lambda>ch bs. bs @ [ch]) m [] = Some bs" and "length bs < 2 ^ 31" and "buf_size \<le> 2 ^ 31"
  shows "vsnprintf buffer buf_size format args m = Some (int (length bs), \<lambda>a.
    let k = min (length bs) (buf_size - 1)
    in if buffer \<le> a \<and> a < buffer + k then bs ! (a - buffer) else if 0 < buf_size \<and> a = buffer + k then 0 else m a)"
proof -
  have t: "vprintf_text format args m = Some bs" using assms(1) by (auto simp: vprintf_to_text fold_snoc)
  let ?mx = "if buf_size > 0 then i32 (int (buf_size - 1)) else 0"
  let ?s = "\<lparr>out_p = buffer, out_length = 0, max_length = ?mx, out_ram = m\<rparr>"
  have mx: "?mx = int (buf_size - 1)"
  proof (cases "buf_size > 0")
    case True
    have "buf_size - 1 < 2 ^ 31" using assms(3) True by simp
    then have "int (buf_size - 1) < 2 ^ 31" by (simp flip: of_nat_less_iff)
    then show ?thesis using True by (simp add: i32_id in_i32_def)
  qed simp
  have "int (length bs) < 2 ^ 31" using assms(2) by (simp flip: of_nat_less_iff)
  then have "fold vsnprintf_helper bs ?s = ?s\<lparr>out_p := out_p ?s + min (length bs) (buf_size - 1), out_length := out_length ?s + int (length bs),
      out_ram := (\<lambda>a. if out_p ?s \<le> a \<and> a < out_p ?s + min (length bs) (buf_size - 1) then bs ! (a - out_p ?s) else out_ram ?s a)\<rparr>"
    by (intro helper_fold) (simp_all add: mx)
  then show ?thesis by (auto simp: vsnprintf_def vprintf_to_text t fun_eq_iff Let_def)
qed

section \<open>Printed integers are read back\<close>

lemma digit_char: "n < 10 \<Longrightarrow> uint (ib_digits base_d ! n) = 48 + int n"
proof -
  assume "n < 10"
  then have "n = 0 \<or> n = 1 \<or> n = 2 \<or> n = 3 \<or> n = 4 \<or> n = 5 \<or> n = 6 \<or> n = 7 \<or> n = 8 \<or> n = 9" by auto
  then show ?thesis by (elim disjE) (simp_all add: base_d_def ascii_def)
qed

lemma digit_char_is_digit: "n < 10 \<Longrightarrow> is_digit (ib_digits base_d ! n)"
  using digit_char [of n] by (simp add: is_digit_def word_le_def)

lemma digit_list_digits: "set (digit_list False base_d v cnt) \<subseteq> {d. is_digit d}"
proof (induction "False" base_d v cnt rule: digit_list.induct)
  case (1 v cnt)
  show ?case using 1 digit_char_is_digit by (subst digit_list.simps) (auto simp: base_d_def)
qed

abbreviation add_digit :: "byte \<Rightarrow> int \<Rightarrow> int" where
  "add_digit d v \<equiv> i32 (i32 (v * 10) - (uint d - 48))"

lemma fold_zeros: "fold add_digit (replicate k 48) 0 = 0"
  by (induction k) simp_all

lemma fold_digits: "v \<le> 2 ^ 31 \<Longrightarrow> fold add_digit (rev (digit_list False base_d v cnt)) 0 = - int v"
proof (induction v arbitrary: cnt rule: less_induct)
  case (less v)
  show ?case
  proof (cases "v = 0")
    case True
    then show ?thesis by (subst digit_list.simps) simp
  next
    case False
    have b: "ib_base base_d = 10" by (simp add: base_d_def)
    have "fold add_digit (rev (digit_list False base_d (v div 10) (cnt + 1))) 0 = - int (v div 10)"
      using less False by simp
    moreover have d: "uint (ib_digits base_d ! (v mod 10)) = 48 + int (v mod 10)" by (rule digit_char) simp
    moreover have v: "int v \<le> 2 ^ 31" using less.prems by (simp flip: of_nat_le_iff)
    have e: "int (v div 10) * 10 + int (v mod 10) = int v" by (metis div_mult_mod_eq of_nat_add of_nat_mult of_nat_numeral)
    then have "in_i32 (- int (v div 10) * 10)" "in_i32 (- int (v div 10) * 10 - int (v mod 10))" using v by (auto simp: in_i32_def)
    then have "i32 (i32 (- int (v div 10) * 10) - int (v mod 10)) = - int v" using e by (simp add: i32_id)
    ultimately show ?thesis using False b by (subst digit_list.simps) (simp add: d)
  qed
qed

lemma skip_space_cstr:
  "cstr m s (sp @ rest) \<Longrightarrow> \<forall>c\<in>set sp. is_space c \<Longrightarrow> (rest = [] \<or> \<not> is_space (hd rest)) \<Longrightarrow>
    skip_space s m = Some (s + length sp)"
proof (induction sp arbitrary: s)
  case Nil
  then have "\<not> is_space (m s)" by (cases rest) (auto simp: is_space_def)
  then show ?case by (subst skip_space.simps) simp
next
  case (Cons c sp)
  then show ?case by (subst skip_space.simps) simp
qed

text \<open>\<open>atoi\<close> on spaces, an optional sign, digits and spaces.\<close>

lemma atoi_parts:
  assumes c: "cstr m p (sp @ sg @ ds @ te)" and p: "p \<noteq> NULL" and sp: "\<forall>c\<in>set sp. c = 32" and te: "\<forall>c\<in>set te. c = 32"
    and ds: "\<forall>d\<in>set ds. is_digit d" and sg: "sg = [] \<or> sg = [43] \<or> sg = [45]" and ne: "sg @ ds \<noteq> [] \<or> te = []"
  shows "atoi p m = Some (let v = fold add_digit ds 0 in if sg = [45] then v else i32 (- v))"
proof -
  have nd: "\<not> is_space d \<and> d \<noteq> 43 \<and> d \<noteq> 45" if "is_digit d" for d
    using that by (auto simp: is_digit_def is_space_def)
  have hd_rest: "sg @ ds @ te = [] \<or> \<not> is_space (hd (sg @ ds @ te))"
    using sg ne ds nd by (cases ds) (auto simp: is_space_def)
  have s1: "skip_space p m = Some (p + length sp)"
    using skip_space_cstr [OF c _ hd_rest] sp by (simp add: is_space_def)
  have c1: "cstr m (p + length sp) (sg @ ds @ te)" using c by (simp add: cstr_append)
  then have c2: "cstr m (p + length sp + length sg) (ds @ te)" by (simp add: cstr_append)
  have te_hd: "te = [] \<or> \<not> is_digit (hd te)" using te by (cases te) (auto simp: is_digit_def)
  have dl: "digits_loop (p + length sp + length sg) 0 m = Some (fold add_digit ds 0)"
    using digits_loop_cstr [OF c2 ds te_hd, of 0] .
  have "m (p + length sp) \<noteq> 43 \<and> m (p + length sp) \<noteq> 45" if "sg = []"
    using that c1 nd ds ne te by (cases ds; cases te) auto
  then show ?thesis using s1 c1 dl p sg by (elim disjE) (auto simp: atoi_def Let_def)
qed

lemma int_body_d:
  assumes "\<not> fl_group (c_flags c)"
  shows "\<exists>k. int_body v base_d c = replicate k 48 @ rev (digit_list False base_d v 0)"
  using assms by (auto simp: int_body_def zeros_loop_eq base_d_def)

lemma int_text_read:
  assumes g: "\<not> fl_group (c_flags c)" and x: "in_i32 x" and p: "p \<noteq> NULL"
    and c: "cstr m p (int_text (nat \<bar>x\<bar>) True (x < 0) base_d c)"
  shows "atoi p m = Some x"
proof -
  let ?f = "c_flags c" and ?sign = "sign_char (c_flags c) True (x < 0)"
  obtain k where body: "int_body (nat \<bar>x\<bar>) base_d c = replicate k 48 @ rev (digit_list False base_d (nat \<bar>x\<bar>) 0)"
    using int_body_d [OF g] by blast
  define pad where "pad = nat (i32 (c_width c - int (length (int_body (nat \<bar>x\<bar>) base_d c)) - 0 - (if ?sign \<noteq> 0 then 1 else 0)))"
  have "ib_x base_d = 0" by (simp add: base_d_def)
  then have t: "int_text (nat \<bar>x\<bar>) True (x < 0) base_d c =
      (if \<not> fl_minus ?f \<and> \<not> fl_zero ?f then replicate pad 32 else []) @ (if ?sign \<noteq> 0 then [?sign] else []) @
      (if fl_zero ?f then replicate pad 48 else []) @ int_body (nat \<bar>x\<bar>) base_d c @ (if fl_minus ?f then replicate pad 32 else [])"
    by (simp add: int_text_def Let_def pad_def)
  define sp :: "byte list" where "sp = (if \<not> fl_minus ?f \<and> \<not> fl_zero ?f then replicate pad 32 else []) @ (if ?sign = 32 then [32] else [])"
  define sg where "sg = (if ?sign = 43 \<or> ?sign = 45 then [?sign] else [])"
  define ds where "ds = (if fl_zero ?f then replicate pad 48 else []) @ replicate k 48 @ rev (digit_list False base_d (nat \<bar>x\<bar>) 0)"
  define te :: "byte list" where "te = (if fl_minus ?f then replicate pad 32 else [])"
  have sgn: "?sign = 0 \<or> ?sign = 32 \<or> ?sign = 43 \<or> ?sign = 45" by (simp add: sign_char_def)
  have txeq: "int_text (nat \<bar>x\<bar>) True (x < 0) base_d c = sp @ sg @ ds @ te"
    using sgn unfolding t body sp_def sg_def ds_def te_def by (elim disjE) simp_all
  have sp: "\<forall>c\<in>set sp. c = 32" and te: "\<forall>c\<in>set te. c = 32" by (auto simp: sp_def te_def split: if_splits)
  have sg: "sg = [] \<or> sg = [43] \<or> sg = [45]" "sg = [45] \<longleftrightarrow> x < 0" by (auto simp: sg_def sign_char_def)
  have z: "is_digit 48" by (simp add: is_digit_def)
  have ds: "\<forall>d\<in>set ds. is_digit d" using digit_list_digits z by (auto simp: ds_def split: if_splits)
  have le: "nat \<bar>x\<bar> \<le> 2 ^ 31" using x by (auto simp: in_i32_def nat_le_iff)
  have "fold add_digit (if fl_zero ?f then replicate pad 48 else []) 0 = 0" by (cases "fl_zero ?f") (simp_all only: fold_zeros if_True if_False fold_simps)
  then have "fold add_digit ds 0 = - int (nat \<bar>x\<bar>)"
    unfolding ds_def by (simp only: fold_append comp_apply fold_zeros fold_digits [OF le])
  then have val: "fold add_digit ds 0 = - \<bar>x\<bar>" by simp
  show ?thesis
  proof (cases "sg @ ds = []")
    case True
    then have "cstr m p ((sp @ te) @ [] @ [] @ [])" using c txeq by simp
    moreover have "\<forall>c\<in>set (sp @ te). c = 32" using sp te by auto
    ultimately have "atoi p m = Some (i32 0)" using atoi_parts [of m p "sp @ te" "[]" "[]" "[]"] p by simp
    moreover have "x = 0" using val True by simp
    ultimately show ?thesis by simp
  next
    case False
    then have "atoi p m = Some (let v = - \<bar>x\<bar> in if sg = [45] then v else i32 (- v))"
      using atoi_parts [OF _ p sp te ds sg(1), of m] c txeq val by simp
    then show ?thesis using sg(2) x i32_id by (cases "x < 0") (simp_all add: Let_def)
  qed
qed

text \<open>
  C39. What \<open>%d\<close> prints, \<open>atoi\<close> reads back: for every 32-bit argument and every combination of the
  flags (but the one for commas), width and precision, the conversion takes its argument, and
  wherever its text stands as a string \<open>atoi\<close> returns the number printed.
\<close>

theorem printf_int_roundtrip:
  assumes "\<not> fl_group (c_flags c)" and "c_type c = INT'"
  shows "\<exists>bs. do_conversion 100 c [w] (\<lambda>ch bs. bs @ [ch]) m [] = Some ([], bs) \<and>
    (\<forall>p m'. p \<noteq> NULL \<longrightarrow> cstr m' p bs \<longrightarrow> atoi p m' = Some (sint w))"
proof -
  have w: "in_i32 (sint w)" using sint_greater_eq [of w] sint_less [of w] by (simp add: in_i32_def)
  have n: "(if sint w < 0 then - sint w else sint w) = \<bar>sint w\<bar>" by simp
  have "nat \<bar>sint w\<bar> < 2 ^ 64" using w by (auto simp: in_i32_def nat_less_iff)
  then have "do_conversion 100 c [w] (\<lambda>ch bs. bs @ [ch]) m [] = Some ([], int_text (nat \<bar>sint w\<bar>) True (sint w < 0) base_d c)"
    using assms(2) unfolding do_conversion_def n [symmetric] by (simp add: format_integer_text known_base_def fold_snoc)
  then show ?thesis using int_text_read [OF assms(1) w] by blast
qed

lemma printf_int_roundtrip_witness:
  "do_conversion 100 \<lparr>c_flags = no_flags\<lparr>fl_zero := True\<rparr>, c_width = 6, c_precision = -1, c_type = INT'\<rparr> [- 42]
      (\<lambda>ch bs. bs @ [ch]) (\<lambda>_. 0) [] = Some ([], [45, 48, 48, 48, 52, 50]) \<and>
    atoi 1 ((\<lambda>_. 0)(1 := 45, 2 := 48, 3 := 48, 4 := 48, 5 := 52, 6 := 50)) = Some (- 42)"
proof -
  let ?c = "\<lparr>c_flags = no_flags\<lparr>fl_zero := True\<rparr>, c_width = 6, c_precision = -1, c_type = INT'\<rparr>"
  have run: "do_conversion 100 ?c [- 42] (\<lambda>ch bs. bs @ [ch]) (\<lambda>_. 0) [] = Some ([], [45, 48, 48, 48, 52, 50])" by code_simp
  have c: "\<not> fl_group (c_flags ?c)" "c_type ?c = INT'" by (simp_all add: no_flags_def)
  from printf_int_roundtrip [OF c, of "- 42" "\<lambda>_. 0"] run
  have read: "\<forall>p m'. p \<noteq> NULL \<longrightarrow> cstr m' p [45, 48, 48, 48, 52, 50] \<longrightarrow> atoi p m' = Some (sint (- 42 :: 32 word))"
    by (elim exE conjE) (simp only: option.inject prod.inject)
  have "cstr ((\<lambda>_. 0)(1 := 45, 2 := 48, 3 := 48, 4 := 48, 5 := 52, 6 := 50)) 1 [45, 48, 48, 48, 52, 50]" by simp
  then show ?thesis using read run by (simp add: NULL_def)
qed

lemma vsnprintf_correct_witness:
  "\<exists>m'. vsnprintf 100 4 1 [- 42] ((\<lambda>_. 7)(1 := 37, 2 := 54, 3 := 100, 4 := 33, 5 := 0)) = Some (7, m') \<and>
    map m' [99, 100, 101, 102, 103, 104] = [7, 32, 32, 32, 0, 7]"
proof -
  let ?m = "(\<lambda>_. 7 :: byte)(1 := 37, 2 := 54, 3 := 100, 4 := 33, 5 := 0)"
  have "vprintf_to 1 [- 42] (\<lambda>ch bs. bs @ [ch]) ?m [] = Some [32, 32, 32, 45, 52, 50, 33]" by code_simp
  from vsnprintf_correct [OF this, of 4 100] show ?thesis by simp
qed

section \<open>Formats and their arguments\<close>

text \<open>
  The formats that \<open>printf\<close> understands, as a grammar: literal characters, \<open>%%\<close>, and conversions
  with flags, a width, a precision, a type and one of the characters \<open>diouxXcsp\<close>.
\<close>

datatype fmt_number = Absent | Digits "byte list" | Star

datatype fmt_item = Literal byte | Percent | Conv "byte list" fmt_number fmt_number conv_type byte

fun number_string :: "fmt_number \<Rightarrow> byte list" where
  "number_string Absent = []"
| "number_string (Digits ds) = ds"
| "number_string Star = [42]"

fun type_string :: "conv_type \<Rightarrow> byte list" where
  "type_string CHAR' = [104, 104]"
| "type_string SHORT = [104]"
| "type_string INT' = []"
| "type_string INTMAX = [106]"
| "type_string LONG = [108]"
| "type_string LONGLONG = [108, 108]"
| "type_string PTRDIFFT = [116]"
| "type_string SIZET = [122]"

definition precision_string :: "fmt_number \<Rightarrow> byte list" where
  "precision_string n = (if n = Absent then [] else 46 # number_string n)"

fun item_string :: "fmt_item \<Rightarrow> byte list" where
  "item_string (Literal ch) = [ch]"
| "item_string Percent = [37, 37]"
| "item_string (Conv fs w p t ch) = 37 # fs @ number_string w @ precision_string p @ type_string t @ [ch]"

fun number_ok :: "fmt_number \<Rightarrow> bool" where
  "number_ok (Digits ds) = (\<forall>d\<in>set ds. is_digit d)"
| "number_ok _ = True"

fun item_ok :: "fmt_item \<Rightarrow> bool" where
  "item_ok (Literal ch) = (ch \<noteq> 0 \<and> ch \<noteq> 37)"
| "item_ok Percent = True"
| "item_ok (Conv fs w p t ch) = ((\<forall>f\<in>set fs. set_flag f \<noteq> None) \<and> number_ok w \<and> number_ok p \<and>
     (case w of Digits (d # ds) \<Rightarrow> d \<noteq> 48 | Digits [] \<Rightarrow> False | _ \<Rightarrow> True) \<and> ch \<in> set (ascii ''diouxXcsp''))"

text \<open>How many words of arguments an item takes.\<close>

definition number_words :: "fmt_number \<Rightarrow> nat" where "number_words n = (if n = Star then 1 else 0)"

fun item_words :: "fmt_item \<Rightarrow> nat" where
  "item_words (Conv fs w p t ch) = number_words w + number_words p +
     (if ch \<in> set (ascii ''diouxX'') \<and> (t = INTMAX \<or> t = LONGLONG) then 2 else 1)"
| "item_words _ = 0"

lemma flags_loop_parsed:
  "cstr m p (fs @ rest) \<Longrightarrow> \<forall>f\<in>set fs. set_flag f \<noteq> None \<Longrightarrow> set_flag (case rest of [] \<Rightarrow> 0 | c # _ \<Rightarrow> c) = None \<Longrightarrow>
    \<exists>f'. flags_loop p f m = Some (p + length fs, f')"
proof (induction fs arbitrary: p f)
  case Nil
  then have "set_flag (m p) = None" by (cases rest) simp_all
  then show ?case by (subst flags_loop.simps) simp
next
  case (Cons x fs)
  then obtain g where "set_flag x = Some g" by auto
  moreover obtain f' where "flags_loop (p + 1) (g f) m = Some (p + 1 + length fs, f')"
    using Cons.IH [of "p + 1" "g f"] Cons.prems by auto
  ultimately show ?case using Cons.prems(1) by (subst flags_loop.simps) simp
qed

lemma number_loop_parsed:
  "cstr m p (ds @ rest) \<Longrightarrow> \<forall>d\<in>set ds. is_digit d \<Longrightarrow> \<not> is_digit (case rest of [] \<Rightarrow> 0 | c # _ \<Rightarrow> c) \<Longrightarrow>
    \<exists>n'. number_loop p n m = Some (p + length ds, n')"
proof (induction ds arbitrary: p n)
  case Nil
  then have "\<not> is_digit (m p)" by (cases rest) simp_all
  then show ?case by (subst number_loop.simps) simp
next
  case (Cons d ds)
  then obtain n' where "number_loop (p + 1) (i32 (n * 10 + uint d - 48)) m = Some (p + 1 + length ds, n')" by fastforce
  then show ?case using Cons.prems by (subst number_loop.simps) simp
qed

definition conv_char :: "byte \<Rightarrow> bool" where "conv_char ch \<longleftrightarrow> ch \<in> {100, 105, 111, 117, 120, 88, 99, 115, 112}"

lemma conv_char_ascii: "ch \<in> set (ascii ''diouxXcsp'') \<longleftrightarrow> conv_char ch" "ch \<in> set (ascii ''diouxX'') \<longleftrightarrow> ch \<in> {100, 105, 111, 117, 120, 88}"
  by (auto simp: ascii_def conv_char_def)

lemma type_step:
  assumes "cstr m p (type_string t @ ch # rest)" and "conv_char ch"
  shows "parse_type p m = (t, p + length (type_string t))"
  using assms by (cases t) (auto simp: parse_type_def conv_char_def)

text \<open>The character with which the part after a number begins.\<close>

lemma type_head: "conv_char ch \<Longrightarrow> cstr m p (type_string t @ ch # rest) \<Longrightarrow> m p \<noteq> 46 \<and> m p \<noteq> 42 \<and> \<not> is_digit (m p) \<and> set_flag (m p) = None"
  by (cases t) (auto simp: conv_char_def is_digit_def set_flag_def)

lemma precision_head:
  "conv_char ch \<Longrightarrow> cstr m p (precision_string q @ type_string t @ ch # rest) \<Longrightarrow> m p \<noteq> 42 \<and> \<not> is_digit (m p) \<and> set_flag (m p) = None"
  using type_head [of ch m p t rest] by (cases "q = Absent") (simp_all add: precision_string_def is_digit_def set_flag_def)

lemma number_parsed:
  assumes "cstr m p (ds @ rest)" and "\<forall>d\<in>set ds. is_digit d" and "\<not> is_digit (m (p + length ds))"
  shows "\<exists>n'. number_loop p n m = Some (p + length ds, n')"
proof -
  have "cstr m (p + length ds) rest" using assms(1) by (simp add: cstr_append)
  then have "\<not> is_digit (case rest of [] \<Rightarrow> 0 | c # _ \<Rightarrow> c)" using assms(3) by (cases rest) (simp_all add: is_digit_def)
  then show ?thesis by (rule number_loop_parsed [OF assms(1,2)])
qed

lemma width_step:
  assumes c: "cstr m p (number_string w @ B)" and w: "number_ok w" and B: "m (p + length (number_string w)) \<noteq> 42" "\<not> is_digit (m (p + length (number_string w)))"
    and args: "number_words w \<le> length args"
  shows "\<exists>n. (if m p = 42 then do { (w, args) \<leftarrow> arg32 args; Some (p + 1, sint w, args) }
        else do { (format, n) \<leftarrow> number_loop p 0 m; Some (format, n, args) }) =
      Some (p + length (number_string w), n, drop (number_words w) args)"
proof (cases w)
  case Absent
  then obtain n where "number_loop p 0 m = Some (p, n)" using number_parsed [of m p "[]" B] B c by auto
  then show ?thesis using Absent B by (simp add: number_words_def)
next
  case (Digits ds)
  then obtain n where "number_loop p 0 m = Some (p + length ds, n)" using number_parsed [of m p ds B] B c w by auto
  moreover have "m p \<noteq> 42" using c w B Digits by (cases ds) (auto simp: is_digit_def)
  ultimately show ?thesis using Digits by (simp add: number_words_def)
next
  case Star
  then show ?thesis using c args by (cases args) (simp_all add: number_words_def)
qed

lemma precision_step:
  assumes c: "cstr m p (precision_string q @ C)" and q: "number_ok q"
    and C: "m (p + length (precision_string q)) \<noteq> 46" "m (p + length (precision_string q)) \<noteq> 42" "\<not> is_digit (m (p + length (precision_string q)))"
    and args: "number_words q \<le> length args"
  shows "\<exists>n. (if m p = 46 then do {
          (format, n, args) \<leftarrow>
            (if m (p + 1) = 42 then do { (w, args) \<leftarrow> arg32 args; Some (p + 2, sint w, args) }
             else do { (format, n) \<leftarrow> number_loop (p + 1) 0 m; Some (format, n, args) });
          Some (format, if n < 0 then -1 else n, args) }
        else Some (p, -1, args)) =
      Some (p + length (precision_string q), n, drop (number_words q) args)"
proof (cases "q = Absent")
  case True
  then show ?thesis using C by (simp add: precision_string_def number_words_def)
next
  case False
  then have ps: "precision_string q = 46 # number_string q" by (simp add: precision_string_def)
  have c1: "cstr m (p + 1) (number_string q @ C)" "m p = 46" using c unfolding ps by simp_all
  have "m (p + 1 + length (number_string q)) \<noteq> 42" "\<not> is_digit (m (p + 1 + length (number_string q)))" using C unfolding ps by simp_all
  from width_step [OF c1(1) q this args] obtain n where
    n: "(if m (p + 1) = 42 then do { (w, args) \<leftarrow> arg32 args; Some (p + 1 + 1, sint w, args) }
        else do { (format, n) \<leftarrow> number_loop (p + 1) 0 m; Some (format, n, args) }) =
      Some (p + 1 + length (number_string q), n, drop (number_words q) args)" by blast
  have e: "p + 2 = p + 1 + 1" "p + length (precision_string q) = p + 1 + length (number_string q)" unfolding ps by simp_all
  show ?thesis unfolding e
    by (rule exI [of _ "if n < 0 then -1 else n"]) (simp only: c1(2) n bind.bind_lunit prod.case, simp)
qed

lemma parse_conversion_ok:
  assumes c: "cstr m p (fs @ number_string w @ precision_string q @ type_string t @ ch # rest)"
    and ok: "item_ok (Conv fs w q t ch)" and args: "number_words w + number_words q \<le> length args"
  shows "\<exists>c. parse_conversion p args m = Some (p + length (fs @ number_string w @ precision_string q @ type_string t), c,
    drop (number_words w + number_words q) args) \<and> c_type c = t"
proof -
  let ?p1 = "p + length fs"
  let ?p2 = "?p1 + length (number_string w)"
  let ?p3 = "?p2 + length (precision_string q)"
  have ch: "conv_char ch" using ok conv_char_ascii(1) by simp
  have c1: "cstr m ?p1 (number_string w @ precision_string q @ type_string t @ ch # rest)" using c by (simp add: cstr_append)
  then have c2: "cstr m ?p2 (precision_string q @ type_string t @ ch # rest)" by (simp add: cstr_append)
  then have c3: "cstr m ?p3 (type_string t @ ch # rest)" by (simp add: cstr_append)
  note h2 = precision_head [OF ch c2] and h3 = type_head [OF ch c3]
  have h1: "set_flag (m ?p1) = None"
  proof (cases w)
    case (Digits ds)
    then obtain d ds' where "ds = d # ds'" "d \<noteq> 48" "is_digit d" using ok by (cases ds) auto
    then have "m ?p1 = d" "is_digit d" "d \<noteq> 48" using c1 Digits by simp_all
    then show ?thesis by (auto simp: set_flag_def is_digit_def)
  qed (use c1 h2 in \<open>simp_all add: set_flag_def\<close>)
  obtain f where f: "flags_loop p no_flags m = Some (?p1, f)"
  proof -
    let ?R = "number_string w @ precision_string q @ type_string t @ ch # rest"
    have "set_flag (case ?R of [] \<Rightarrow> 0 | c # _ \<Rightarrow> c) = None" using h1 c1 by (cases ?R) auto
    then show thesis using flags_loop_parsed [OF c, of no_flags] ok that by auto
  qed
  have ok': "number_ok w" "number_ok q" using ok by simp_all
  have "number_words w \<le> length args" using args by simp
  from width_step [OF c1 ok'(1) _ _ this] h2 obtain n where
    n: "(if m ?p1 = 42 then do { (w, args) \<leftarrow> arg32 args; Some (?p1 + 1, sint w, args) }
        else do { (format, n) \<leftarrow> number_loop ?p1 0 m; Some (format, n, args) }) = Some (?p2, n, drop (number_words w) args)" by blast
  have "number_words q \<le> length (drop (number_words w) args)" using args by simp
  from precision_step [OF c2 ok'(2) _ _ _ this] h3 obtain k where
    k: "(if m ?p2 = 46 then do {
          (format, n, args) \<leftarrow>
            (if m (?p2 + 1) = 42 then do { (w, args) \<leftarrow> arg32 (drop (number_words w) args); Some (?p2 + 2, sint w, args) }
             else do { (format, n) \<leftarrow> number_loop (?p2 + 1) 0 m; Some (format, n, drop (number_words w) args) });
          Some (format, if n < 0 then -1 else n, args) }
        else Some (?p2, -1, drop (number_words w) args)) = Some (?p3, k, drop (number_words q) (drop (number_words w) args))" by blast
  have t: "parse_type ?p3 m = (t, ?p3 + length (type_string t))" by (rule type_step [OF c3 ch])
  define f1 where "f1 = (if fl_minus f then f\<lparr>fl_zero := False\<rparr> else f)"
  define f2 where "f2 = (if fl_plus f1 then f1\<lparr>fl_space := False\<rparr> else f1)"
  obtain wd f3 where wf: "(if n < 0 then (i32 (- n), f2\<lparr>fl_minus := True\<rparr>) else (n, f2)) = (wd, f3)" by fastforce
  have "parse_conversion p args m = Some (?p3 + length (type_string t), \<lparr>c_flags = (if k \<ge> 0 then f3\<lparr>fl_zero := False\<rparr> else f3),
      c_width = wd, c_precision = k, c_type = t\<rparr>, drop (number_words q) (drop (number_words w) args))"
    unfolding parse_conversion_def f bind.bind_lunit prod.case Let_def n f1_def [symmetric] f2_def [symmetric] wf k t ..
  then show ?thesis by (auto simp: add_ac)
qed

lemma conv_no_percent: "item_ok (Conv fs w q t ch) \<Longrightarrow> 37 \<notin> set (fs @ number_string w @ precision_string q @ type_string t @ [ch])"
proof -
  assume ok: "item_ok (Conv fs w q t ch)"
  have n: "37 \<notin> set (number_string x)" if "number_ok x" for x using that by (cases x) (auto simp: is_digit_def)
  have "37 \<notin> set fs" using ok by (auto simp: set_flag_def)
  moreover have "37 \<notin> set (type_string t)" by (cases t) simp_all
  moreover have "ch \<noteq> 37" using ok conv_char_ascii(1) by (auto simp: conv_char_def)
  ultimately show ?thesis using ok n by (auto simp: precision_string_def)
qed

lemma arg_Some:
  "0 < length args \<Longrightarrow> \<exists>w. arg32 args = Some (w, drop 1 args)" "1 < length args \<Longrightarrow> \<exists>w. arg64 args = Some (w, drop 2 args)"
  by (cases args; simp; fail) (cases args rule: arg64.cases; simp)

lemma int_arg_Some:
  assumes "(if t = INTMAX \<or> t = LONGLONG then 2 else 1) \<le> length args"
  shows "\<exists>v. signed_arg t args = Some (v, drop (if t = INTMAX \<or> t = LONGLONG then 2 else 1) args)"
    "\<exists>v. unsigned_arg t args = Some (v, drop (if t = INTMAX \<or> t = LONGLONG then 2 else 1) args)"
proof -
  have "(\<exists>v. signed_arg t args = Some (v, drop (if t = INTMAX \<or> t = LONGLONG then 2 else 1) args)) \<and>
    (\<exists>v. unsigned_arg t args = Some (v, drop (if t = INTMAX \<or> t = LONGLONG then 2 else 1) args))"
  proof (cases "t = INTMAX \<or> t = LONGLONG")
    case True
    then obtain w where "arg64 args = Some (w, drop 2 args)" using assms arg_Some(2) [of args] by auto
    then show ?thesis using True by (elim disjE) simp_all
  next
    case False
    then obtain w where "arg32 args = Some (w, drop 1 args)" using assms by (cases args) auto
    then show ?thesis using False by (cases t) (simp_all add: Let_def)
  qed
  then show "\<exists>v. signed_arg t args = Some (v, drop (if t = INTMAX \<or> t = LONGLONG then 2 else 1) args)"
    "\<exists>v. unsigned_arg t args = Some (v, drop (if t = INTMAX \<or> t = LONGLONG then 2 else 1) args)" by blast+
qed

lemma conv_text_Some:
  assumes "conv_char ch" and n: "n = (if ch \<in> set (ascii ''diouxX'') \<and> (c_type c = INTMAX \<or> c_type c = LONGLONG) then 2 else 1)"
    and "n \<le> length args"
  shows "\<exists>bs. conv_text ch c args m = Some (drop n args, bs)"
proof -
  have k: "known_base base_d" "known_base base_o" "known_base base_x" "known_base base_X" by (simp_all add: known_base_def)
  consider "ch = 100 \<or> ch = 105" | "ch = 111 \<or> ch = 117 \<or> ch = 120 \<or> ch = 88" | "ch = 99" | "ch = 115" | "ch = 112"
    using assms(1) unfolding conv_char_def by blast
  then show ?thesis
  proof cases
    case 1
    then have n': "n = (if c_type c = INTMAX \<or> c_type c = LONGLONG then 2 else 1)" unfolding n conv_char_ascii(2) by auto
    obtain v where v: "signed_arg (c_type c) args = Some (v, drop n args)" using int_arg_Some(1) assms(3) unfolding n' by blast
    have "nat (if v < 0 then - v else v) < 2 ^ 64" using signed_arg_bound [OF v] by (simp add: nat_less_iff abs_if)
    then show ?thesis using 1 v unfolding conv_text_def do_conversion_def by (simp add: format_integer_text [OF k(1)] fold_snoc)
  next
    case 2
    then have n': "n = (if c_type c = INTMAX \<or> c_type c = LONGLONG then 2 else 1)" unfolding n conv_char_ascii(2) by auto
    obtain v where v: "unsigned_arg (c_type c) args = Some (v, drop n args)" using int_arg_Some(2) assms(3) unfolding n' by blast
    then show ?thesis using 2 unsigned_arg_bound [OF v] unfolding conv_text_def do_conversion_def
      by (elim disjE) (simp_all add: format_integer_text k fold_snoc)
  next
    case 3
    then show ?thesis using assms(3) n conv_char_ascii(2) by (cases args) (simp_all add: conv_text_def do_conversion_def)
  next
    case 4
    then show ?thesis using assms(3) n conv_char_ascii(2) by (cases args) (simp_all add: conv_text_def do_conversion_def Let_def)
  next
    case 5
    then have "n = 1" using n conv_char_ascii(2) by simp
    then obtain w where w: "arg32 args = Some (w, drop n args)" using assms(3) by (cases args) auto
    have "unat w < 2 ^ 64" by (rule unat_bound) simp
    then show ?thesis using 5 w by (simp add: conv_text_def do_conversion_def format_integer_text [OF k(3)] fold_snoc)
  qed
qed

lemma printf_items:
  "cstr m p (concat (map item_string items)) \<Longrightarrow> \<forall>i\<in>set items. item_ok i \<Longrightarrow> sum_list (map item_words items) \<le> length args \<Longrightarrow>
    \<exists>bs. vprintf_text p args m = Some bs"
proof (induction items arbitrary: p args)
  case Nil
  then show ?case by (subst vprintf_text.simps) simp
next
  case (Cons i items)
  show ?case
  proof (cases i)
    case (Literal ch)
    then obtain bs where "vprintf_text (p + 1) args m = Some bs" using Cons.IH [of "p + 1" args] Cons.prems by auto
    then show ?thesis using Cons.prems Literal by (subst vprintf_text.simps) simp
  next
    case Percent
    then obtain bs where "vprintf_text (p + 2) args m = Some bs" using Cons.IH [of "p + 2" args] Cons.prems by auto
    then show ?thesis using Cons.prems Percent by (subst vprintf_text.simps) simp
  next
    case (Conv fs w q t ch)
    let ?S = "fs @ number_string w @ precision_string q @ type_string t"
    let ?e = "p + 1 + length ?S" and ?rest = "concat (map item_string items)"
    have ok: "item_ok (Conv fs w q t ch)" using Cons.prems(2) Conv by simp
    have c: "m p = 37" "cstr m (p + 1) (?S @ ch # ?rest)" using Cons.prems(1) Conv by simp_all
    have "m (p + 1) \<noteq> 37"
    proof -
      have "m (p + 1) \<in> set (?S @ [ch])" using c(2) by (cases ?S) auto
      then show ?thesis using conv_no_percent [OF ok] by auto
    qed
    let ?n = "if ch \<in> set (ascii ''diouxX'') \<and> (t = INTMAX \<or> t = LONGLONG) then 2 else 1"
    have words: "number_words w + number_words q + ?n + sum_list (map item_words items) \<le> length args" using Cons.prems(3) Conv by simp
    have c': "cstr m (p + 1) (fs @ number_string w @ precision_string q @ type_string t @ ch # ?rest)" using c(2) by simp
    have "number_words w + number_words q \<le> length args" using words by linarith
    from parse_conversion_ok [OF c' ok this] obtain cv where
      pc: "parse_conversion (p + 1) args m = Some (?e, cv, drop (number_words w + number_words q) args)" "c_type cv = t" by auto
    have e: "m ?e = ch" "cstr m (?e + 1) ?rest" using c(2) unfolding cstr_append by simp_all
    have "?n \<le> length (drop (number_words w + number_words q) args)" using words unfolding length_drop by linarith
    moreover have "conv_char ch" using ok conv_char_ascii(1) by simp
    moreover have "?n = (if ch \<in> set (ascii ''diouxX'') \<and> (c_type cv = INTMAX \<or> c_type cv = LONGLONG) then 2 else 1)" unfolding pc(2) ..
    ultimately obtain xs where cv: "conv_text ch cv (drop (number_words w + number_words q) args) m =
        Some (drop ?n (drop (number_words w + number_words q) args), xs)"
      using conv_text_Some by blast
    have len: "sum_list (map item_words items) \<le> length (drop ?n (drop (number_words w + number_words q) args))"
      using words unfolding length_drop by linarith
    have "\<forall>i\<in>set items. item_ok i" using Cons.prems(2) by simp
    from Cons.IH [OF e(2) this len] obtain bs where
      bs: "vprintf_text (?e + 1) (drop ?n (drop (number_words w + number_words q) args)) m = Some bs" by blast
    have "vprintf_text p args m = Some (xs @ bs)"
      using c(1) \<open>m (p + 1) \<noteq> 37\<close>
      by (subst vprintf_text.simps) (simp only: pc(1) e(1) cv bs bind.bind_lunit prod.case, simp)
    then show ?thesis by blast
  qed
qed



text \<open>The messages for conversions that are not supported, as printed by the nested calls.\<close>

lemma vprintf_literal:
  "cstr m p (ls @ rest) \<Longrightarrow> 37 \<notin> set ls \<Longrightarrow> vprintf_text p args m = map_option ((@) ls) (vprintf_text (p + length ls) args m)"
proof (induction ls arbitrary: p)
  case (Cons l ls)
  then have "vprintf_text (p + 1) args m = map_option ((@) ls) (vprintf_text (p + 1 + length ls) args m)" by simp
  then show ?case using Cons.prems
    by (subst vprintf_text.simps) (cases "vprintf_text (p + 1 + length ls) args m"; simp)
next
  case Nil
  then show ?case by (cases "vprintf_text p args m") simp_all
qed

lemma no_conversion_text:
  assumes c: "cstr m p (ascii ''<<no %%%c'' @ post)" and post: "37 \<notin> set post"
  shows "vprintf_to p [ucast ch] output m aux = Some (fold output (ascii ''<<no %'' @ [ch] @ post) aux)"
proof -
  have a: "ascii ''<<no %%%c'' = ascii ''<<no '' @ [37, 37, 37, 99]" "37 \<notin> set (ascii ''<<no '')" "ascii ''<<no %'' = ascii ''<<no '' @ [37]"
    by (simp_all add: ascii_def)
  define q where "q = p + length (ascii ''<<no '')"
  have c1: "cstr m q ([37, 37, 37, 99] @ post)" 
    using cstr_append [THEN iffD1, OF c [unfolded a(1) append_assoc]] unfolding q_def by blast
  have "cstr m (q + 4) post" using c1 by (simp add: numeral_eq_Suc)
  moreover have "vprintf_text (q + 4 + length post) [] m = Some []"
    using calculation by (subst vprintf_text.simps) (simp add: cstr_append [of m "q + 4" post "[]", simplified])
  ultimately have post4: "vprintf_text (q + 4) [] m = Some post" using vprintf_literal [of m "q + 4" post "[]" "[]"] post by simp
  have n: "q + 2 + 1 = q + 3" "q + 3 + 1 = q + 4" by simp_all
  have e: "m q = 37" "m (q + 1) = 37" "m (q + 2) = 37" "m (q + 3) = 99" using c1 by (simp_all add: numeral_eq_Suc)
  have p1: "parse_conversion (q + 3) [ucast ch] m = Some (q + 3, \<lparr>c_flags = no_flags, c_width = 0, c_precision = -1, c_type = INT'\<rparr>, [ucast ch])"
  proof -
    have "flags_loop (q + 3) no_flags m = Some (q + 3, no_flags)" by (subst flags_loop.simps) (simp add: e set_flag_def)
    moreover have "number_loop (q + 3) 0 m = Some (q + 3, 0)" by (subst number_loop.simps) (simp add: e is_digit_def)
    ultimately show ?thesis by (simp add: parse_conversion_def e parse_type_def no_flags_def)
  qed
  have u: "(ucast (ucast ch :: 32 word) :: byte) = ch"
    by (rule bit_word_eqI) (auto simp: bit_ucast_iff possible_bit_word)
  have ct: "conv_text 99 \<lparr>c_flags = no_flags, c_width = 0, c_precision = -1, c_type = INT'\<rparr> [ucast ch] m = Some ([], [ch])"
    by (simp add: conv_text_def do_conversion_def format_string_def no_flags_def u)
  have "vprintf_text (q + 2) [ucast ch] m = Some (ch # post)"
    by (subst vprintf_text.simps) (simp only: n e p1 ct post4 bind.bind_lunit prod.case, simp)
  then have "vprintf_text q [ucast ch] m = Some (37 # ch # post)" using e by (subst vprintf_text.simps) simp
  then have "vprintf_text p [ucast ch] m = Some (ascii ''<<no %'' @ [ch] @ post)"
    using vprintf_literal [OF c [unfolded a(1) append_assoc] a(2), of "[ucast ch]"] unfolding q_def [symmetric] a(3) by simp
  then show ?thesis by (simp add: vprintf_to_text)
qed

end
