(* ===== verification/Spec2Isabelle.thy ===== *)
theory Spec2Isabelle
  imports List_Props Fixed_Point Kernel_Props Arithmetic Malloc Fs_Props Hash_Table Random_Gen Syscalls Segment_Load Printf_Props
begin

text \<open>
  A verification development for the Pintos kernel of this repository.

  The repository holds two kernel trees, \<open>Project 1a/src\<close> (threads) and \<open>Project 2/src\<close> (threads and
  user programs). The second contains the first with its scheduler and synchronization code,
  so \<open>Project 2/src\<close> is the tree modelled; all paths below are relative to it.

  Conventions (theory \<open>Pintos_Prelude\<close>). Kernel code that may panic is a function into
  \<^typ>\<open>'a option\<close>: \<^term>\<open>None\<close> is a failed \<open>ASSERT\<close>, a \<open>PANIC\<close>, a trap of the
  processor or an access through a stale pointer. State is passed explicitly, as a record whose
  fields are the variables and structures of the C files. A C \<open>int\<close> is an \<^typ>\<open>int\<close> with
  \<open>i32\<close> or \<open>i64\<close> applied where the code computes one, a \<open>size_t\<close> or \<open>uint32_t\<close> is a \<^typ>\<open>nat\<close>
  with \<open>u32\<close> applied where it may wrap around, or a word. A loop is a recursive function: over
  the number of iterations or the list it walks where the code bounds it, \<open>function\<close> with a
  measure where a quantity shrinks, \<open>partial_function (option)\<close> where it may run forever.

  The parts and their theories.

  \<^item> Kernel lists, \<open>lib/kernel/list.c\<close>. \<open>Kernel_List\<close> is the pointer-level code over a heap of
    \<open>prev\<close> and \<open>next\<close> fields, with the ASSERTs. \<open>List_Refine\<close> relates it to HOL lists
    (\<open>dlist h l xs\<close>) and shows what insertion, removal and splicing do to them; \<open>List_Sort\<close> has
    the contract of a comparison function (locale \<open>weak_order\<close>) and the abstract natural merge
    sort, and \<open>List_Sort_Refine\<close> shows that the pointer code refines it. \<open>List_Props\<close> has the
    properties: sort is a stable sort, ordered insertion keeps order, \<open>list_unique\<close> and
    \<open>list_reverse\<close> do what their comments say, for every well-formed heap. The loops of the
    sort are \<open>partial_function\<close>s and the properties say that they return.

  \<^item> Scheduler and synchronization, \<open>threads/thread.c\<close>, \<open>threads/synch.c\<close>, \<open>devices/timer.c\<close>
    and the flag and context of \<open>threads/interrupt.c\<close>. \<open>Kernel_State\<close> has the record of the
    kernel (threads, ready list, all list, semaphores, locks, conditions, the interrupt flag,
    the tick counter) and the operations on it; \<open>Synch_Ops\<close> semaphores, locks with priority
    donation, condition variables and thread creation; \<open>Timer_Ops\<close> sleeping, the advanced
    scheduler and the timer interrupt. A call that blocks stops at the context switch, and what
    is left of it is a frame on the thread's stack. \<open>Kernel_Machine\<close> turns this into a
    transition system: a step is one run of kernel code between two context switches, and the
    timer may interrupt any thread that runs with interrupts on. \<open>Kernel_Inv\<close>,
    \<open>Kernel_Preserve\<close>, \<open>Kernel_Calls\<close> and \<open>Kernel_Tick\<close> have the invariant and its preservation,
    \<open>Kernel_Safety\<close> the theorems on reachable states, \<open>Kernel_Boot\<close> the state after boot (by
    evaluation) and concrete reachable states, \<open>Kernel_Props\<close> the properties: no step of a
    reachable state panics (but for the sort in \<open>cond_signal\<close>), the lists hold the threads they
    should, locks exclude, wake-ups pick the highest priority, donation reaches the holders
    down a chain of locks, the timer wakes every due sleeper, and the arithmetic of the advanced
    scheduler stays in range.

  \<^item> \<open>Fixed_Point\<close>: \<open>threads/fixed-point.h\<close>, with round trips and error bounds. \<open>Arithmetic\<close>:
    \<open>lib/arithmetic.c\<close>, the 64-bit division built from a 64-by-32-bit one, against \<open>div\<close> and \<open>mod\<close>.

  \<^item> Memory. \<open>Vaddr\<close>: \<open>threads/vaddr.h\<close> and \<open>threads/pte.h\<close>. \<open>Bitmap\<close>: \<open>lib/kernel/bitmap.c\<close>.
    \<open>Palloc\<close>: \<open>threads/palloc.c\<close>, pages of two pools over a map from addresses to bytes.
    \<open>Malloc\<close>: \<open>threads/malloc.c\<close>, with the invariant that live blocks lie in arenas, disjoint
    from each other and from the free blocks. \<open>Pagedir\<close>: \<open>userprog/pagedir.c\<close>, two-level page
    tables in that memory, refining a map from user pages to kernel pages.

  \<^item> File system. \<open>Block_Dev\<close>: \<open>devices/block.c\<close>. \<open>Inode_IO\<close>: the state of the file system and the
    transfers of \<open>filesys/inode.c\<close>. \<open>File_Ops\<close>: the rest of \<open>inode.c\<close>, \<open>filesys/file.c\<close>,
    \<open>filesys/free-map.c\<close> and the file operations of the bitmap. \<open>Directory\<close>:
    \<open>filesys/directory.c\<close> and \<open>filesys/filesys.c\<close>. \<open>Fs_Props\<close>: reading returns what was written,
    and a directory refines a finite map from names to sectors.

  \<^item> Library. \<open>String_Ops\<close>: \<open>lib/string.c\<close> on a memory of bytes. \<open>Stdlib_Ops\<close>: \<open>lib/stdlib.c\<close>,
    heap sort, binary search (locale \<open>comparator\<close>) and \<open>atoi\<close>. \<open>Hash_Table\<close>:
    \<open>lib/kernel/hash.c\<close>, refining a set under its equality. \<open>Random_Gen\<close>: \<open>lib/random.c\<close>.
    \<open>Printf\<close>: the formatted printing of \<open>lib/stdio.c\<close>, with the output function and its
    argument as a function on a state; \<open>Printf_Props\<close>: \<open>vsnprintf\<close> keeps to its buffer and is
    the truncation of the full text, a printed \<open>int\<close> reads back with \<open>atoi\<close>, and a format whose
    conversions fit the arguments prints without a fault.

  \<^item> User processes. \<open>Process_Calls\<close>: the child records and the file table of
    \<open>userprog/syscall.c\<close>, \<open>exit\<close>, \<open>wait\<close>, \<open>process_wait\<close>, \<open>process_exit\<close> and the exceptions that
    kill a process, with a transition system of processes in which the scheduler may switch
    between any two calls, and the property that \<open>wait\<close> returns the status its child left.
    \<open>Loader\<close>: the rest of \<open>userprog/process.c\<close>, from \<open>process_execute\<close> to the ELF loader and the
    initial stack; \<open>Stack_Args\<close>: the new program finds its arguments there, read through the page
    table; \<open>Segment_Load\<close>: a segment of the executable appears at its address, zero-filled behind
    its bytes. \<open>Syscalls\<close>: the system call handler and the calls, with the pointer checks: a
    pointer outside the user addresses ends the process and changes nothing else.

  Interaction. The lists of the scheduler are HOL lists: \<open>List_Props\<close> justifies it. \<open>Palloc\<close> and
  \<open>Malloc\<close> use \<open>Bitmap\<close>; \<open>Pagedir\<close> uses \<open>Palloc\<close> and \<open>Vaddr\<close>; the free map is a \<open>Bitmap\<close>
  stored in a file of \<open>File_Ops\<close>; \<open>Process_Calls\<close> runs on the kernel of \<open>Kernel_State\<close>;
  \<open>Loader\<close> works on the memory of \<open>Pagedir\<close> and the file system of \<open>Directory\<close>, and \<open>Syscalls\<close>
  on these and on the process state of \<open>Loader\<close>.

  Fuel and bounds. Donation follows at most 8 locks, as the code does. Loops that
  walk a list or an array recur over it. \<open>pow2_loop\<close> of the hash table, the loops of the list
  sort and those of the string functions are \<open>partial_function\<close>s, with theorems that they return.

  Not modelled. Console output and the formatted printing of \<open>lib/stdio.c\<close>; the drivers of
  \<open>devices\<close> that talk to ports (ide, keyboard, serial, vga, pit, rtc, speaker, shutdown) and the
  start-up of \<open>threads/init.c\<close>, \<open>userprog/gdt.c\<close> and \<open>userprog/tss.c\<close>: their effects are on hardware;
  the assembly files; \<open>fsutil.c\<close> and \<open>ustar.c\<close>; the test programs and the user-side library.
  Translation look-aside buffers and the memory model of the processor leave no trace.
\<close>

end
